(* ===== verification/Prelude.thy ===== *)
theory Prelude
  imports Main "HOL-Library.Word" "HOL-Library.Monad_Syntax"
begin

text \<open>
  The shared part of the development: the reading of C integers and of a failed
  \<^verbatim>\<open>assert\<close>, the generic lemmas on lists, options and sets that several components use,
  the fact collections, and the two generic interfaces (reachable states of a step
  relation, and invariants) that the stateful components instantiate.
\<close>

unbundle bit_operations_syntax

named_theorems blocks_simps \<open>what the bitmap operations do to the set of allocated blocks\<close>
named_theorems inv_intros \<open>operations keep the invariant of their component\<close>

section \<open>C values\<close>

text \<open>
  A C \<^verbatim>\<open>int\<close> has 32 bits. Where a wider value is stored into one, the value is reduced
  to the signed 32-bit range, as the compilers that build the system do.
\<close>

type_synonym byte = "8 word"

definition to_i32 :: "int \<Rightarrow> int" where
  "to_i32 x = (x + 2 ^ 31) mod 2 ^ 32 - 2 ^ 31"

definition to_i64 :: "int \<Rightarrow> int" where
  "to_i64 x = (x + 2 ^ 63) mod 2 ^ 64 - 2 ^ 63"

lemma to_i64_id: "- (2 ^ 63) \<le> x \<Longrightarrow> x < 2 ^ 63 \<Longrightarrow> to_i64 x = x"
  by (simp add: to_i64_def)

lemma to_i32_id: "- (2 ^ 31) \<le> x \<Longrightarrow> x < 2 ^ 31 \<Longrightarrow> to_i32 x = x"
  by (simp add: to_i32_def)

lemma to_i32_range: "- (2 ^ 31) \<le> to_i32 x \<and> to_i32 x < 2 ^ 31"
  by (simp add: to_i32_def)

definition to_u32 :: "int \<Rightarrow> int" where
  "to_u32 x = x mod 2 ^ 32"

lemma to_u32_id: "0 \<le> x \<Longrightarrow> x < 2 ^ 32 \<Longrightarrow> to_u32 x = x"
  by (simp add: to_u32_def)

definition to_u64 :: "int \<Rightarrow> int" where
  "to_u64 x = x mod 2 ^ 64"

lemma to_u64_id: "0 \<le> x \<Longrightarrow> x < 2 ^ 64 \<Longrightarrow> to_u64 x = x"
  by (simp add: to_u64_def)

lemma to_u64_neg: "- (2 ^ 64) \<le> x \<Longrightarrow> x < 0 \<Longrightarrow> to_u64 x = x + 2 ^ 64"
proof -
  assume x: "- (2 ^ 64) \<le> x" "x < 0"
  have "to_u64 x = (x + 2 ^ 64) mod 2 ^ 64" by (simp add: to_u64_def)
  also have "\<dots> = x + 2 ^ 64" by (rule mod_pos_pos_trivial) (use x in auto)
  finally show ?thesis .
qed

text \<open>C's \<^verbatim>\<open>/\<close> and \<^verbatim>\<open>%\<close> truncate towards zero.\<close>

definition c_div :: "int \<Rightarrow> int \<Rightarrow> int" where
  "c_div a b = sgn a * sgn b * (\<bar>a\<bar> div \<bar>b\<bar>)"

definition c_mod :: "int \<Rightarrow> int \<Rightarrow> int" where
  "c_mod a b = a - c_div a b * b"

lemma c_div_pos: "0 \<le> a \<Longrightarrow> 0 < b \<Longrightarrow> c_div a b = a div b"
  by (cases "a = 0") (simp_all add: c_div_def)

lemma c_mod_pos: "0 \<le> a \<Longrightarrow> 0 < b \<Longrightarrow> c_mod a b = a mod b"
  by (simp add: c_mod_def c_div_pos minus_div_mult_eq_mod)

text \<open>
  \<^verbatim>\<open>assert(P)\<close> and the fatal error routines end the process. A definition that can
  reach one of them returns an option: \<^const>\<open>None\<close> is the aborted process.
\<close>

definition c_assert :: "bool \<Rightarrow> unit option" where
  "c_assert P = (if P then Some () else None)"

lemma c_assert_bind [simp]: "Option.bind (c_assert P) f = (if P then f () else None)"
  by (simp add: c_assert_def)

lemma c_assert_Some [simp]: "c_assert P = Some u \<longleftrightarrow> P"
  by (simp add: c_assert_def)

lemma c_assert_None [simp]: "c_assert P = None \<longleftrightarrow> \<not> P"
  by (simp add: c_assert_def)

section \<open>Lists\<close>

lemma sum_list_map_update:
  fixes f :: "'a \<Rightarrow> int"
  assumes "i < length xs"
  shows "sum_list (map f (xs[i := x])) = sum_list (map f xs) - f (xs ! i) + f x"
  using assms
proof (induction xs arbitrary: i)
  case Nil
  then show ?case by simp
next
  case (Cons y ys)
  then show ?case by (cases i) auto
qed

lemma takeWhile_stops: "x \<in> set xs \<Longrightarrow> \<not> P x \<Longrightarrow> length (takeWhile P xs) < length xs"
  by (induction xs) auto

section \<open>Reachable states and invariants\<close>

text \<open>
  A stateful component is a set of initial states and a step relation; a safety property is an
  invariant, shown once for each step and lifted to every reachable state by rule induction.
\<close>

inductive reach :: "('s \<Rightarrow> bool) \<Rightarrow> ('s \<Rightarrow> 's \<Rightarrow> bool) \<Rightarrow> 's \<Rightarrow> bool"
  for init :: "'s \<Rightarrow> bool" and step :: "'s \<Rightarrow> 's \<Rightarrow> bool" where
  reach_init: "init s \<Longrightarrow> reach init step s"
| reach_step: "reach init step s \<Longrightarrow> step s t \<Longrightarrow> reach init step t"

locale invariant_system =
  fixes init :: "'s \<Rightarrow> bool"
    and step :: "'s \<Rightarrow> 's \<Rightarrow> bool"
    and inv :: "'s \<Rightarrow> bool"
  assumes inv_init: "init s \<Longrightarrow> inv s"
    and inv_step: "inv s \<Longrightarrow> step s t \<Longrightarrow> inv t"
begin

lemma reach_inv: "reach init step s \<Longrightarrow> inv s"
  by (induction rule: reach.induct) (auto intro: inv_init inv_step)

lemma reach_steps_inv:
  assumes "inv s" and "step\<^sup>*\<^sup>* s t"
  shows "inv t"
  using assms(2,1) by (induction rule: rtranclp_induct) (auto intro: inv_step)

end

section \<open>Queues of jobs\<close>

text \<open>
  The contract of a queue of jobs whose jobs cover parts of a set of things to do: taking a job from a
  queue that is not empty makes it smaller, and what the job covers together with what is left is what
  there was to do. Then taking jobs until the queue is empty covers everything.
\<close>

fun serve :: "('s \<Rightarrow> ('j \<times> 's) option) \<Rightarrow> nat \<Rightarrow> 's \<Rightarrow> 'j list \<times> 's" where
  "serve take_job 0 s = ([], s)"
| "serve take_job (Suc k) s =
     (case take_job s of None \<Rightarrow> ([], s)
      | Some (j, s') \<Rightarrow> (case serve take_job k s' of (js, s'') \<Rightarrow> (j # js, s'')))"

locale job_queue =
  fixes inv :: "'s \<Rightarrow> bool"
    and todo :: "'s \<Rightarrow> 'a set"
    and load :: "'s \<Rightarrow> nat"
    and take_job :: "'s \<Rightarrow> ('j \<times> 's) option"
    and covers :: "'j \<Rightarrow> 'a set"
  assumes take_None: "inv s \<Longrightarrow> take_job s = None \<Longrightarrow> load s = 0"
    and take_Some: "inv s \<Longrightarrow> take_job s = Some (j, s') \<Longrightarrow>
      inv s' \<and> load s' < load s \<and> todo s = covers j \<union> todo s'"
    and todo_empty: "inv s \<Longrightarrow> load s = 0 \<Longrightarrow> todo s = {}"
begin

lemma serve_all:
  assumes "inv s" and "load s \<le> k" and "serve take_job k s = (js, s')"
  shows "inv s' \<and> load s' = 0 \<and> (\<Union>j \<in> set js. covers j) = todo s \<and> length js \<le> load s"
  using assms
proof (induction k arbitrary: s js s')
  case 0
  then show ?case using todo_empty by simp
next
  case (Suc k)
  show ?case
  proof (cases "take_job s")
    case None
    then show ?thesis using Suc.prems take_None todo_empty by simp
  next
    case (Some r)
    then obtain j s1 where r: "take_job s = Some (j, s1)" by (cases r) simp
    obtain js1 s2 where rec: "serve take_job k s1 = (js1, s2)" by fastforce
    note step = take_Some [OF Suc.prems(1) r]
    with Suc.IH [OF _ _ rec] Suc.prems(2) have "inv s2 \<and> load s2 = 0 \<and>
        (\<Union>j \<in> set js1. covers j) = todo s1 \<and> length js1 \<le> load s1" by simp
    moreover from Suc.prems(3) r rec have "js = j # js1" "s' = s2" by simp_all
    ultimately show ?thesis using step by simp
  qed
qed

end

text \<open>When every job is appended to a history, serving appends all of them.\<close>

lemma serve_appends:
  fixes take_job :: "'s \<Rightarrow> ('b list \<times> 's) option"
  assumes "\<And>s j s'. I s \<Longrightarrow> take_job s = Some (j, s') \<Longrightarrow> I s' \<and> h s' = h s @ j \<and> list_all P j"
    and "I s" and "serve take_job k s = (js, s')"
  shows "h s' = h s @ concat js \<and> list_all P (concat js)"
  using assms(2,3)
proof (induction k arbitrary: s js)
  case 0
  then show ?case by simp
next
  case (Suc k)
  show ?case
  proof (cases "take_job s")
    case None
    then show ?thesis using Suc.prems by simp
  next
    case (Some r)
    then obtain j s1 where r: "take_job s = Some (j, s1)" by (cases r) simp
    obtain js1 s2 where rec: "serve take_job k s1 = (js1, s2)" by fastforce
    have "js = j # js1" "s' = s2" using Suc.prems(2) r rec by simp_all
    then show ?thesis using assms(1) [OF Suc.prems(1) r] Suc.IH [of s1 js1] rec by simp
  qed
qed

end
