(* ===== verification/BlockMap.thy ===== *)
theory BlockMap
  imports Prelude
begin

text \<open>
  The block bitmaps of frisbee (\<^verbatim>\<open>BlockMap_t\<close> of decls.h and the \<^verbatim>\<open>BlockMap*\<close> routines of
  utils.c). A map is the byte array of the C structure; every routine is translated loop by loop,
  with its aggregate cases for whole bytes, and is then shown to be the expected operation on the
  set of block numbers the map stands for.
\<close>

section \<open>Definitions\<close>

text \<open>The sizes of the standard (non-JUMBO) build.\<close>

definition CHAR_BIT :: nat where "CHAR_BIT = 8"

definition MAXCHUNKSIZE :: int where "MAXCHUNKSIZE = 1024"

definition MAXBLOCKSIZE :: int where "MAXBLOCKSIZE = 1024"


type_synonym blockmap = "byte list"

text \<open>The \<^verbatim>\<open>map\<close> array has \<^verbatim>\<open>MAXCHUNKSIZE/CHAR_BIT\<close> bytes.\<close>

definition BlockMap_t :: "blockmap \<Rightarrow> bool" where
  "BlockMap_t m \<longleftrightarrow> length m = nat MAXCHUNKSIZE div CHAR_BIT"

text \<open>The masks \<^verbatim>\<open>1 << off\<close>.\<close>

definition bitmask :: "nat \<Rightarrow> byte" where
  "bitmask off = push_bit off 1"

text \<open>
  The four assertions on a range. The sum of two \<^verbatim>\<open>int\<close> is one, so that it can wrap: the assertions then pass for a
  range that is not in the map, and the loops leave the array.
\<close>

definition range_ok :: "int \<Rightarrow> int \<Rightarrow> bool" where
  "range_ok block count \<longleftrightarrow> block \<ge> 0 \<and> count > 0 \<and> block < MAXCHUNKSIZE
     \<and> to_i32 (block + count) \<le> MAXCHUNKSIZE"

text \<open>The bytes that a loop over a range touches are in the array.\<close>

definition bytes_ok :: "blockmap \<Rightarrow> int \<Rightarrow> int \<Rightarrow> bool" where
  "bytes_ok m block count \<longleftrightarrow> (nat block + nat count - 1) div CHAR_BIT < length m"

function BlockMapAdd_loop :: "blockmap \<Rightarrow> nat \<Rightarrow> nat \<Rightarrow> nat \<Rightarrow> blockmap" where
  "BlockMapAdd_loop m i off count =
     (if count > 0 then
        if off = 0 \<and> count \<ge> CHAR_BIT
        then BlockMapAdd_loop (m[i := NOT 0]) (i + 1) 0 (count - CHAR_BIT)
        else
          let m' = m[i := m ! i OR bitmask off] in
          if off + 1 = CHAR_BIT then BlockMapAdd_loop m' (i + 1) 0 (count - 1)
          else BlockMapAdd_loop m' i (off + 1) (count - 1)
      else m)"
  by pat_completeness auto
termination
  by (relation "measure (\<lambda>(m, i, off, count). count)") (auto simp: CHAR_BIT_def)

definition BlockMapAdd :: "blockmap \<Rightarrow> int \<Rightarrow> int \<Rightarrow> blockmap option" where
  "BlockMapAdd m block count = do {
     c_assert (range_ok block count);
     c_assert (bytes_ok m block count);
     Some (BlockMapAdd_loop m (nat block div CHAR_BIT) (nat block mod CHAR_BIT) (nat count))
   }"

definition BlockMapInit :: "int \<Rightarrow> int \<Rightarrow> blockmap option" where
  "BlockMapInit block count = do {
     c_assert (range_ok block count);
     if count = MAXCHUNKSIZE
     then Some (replicate (nat MAXCHUNKSIZE div CHAR_BIT) (NOT 0))
     else BlockMapAdd (replicate (nat MAXCHUNKSIZE div CHAR_BIT) 0) block count
   }"

function BlockMapClear_loop :: "blockmap \<Rightarrow> nat \<Rightarrow> nat \<Rightarrow> nat \<Rightarrow> blockmap" where
  "BlockMapClear_loop m i off count =
     (if count > 0 then
        if off = 0 \<and> count \<ge> CHAR_BIT
        then BlockMapClear_loop (m[i := 0]) (i + 1) 0 (count - CHAR_BIT)
        else
          let m' = m[i := m ! i AND NOT (bitmask off)] in
          if off + 1 = CHAR_BIT then BlockMapClear_loop m' (i + 1) 0 (count - 1)
          else BlockMapClear_loop m' i (off + 1) (count - 1)
      else m)"
  by pat_completeness auto
termination
  by (relation "measure (\<lambda>(m, i, off, count). count)") (auto simp: CHAR_BIT_def)

definition BlockMapClear :: "blockmap \<Rightarrow> int \<Rightarrow> int \<Rightarrow> blockmap option" where
  "BlockMapClear m block count = do {
     c_assert (range_ok block count);
     c_assert (bytes_ok m block count);
     Some (BlockMapClear_loop m (nat block div CHAR_BIT) (nat block mod CHAR_BIT) (nat count))
   }"

text \<open>\<^verbatim>\<open>BlockMapAlloc\<close> returns the old value of the block with the updated map.\<close>

definition BlockMapAlloc :: "blockmap \<Rightarrow> int \<Rightarrow> (bool \<times> blockmap) option" where
  "BlockMapAlloc m block = do {
     c_assert (block \<ge> 0 \<and> block < MAXCHUNKSIZE);
     let i = nat block div CHAR_BIT; off = nat block mod CHAR_BIT in
     if m ! i AND bitmask off = 0
     then Some (False, m[i := m ! i OR bitmask off])
     else Some (True, m)
   }"

text \<open>The first loop of \<^verbatim>\<open>BlockMapExtract\<close> and \<^verbatim>\<open>BlockMapFirst\<close>: skip leading empty bytes.\<close>

function skip_empty :: "blockmap \<Rightarrow> nat \<Rightarrow> nat" where
  "skip_empty m i = (if i < length m \<and> m ! i = 0 then skip_empty m (i + 1) else i)"
  by pat_completeness auto
termination
  by (relation "measure (\<lambda>(m, i). length m - i)") auto

text \<open>
  The second loop of \<^verbatim>\<open>BlockMapExtract\<close>, at bit \<open>bit\<close> of byte \<open>i\<close>; the early return gives back
  the values collected so far.
\<close>

function BlockMapExtract_loop ::
  "blockmap \<Rightarrow> nat \<Rightarrow> nat \<Rightarrow> nat \<Rightarrow> nat \<Rightarrow> blockmap \<times> nat \<times> nat" where
  "BlockMapExtract_loop m i b block count =
     (if i < length m then
        if b < CHAR_BIT then
          if m ! i AND bitmask b \<noteq> 0
          then BlockMapExtract_loop (m[i := m ! i AND NOT (bitmask b)]) i (b + 1)
                 (if count = 0 then i * CHAR_BIT + b else block) (count + 1)
          else if count > 0 then (m, block, count)
          else if m ! i = 0 then BlockMapExtract_loop m (i + 1) 0 block count
          else BlockMapExtract_loop m i (b + 1) block count
        else BlockMapExtract_loop m (i + 1) 0 block count
      else (m, block, count))"
  by pat_completeness auto
termination
  by (relation "measures [\<lambda>(m, i, b, _). length m - i, \<lambda>(m, i, b, _). CHAR_BIT - b]") auto

text \<open>
  \<^verbatim>\<open>*blockp\<close> is written only when some block is extracted: the result is the new map, the new
  value of \<^verbatim>\<open>*blockp\<close> and the returned count.
\<close>

definition BlockMapExtract :: "blockmap \<Rightarrow> int \<Rightarrow> blockmap \<times> int \<times> int" where
  "BlockMapExtract m blockp =
     (case BlockMapExtract_loop m (skip_empty m 0) 0 0 0 of
        (m', block, count) \<Rightarrow> (m', (if count > 0 then int block else blockp), int count))"

function BlockMapIsAlloc_loop ::
  "blockmap \<Rightarrow> nat \<Rightarrow> nat \<Rightarrow> byte \<Rightarrow> nat \<Rightarrow> nat \<Rightarrow> nat" where
  "BlockMapIsAlloc_loop m i off v count did =
     (if count > 0 then
        let (did', count', off') =
              (if off = 0 \<and> count \<ge> CHAR_BIT \<and> (v = 0 \<or> v = NOT 0)
               then (if v \<noteq> 0 then did + CHAR_BIT else did, count - CHAR_BIT, off + CHAR_BIT)
               else (if v AND bitmask off \<noteq> 0 then did + 1 else did, count - 1, off + 1)) in
        if off' = CHAR_BIT \<and> count' > 0
        then BlockMapIsAlloc_loop m (i + 1) 0 (m ! (i + 1)) count' did'
        else BlockMapIsAlloc_loop m i off' v count' did'
      else did)"
  by pat_completeness auto
termination
  by (relation "measure (\<lambda>(m, i, off, v, count, did). count)")
     (auto simp: CHAR_BIT_def split: if_splits)

definition BlockMapIsAlloc :: "blockmap \<Rightarrow> int \<Rightarrow> int \<Rightarrow> int option" where
  "BlockMapIsAlloc m block count = do {
     c_assert (range_ok block count);
     c_assert (bytes_ok m block count);
     let i = nat block div CHAR_BIT; off = nat block mod CHAR_BIT in
     Some (int (BlockMapIsAlloc_loop m i off (m ! i) (nat count) 0))
   }"

text \<open>\<^verbatim>\<open>BlockMapInvert(oldmap, newmap)\<close>: every byte of the new map is written.\<close>

definition BlockMapInvert :: "blockmap \<Rightarrow> blockmap" where
  "BlockMapInvert oldmap = map (\<lambda>v. NOT v) oldmap"

function BlockMapMerge_byte :: "byte \<Rightarrow> byte \<Rightarrow> nat \<Rightarrow> nat \<Rightarrow> byte \<times> nat" where
  "BlockMapMerge_byte f t b did =
     (if b < CHAR_BIT then
        if f AND bitmask b \<noteq> 0 \<and> t AND bitmask b = 0
        then BlockMapMerge_byte f (t OR bitmask b) (b + 1) (did + 1)
        else BlockMapMerge_byte f t (b + 1) did
      else (t, did))"
  by pat_completeness auto
termination
  by (relation "measure (\<lambda>(f, t, b, did). CHAR_BIT - b)") auto

function BlockMapMerge_loop :: "blockmap \<Rightarrow> blockmap \<Rightarrow> nat \<Rightarrow> nat \<Rightarrow> blockmap \<times> nat" where
  "BlockMapMerge_loop from to i did =
     (if i < length from then
        if from ! i = 0 \<or> to ! i = NOT 0 \<or> from ! i = to ! i
        then BlockMapMerge_loop from to (i + 1) did
        else
          let (t, did') = BlockMapMerge_byte (from ! i) (to ! i) 0 did in
          BlockMapMerge_loop from (to[i := t]) (i + 1) did'
      else (to, did))"
  by pat_completeness auto
termination
  by (relation "measure (\<lambda>(from, to, i, did). length from - i)") auto

definition BlockMapMerge :: "blockmap \<Rightarrow> blockmap \<Rightarrow> blockmap \<times> int" where
  "BlockMapMerge frommap tomap =
     (case BlockMapMerge_loop frommap tomap 0 0 of (t, did) \<Rightarrow> (t, int did))"

function first_bit :: "byte \<Rightarrow> nat \<Rightarrow> nat option" where
  "first_bit v b =
     (if b < CHAR_BIT then if v AND bitmask b \<noteq> 0 then Some b else first_bit v (b + 1)
      else None)"
  by pat_completeness auto
termination
  by (relation "measure (\<lambda>(v, b). CHAR_BIT - b)") auto

definition BlockMapFirst :: "blockmap \<Rightarrow> int" where
  "BlockMapFirst m =
     (let i = skip_empty m 0; block = i * CHAR_BIT in
      if i < length m
      then (case first_bit (m ! i) 0 of Some b \<Rightarrow> int (block + b) | None \<Rightarrow> int block)
      else int block)"

text \<open>
  \<^verbatim>\<open>BlockMapApply\<close> calls \<^verbatim>\<open>func(chunk, block, count, arg)\<close> on every contiguous allocated range
  and stops when it returns non-zero. The function works on a state \<open>'s\<close> (the globals behind
  \<^verbatim>\<open>arg\<close>); \<^const>\<open>None\<close> is the null pointer. The result is the number of blocks processed.
\<close>

type_synonym 's range_fun = "int \<Rightarrow> int \<Rightarrow> int \<Rightarrow> 's \<Rightarrow> bool \<times> 's"

definition call_range :: "'s range_fun option \<Rightarrow> int \<Rightarrow> nat \<Rightarrow> nat \<Rightarrow> 's \<Rightarrow> bool \<times> 's" where
  "call_range func chunk block count s =
     (case func of None \<Rightarrow> (False, s) | Some f \<Rightarrow> f chunk (int block) (int count) s)"

function BlockMapApply_loop ::
  "'s range_fun option \<Rightarrow> int \<Rightarrow> blockmap \<Rightarrow> nat \<Rightarrow> nat \<Rightarrow> byte \<Rightarrow> nat \<Rightarrow> nat \<Rightarrow> nat \<Rightarrow> 's
   \<Rightarrow> nat \<times> 's" where
  "BlockMapApply_loop func chunk m i b v block count did s =
     (if i < length m then
        if b < CHAR_BIT then
          if v AND bitmask b \<noteq> 0
          then BlockMapApply_loop func chunk m i (b + 1) (v AND NOT (bitmask b))
                 (if count = 0 then i * CHAR_BIT + b else block) (count + 1) did s
          else if count > 0 then
            (case call_range func chunk block count s of
               (stop, s') \<Rightarrow>
                 if stop then (did + count, s')
                 else if v = 0
                 then BlockMapApply_loop func chunk m (i + 1) 0 (m ! (i + 1)) block 0
                        (did + count) s'
                 else BlockMapApply_loop func chunk m i (b + 1) v block 0 (did + count) s')
          else if v = 0
          then BlockMapApply_loop func chunk m (i + 1) 0 (m ! (i + 1)) block count did s
          else BlockMapApply_loop func chunk m i (b + 1) v block count did s
        else BlockMapApply_loop func chunk m (i + 1) 0 (m ! (i + 1)) block count did s
      else if count > 0 then
        (case call_range func chunk block count s of (stop, s') \<Rightarrow> (did + count, s'))
      else (did, s))"
  by pat_completeness auto
termination
  by (relation "measures [\<lambda>(func, chunk, m, i, b, _). length m - i,
                          \<lambda>(func, chunk, m, i, b, _). CHAR_BIT - b]") auto

definition BlockMapApply :: "blockmap \<Rightarrow> int \<Rightarrow> 's range_fun option \<Rightarrow> 's \<Rightarrow> int \<times> 's" where
  "BlockMapApply m chunk func s =
     (case BlockMapApply_loop func chunk m 0 0 (m ! 0) 0 0 0 s of (did, s') \<Rightarrow> (int did, s'))"

declare BlockMapAdd_loop.simps [simp del] BlockMapClear_loop.simps [simp del]
  skip_empty.simps [simp del] BlockMapExtract_loop.simps [simp del]
  BlockMapIsAlloc_loop.simps [simp del] BlockMapMerge_byte.simps [simp del]
  BlockMapMerge_loop.simps [simp del] first_bit.simps [simp del]
  BlockMapApply_loop.simps [simp del]

section \<open>The set of blocks of a map\<close>

declare CHAR_BIT_def [simp]

definition blocks :: "blockmap \<Rightarrow> nat set" where
  "blocks m = {b. b < CHAR_BIT * length m \<and> bit (m ! (b div CHAR_BIT)) (b mod CHAR_BIT)}"

lemma BlockMap_t_length: "BlockMap_t m \<longleftrightarrow> length m = 128"
  by (simp add: BlockMap_t_def MAXCHUNKSIZE_def)

lemma finite_blocks [simp]: "finite (blocks m)"
  by (rule finite_subset [of _ "{..<CHAR_BIT * length m}"]) (auto simp: blocks_def)

lemma and_bitmask [simp]: "off < 8 \<Longrightarrow> (v AND bitmask off = (0::byte)) \<longleftrightarrow> \<not> bit v off"
proof -
  assume "off < 8"
  have "bit (v AND bitmask off) off \<longleftrightarrow> bit v off"
    using \<open>off < 8\<close> by (simp add: bitmask_def bit_simps)
  moreover have "\<not> bit v off \<Longrightarrow> v AND bitmask off = 0"
    by (rule bit_word_eqI) (auto simp: bitmask_def bit_simps)
  ultimately show ?thesis by auto
qed

lemma bit_or_mask: "off < 8 \<Longrightarrow> bit ((v::byte) OR bitmask off) k \<longleftrightarrow> bit v k \<or> k = off"
  by (auto simp: bitmask_def bit_simps)

lemma bit_and_not_mask: "k < 8 \<Longrightarrow> bit ((v::byte) AND NOT (bitmask off)) k \<longleftrightarrow> bit v k \<and> k \<noteq> off"
  by (auto simp: bitmask_def bit_simps)

lemma byte_zero_iff: "(v::byte) = 0 \<longleftrightarrow> (\<forall>k<8. \<not> bit v k)"
  by (auto simp: bit_eq_iff)

lemma byte_full_iff: "(v::byte) = NOT 0 \<longleftrightarrow> (\<forall>k<8. bit v k)"
  by (auto simp: bit_eq_iff bit_simps)

lemma blocks_update:
  assumes "i < length m"
  shows "b \<in> blocks (m[i := v]) \<longleftrightarrow>
    (if b div 8 = i then bit v (b mod 8) else b \<in> blocks m)"
proof -
  have "b div 8 = i \<Longrightarrow> b < 8 * length m" using assms by (auto simp: less_mult_imp_div_less)
  then show ?thesis using assms by (auto simp: blocks_def)
qed

lemma in_blocks_byte: "i < length m \<Longrightarrow> k < 8 \<Longrightarrow> i * 8 + k \<in> blocks m \<longleftrightarrow> bit (m ! i) k"
  by (auto simp: blocks_def)

lemma blocks_or_mask:
  assumes "i < length m" and "off < 8"
  shows "blocks (m[i := m ! i OR bitmask off]) = insert (i * 8 + off) (blocks m)"
proof (rule set_eqI)
  fix b :: nat
  have "b = (b div 8) * 8 + b mod 8" by simp
  then have "b = i * 8 + off \<longleftrightarrow> b div 8 = i \<and> b mod 8 = off" using assms(2) by auto
  moreover have "b div 8 = i \<Longrightarrow> b \<in> blocks m \<longleftrightarrow> bit (m ! i) (b mod 8)"
    using assms(1) in_blocks_byte [of i m "b mod 8"] \<open>b = (b div 8) * 8 + b mod 8\<close> by auto
  ultimately show "b \<in> blocks (m[i := m ! i OR bitmask off]) \<longleftrightarrow> b \<in> insert (i * 8 + off) (blocks m)"
    using assms by (auto simp: blocks_update bit_or_mask)
qed

lemma blocks_and_not_mask:
  assumes "i < length m" and "off < 8"
  shows "blocks (m[i := m ! i AND NOT (bitmask off)]) = blocks m - {i * 8 + off}"
proof (rule set_eqI)
  fix b :: nat
  have "b = (b div 8) * 8 + b mod 8" by simp
  then have "b = i * 8 + off \<longleftrightarrow> b div 8 = i \<and> b mod 8 = off" using assms(2) by auto
  moreover have "b div 8 = i \<Longrightarrow> b \<in> blocks m \<longleftrightarrow> bit (m ! i) (b mod 8)"
    using assms(1) in_blocks_byte [of i m "b mod 8"] \<open>b = (b div 8) * 8 + b mod 8\<close> by auto
  ultimately show "b \<in> blocks (m[i := m ! i AND NOT (bitmask off)]) \<longleftrightarrow> b \<in> blocks m - {i * 8 + off}"
    using assms by (auto simp: blocks_update bit_and_not_mask)
qed

lemma div_8_eq: "b div 8 = i \<longleftrightarrow> b \<in> {i * 8..<i * 8 + 8}" for b i :: nat
  by auto

lemma blocks_fill:
  assumes "i < length m"
  shows "blocks (m[i := - 1]) = blocks m \<union> {i * 8..<i * 8 + 8}"
  using assms by (auto simp: blocks_update div_8_eq split: if_splits)

lemma blocks_empty:
  assumes "i < length m"
  shows "blocks (m[i := 0]) = blocks m - {i * 8..<i * 8 + 8}"
  using assms by (auto simp: blocks_update div_8_eq split: if_splits)

lemma ivl_join: "a \<le> b \<Longrightarrow> b \<le> c \<Longrightarrow> A \<union> {a..<b} \<union> {b..<c} = A \<union> {a..<c}" for a b c :: nat
  by auto

lemma ivl_insert: "a < c \<Longrightarrow> insert a A \<union> {Suc a..<c} = A \<union> {a..<c}" for a c :: nat
  by auto

lemma loop_cases:
  fixes n off :: nat
  obtains (stop) "n = 0" | (byte) "n > 0" "off = 0" "n \<ge> 8" | (start) "n > 0" "off = 0" "n < 8"
    | (last) "n > 0" "off = 7" | (bit) "n > 0" "off > 0" "off \<noteq> 7"
  by (metis gr0I linorder_not_le)

lemma BlockMapAdd_loop_spec:
  assumes "off < 8" and "i * 8 + off + n \<le> 8 * length m"
  shows "length (BlockMapAdd_loop m i off n) = length m \<and>
    blocks (BlockMapAdd_loop m i off n) = blocks m \<union> {i * 8 + off..<i * 8 + off + n}"
  using assms
proof (induction m i off n rule: BlockMapAdd_loop.induct)
  case (1 m i off n)
  have i: "n > 0 \<Longrightarrow> i < length m" using "1.prems" by simp
  note unfold = BlockMapAdd_loop.simps [of m i off n]
  show ?case
  proof (cases rule: loop_cases [where n = n and off = off])
    case stop
    then show ?thesis using unfold by simp
  next
    case byte
    then show ?thesis using unfold i "1.IH"(1) "1.prems"
      by (simp add: blocks_fill ivl_join add.commute)
  next
    case start
    then show ?thesis using unfold i "1.IH"(3) "1.prems"
      by (simp add: blocks_or_mask ivl_insert [symmetric])
  next
    case last
    then show ?thesis using unfold i "1.IH"(2) "1.prems"
      by (simp add: blocks_or_mask ivl_insert [symmetric] add.commute add.left_commute)
  next
    case bit
    then show ?thesis using unfold i "1.IH"(3) "1.prems"
      by (simp add: blocks_or_mask ivl_insert [symmetric])
  qed
qed

lemma blocks_replicate_0 [simp]: "blocks (replicate n 0) = {}"
  by (auto simp: blocks_def)

lemma blocks_replicate_full [simp]: "blocks (replicate n (- 1)) = {..<8 * n}"
  by (auto simp: blocks_def less_mult_imp_div_less)

lemma length_BlockMapInvert [simp]: "length (BlockMapInvert m) = length m"
  by (simp add: BlockMapInvert_def)

lemma BlockMapInvert_Invert [simp]: "BlockMapInvert (BlockMapInvert m) = m"
  by (simp add: BlockMapInvert_def o_def)

lemma blocks_BlockMapInvert [blocks_simps]: "blocks (BlockMapInvert m) = {..<8 * length m} - blocks m"
  by (auto simp: blocks_def BlockMapInvert_def bit_simps less_mult_imp_div_less)

text \<open>Clearing a range is adding it to the complement; the two loops run in step.\<close>

lemma BlockMapClear_loop_Add:
  "i * 8 + off + n \<le> 8 * length m \<Longrightarrow> off < 8 \<Longrightarrow>
   BlockMapClear_loop m i off n = BlockMapInvert (BlockMapAdd_loop (BlockMapInvert m) i off n)"
proof (induction m i off n rule: BlockMapClear_loop.induct)
  case (1 m i off n)
  have inv: "i < length m \<Longrightarrow> BlockMapInvert (m[i := v]) = (BlockMapInvert m)[i := NOT v]" for v
    by (simp add: BlockMapInvert_def map_update)
  have nth: "i < length m \<Longrightarrow> BlockMapInvert m ! i = NOT (m ! i)"
    by (simp add: BlockMapInvert_def)
  have i: "n > 0 \<Longrightarrow> i < length m" using "1.prems" by simp
  show ?case
    using BlockMapClear_loop.simps [of m i off n]
      BlockMapAdd_loop.simps [of "BlockMapInvert m" i off n] "1.IH" "1.prems" i
    by (cases rule: loop_cases [where n = n and off = off]) (simp_all add: inv nth)
qed

lemma BlockMapClear_loop_spec:
  assumes "off < 8" and "i * 8 + off + n \<le> 8 * length m"
  shows "length (BlockMapClear_loop m i off n) = length m \<and>
    blocks (BlockMapClear_loop m i off n) = blocks m - {i * 8 + off..<i * 8 + off + n}"
proof -
  have sub: "blocks m \<subseteq> {..<8 * length m}" by (auto simp: blocks_def)
  show ?thesis
    using assms BlockMapAdd_loop_spec [of off i n "BlockMapInvert m"] sub
    by (auto simp: BlockMapClear_loop_Add blocks_BlockMapInvert)
qed

lemma skip_empty_le: "i \<le> length m \<Longrightarrow> skip_empty m i \<le> length m"
  by (induction m i rule: skip_empty.induct) (subst skip_empty.simps, auto)

lemma skip_empty_stop: "skip_empty m i < length m \<Longrightarrow> m ! skip_empty m i \<noteq> 0"
proof (induction m i rule: skip_empty.induct)
  case (1 m i)
  then show ?case by (cases "i < length m \<and> m ! i = 0") (simp_all add: skip_empty.simps [of m i])
qed

lemma skip_empty_zero: "i \<le> j \<Longrightarrow> j < skip_empty m i \<Longrightarrow> m ! j = 0"
proof (induction m i rule: skip_empty.induct)
  case (1 m i)
  show ?case
  proof (cases "i < length m \<and> m ! i = 0")
    case True
    with 1 show ?thesis by (cases "i = j") (simp_all add: skip_empty.simps [of m i])
  next
    case False
    then have "skip_empty m i = i" by (subst skip_empty.simps) auto
    with 1 show ?thesis by simp
  qed
qed

lemma skip_empty_blocks: "b \<in> blocks m \<Longrightarrow> skip_empty m 0 * 8 \<le> b"
proof (rule ccontr)
  assume "b \<in> blocks m" and "\<not> skip_empty m 0 * 8 \<le> b"
  then have "b div 8 < skip_empty m 0" by auto
  then have "m ! (b div 8) = 0" using skip_empty_zero [of 0] by blast
  with \<open>b \<in> blocks m\<close> show False by (simp add: blocks_def)
qed

lemma blocks_bound: "b \<in> blocks m \<Longrightarrow> b < 8 * length m"
  by (simp add: blocks_def)

lemma BlockMapExtract_loop_run:
  assumes "n > 0" and "block + n = i * 8 + b" and "b \<le> 8" and "i = length m \<Longrightarrow> b = 0"
    and "BlockMapExtract_loop m i b block n = (m', block', n')"
  shows "block' = block \<and> n \<le> n' \<and> length m' = length m \<and>
    {block + n..<block + n'} \<subseteq> blocks m \<and> block + n' \<notin> blocks m \<and>
    blocks m' = blocks m - {block + n..<block + n'}"
  using assms
proof (induction m i b block n arbitrary: m' block' n' rule: BlockMapExtract_loop.induct)
  case (1 m i b block n)
  note unfold = BlockMapExtract_loop.simps [of m i b block n]
  consider "\<not> i < length m" | "i < length m" "b = 8" | "i < length m" "b < 8" "bit (m ! i) b"
    | "i < length m" "b < 8" "\<not> bit (m ! i) b" using "1.prems" by linarith
  then show ?case
  proof cases
    case 1
    with "1.prems" unfold show ?thesis using blocks_bound [of "block + n" m] by auto
  next
    case 2
    then have "BlockMapExtract_loop m (i + 1) 0 block n = (m', block', n')"
      using "1.prems" unfold by simp
    with 2 "1.prems" show ?thesis by (intro "1.IH"(4)) simp_all
  next
    case 3
    let ?m = "m[i := m ! i AND NOT (bitmask b)]"
    have rest: "BlockMapExtract_loop ?m i (b + 1) block (n + 1) = (m', block', n')"
      using 3 "1.prems" unfold by simp
    have IH: "block' = block \<and> n + 1 \<le> n' \<and> length m' = length ?m \<and>
      {block + (n + 1)..<block + n'} \<subseteq> blocks ?m \<and> block + n' \<notin> blocks ?m \<and>
      blocks m' = blocks ?m - {block + (n + 1)..<block + n'}"
      using "1.IH"(1) [of m' block' n'] 3 "1.prems"(1-4) rest by simp
    have "block + n \<in> blocks m" using 3 "1.prems" in_blocks_byte by simp
    moreover have "blocks ?m = blocks m - {block + n}" using 3 "1.prems" by (simp add: blocks_and_not_mask)
    moreover have "{block + n..<block + n'} = insert (block + n) {block + (n + 1)..<block + n'}"
      using IH by auto
    ultimately show ?thesis using IH by auto
  next
    case 4
    with "1.prems" unfold have "m' = m" "block' = block" "n' = n" by simp_all
    moreover have "block + n \<notin> blocks m" using 4 "1.prems" in_blocks_byte by simp
    ultimately show ?thesis by simp
  qed
qed


definition maximal_run :: "nat set \<Rightarrow> nat \<Rightarrow> nat \<Rightarrow> bool" where
  "maximal_run A block n \<longleftrightarrow>
     n > 0 \<and> {block..<block + n} \<subseteq> A \<and> (\<forall>x\<in>A. block \<le> x) \<and> block + n \<notin> A"

lemma BlockMapExtract_loop_spec:
  assumes "b \<le> 8" and "i = length m \<Longrightarrow> b = 0" and "\<And>x. x \<in> blocks m \<Longrightarrow> i * 8 + b \<le> x"
    and "BlockMapExtract_loop m i b block 0 = (m', block', n')"
  shows "length m' = length m \<and>
    (if blocks m = {} then n' = 0 \<and> m' = m
     else maximal_run (blocks m) block' n' \<and> blocks m' = blocks m - {block'..<block' + n'})"
  using assms
proof (induction m i b block "0::nat" arbitrary: m' block' n' rule: BlockMapExtract_loop.induct)
  case (1 m i b block)
  note unfold = BlockMapExtract_loop.simps [of m i b block 0]
  have le: "x \<in> blocks m \<Longrightarrow> i * 8 + b \<le> x" for x by (rule "1.prems"(3))
  consider "\<not> i < length m" | "i < length m" "b = 8" | "i < length m" "b < 8" "bit (m ! i) b"
    | "i < length m" "b < 8" "m ! i = 0" | "i < length m" "b < 8" "\<not> bit (m ! i) b" "m ! i \<noteq> 0"
    using "1.prems" by (metis le_neq_implies_less)
  then show ?case
  proof cases
    case 1
    with le have "blocks m = {}" using blocks_bound [of _ m] by fastforce
    with 1 "1.prems" unfold show ?thesis by simp
  next
    case 2
    with le have "x \<in> blocks m \<Longrightarrow> (i + 1) * 8 + 0 \<le> x" for x by fastforce
    with 2 "1.prems" unfold show ?thesis by (intro "1.hyps"(4)) simp_all
  next
    case 4
    have "(i + 1) * 8 + 0 \<le> x" if "x \<in> blocks m" for x
    proof (rule ccontr)
      assume "\<not> (i + 1) * 8 + 0 \<le> x"
      with le [OF that] have "x div 8 = i" by auto
      with that 4 show False by (simp add: blocks_def)
    qed
    with 4 "1.prems" unfold show ?thesis by (intro "1.hyps"(2)) simp_all
  next
    case 3
    let ?m = "m[i := m ! i AND NOT (bitmask b)]"
    have "BlockMapExtract_loop ?m i (b + 1) (i * 8 + b) 1 = (m', block', n')"
      using 3 "1.prems" unfold by simp
    from BlockMapExtract_loop_run [OF _ _ _ _ this] 3
    have run: "block' = i * 8 + b" "1 \<le> n'" "length m' = length m"
      "{i * 8 + b + 1..<i * 8 + b + n'} \<subseteq> blocks ?m" "i * 8 + b + n' \<notin> blocks ?m"
      "blocks m' = blocks ?m - {i * 8 + b + 1..<i * 8 + b + n'}" by auto
    have bm: "blocks ?m = blocks m - {i * 8 + b}" and "i * 8 + b \<in> blocks m"
      using 3 by (simp_all add: blocks_and_not_mask in_blocks_byte)
    moreover have "{block'..<block' + n'} = insert (i * 8 + b) {i * 8 + b + 1..<i * 8 + b + n'}"
      using run by auto
    ultimately show ?thesis using run le by (auto simp: maximal_run_def)
  next
    case 5
    have "i * 8 + b \<notin> blocks m" using 5 in_blocks_byte by simp
    with le have "x \<in> blocks m \<Longrightarrow> i * 8 + (b + 1) \<le> x" for x
      by (metis Suc_eq_plus1 add_Suc_right le_neq_implies_less less_eq_Suc_le)
    with 5 "1.prems" unfold show ?thesis by (intro "1.hyps"(3)) simp_all
  qed
qed

lemma card_blocks_Suc:
  "card (blocks m \<inter> {p..<p + Suc n}) =
   (if p \<in> blocks m then 1 else 0) + card (blocks m \<inter> {Suc p..<Suc p + n})"
proof -
  have "blocks m \<inter> {p..<p + Suc n} =
    (if p \<in> blocks m then insert p (blocks m \<inter> {Suc p..<Suc p + n}) else blocks m \<inter> {Suc p..<Suc p + n})"
    by (auto simp: Suc_le_eq order.order_iff_strict)
  then show ?thesis by simp
qed

lemma card_blocks_byte:
  assumes "i < length m" and "m ! i = 0 \<or> m ! i = - 1" and "n \<ge> 8"
  shows "card (blocks m \<inter> {i * 8..<i * 8 + n}) =
    (if m ! i = 0 then 0 else 8) + card (blocks m \<inter> {(i + 1) * 8..<(i + 1) * 8 + (n - 8)})"
proof -
  have "blocks m \<inter> {i * 8..<i * 8 + 8} = (if m ! i = 0 then {} else {i * 8..<i * 8 + 8})"
    using assms(1,2) by (auto simp: blocks_def simp flip: div_8_eq atLeastLessThan_iff)
  moreover have "blocks m \<inter> {i * 8..<i * 8 + n} =
    blocks m \<inter> {i * 8..<i * 8 + 8} \<union> blocks m \<inter> {(i + 1) * 8..<(i + 1) * 8 + (n - 8)}"
    using assms(3) by auto
  moreover have "(blocks m \<inter> {i * 8..<i * 8 + 8}) \<inter> (blocks m \<inter> {(i + 1) * 8..<(i + 1) * 8 + (n - 8)}) = {}"
    by auto
  ultimately show ?thesis by (simp add: card_Un_disjoint)
qed

lemma BlockMapIsAlloc_loop_0 [simp]: "BlockMapIsAlloc_loop m i off v 0 did = did"
  by (simp add: BlockMapIsAlloc_loop.simps)

lemma BlockMapIsAlloc_loop_byte:
  assumes "n \<ge> 8" and "v = 0 \<or> v = - 1"
  shows "BlockMapIsAlloc_loop m i 0 v n did =
    (if n > 8 then BlockMapIsAlloc_loop m (i + 1) 0 (m ! (i + 1)) (n - 8) (if v = 0 then did else did + 8)
     else if v = 0 then did else did + 8)"
  using assms by (subst BlockMapIsAlloc_loop.simps) auto

lemma BlockMapIsAlloc_loop_bit:
  assumes "\<not> (off = 0 \<and> Suc k \<ge> 8 \<and> (v = 0 \<or> v = - 1))" and "off < 8"
  shows "BlockMapIsAlloc_loop m i off v (Suc k) did =
    (if off = 7 \<and> k > 0
     then BlockMapIsAlloc_loop m (i + 1) 0 (m ! (i + 1)) k (if bit v off then did + 1 else did)
     else BlockMapIsAlloc_loop m i (off + 1) v k (if bit v off then did + 1 else did))"
proof -
  have "(off = 0 \<and> Suc k \<ge> CHAR_BIT \<and> (v = 0 \<or> v = NOT 0)) = False" using assms(1) by auto
  then show ?thesis using assms(2) by (subst BlockMapIsAlloc_loop.simps) auto
qed

lemma BlockMapIsAlloc_loop_spec:
  assumes "off < 8" and "i * 8 + off + n \<le> 8 * length m" and "i < length m"
  shows "BlockMapIsAlloc_loop m i off (m ! i) n did
    = did + card (blocks m \<inter> {i * 8 + off..<i * 8 + off + n})"
  using assms
proof (induction n arbitrary: i off did rule: less_induct)
  case (less n)
  consider "n = 0" | "off = 0" "n \<ge> 8" "m ! i = 0 \<or> m ! i = - 1"
    | k where "n = Suc k" "\<not> (off = 0 \<and> Suc k \<ge> 8 \<and> (m ! i = 0 \<or> m ! i = - 1))"
    by (metis not0_implies_Suc)
  then show ?case
  proof cases
    case 1
    then show ?thesis by simp
  next
    case 2
    have "n > 8 \<Longrightarrow> i + 1 < length m" using less.prems by simp
    with 2 less.IH [of "n - 8" 0 "i + 1"] less.prems card_blocks_byte [of i m n] show ?thesis
      by (cases "n = 8") (auto simp: BlockMapIsAlloc_loop_byte)
  next
    case 3
    have p: "i * 8 + off \<in> blocks m \<longleftrightarrow> bit (m ! i) off" using less.prems in_blocks_byte by simp
    have step: "k > 0 \<Longrightarrow> off = 7 \<Longrightarrow> i + 1 < length m" using less.prems 3 by simp
    show ?thesis
    proof (cases "off = 7")
      case True
      with 3 p step less.prems less.IH [of k 0 "i + 1"] card_blocks_Suc [of m "i * 8 + 7" k]
      show ?thesis by (cases "k = 0") (auto simp: BlockMapIsAlloc_loop_bit ac_simps)
    next
      case False
      with 3 p less.prems less.IH [of k "off + 1" i] card_blocks_Suc [of m "i * 8 + off" k]
      show ?thesis by (auto simp: BlockMapIsAlloc_loop_bit)
    qed
  qed
qed

lemma BlockMapMerge_byte_spec:
  "BlockMapMerge_byte f t b did = (t', did') \<Longrightarrow>
   (\<forall>k<8. bit t' k \<longleftrightarrow> bit t k \<or> b \<le> k \<and> bit f k) \<and>
   did' = did + card {k. b \<le> k \<and> k < 8 \<and> bit f k \<and> \<not> bit t k}"
proof (induction f t b did arbitrary: t' did' rule: BlockMapMerge_byte.induct)
  case (1 f t b did)
  note unfold = BlockMapMerge_byte.simps [of f t b did]
  let ?new = "\<lambda>b t. {k. b \<le> k \<and> k < 8 \<and> bit f k \<and> \<not> bit t k}"
  consider "b \<ge> 8" | "b < 8" "bit f b" "\<not> bit t b" | "b < 8" "\<not> (bit f b \<and> \<not> bit t b)" by linarith
  then show ?case
  proof cases
    case 1
    then have "?new b t = {}" by auto
    with 1 "1.prems" unfold show ?thesis by auto
  next
    case 2
    have new: "?new b t = insert b (?new (b + 1) (t OR bitmask b))" 
      using 2 by (auto simp: bit_or_mask Suc_le_eq order.order_iff_strict)
    have "BlockMapMerge_byte f (t OR bitmask b) (b + 1) (did + 1) = (t', did')"
      using 2 "1.prems" unfold by simp
    from "1.IH"(1) [OF _ _ this] 2 have
      "(\<forall>k<8. bit t' k \<longleftrightarrow> bit (t OR bitmask b) k \<or> b + 1 \<le> k \<and> bit f k)"
      "did' = did + 1 + card (?new (b + 1) (t OR bitmask b))" by simp_all
    then show ?thesis using 2 new
      by (auto simp: bit_or_mask Suc_le_eq order.order_iff_strict)
  next
    case 3
    have new: "?new b t = ?new (b + 1) t" 
      using 3 by (auto simp: Suc_le_eq order.order_iff_strict)
    have "BlockMapMerge_byte f t (b + 1) did = (t', did')"
      using 3 "1.prems" unfold by (auto split: if_splits)
    from "1.IH"(2) [OF _ _ this] 3 have
      "(\<forall>k<8. bit t' k \<longleftrightarrow> bit t k \<or> b + 1 \<le> k \<and> bit f k)"
      "did' = did + card (?new (b + 1) t)" by simp_all
    then show ?thesis using 3 new
      by (auto simp: Suc_le_eq order.order_iff_strict)
  qed
qed


lemma blocks_byte_image:
  assumes "i < length m"
  shows "blocks m \<inter> {i * 8..<i * 8 + 8} = (\<lambda>k. i * 8 + k) ` {k. k < 8 \<and> bit (m ! i) k}"
proof (intro set_eqI iffI)
  fix b
  assume "b \<in> blocks m \<inter> {i * 8..<i * 8 + 8}"
  moreover from this have "b = i * 8 + b mod 8" using div_8_eq [of b i] div_mult_mod_eq [of b 8] by simp
  ultimately show "b \<in> (\<lambda>k. i * 8 + k) ` {k. k < 8 \<and> bit (m ! i) k}"
    using in_blocks_byte [OF assms, of "b mod 8"] by (intro image_eqI [of _ _ "b mod 8"]) simp_all
qed (use assms in \<open>auto simp: in_blocks_byte\<close>)

lemma BlockMapMerge_loop_spec:
  assumes "length from = length to" and "BlockMapMerge_loop from to i did = (to', did')"
  shows "length to' = length to \<and> blocks to' = blocks to \<union> (blocks from \<inter> {i * 8..}) \<and>
    did' = did + card ((blocks from \<inter> {i * 8..}) - blocks to)"
  using assms
proof (induction "from" to i did arbitrary: to' did' rule: BlockMapMerge_loop.induct)
  case (1 "from" to i did)
  note unfold = BlockMapMerge_loop.simps [of "from" to i did]
  show ?case
  proof (cases "i < length from")
    case False
    then have "blocks from \<inter> {i * 8..} = {}" using blocks_bound [of _ "from"] by fastforce
    with False "1.prems" unfold show ?thesis by simp
  next
    case i: True
    have split: "blocks from \<inter> {i * 8..} = blocks from \<inter> {i * 8..<i * 8 + 8} \<union> (blocks from \<inter> {(i + 1) * 8..})"
      by auto
    have ilen: "i < length to" using i "1.prems" by simp
    show ?thesis
    proof (cases "from ! i = 0 \<or> to ! i = - 1 \<or> from ! i = to ! i")
      case True
      then have "blocks from \<inter> {i * 8..<i * 8 + 8} \<subseteq> blocks to \<inter> {i * 8..<i * 8 + 8}"
        using i ilen by (auto simp: blocks_byte_image)
      moreover have "BlockMapMerge_loop from to (i + 1) did = (to', did')"
        using True i "1.prems" unfold by auto
      from "1.IH"(1) [OF i _ _ this] True "1.prems" have
        "length to' = length to" "blocks to' = blocks to \<union> (blocks from \<inter> {(i + 1) * 8..})"
        "did' = did + card ((blocks from \<inter> {(i + 1) * 8..}) - blocks to)" by simp_all
      moreover have "(blocks from \<inter> {i * 8..}) - blocks to = (blocks from \<inter> {(i + 1) * 8..}) - blocks to"
        using calculation(1) split by auto
      ultimately show ?thesis using split by auto
    next
      case False
      obtain t d where td: "BlockMapMerge_byte (from ! i) (to ! i) 0 did = (t, d)" by force
      let ?new = "(\<lambda>k. i * 8 + k) ` {k. k < 8 \<and> bit (from ! i) k \<and> \<not> bit (to ! i) k}"
      have t: "bit t k \<longleftrightarrow> bit (to ! i) k \<or> bit (from ! i) k" if "k < 8" for k
        using BlockMapMerge_byte_spec [OF td] that by simp
      have d: "d = did + card ?new"
        using BlockMapMerge_byte_spec [OF td] by (simp add: card_image)
      have "BlockMapMerge_loop from (to[i := t]) (i + 1) d = (to', did')"
        using False i "1.prems" td unfold by simp
      from "1.IH"(2) [OF i _ td [symmetric] refl _ this] False "1.prems" have IH:
        "length to' = length to" "blocks to' = blocks (to[i := t]) \<union> (blocks from \<inter> {(i + 1) * 8..})"
        "did' = d + card ((blocks from \<inter> {(i + 1) * 8..}) - blocks (to[i := t]))" by simp_all
      have new: "?new = (blocks from \<inter> {i * 8..<i * 8 + 8}) - blocks to"
        using i ilen by (auto simp: blocks_byte_image in_blocks_byte)
      have upd: "blocks (to[i := t]) = blocks to \<union> (blocks from \<inter> {i * 8..<i * 8 + 8})"
      proof (rule set_eqI)
        fix b
        have "b div 8 = i \<Longrightarrow> b < 8 * length to" using ilen by auto
        then show "b \<in> blocks (to[i := t]) \<longleftrightarrow> b \<in> blocks to \<union> (blocks from \<inter> {i * 8..<i * 8 + 8})"
          using i ilen t [of "b mod 8"] "1.prems"(1) div_8_eq [of b i]
          by (auto simp: blocks_update) (auto simp: blocks_def)
      qed
      have disj: "?new \<inter> ((blocks from \<inter> {(i + 1) * 8..}) - blocks (to[i := t])) = {}" by auto
      have all: "(blocks from \<inter> {i * 8..}) - blocks to =
          ?new \<union> ((blocks from \<inter> {(i + 1) * 8..}) - blocks (to[i := t]))"
        unfolding new upd by auto
      have "card ((blocks from \<inter> {i * 8..}) - blocks to) =
          card ?new + card ((blocks from \<inter> {(i + 1) * 8..}) - blocks (to[i := t]))"
        unfolding all by (rule card_Un_disjoint [OF _ _ disj]) simp_all
      with IH d upd split show ?thesis by auto
    qed
  qed
qed

lemma first_bit_spec:
  "case first_bit v b of None \<Rightarrow> \<forall>k. b \<le> k \<longrightarrow> k < 8 \<longrightarrow> \<not> bit v k
   | Some k \<Rightarrow> b \<le> k \<and> k < 8 \<and> bit v k \<and> (\<forall>j. b \<le> j \<longrightarrow> bit v j \<longrightarrow> k \<le> j)"
proof (induction v b rule: first_bit.induct)
  case (1 v b)
  show ?case
  proof (cases "b < 8 \<and> \<not> bit v b")
    case True
    then have "first_bit v b = first_bit v (b + 1)" by (subst first_bit.simps) simp
    with 1 True show ?thesis
      by (auto split: option.splits) (metis Suc_leI le_neq_implies_less)+
  next
    case False
    then show ?thesis by (subst first_bit.simps) auto
  qed
qed

lemma BlockMapFirst_spec:
  "BlockMapFirst m = (if blocks m = {} then 8 * int (length m) else int (Min (blocks m)))"
proof (cases "skip_empty m 0 < length m")
  case True
  let ?i = "skip_empty m 0"
  have "m ! ?i \<noteq> 0" by (rule skip_empty_stop [OF True])
  then obtain k where k: "first_bit (m ! ?i) 0 = Some k"
    using first_bit_spec [where v = "m ! ?i" and b = 0] by (cases "first_bit (m ! ?i) 0") (auto simp: byte_zero_iff)
  with first_bit_spec [where v = "m ! ?i" and b = 0]
  have kb: "k < 8" "bit (m ! ?i) k" "\<forall>j. bit (m ! ?i) j \<longrightarrow> k \<le> j" by auto
  have mem: "?i * 8 + k \<in> blocks m" using kb True in_blocks_byte by simp
  have "?i * 8 + k \<le> x" if x: "x \<in> blocks m" for x
  proof (cases "x div 8 = ?i")
    case True
    with x kb(3) have "k \<le> x mod 8" by (auto simp: blocks_def)
    moreover have "x = ?i * 8 + x mod 8" using True div_mult_mod_eq [of x 8] by simp
    ultimately show ?thesis by linarith
  next
    case False
    with skip_empty_blocks [OF x] have "?i < x div 8" by auto
    then have "(?i + 1) * 8 \<le> x" by auto
    with kb(1) show ?thesis by simp
  qed
  then have "Min (blocks m) = ?i * 8 + k" using mem by (intro Min_eqI) simp_all
  with True k mem show ?thesis by (auto simp: BlockMapFirst_def Let_def)
next
  case False
  then have len: "skip_empty m 0 = length m" using skip_empty_le [of 0 m] by simp
  then have "blocks m = {}"
    using skip_empty_blocks [of _ m] blocks_bound [of _ m] by fastforce
  with len show ?thesis by (simp add: BlockMapFirst_def Let_def)
qed

function runs_at :: "(nat \<Rightarrow> bool) \<Rightarrow> nat \<Rightarrow> nat \<Rightarrow> nat \<Rightarrow> nat \<Rightarrow> (nat \<times> nat) list" where
  "runs_at A N p block n =
     (if p < N then
        if A p then runs_at A N (p + 1) (if n = 0 then p else block) (n + 1)
        else (if n > 0 then [(block, n)] else []) @ runs_at A N (p + 1) block 0
      else if n > 0 then [(block, n)] else [])"
  by pat_completeness auto
termination
  by (relation "measure (\<lambda>(A, N, p, block, n). N - p)") auto

declare runs_at.simps [simp del]

definition ranges :: "blockmap \<Rightarrow> (nat \<times> nat) list" where
  "ranges m = runs_at (\<lambda>p. p \<in> blocks m) (8 * length m) 0 0 0"

fun apply_runs :: "'s range_fun option \<Rightarrow> int \<Rightarrow> (nat \<times> nat) list \<Rightarrow> nat \<Rightarrow> 's \<Rightarrow> nat \<times> 's" where
  "apply_runs func chunk [] did s = (did, s)"
| "apply_runs func chunk ((block, n) # rs) did s =
     (case call_range func chunk block n s of
        (stop, s') \<Rightarrow> if stop then (did + n, s') else apply_runs func chunk rs (did + n) s')"

lemma runs_at_skip:
  assumes "\<And>q. p \<le> q \<Longrightarrow> q < p' \<Longrightarrow> \<not> A q" and "p \<le> p'" and "p' \<le> N"
  shows "runs_at A N p block 0 = runs_at A N p' block 0"
  using assms
proof (induction "p' - p" arbitrary: p)
  case 0
  then show ?case by simp
next
  case (Suc d)
  then have "p < p'" by simp
  have "runs_at A N p block 0 = runs_at A N (p + 1) block 0"
    using Suc.prems(1) [of p] \<open>p < p'\<close> Suc.prems(3) by (subst runs_at.simps) simp
  also have "\<dots> = runs_at A N p' block 0"
    by (rule Suc.hyps(1)) (use Suc.hyps(2) Suc.prems \<open>p < p'\<close> in auto)
  finally show ?case .
qed

lemma runs_at_sep:
  assumes "n > 0 \<Longrightarrow> block + n = p"
  shows "(\<forall>(b, k) \<in> set (runs_at A N p block n). k > 0 \<and> (if n > 0 then block else p) \<le> b) \<and>
    sorted_wrt (\<lambda>(b, k) (b', k'). b + k < b') (runs_at A N p block n)"
  using assms
proof (induction A N p block n rule: runs_at.induct)
  case (1 A N p block n)
  note unfold = runs_at.simps [of A N p block n]
  show ?case
  proof (cases "p < N")
    case False
    with unfold show ?thesis by simp
  next
    case True
    show ?thesis
    proof (cases "A p")
      case A: True
      with True unfold "1.IH"(1) "1.prems" show ?thesis by (auto split: if_splits)
    next
      case A: False
      with True unfold "1.IH"(2) "1.prems" show ?thesis by (fastforce split: if_splits)
    qed
  qed
qed

lemma runs_at_union:
  assumes "n > 0 \<Longrightarrow> block + n = p"
  shows "(\<Union>(b, k) \<in> set (runs_at A N p block n). {b..<b + k}) =
    {block..<block + n} \<union> {q. p \<le> q \<and> q < N \<and> A q}"
  using assms
proof (induction A N p block n rule: runs_at.induct)
  case (1 A N p block n)
  note unfold = runs_at.simps [of A N p block n]
  consider "\<not> p < N" | "p < N" "A p" | "p < N" "\<not> A p" by blast
  then show ?case
  proof cases
    case 1
    with unfold show ?thesis by auto
  next
    case 2
    have "{q. p \<le> q \<and> q < N \<and> A q} = insert p {q. p + 1 \<le> q \<and> q < N \<and> A q}" 
      using 2 by (auto simp: Suc_le_eq order.order_iff_strict)
    with 2 unfold "1.IH"(1) "1.prems" show ?thesis by (auto split: if_splits)
  next
    case 3
    have "{q. p \<le> q \<and> q < N \<and> A q} = {q. p + 1 \<le> q \<and> q < N \<and> A q}" 
      using 3 by (auto simp: Suc_le_eq order.order_iff_strict)
    with 3 unfold "1.IH"(2) "1.prems" show ?thesis by (auto split: if_splits)
  qed
qed

lemma BlockMapApply_loop_runs:
  assumes "b \<le> 8" and "i \<le> length m" and "i = length m \<Longrightarrow> b = 0"
    and "i < length m \<Longrightarrow> \<forall>k<8. bit v k \<longleftrightarrow> b \<le> k \<and> bit (m ! i) k"
  shows "BlockMapApply_loop func chunk m i b v block n did s =
    apply_runs func chunk (runs_at (\<lambda>p. p \<in> blocks m) (8 * length m) (i * 8 + b) block n) did s"
  using assms
proof (induction func chunk m i b v block n did s rule: BlockMapApply_loop.induct)
  case (1 func chunk m i b v block n did s)
  let ?A = "\<lambda>p. p \<in> blocks m" and ?N = "8 * length m"
  note unfold = BlockMapApply_loop.simps [of func chunk m i b v block n did s]
  note runs = runs_at.simps [of ?A ?N "i * 8 + b" block n]
  have vbits: "i < length m \<Longrightarrow> k < 8 \<Longrightarrow> bit v k \<longleftrightarrow> b \<le> k \<and> bit (m ! i) k" for k
    using "1.prems"(4) by blast
  have skip: "runs_at ?A ?N (i * 8 + c) blk 0 = runs_at ?A ?N ((i + 1) * 8 + 0) blk 0"
    if "i < length m" "v = 0" "b \<le> c" "c \<le> 8" for c blk
  proof (rule runs_at_skip)
    fix q assume q: "i * 8 + c \<le> q" "q < (i + 1) * 8 + 0"
    then have "q div 8 = i" by (auto simp: div_8_eq)
    moreover from this q have "c \<le> q mod 8" using div_mult_mod_eq [of q 8] by linarith
    ultimately show "\<not> q \<in> blocks m" using vbits [of "q mod 8"] that by (auto simp: blocks_def)
  qed (use that in auto)
  have here: "i < length m \<Longrightarrow> b < 8 \<Longrightarrow> i * 8 + b \<in> blocks m \<longleftrightarrow> bit v b"
    using vbits [of b] by (simp add: in_blocks_byte)
  consider "i = length m" | "i < length m" "b = 8" | "i < length m" "b < 8" "bit v b"
    | "i < length m" "b < 8" "\<not> bit v b" "v = 0" | "i < length m" "b < 8" "\<not> bit v b" "v \<noteq> 0"
    using "1.prems" by (metis le_neq_implies_less)
  then show ?case
  proof cases
    case 1
    with unfold runs "1.prems" show ?thesis by (simp split: prod.splits)
  next
    case 2
    with unfold "1.IH"(6) show ?thesis by (simp add: add.commute)
  next
    case 3
    moreover have "\<forall>k<8. bit (v AND NOT (bitmask b)) k \<longleftrightarrow> b + 1 \<le> k \<and> bit (m ! i) k"
      using 3 vbits by (auto simp: bit_and_not_mask)
    ultimately show ?thesis using unfold runs "1.IH"(1) here by simp
  next
    case 4
    show ?thesis 
    proof (cases "n = 0")
      case True
      have "BlockMapApply_loop func chunk m i b v block n did s = 
        BlockMapApply_loop func chunk m (i + 1) 0 (m ! (i + 1)) block 0 did s"
        using 4 True unfold by simp
      also have "\<dots> = apply_runs func chunk (runs_at ?A ?N ((i + 1) * 8 + 0) block 0) did s"
        using 4 True "1.IH"(4) by simp
      finally show ?thesis using skip [of b block] 4 True by simp
    next
      case False
      have "BlockMapApply_loop func chunk m (i + 1) 0 (m ! (i + 1)) block 0 (did + n) s' =
        apply_runs func chunk (runs_at ?A ?N ((i + 1) * 8 + 0) block 0) (did + n) s'" 
        if "call_range func chunk block n s = (False, s')" for s'
        using 4 False "1.IH"(2) [OF _ _ _ _ that [symmetric]] by simp
      then show ?thesis using skip [of "b + 1" block] 4 False unfold runs here
        by (simp split: prod.splits)
    qed
  next
    case 5
    have next_bits: "\<forall>k<8. bit v k \<longleftrightarrow> b + 1 \<le> k \<and> bit (m ! i) k"
      using 5 vbits by (auto simp: Suc_le_eq order.order_iff_strict)
    show ?thesis
    proof (cases "n = 0")
      case True
      then show ?thesis using 5 unfold runs here "1.IH"(5) next_bits by simp
    next
      case False
      have "BlockMapApply_loop func chunk m i (b + 1) v block 0 (did + n) s' =
        apply_runs func chunk (runs_at ?A ?N (i * 8 + (b + 1)) block 0) (did + n) s'" 
        if "call_range func chunk block n s = (False, s')" for s'
        using 5 False "1.IH"(3) [OF _ _ _ _ that [symmetric]] next_bits by simp
      then show ?thesis using 5 False unfold runs here by (simp split: prod.splits)
    qed
  qed
qed


lemma BlockMapApply_runs:
  "BlockMapApply m chunk func s =
   (case apply_runs func chunk (ranges m) 0 s of (did, s') \<Rightarrow> (int did, s'))"
  using BlockMapApply_loop_runs [of 0 0 m "m ! 0" func chunk 0 0 0 s]
  by (auto simp: BlockMapApply_def ranges_def)

lemma ranges_partition:
  "(\<Union>(b, k) \<in> set (ranges m). {b..<b + k}) = blocks m"
  using runs_at_union [of 0 0 0 "\<lambda>p. p \<in> blocks m" "8 * length m"] blocks_bound [of _ m]
  by (auto simp: ranges_def)

lemma ranges_separated:
  "sorted_wrt (\<lambda>(b, k) (b', k'). b + k < b') (ranges m) \<and> (\<forall>(b, k) \<in> set (ranges m). k > 0)"
  using runs_at_sep [of 0 0 0 "\<lambda>p. p \<in> blocks m" "8 * length m"] by (auto simp: ranges_def)

text \<open>A range of blocks of a chunk. An operation on a range passes its assertions and stays in the array exactly for these.\<close>

definition in_chunk :: "int \<Rightarrow> int \<Rightarrow> bool" where
  "in_chunk block count \<longleftrightarrow> block \<ge> 0 \<and> count > 0 \<and> block + count \<le> MAXCHUNKSIZE"

lemma range_ok_in_chunk: "in_chunk block n \<Longrightarrow> range_ok block n"
  by (simp add: in_chunk_def range_ok_def MAXCHUNKSIZE_def to_i32_id)

lemma range_in_array:
  assumes "BlockMap_t m"
  shows "range_ok block n \<and> bytes_ok m block n \<longleftrightarrow> in_chunk block n"
proof
  assume r: "range_ok block n \<and> bytes_ok m block n"
  then have "(nat block + nat n - 1) div 8 < 128" "0 \<le> block" "0 < n"
    using assms by (simp_all add: range_ok_def bytes_ok_def BlockMap_t_length)
  then have "nat block + nat n - 1 < 1024" by linarith
  then show "in_chunk block n" using \<open>0 \<le> block\<close> \<open>0 < n\<close> unfolding in_chunk_def MAXCHUNKSIZE_def by linarith
next
  assume c: "in_chunk block n"
  then have "nat block + nat n - 1 < 1024" unfolding in_chunk_def MAXCHUNKSIZE_def by linarith
  then have "(nat block + nat n - 1) div 8 < 128" by (simp add: div_less_iff_less_mult)
  then show "range_ok block n \<and> bytes_ok m block n"
    using range_ok_in_chunk [OF c] assms by (simp add: bytes_ok_def BlockMap_t_length)
qed

text \<open>The assertions pass for another range only when the sum wraps.\<close>

lemma range_ok_wraps:
  assumes "range_ok block n" and "n < 2 ^ 31" and "\<not> in_chunk block n"
  shows "2 ^ 31 \<le> block + n"
proof (rule ccontr)
  assume "\<not> 2 ^ 31 \<le> block + n"
  then have "to_i32 (block + n) = block + n" using assms(1) by (intro to_i32_id) (simp_all add: range_ok_def)
  then show False using assms(1,3) by (simp add: range_ok_def in_chunk_def)
qed

lemma in_chunk_nat: "in_chunk block n \<Longrightarrow> nat block + nat n \<le> 1024 \<and> nat block < 1024 \<and> 0 < nat n"
  by (auto simp: in_chunk_def MAXCHUNKSIZE_def)

lemma BlockMapAdd_Some:
  assumes "BlockMap_t m" and "in_chunk block n"
  shows "\<exists>m'. BlockMapAdd m block n = Some m' \<and> BlockMap_t m' \<and>
    blocks m' = blocks m \<union> {nat block..<nat (block + n)}"
  using assms BlockMapAdd_loop_spec [of "nat block mod 8" "nat block div 8" "nat n" m] in_chunk_nat [OF assms(2)]
  iffD2 [OF range_in_array [OF assms(1)] assms(2)]
  by (auto simp: BlockMapAdd_def BlockMap_t_length in_chunk_def nat_add_distrib)

lemma BlockMapClear_Some:
  assumes "BlockMap_t m" and "in_chunk block n"
  shows "\<exists>m'. BlockMapClear m block n = Some m' \<and> BlockMap_t m' \<and>
    blocks m' = blocks m - {nat block..<nat (block + n)}"
  using assms BlockMapClear_loop_spec [of "nat block mod 8" "nat block div 8" "nat n" m] in_chunk_nat [OF assms(2)]
  iffD2 [OF range_in_array [OF assms(1)] assms(2)]
  by (auto simp: BlockMapClear_def BlockMap_t_length in_chunk_def nat_add_distrib)

lemma BlockMapInit_Some:
  assumes "in_chunk block n"
  shows "\<exists>m'. BlockMapInit block n = Some m' \<and> BlockMap_t m' \<and>
    blocks m' = {nat block..<nat (block + n)}"
proof (cases "n = MAXCHUNKSIZE")
  case True
  with assms range_ok_in_chunk [OF assms] show ?thesis by (auto simp: BlockMapInit_def BlockMap_t_length in_chunk_def MAXCHUNKSIZE_def)
next
  case False
  have "BlockMap_t (replicate (nat MAXCHUNKSIZE div CHAR_BIT) 0)"
    by (simp add: BlockMap_t_def)
  from BlockMapAdd_Some [OF this assms] False range_ok_in_chunk [OF assms] show ?thesis
    by (simp add: BlockMapInit_def)
qed

lemma BlockMapAlloc_Some:
  assumes "BlockMap_t m" and "0 \<le> block" and "block < MAXCHUNKSIZE"
  shows "\<exists>m'. BlockMapAlloc m block = Some (nat block \<in> blocks m, m') \<and> BlockMap_t m' \<and>
    blocks m' = insert (nat block) (blocks m)"
proof -
  let ?i = "nat block div 8" and ?off = "nat block mod 8"
  have i: "?i < length m" using assms by (auto simp: BlockMap_t_length MAXCHUNKSIZE_def)
  have "nat block \<in> blocks m \<longleftrightarrow> bit (m ! ?i) ?off"
    using in_blocks_byte [OF i, of ?off] by simp
  with assms i show ?thesis
    by (auto simp: BlockMapAlloc_def Let_def blocks_or_mask BlockMap_t_length insert_absorb)
qed

lemma BlockMapIsAlloc_Some:
  assumes "BlockMap_t m" and "in_chunk block n"
  shows "BlockMapIsAlloc m block n = Some (int (card (blocks m \<inter> {nat block..<nat (block + n)})))"
  using assms BlockMapIsAlloc_loop_spec [of "nat block mod 8" "nat block div 8" "nat n" m 0] in_chunk_nat [OF assms(2)]
  iffD2 [OF range_in_array [OF assms(1)] assms(2)]
  by (auto simp: BlockMapIsAlloc_def BlockMap_t_length in_chunk_def nat_add_distrib Let_def)

lemma BlockMapMerge_spec:
  assumes "length from = length to"
  shows "\<exists>to'. BlockMapMerge from to = (to', int (card (blocks from - blocks to))) \<and> length to' = length to \<and>
    blocks to' = blocks to \<union> blocks from"
  using BlockMapMerge_loop_spec [OF assms, of 0 0]
  by (cases "BlockMapMerge_loop from to 0 0") (auto simp: BlockMapMerge_def)

lemma BlockMapExtract_spec:
  assumes "BlockMapExtract m blockp = (m', block, n)"
  shows "length m' = length m \<and>
    (if blocks m = {} then n = 0 \<and> block = blockp \<and> m' = m
     else maximal_run (blocks m) (nat block) (nat n) \<and> 0 \<le> block \<and> 0 < n \<and>
       blocks m' = blocks m - {nat block..<nat block + nat n})"
proof -
  obtain m1 blk k where ext: "BlockMapExtract_loop m (skip_empty m 0) 0 0 0 = (m1, blk, k)"
    by (metis prod_cases3)
  have le: "x \<in> blocks m \<Longrightarrow> skip_empty m 0 * 8 + 0 \<le> x" for x
    using skip_empty_blocks by simp
  from BlockMapExtract_loop_spec [OF _ _ le ext] assms show ?thesis
    by (auto simp: BlockMapExtract_def ext maximal_run_def split: if_splits)
qed

section \<open>Draining a block set\<close>

text \<open>
  The contract the users of a bitmap rely on: a representation of a finite set of block numbers
  whose \<open>take_run\<close> operation returns and removes the first maximal contiguous run. Extracting until nothing
  is left yields the run decomposition of the set.
\<close>

fun drain :: "('m \<Rightarrow> 'm \<times> nat \<times> nat) \<Rightarrow> nat \<Rightarrow> 'm \<Rightarrow> (nat \<times> nat) list" where
  "drain take_run 0 m = []"
| "drain take_run (Suc k) m =
     (case take_run m of (m', b, n) \<Rightarrow> if n = 0 then [] else (b, n) # drain take_run k m')"

definition separated :: "(nat \<times> nat) list \<Rightarrow> bool" where
  "separated rs \<longleftrightarrow> sorted_wrt (\<lambda>(b, k) (b', k'). b + k < b') rs \<and> (\<forall>(b, k) \<in> set rs. k > 0)"

definition covered :: "(nat \<times> nat) list \<Rightarrow> nat set" where
  "covered rs = (\<Union>(b, k) \<in> set rs. {b..<b + k})"

lemma covered_simps [simp]:
  "covered [] = {}" "covered ((b, k) # rs) = {b..<b + k} \<union> covered rs"
  by (auto simp: covered_def)

lemma separated_Nil [simp]: "separated []"
  by (simp add: separated_def)

lemma separated_Cons:
  "separated ((b, k) # rs) \<longleftrightarrow> k > 0 \<and> (\<forall>x \<in> covered rs. b + k < x) \<and> separated rs"
proof -
  have "(\<forall>(b', k') \<in> set rs. b + k < b') \<longleftrightarrow> (\<forall>x \<in> covered rs. b + k < x)"
    if "\<forall>(b, k) \<in> set rs. k > 0"
    using that by (fastforce simp: covered_def)
  then show ?thesis by (auto simp: separated_def)
qed

lemma separated_head:
  assumes "separated ((b, k) # rs)"
  shows "maximal_run (covered ((b, k) # rs)) b k \<and> covered rs = covered ((b, k) # rs) - {b..<b + k}"
  using assms by (fastforce simp: separated_Cons maximal_run_def)

lemma maximal_run_unique:
  assumes "maximal_run A b n" and "maximal_run A b' n'"
  shows "b = b' \<and> n = n'"
proof -
  have "b \<in> A" "b' \<in> A" using assms by (auto simp: maximal_run_def)
  then have b: "b = b'" using assms by (auto simp: maximal_run_def intro: order_antisym)
  moreover have "\<not> n < n'" "\<not> n' < n" using assms b by (auto simp: maximal_run_def subset_eq)
  ultimately show ?thesis by simp
qed

text \<open>The run decomposition of a set is unique.\<close>

lemma separated_unique:
  assumes "separated rs" and "separated rs'" and "covered rs = covered rs'"
  shows "rs = rs'"
  using assms
proof (induction rs arbitrary: rs')
  case Nil
  then show ?case by (cases rs') (auto simp: separated_Cons)
next
  case (Cons r rs)
  obtain b k where r: "r = (b, k)" by force
  with Cons.prems have "covered rs' \<noteq> {}" by (auto simp: separated_Cons)
  then obtain b' k' rs'' where rs': "rs' = (b', k') # rs''" by (cases rs') auto
  note h = separated_head [OF Cons.prems(1) [unfolded r]] separated_head [OF Cons.prems(2) [unfolded rs']]
  have eq: "covered ((b, k) # rs) = covered ((b', k') # rs'')" using Cons.prems(3) r rs' by simp
  have "b = b' \<and> k = k'"
    by (rule maximal_run_unique [of "covered ((b, k) # rs)"]) (use h eq in auto)
  moreover have "rs = rs''"
  proof (rule Cons.IH)
    show "separated rs" "separated rs''"
      using Cons.prems r rs' by (simp_all add: separated_Cons)
    show "covered rs = covered rs''" using h eq calculation by simp
  qed
  ultimately show ?case using r rs' by simp
qed

locale block_set =
  fixes set_of :: "'m \<Rightarrow> nat set"
    and ok :: "'m \<Rightarrow> bool"
    and take_run :: "'m \<Rightarrow> 'm \<times> nat \<times> nat"
  assumes finite_set_of: "ok m \<Longrightarrow> finite (set_of m)"
    and extract_ok: "ok m \<Longrightarrow> take_run m = (m', b, n) \<Longrightarrow> ok m'"
    and extract_empty: "ok m \<Longrightarrow> set_of m = {} \<Longrightarrow> take_run m = (m', b, n) \<Longrightarrow> n = 0"
    and extract_run: "ok m \<Longrightarrow> set_of m \<noteq> {} \<Longrightarrow> take_run m = (m', b, n) \<Longrightarrow>
      maximal_run (set_of m) b n \<and> set_of m' = set_of m - {b..<b + n}"
begin

lemma extract_card:
  assumes "ok m" and "set_of m \<noteq> {}" and "take_run m = (m', b, n)"
  shows "card (set_of m) = n + card (set_of m')"
proof -
  note run = extract_run [OF assms]
  then have sub: "{b..<b + n} \<subseteq> set_of m" by (simp add: maximal_run_def)
  then have "card (set_of m - {b..<b + n}) = card (set_of m) - n" by (simp add: card_Diff_subset)
  moreover have "card {b..<b + n} \<le> card (set_of m)"
    by (rule card_mono [OF finite_set_of [OF assms(1)] sub])
  ultimately show ?thesis using run by simp
qed

lemma drain_decomposes:
  assumes "ok m" and "card (set_of m) \<le> k"
  shows "separated (drain take_run k m) \<and> covered (drain take_run k m) = set_of m"
  using assms
proof (induction k arbitrary: m)
  case 0
  then show ?case using finite_set_of by simp
next
  case (Suc k)
  obtain m' b n where ext: "take_run m = (m', b, n)" by (metis prod_cases3)
  show ?case
  proof (cases "set_of m = {}")
    case True
    with extract_empty [OF Suc.prems(1) True ext] ext show ?thesis by simp
  next
    case False
    note run = extract_run [OF Suc.prems(1) False ext]
    have n: "n > 0" using run by (simp add: maximal_run_def)
    have "card (set_of m') \<le> k" using extract_card [OF Suc.prems(1) False ext] n Suc.prems(2) by simp
    with Suc.IH [of m'] extract_ok [OF Suc.prems(1) ext]
    have IH: "separated (drain take_run k m')" "covered (drain take_run k m') = set_of m - {b..<b + n}"
      using run by simp_all
    moreover have "b + n < x" if "x \<in> set_of m - {b..<b + n}" for x
      using that run by (cases "x = b + n") (auto simp: maximal_run_def)
    ultimately show ?thesis using ext n run
      by (auto simp: separated_Cons maximal_run_def)
  qed
qed

end

text \<open>\<^const>\<open>BlockMapExtract\<close> fulfils the contract.\<close>

definition extract_block :: "blockmap \<Rightarrow> blockmap \<times> nat \<times> nat" where
  "extract_block m = (case BlockMapExtract m 0 of (m', block, n) \<Rightarrow> (m', nat block, nat n))"

interpretation bm: block_set blocks "\<lambda>m. True" extract_block
proof unfold_locales
  show "blocks m = {} \<Longrightarrow> extract_block m = (m', b, n) \<Longrightarrow> n = 0" for m m' b n
    using BlockMapExtract_spec [of m 0] by (auto simp: extract_block_def split: prod.splits)
  show "blocks m \<noteq> {} \<Longrightarrow> extract_block m = (m', b, n) \<Longrightarrow>
      maximal_run (blocks m) b n \<and> blocks m' = blocks m - {b..<b + n}" for m m' b n
    using BlockMapExtract_spec [of m 0] by (auto simp: extract_block_def split: prod.splits)
qed simp_all

lemma ranges_drain: "card (blocks m) \<le> k \<Longrightarrow> drain extract_block k m = ranges m"
  using bm.drain_decomposes [of m k] ranges_separated [of m] ranges_partition [of m]
  by (intro separated_unique) (simp_all add: separated_def covered_def)

section \<open>Properties\<close>



text \<open>
  C16. \<^const>\<open>BlockMapMerge\<close> adds the blocks of the first map to the second and returns how many of
  them were new; \<^const>\<open>BlockMapAlloc\<close> reports whether the block was there and sets it;
  \<^const>\<open>BlockMapInvert\<close> yields the complement; \<^const>\<open>BlockMapFirst\<close> is the least block of the map,
  or \<open>MAXCHUNKSIZE\<close> for the empty map.
\<close>

theorem blockmap_set_ops:
  assumes "BlockMap_t from" and "BlockMap_t to"
  shows "(\<exists>to'. BlockMapMerge from to = (to', int (card (blocks from - blocks to))) \<and>
       BlockMap_t to' \<and> blocks to' = blocks from \<union> blocks to) \<and>
    (\<forall>b. 0 \<le> b \<and> b < MAXCHUNKSIZE \<longrightarrow>
       (\<exists>to'. BlockMapAlloc to b = Some (nat b \<in> blocks to, to') \<and> BlockMap_t to' \<and>
          blocks to' = insert (nat b) (blocks to))) \<and>
    blocks (BlockMapInvert to) = {..<nat MAXCHUNKSIZE} - blocks to \<and>
    BlockMapFirst to = (if blocks to = {} then MAXCHUNKSIZE else int (Min (blocks to)))"
proof (intro conjI allI impI)
  have len: "length from = length to" using assms by (simp add: BlockMap_t_length)
  show "\<exists>to'. BlockMapMerge from to = (to', int (card (blocks from - blocks to))) \<and>
       BlockMap_t to' \<and> blocks to' = blocks from \<union> blocks to"
    using BlockMapMerge_spec [OF len] assms by (auto simp: BlockMap_t_length)
  show "blocks (BlockMapInvert to) = {..<nat MAXCHUNKSIZE} - blocks to"
    using assms(2) by (simp add: blocks_BlockMapInvert BlockMap_t_length MAXCHUNKSIZE_def)
  show "BlockMapFirst to = (if blocks to = {} then MAXCHUNKSIZE else int (Min (blocks to)))"
    using assms(2) by (simp add: BlockMapFirst_spec BlockMap_t_length MAXCHUNKSIZE_def)
qed (use BlockMapAlloc_Some [OF assms(2)] in blast)

theorem blockmap_set_ops_witness:
  "BlockMap_t (replicate 128 5) \<and> BlockMap_t (replicate 128 0) \<and>
   BlockMapFirst (replicate 128 0) = 1024"
proof -
  have m: "BlockMap_t (replicate 128 5)" "BlockMap_t (replicate 128 0)"
    by (simp_all add: BlockMap_t_length)
  from blockmap_set_ops [OF m] m show ?thesis by (simp add: MAXCHUNKSIZE_def)
qed

text \<open>
  C14. \<^const>\<open>BlockMapExtract\<close>, called until it returns zero, and \<^const>\<open>BlockMapApply\<close>, called once,
  hand out the same ranges in the same order: the maximal contiguous runs of the map, each non-empty,
  in increasing order, and together exactly the allocated blocks.
\<close>

theorem extract_apply_same_ranges:
  "BlockMapApply m chunk (Some f) s =
     (case apply_runs (Some f) chunk (drain extract_block (card (blocks m)) m) 0 s of
        (did, s') \<Rightarrow> (int did, s')) \<and>
   separated (drain extract_block (card (blocks m)) m) \<and>
   covered (drain extract_block (card (blocks m)) m) = blocks m"
  using BlockMapApply_runs [of m chunk "Some f" s] ranges_drain [of m "card (blocks m)"]
    bm.drain_decomposes [of m "card (blocks m)"] by simp

end
