(* ===== verification/Sizes.thy ===== *)
theory Sizes
  imports BlockMap
begin

text \<open>
  The geometry of an image (utils.c: \<^verbatim>\<open>InitSizes\<close>, \<^verbatim>\<open>ChunkSize\<close>, \<^verbatim>\<open>ChunkBytes\<close>, \<^verbatim>\<open>BlockSize\<close>
  and the two \<^verbatim>\<open>Total\<close> accessors): an image of \<open>bytes\<close> bytes is cut into chunks of
  \<open>MAXCHUNKSIZE\<close> blocks of \<open>MAXBLOCKSIZE\<close> bytes, with a short last block in a short last
  chunk. The file-level variables are one record. The theorems relate the six numbers to the size of the image
  and show where \<^verbatim>\<open>ChunkBytes\<close> does not return the number of bytes in the last chunk.
\<close>

section \<open>Definitions\<close>

record sizes =
  sz_ChunkSize :: int
  sz_BlockSize :: int
  sz_TotalChunks :: int
  sz_TotalBlocks :: int
  sz_LastChunkSize :: int
  sz_LastBlockSize :: int

definition InitSizes :: "int \<Rightarrow> int \<Rightarrow> int \<Rightarrow> sizes option" where
  "InitSizes chunksize blocksize bytes = do {
     c_assert (chunksize = MAXCHUNKSIZE);
     c_assert (blocksize = MAXBLOCKSIZE);
     let totalblocks = to_i32 (c_div (bytes + blocksize - 1) blocksize);
         totalchunks = c_div (to_i32 (totalblocks + chunksize - 1)) chunksize in
     Some \<lparr>sz_ChunkSize = chunksize, sz_BlockSize = blocksize,
           sz_TotalChunks = totalchunks, sz_TotalBlocks = totalblocks,
           sz_LastChunkSize = c_mod totalblocks chunksize,
           sz_LastBlockSize = to_i32 (c_mod bytes blocksize)\<rparr>
   }"

definition TotalChunks :: "sizes \<Rightarrow> int" where
  "TotalChunks sz = sz_TotalChunks sz"

definition TotalBlocks :: "sizes \<Rightarrow> int" where
  "TotalBlocks sz = sz_TotalBlocks sz"

definition ChunkSize :: "sizes \<Rightarrow> int \<Rightarrow> int option" where
  "ChunkSize sz chunkno = do {
     c_assert (chunkno < sz_TotalChunks sz);
     if chunkno < sz_TotalChunks sz - 1 \<or> sz_LastChunkSize sz = 0
     then Some (sz_ChunkSize sz)
     else Some (sz_LastChunkSize sz)
   }"

definition ChunkBytes :: "sizes \<Rightarrow> int \<Rightarrow> int option" where
  "ChunkBytes sz chunkno = do {
     c_assert (chunkno < sz_TotalChunks sz);
     if chunkno < sz_TotalChunks sz - 1 \<or> sz_LastChunkSize sz = 0
     then Some (sz_ChunkSize sz * sz_BlockSize sz)
     else Some ((sz_LastChunkSize sz - 1) * sz_BlockSize sz + sz_LastBlockSize sz)
   }"

definition BlockSize :: "sizes \<Rightarrow> int \<Rightarrow> int \<Rightarrow> int option" where
  "BlockSize sz chunkno blockno = do {
     c_assert (chunkno < sz_TotalChunks sz \<and> blockno < sz_BlockSize sz);
     let imageblock = chunkno * sz_ChunkSize sz + blockno in
     if chunkno < 0 \<or> imageblock < sz_TotalBlocks sz - 1 \<or> sz_LastBlockSize sz = 0
     then Some (sz_BlockSize sz)
     else Some (sz_LastBlockSize sz)
   }"

text \<open>The macros \<^verbatim>\<open>CHUNKSIZE\<close> and \<^verbatim>\<open>BLOCKSIZE\<close> of utils.h.\<close>

definition CHUNKSIZE :: "sizes \<Rightarrow> int option" where
  "CHUNKSIZE sz = ChunkSize sz (- 1)"

definition BLOCKSIZE :: "sizes \<Rightarrow> int option" where
  "BLOCKSIZE sz = BlockSize sz (- 1) (- 1)"

section \<open>The geometry of an image of a given size\<close>

text \<open>
  Image sizes for which no 32-bit count wraps: the number of blocks, rounded up to whole chunks,
  is below \<open>2\<^sup>3\<^sup>1\<close>.
\<close>

definition size_ok :: "int \<Rightarrow> bool" where
  "size_ok bytes \<longleftrightarrow> 0 \<le> bytes \<and> bytes \<le> (2 ^ 31 - 1024) * 1024"

definition geometry :: "int \<Rightarrow> sizes" where
  "geometry bytes =
     \<lparr>sz_ChunkSize = 1024, sz_BlockSize = 1024,
      sz_TotalChunks = ((bytes + 1023) div 1024 + 1023) div 1024,
      sz_TotalBlocks = (bytes + 1023) div 1024,
      sz_LastChunkSize = (bytes + 1023) div 1024 mod 1024,
      sz_LastBlockSize = bytes mod 1024\<rparr>"

lemma InitSizes_geometry:
  assumes "size_ok bytes"
  shows "InitSizes MAXCHUNKSIZE MAXBLOCKSIZE bytes = Some (geometry bytes)"
proof -
  let ?tb = "(bytes + 1023) div 1024"
  have tb: "0 \<le> ?tb" "?tb + 1023 < 2 ^ 31" using assms by (auto simp: size_ok_def)
  have "to_i32 ?tb = ?tb" by (rule to_i32_id) (use tb in auto)
  moreover have "to_i32 (?tb + 1023) = ?tb + 1023" by (rule to_i32_id) (use tb in auto)
  moreover have "to_i32 (bytes mod 1024) = bytes mod 1024" by (rule to_i32_id) (auto intro: order_less_trans [of _ 1024])
  ultimately show ?thesis using assms tb
    by (simp add: InitSizes_def geometry_def MAXCHUNKSIZE_def MAXBLOCKSIZE_def c_div_pos c_mod_pos
        size_ok_def Let_def add.commute [of 1023])
qed

lemma ceil_less: "c < (x + 1023) div 1024 \<longleftrightarrow> c * 1024 < x" for c x :: int
  by linarith

text \<open>\<open>q\<close> units of 1024 cover \<open>x\<close>, and \<open>r\<close> is what the last of them holds, zero for a full one.\<close>

definition cover :: "int \<Rightarrow> int \<Rightarrow> int \<Rightarrow> bool" where
  "cover x q r \<longleftrightarrow> r = 0 \<and> x = q * 1024 \<or>
     r = x - (q - 1) * 1024 \<and> (q - 1) * 1024 < x \<and> x < q * 1024"

lemma cover_ceil: "cover x ((x + 1023) div 1024) (x mod 1024)"
proof -
  obtain d r where d: "x div 1024 = d" and r: "x mod 1024 = r" by blast
  have x: "x = d * 1024 + r" using div_mult_mod_eq [of x 1024] d r by simp
  have r0: "0 \<le> r" "r < 1024" using r by auto
  have "(x + 1023) div 1024 = (if r = 0 then d else d + 1)"
  proof (cases "r = 0")
    case True
    have "(x + 1023) div 1024 = d"
      by (rule int_div_pos_eq [of _ _ _ 1023]) (simp_all add: x True)
    with True show ?thesis by simp
  next
    case False
    have "(x + 1023) div 1024 = d + 1"
      by (rule int_div_pos_eq [of _ _ _ "r - 1"]) (use x False r0 in simp_all)
    with False show ?thesis by simp
  qed
  then show ?thesis using x r r0 by (simp add: cover_def)
qed

lemma cover_unit:
  assumes "cover x q r" and "b < q"
  shows "(if b < q - 1 \<or> r = 0 then 1024 else r) = min 1024 (x - b * 1024)"
proof (cases "b < q - 1")
  case True
  then have "b + 2 \<le> q" by simp
  with assms True show ?thesis by (auto simp: cover_def min_def)
next
  case False
  with assms(2) have "b = q - 1" by simp
  with assms(1) show ?thesis by (auto simp: cover_def min_def)
qed

lemma TotalChunks_iff: "c < TotalChunks (geometry bytes) \<longleftrightarrow> c * 1024 < TotalBlocks (geometry bytes)"
  unfolding TotalChunks_def TotalBlocks_def geometry_def sizes.simps by (rule ceil_less)

lemma TotalBlocks_iff: "b < TotalBlocks (geometry bytes) \<longleftrightarrow> b * 1024 < bytes"
  unfolding TotalBlocks_def geometry_def sizes.simps by (rule ceil_less)

lemma geometry_ChunkSize:
  assumes "c < TotalChunks (geometry bytes)"
  shows "ChunkSize (geometry bytes) c = Some (min 1024 (TotalBlocks (geometry bytes) - c * 1024))"
proof -
  define tb where "tb = TotalBlocks (geometry bytes)"
  have tc: "TotalChunks (geometry bytes) = (tb + 1023) div 1024"
    by (simp add: tb_def TotalChunks_def TotalBlocks_def geometry_def)
  have "ChunkSize (geometry bytes) c =
    Some (if c < (tb + 1023) div 1024 - 1 \<or> tb mod 1024 = 0 then 1024 else tb mod 1024)"
    using assms by (simp add: tb_def ChunkSize_def TotalChunks_def TotalBlocks_def geometry_def)
  moreover have "c < (tb + 1023) div 1024" using assms tc by simp
  ultimately show ?thesis unfolding tb_def [symmetric]
    by (simp only: cover_unit [OF cover_ceil])
qed

lemma geometry_ChunkSize_range:
  assumes "c < TotalChunks (geometry bytes)" and "ChunkSize (geometry bytes) c = Some n"
  shows "0 < n \<and> n \<le> 1024"
  using geometry_ChunkSize [OF assms(1)] assms by (simp add: TotalChunks_iff)

lemma geometry_BlockSize:
  assumes "0 \<le> c" and "b < 1024" and "0 \<le> b" and "c * 1024 + b < TotalBlocks (geometry bytes)"
  shows "BlockSize (geometry bytes) c b = Some (min 1024 (bytes - (c * 1024 + b) * 1024))"
proof -
  define ib where "ib = c * 1024 + b"
  have ib: "ib < (bytes + 1023) div 1024" using assms(4) by (simp add: ib_def TotalBlocks_def geometry_def)
  have "c < TotalChunks (geometry bytes)" using assms by (simp add: TotalChunks_iff)
  then have "BlockSize (geometry bytes) c b =
    Some (if ib < (bytes + 1023) div 1024 - 1 \<or> bytes mod 1024 = 0 then 1024 else bytes mod 1024)"
    using assms(1,2) by (simp add: ib_def BlockSize_def TotalChunks_def geometry_def Let_def)
  with ib show ?thesis unfolding ib_def [symmetric]
    by (simp only: cover_unit [OF cover_ceil])
qed

text \<open>The number of bytes of the image in chunk \<open>c\<close>.\<close>

definition chunk_len :: "int \<Rightarrow> int \<Rightarrow> int" where
  "chunk_len bytes c = min (1024 * 1024) (bytes - c * 1024 * 1024)"

lemma cover_chunk:
  assumes "cover bytes tb lb" and "cover tb tc lc" and "c < tc"
  shows "(if c < tc - 1 \<or> lc = 0 then 1024 * 1024 else (lc - 1) * 1024 + lb) =
    (if c < tc - 1 then chunk_len bytes c
     else if lc = 0 then 1024 * 1024
     else if lb = 0 then chunk_len bytes c - 1024
     else chunk_len bytes c)"
proof (cases "c < tc - 1")
  case True
  then have "c + 2 \<le> tc" by simp
  with assms(1,2) True show ?thesis by (auto simp: cover_def chunk_len_def min_def)
next
  case False
  with assms(3) have "c = tc - 1" by simp
  with assms(1,2) show ?thesis by (auto simp: cover_def chunk_len_def min_def)
qed

lemma geometry_ChunkBytes:
  assumes "c < TotalChunks (geometry bytes)"
  shows "ChunkBytes (geometry bytes) c = Some
    (if c < TotalChunks (geometry bytes) - 1 then chunk_len bytes c
     else if TotalBlocks (geometry bytes) mod 1024 = 0 then 1024 * 1024
     else if bytes mod 1024 = 0 then chunk_len bytes c - 1024
     else chunk_len bytes c)"
proof -
  define tb where "tb = TotalBlocks (geometry bytes)"
  define tc where "tc = TotalChunks (geometry bytes)"
  have cov: "cover bytes tb (bytes mod 1024)" "cover tb tc (tb mod 1024)"
    using cover_ceil [of bytes] cover_ceil [of tb]
    by (simp_all add: tc_def tb_def TotalChunks_def TotalBlocks_def geometry_def)
  have "ChunkBytes (geometry bytes) c = Some
    (if c < tc - 1 \<or> tb mod 1024 = 0 then 1024 * 1024
     else (tb mod 1024 - 1) * 1024 + bytes mod 1024)"
    using assms by (simp add: tc_def tb_def ChunkBytes_def TotalChunks_def TotalBlocks_def geometry_def)
  moreover have "c < tc" using assms by (simp add: tc_def)
  ultimately show ?thesis unfolding tb_def [symmetric] tc_def [symmetric]
    by (simp only: cover_chunk [OF cov])
qed

lemma sum_units:
  fixes x :: int
  assumes "\<And>c. c < k \<Longrightarrow> int c * 1024 < x"
  shows "(\<Sum>c<k. min 1024 (x - int c * 1024)) = min (int k * 1024) x \<or> k = 0"
  using assms
proof (induction k)
  case 0
  then show ?case by simp
next
  case (Suc k)
  then have "int k * 1024 < x" by simp
  with Suc show ?case by (cases "k = 0") (auto simp: min_def)
qed

lemma sum_ChunkSize:
  assumes "0 \<le> bytes"
  shows "(\<Sum>c<nat (TotalChunks (geometry bytes)). the (ChunkSize (geometry bytes) (int c)))
    = TotalBlocks (geometry bytes)"
proof -
  let ?tc = "TotalChunks (geometry bytes)" and ?tb = "TotalBlocks (geometry bytes)"
  have in_tc: "int c < ?tc" if "c < nat ?tc" for c using that by simp
  then have eq: "(\<Sum>c<nat ?tc. the (ChunkSize (geometry bytes) (int c))) =
      (\<Sum>c<nat ?tc. min 1024 (?tb - int c * 1024))"
    by (intro sum.cong) (simp_all add: geometry_ChunkSize)
  have le: "?tb \<le> ?tc * 1024" using TotalChunks_iff [of ?tc bytes] by simp
  have "0 \<le> ?tb" using assms by (simp add: TotalBlocks_def geometry_def)
  moreover have "?tc \<le> 0 \<Longrightarrow> ?tb \<le> 0" using TotalChunks_iff [of 0 bytes] by simp
  ultimately show ?thesis
    using sum_units [of "nat ?tc" ?tb] eq le in_tc by (auto simp: TotalChunks_iff)
qed

lemma geometry_CHUNKSIZE:
  assumes "0 \<le> bytes"
  shows "CHUNKSIZE (geometry bytes) = Some 1024" and "BLOCKSIZE (geometry bytes) = Some 1024"
proof -
  define tb where "tb = TotalBlocks (geometry bytes)"
  have tb0: "0 \<le> tb" using assms TotalBlocks_iff [of "- 1" bytes] by (simp add: tb_def)
  have tc: "sz_TotalChunks (geometry bytes) = TotalChunks (geometry bytes)" by (simp add: TotalChunks_def)
  have sz: "sz_ChunkSize (geometry bytes) = 1024" "sz_BlockSize (geometry bytes) = 1024"
    "sz_LastChunkSize (geometry bytes) = tb mod 1024"
    by (simp_all add: geometry_def tb_def TotalBlocks_def)
  have pos: "- 1 < TotalChunks (geometry bytes)" using tb0 TotalChunks_iff [of "- 1" bytes] by (simp add: tb_def)
  have "- 1 < TotalChunks (geometry bytes) - 1 \<or> tb mod 1024 = 0"
    using TotalChunks_iff [of 0 bytes] tb0 by (cases "tb = 0") (simp_all add: tb_def)
  then show "CHUNKSIZE (geometry bytes) = Some 1024" using pos by (simp add: CHUNKSIZE_def ChunkSize_def tc sz)
  show "BLOCKSIZE (geometry bytes) = Some 1024" using pos by (simp add: BLOCKSIZE_def BlockSize_def tc sz Let_def)
qed

section \<open>The blocks of an image\<close>

text \<open>
  The bytes of a block as they are in the image, and as they travel in a packet: the short last block of an image is
  filled up with zero bytes.
\<close>

definition block_slice :: "byte list \<Rightarrow> int \<Rightarrow> int \<Rightarrow> byte list" where
  "block_slice img chunk block = take 1024 (drop (nat ((chunk * 1024 + block) * 1024)) img)"

definition padded :: "byte list \<Rightarrow> byte list" where
  "padded xs = xs @ replicate (1024 - length xs) 0"

definition image_block :: "byte list \<Rightarrow> int \<Rightarrow> int \<Rightarrow> byte list" where
  "image_block img chunk block = padded (block_slice img chunk block)"

definition in_image :: "byte list \<Rightarrow> (int \<times> nat) set" where
  "in_image img = {(c, b). (c * 1024 + int b) * 1024 < int (length img)}"

section \<open>Properties\<close>

text \<open>
  C17. For every image whose counts fit 32 bits, \<^const>\<open>InitSizes\<close> cuts the image exactly: a chunk exists iff
  it holds some byte of the image, every chunk has between 1 and 1024 blocks, block \<open>b\<close> of chunk \<open>c\<close>
  has the bytes of the image from offset \<open>(1024 c + b) * 1024\<close> on, 1024 of them or what is left,
  and the chunk sizes add up to the total number of blocks.
\<close>

theorem image_geometry:
  assumes "size_ok bytes" and "InitSizes MAXCHUNKSIZE MAXBLOCKSIZE bytes = Some sz"
  shows "(\<forall>c. c < TotalChunks sz \<longleftrightarrow> c * 1024 * 1024 < bytes) \<and>
    (\<Sum>c<nat (TotalChunks sz). the (ChunkSize sz (int c))) = TotalBlocks sz \<and>
    (\<forall>c. 0 \<le> c \<and> c < TotalChunks sz \<longrightarrow>
      (\<exists>n. ChunkSize sz c = Some n \<and> 0 < n \<and> n \<le> 1024 \<and>
        (\<forall>b. 0 \<le> b \<and> b < n \<longrightarrow>
          BlockSize sz c b = Some (min 1024 (bytes - (c * 1024 + b) * 1024)))))"
proof -
  have sz: "sz = geometry bytes" using assms InitSizes_geometry by simp
  have blk: "BlockSize sz c b = Some (min 1024 (bytes - (c * 1024 + b) * 1024))"
    if "0 \<le> c" "c < TotalChunks sz" "ChunkSize sz c = Some n" "0 \<le> b" "b < n" for c n b
  proof -
    have "n = min 1024 (TotalBlocks sz - c * 1024)"
      using that(2,3) geometry_ChunkSize [of c bytes] by (simp add: sz)
    then have "b < 1024" "c * 1024 + b < TotalBlocks sz" using that(5) by simp_all
    then show ?thesis using that(1,4) unfolding sz by (intro geometry_BlockSize)
  qed
  have "\<exists>n. ChunkSize sz c = Some n \<and> 0 < n \<and> n \<le> 1024 \<and> (\<forall>b. 0 \<le> b \<and> b < n \<longrightarrow>
      BlockSize sz c b = Some (min 1024 (bytes - (c * 1024 + b) * 1024)))"
    if c0: "0 \<le> c" and c: "c < TotalChunks sz" for c
  proof -
    obtain n where cs: "ChunkSize sz c = Some n"
      using geometry_ChunkSize [OF c [unfolded sz]] unfolding sz by blast
    moreover have "0 < n \<and> n \<le> 1024"
      by (rule geometry_ChunkSize_range [OF c [unfolded sz] cs [unfolded sz]])
    ultimately show ?thesis using blk [OF c0 c cs] by (intro exI [of _ n]) simp
  qed
  moreover have "(c < TotalChunks sz) = (c * 1024 * 1024 < bytes)" for c
    by (simp only: sz TotalChunks_iff TotalBlocks_iff)
  moreover have "(\<Sum>c<nat (TotalChunks sz). the (ChunkSize sz (int c))) = TotalBlocks sz"
    unfolding sz by (rule sum_ChunkSize) (rule conjunct1 [OF assms(1) [unfolded size_ok_def]])
  ultimately show ?thesis by (intro conjI allI impI) (simp_all only: simp_thms)
qed

theorem image_geometry_witness:
  "size_ok 3000000 \<and> InitSizes MAXCHUNKSIZE MAXBLOCKSIZE 3000000 = Some (geometry 3000000) \<and>
   (\<Sum>c<nat (TotalChunks (geometry 3000000)). the (ChunkSize (geometry 3000000) (int c))) = 2930"
proof -
  have ok: "size_ok 3000000" by (simp add: size_ok_def)
  note i = InitSizes_geometry [OF ok]
  have "TotalBlocks (geometry 3000000) = 2930" by (simp add: TotalBlocks_def geometry_def)
  with image_geometry [OF ok i] ok i show ?thesis by simp
qed

text \<open>
  What \<^const>\<open>ChunkBytes\<close> returns: the number of image bytes in the chunk (\<^const>\<open>chunk_len\<close>) for
  every chunk but the last. For the last chunk it is right when the image is a whole number of
  chunks, or when both its last chunk and its last block are short. It is 1024 too small when the last
  chunk is short and its last block is full, and it is the full megabyte when the last chunk has all its
  blocks and the last block is short.
\<close>

theorem ChunkBytes_exact:
  assumes "size_ok bytes" and "InitSizes MAXCHUNKSIZE MAXBLOCKSIZE bytes = Some sz"
    and "c < TotalChunks sz"
  shows "ChunkBytes sz c = Some
    (if c < TotalChunks sz - 1 then chunk_len bytes c
     else if TotalBlocks sz mod 1024 = 0 then 1024 * 1024
     else if bytes mod 1024 = 0 then chunk_len bytes c - 1024
     else chunk_len bytes c)"
proof -
  have sz: "sz = geometry bytes" using assms(1,2) InitSizes_geometry by simp
  show ?thesis unfolding sz by (rule geometry_ChunkBytes) (use assms(3) sz in simp)
qed

theorem ChunkBytes_exact_witness:
  "ChunkBytes (geometry 2048) 0 = Some 1024 \<and> chunk_len 2048 0 = 2048 \<and>
   ChunkBytes (geometry 1048575) 0 = Some 1048576 \<and> chunk_len 1048575 0 = 1048575"
proof -
  have ok: "size_ok 2048" "size_ok 1048575" by (simp_all add: size_ok_def)
  note i = InitSizes_geometry [OF ok(1)] InitSizes_geometry [OF ok(2)]
  have "0 < TotalChunks (geometry 2048)" "0 < TotalChunks (geometry 1048575)"
    by (simp_all add: TotalChunks_def geometry_def)
  from ChunkBytes_exact [OF ok(1) i(1) this(1)] ChunkBytes_exact [OF ok(2) i(2) this(2)]
  show ?thesis by (simp add: TotalChunks_def TotalBlocks_def geometry_def chunk_len_def)
qed

end
