(* ===== verification/Timeval.thy ===== *)
theory Timeval
  imports Prelude
begin

text \<open>
  The time arithmetic of utils.h (\<^verbatim>\<open>pasttime\<close>, \<^verbatim>\<open>addtime\<close>, \<^verbatim>\<open>subtime\<close>, \<^verbatim>\<open>addusec\<close>) and the
  rounding of \<^verbatim>\<open>sleeptime\<close> in utils.c. A \<^verbatim>\<open>struct timeval\<close> with its microseconds in
  \<open>0 .. 999999\<close> stands for a number of microseconds, and the operations are the arithmetic on
  these numbers.
\<close>

section \<open>Definitions\<close>

record timeval =
  tv_sec :: int
  tv_usec :: int

definition pasttime :: "timeval \<Rightarrow> timeval \<Rightarrow> bool" where
  "pasttime cur nxt \<longleftrightarrow> tv_sec cur > tv_sec nxt \<or>
     tv_sec cur = tv_sec nxt \<and> tv_usec cur \<ge> tv_usec nxt"

definition addtime :: "timeval \<Rightarrow> timeval \<Rightarrow> timeval" where
  "addtime cur inc =
     (let s = tv_sec cur + tv_sec inc; u = tv_usec cur + tv_usec inc in
      if u \<ge> 1000000 then \<lparr>tv_sec = s + 1, tv_usec = u - 1000000\<rparr>
      else \<lparr>tv_sec = s, tv_usec = u\<rparr>)"

definition subtime :: "timeval \<Rightarrow> timeval \<Rightarrow> timeval" where
  "subtime cur decr =
     (if tv_usec cur < tv_usec decr
      then \<lparr>tv_sec = (tv_sec cur - 1) - tv_sec decr,
            tv_usec = (tv_usec cur + 1000000) - tv_usec decr\<rparr>
      else \<lparr>tv_sec = tv_sec cur - tv_sec decr, tv_usec = tv_usec cur - tv_usec decr\<rparr>)"

function addusec_loop :: "int \<Rightarrow> int \<Rightarrow> timeval" where
  "addusec_loop s u =
     (if u \<ge> 1000000 then addusec_loop (s + 1) (u - 1000000)
      else \<lparr>tv_sec = s, tv_usec = u\<rparr>)"
  by pat_completeness auto
termination
  by (relation "measure (\<lambda>(s, u). nat u)") auto

definition addusec :: "timeval \<Rightarrow> int \<Rightarrow> timeval" where
  "addusec cur usec = addusec_loop (tv_sec cur) (tv_usec cur + usec)"

text \<open>
  \<^verbatim>\<open>sleeptime(usecs, str, doround)\<close> with the clock resolution that the first call caches in
  \<^verbatim>\<open>clockres_us\<close>; the warnings are not modelled. The sum and product are computed in
  \<^verbatim>\<open>unsigned int\<close> and the result is stored in an \<^verbatim>\<open>int\<close>.
\<close>

definition sleeptime :: "int \<Rightarrow> int \<Rightarrow> bool \<Rightarrow> int" where
  "sleeptime clockres usecs doround =
     (if doround
      then to_i32 (to_u32 (to_u32 (usecs + clockres - 1) div clockres * clockres))
      else to_i32 usecs)"

text \<open>
  \<^verbatim>\<open>sleeptil(nexttime)\<close> at the current time: \<^const>\<open>None\<close> when the time has passed (it returns 0
  without sleeping), otherwise the time slept (it returns 1).
\<close>

definition sleeptil :: "timeval \<Rightarrow> timeval \<Rightarrow> timeval option" where
  "sleeptil curtime nexttime =
     (if \<not> pasttime curtime nexttime then Some (subtime nexttime curtime) else None)"

declare addusec_loop.simps [simp del]

section \<open>Arithmetic on microseconds\<close>

definition tv_ok :: "timeval \<Rightarrow> bool" where
  "tv_ok t \<longleftrightarrow> 0 \<le> tv_usec t \<and> tv_usec t < 1000000"

definition usecs_of :: "timeval \<Rightarrow> int" where
  "usecs_of t = tv_sec t * 1000000 + tv_usec t"

lemma pasttime_iff: "tv_ok a \<Longrightarrow> tv_ok b \<Longrightarrow> pasttime a b \<longleftrightarrow> usecs_of b \<le> usecs_of a"
  by (auto simp: pasttime_def tv_ok_def usecs_of_def)

lemma addtime_ok: "tv_ok a \<Longrightarrow> tv_ok b \<Longrightarrow> tv_ok (addtime a b) \<and> usecs_of (addtime a b) = usecs_of a + usecs_of b"
  by (auto simp: addtime_def tv_ok_def usecs_of_def Let_def algebra_simps)

lemma subtime_ok: "tv_ok a \<Longrightarrow> tv_ok b \<Longrightarrow> tv_ok (subtime a b) \<and> usecs_of (subtime a b) = usecs_of a - usecs_of b"
  by (auto simp: subtime_def tv_ok_def usecs_of_def algebra_simps)

lemma addusec_loop_ok:
  "0 \<le> u \<Longrightarrow> tv_ok (addusec_loop s u) \<and> usecs_of (addusec_loop s u) = s * 1000000 + u"
proof (induction s u rule: addusec_loop.induct)
  case (1 s u)
  show ?case
  proof (cases "u \<ge> 1000000")
    case True
    with 1 show ?thesis by (simp add: addusec_loop.simps [of s u] algebra_simps)
  next
    case False
    with 1 show ?thesis by (simp add: addusec_loop.simps [of s u] tv_ok_def usecs_of_def)
  qed
qed

lemma addusec_ok: "tv_ok a \<Longrightarrow> 0 \<le> n \<Longrightarrow> tv_ok (addusec a n) \<and> usecs_of (addusec a n) = usecs_of a + n"
  using addusec_loop_ok [of "tv_usec a + n" "tv_sec a"]
  by (simp add: addusec_def tv_ok_def usecs_of_def algebra_simps)

lemma round_up:
  fixes u c :: int
  assumes "0 < c"
  shows "u \<le> (u + c - 1) div c * c \<and> (u + c - 1) div c * c < u + c"
proof -
  have "(u + c - 1) div c * c = (u + c - 1) - (u + c - 1) mod c"
    by (simp add: minus_mod_eq_div_mult)
  moreover have "0 \<le> (u + c - 1) mod c" "(u + c - 1) mod c < c" using assms by auto
  ultimately show ?thesis by linarith
qed

section \<open>Properties\<close>

text \<open>
  On normalised times the routines of utils.h compute: the results are normalised again,
  \<^const>\<open>addtime\<close>, \<^const>\<open>subtime\<close> and \<^const>\<open>addusec\<close> are the sum and the difference in microseconds,
  \<^const>\<open>pasttime\<close> compares, and \<^const>\<open>sleeptil\<close> sleeps exactly until the requested time, if that time
  is in the future. \<^const>\<open>addusec\<close>'s loop ends for every amount.
\<close>

theorem timeval_arithmetic:
  assumes "tv_ok a" and "tv_ok b" and "0 \<le> n"
  shows "tv_ok (addtime a b) \<and> usecs_of (addtime a b) = usecs_of a + usecs_of b \<and>
    tv_ok (subtime a b) \<and> usecs_of (subtime a b) = usecs_of a - usecs_of b \<and>
    tv_ok (addusec a n) \<and> usecs_of (addusec a n) = usecs_of a + n \<and>
    (pasttime a b \<longleftrightarrow> usecs_of b \<le> usecs_of a) \<and>
    (case sleeptil a b of None \<Rightarrow> usecs_of b \<le> usecs_of a
     | Some d \<Rightarrow> usecs_of a < usecs_of b \<and> tv_ok d \<and> usecs_of a + usecs_of d = usecs_of b)"
  using addtime_ok [OF assms(1,2)] subtime_ok [OF assms(1,2)] subtime_ok [OF assms(2,1)]
    addusec_ok [OF assms(1,3)] pasttime_iff [OF assms(1,2)]
  by (auto simp: sleeptil_def)

theorem timeval_arithmetic_witness:
  "tv_ok \<lparr>tv_sec = 5, tv_usec = 999999\<rparr> \<and>
   usecs_of (addusec \<lparr>tv_sec = 5, tv_usec = 999999\<rparr> 2500000) = 8499999"
proof -
  let ?a = "\<lparr>tv_sec = 5, tv_usec = 999999\<rparr>"
  have a: "tv_ok ?a" by (simp add: tv_ok_def)
  from timeval_arithmetic [OF a a, of 2500000] a show ?thesis by (simp add: usecs_of_def)
qed

text \<open>
  \<^const>\<open>sleeptime\<close> with rounding returns the least multiple of the clock resolution that is at
  least the requested time, as long as that fits an \<^verbatim>\<open>int\<close>.
\<close>

theorem sleeptime_rounds_up:
  assumes "0 < clockres" and "0 \<le> usecs" and "usecs + clockres \<le> 2 ^ 31"
  shows "clockres dvd sleeptime clockres usecs True \<and>
    usecs \<le> sleeptime clockres usecs True \<and> sleeptime clockres usecs True < usecs + clockres"
proof -
  let ?r = "(usecs + clockres - 1) div clockres * clockres"
  note r = round_up [OF assms(1), of usecs]
  have "to_u32 (usecs + clockres - 1) = usecs + clockres - 1"
    using assms by (simp add: to_u32_def)
  moreover have "to_u32 ?r = ?r" using r assms by (simp add: to_u32_def)
  moreover have "to_i32 ?r = ?r" by (rule to_i32_id) (use r assms in auto)
  ultimately show ?thesis using r by (simp add: sleeptime_def)
qed

theorem sleeptime_rounds_up_witness: "sleeptime 1000 2500 True = 3000"
proof -
  have "1000 dvd sleeptime 1000 2500 True" "2500 \<le> sleeptime 1000 2500 True"
    "sleeptime 1000 2500 True < 3500"
    using sleeptime_rounds_up [of 1000 2500] by simp_all
  then show ?thesis by (auto elim: dvdE)
qed

end
