(* ===== verification/WorkQueue.thy ===== *)
theory WorkQueue
  imports Sizes Timeval
begin

text \<open>
  The server's work queue (server.c: \<^verbatim>\<open>WorkQueueInit\<close>, \<^verbatim>\<open>WorkQueueEnqueueJoin\<close>,
  \<^verbatim>\<open>WorkQueueEnqueueChunk\<close>, \<^verbatim>\<open>WorkQueueDequeue\<close>). The queue is a list of elements, head first; the operations
  run under the queue's mutex, so each of them is one step. The abstract view is the set of pending
  (chunk, block) pairs: a request adds its pairs, a dequeue hands out a range of pairs, and a
  queue that is only dequeued serves everything that was pending.
\<close>

section \<open>Definitions\<close>

text \<open>
  A \<^verbatim>\<open>WQelem_t\<close> with its queue links left out. A join reply is an element whose chunk is the negated
  version of the join and whose \<^verbatim>\<open>nblocks\<close> is the client's number.
\<close>

record wqelem =
  wq_chunk :: int
  wq_nblocks :: int
  wq_map :: blockmap

record workq =
  WorkQ :: "wqelem list"
  WorkQDelay :: int
  WorkQSize :: int
  WorkChunk :: int
  WorkBlock :: int
  WorkCount :: int
  WorkQMax :: int
  WorkQMaxBlocks :: int

text \<open>The static initial values, and what \<^verbatim>\<open>WorkQueueInit\<close> makes of them.\<close>

definition WorkQ_static :: workq where
  "WorkQ_static = \<lparr>WorkQ = [], WorkQDelay = - 1, WorkQSize = 0, WorkChunk = 0, WorkBlock = 0,
     WorkCount = 0, WorkQMax = 0, WorkQMaxBlocks = 0\<rparr>"

definition WorkQueueInit :: "int \<Rightarrow> workq \<Rightarrow> workq" where
  "WorkQueueInit clockres w =
     w\<lparr>WorkQ := [],
       WorkQDelay := (if WorkQDelay w < 0 then sleeptime clockres 1 True else WorkQDelay w)\<rparr>"

definition WorkQueueEnqueueJoin :: "int \<Rightarrow> int \<Rightarrow> workq \<Rightarrow> workq" where
  "WorkQueueEnqueueJoin vers clientid w =
     (let wqel = \<lparr>wq_chunk = - vers, wq_nblocks = to_i32 clientid, wq_map = replicate 128 0\<rparr>;
          size = WorkQSize w + 1 in
      w\<lparr>WorkQ := wqel # WorkQ w, WorkQSize := size,
        WorkQMax := (if size > WorkQMax w then size else WorkQMax w)\<rparr>)"

text \<open>The merge of a request into a queued element of the same chunk.\<close>

definition merge_request :: "wqelem \<Rightarrow> blockmap \<Rightarrow> int \<Rightarrow> wqelem option" where
  "merge_request wqel bmap n =
     (let (m, added) =
        (if wq_nblocks wqel = MAXCHUNKSIZE then (wq_map wqel, 0)
         else if n = MAXCHUNKSIZE then (bmap, MAXCHUNKSIZE - wq_nblocks wqel)
         else BlockMapMerge bmap (wq_map wqel));
        total = wq_nblocks wqel + added in
      do {
        c_assert (total \<le> MAXCHUNKSIZE);
        Some (wqel\<lparr>wq_nblocks := total, wq_map := m\<rparr>)
      })"

text \<open>
  The backwards scan over the first \<open>k\<close> elements. It returns the changed queue when the request was merged,
  and \<^const>\<open>None\<close> with the number of queued blocks when no element took it.
\<close>

fun enqueue_scan ::
  "workq \<Rightarrow> int \<Rightarrow> blockmap \<Rightarrow> int \<Rightarrow> nat \<Rightarrow> int \<Rightarrow> (wqelem list option \<times> int) option" where
  "enqueue_scan w chunk bmap n 0 qblocks = Some (None, qblocks)"
| "enqueue_scan w chunk bmap n (Suc k) qblocks =
     (let wqel = WorkQ w ! k in
      if wq_chunk wqel = chunk then
        if k = 0 \<and> chunk = WorkChunk w \<and> BlockMapFirst bmap < WorkBlock w + WorkCount w
        then enqueue_scan w chunk bmap n k qblocks
        else do {
          wqel' \<leftarrow> merge_request wqel bmap n;
          Some (Some ((WorkQ w)[k := wqel']), qblocks)
        }
      else enqueue_scan w chunk bmap n k (qblocks + wq_nblocks wqel))"

definition WorkQueueEnqueueChunk :: "int \<Rightarrow> blockmap \<Rightarrow> int \<Rightarrow> workq \<Rightarrow> (int \<times> workq) option" where
  "WorkQueueEnqueueChunk chunk bmap n w =
     (if n = 0 then Some (0, w)
      else if n = MAXCHUNKSIZE \<and> chunk = WorkChunk w \<and> n = WorkCount w then Some (0, w)
      else do {
        (merged, qblocks) \<leftarrow> enqueue_scan w chunk bmap n (length (WorkQ w)) 0;
        case merged of
          Some q \<Rightarrow> Some (0, w\<lparr>WorkQ := q\<rparr>)
        | None \<Rightarrow>
            let wqel = \<lparr>wq_chunk = chunk, wq_nblocks = n, wq_map = bmap\<rparr>;
                size = WorkQSize w + 1 in
            Some (1, w\<lparr>WorkQ := WorkQ w @ [wqel], WorkQSize := size,
              WorkQMax := (if size > WorkQMax w then size else WorkQMax w),
              WorkQMaxBlocks := (if qblocks > WorkQMaxBlocks w then qblocks else WorkQMaxBlocks w)\<rparr>)
      })"

text \<open>
  The result is \<^const>\<open>None\<close> for an empty queue (the code returns 0 after a delay), else the
  values stored through \<^verbatim>\<open>chunkp\<close>, \<^verbatim>\<open>blockp\<close> and \<^verbatim>\<open>countp\<close>. A join reply leaves \<^verbatim>\<open>*blockp\<close> as it was.
\<close>

definition WorkQueueDequeue :: "int \<Rightarrow> workq \<Rightarrow> ((int \<times> int \<times> int) option \<times> workq) option" where
  "WorkQueueDequeue blockp w =
     (case WorkQ w of
        [] \<Rightarrow> Some (None, w\<lparr>WorkChunk := - 1\<rparr>)
      | wqel # rest \<Rightarrow>
          if wq_chunk wqel < 0
          then Some (Some (wq_chunk wqel, blockp, wq_nblocks wqel),
                     w\<lparr>WorkQ := rest, WorkQSize := WorkQSize w - 1\<rparr>)
          else
            let (m, block, n) =
              (if wq_nblocks wqel = MAXCHUNKSIZE then (wq_map wqel, 0, MAXCHUNKSIZE)
               else BlockMapExtract (wq_map wqel) blockp) in
            do {
              c_assert (n \<le> wq_nblocks wqel);
              let left = wq_nblocks wqel - n;
                  w' = (if left = 0 then w\<lparr>WorkQ := rest, WorkQSize := WorkQSize w - 1\<rparr>
                        else w\<lparr>WorkQ := wqel\<lparr>wq_nblocks := left, wq_map := m\<rparr> # rest\<rparr>) in
              Some (Some (wq_chunk wqel, block, n),
                    w'\<lparr>WorkChunk := wq_chunk wqel, WorkBlock := block, WorkCount := n\<rparr>)
            })"

section \<open>The invariant and the pending blocks\<close>

definition elem_ok :: "int \<Rightarrow> wqelem \<Rightarrow> bool" where
  "elem_ok nchunks e \<longleftrightarrow>
     (if wq_chunk e < 0 then wq_chunk e = - 1 \<or> wq_chunk e = - 2
      else wq_chunk e < nchunks \<and> BlockMap_t (wq_map e) \<and> 0 < wq_nblocks e \<and>
           wq_nblocks e = int (card (blocks (wq_map e))))"

definition data_elems :: "wqelem list \<Rightarrow> wqelem list" where
  "data_elems q = filter (\<lambda>e. 0 \<le> wq_chunk e) q"

definition workq_inv :: "int \<Rightarrow> workq \<Rightarrow> bool" where
  "workq_inv nchunks w \<longleftrightarrow> WorkQSize w = int (length (WorkQ w)) \<and>
     (\<forall>e \<in> set (WorkQ w). elem_ok nchunks e) \<and>
     distinct (map wq_chunk (tl (data_elems (WorkQ w))))"

definition elem_pairs :: "wqelem \<Rightarrow> (int \<times> nat) set" where
  "elem_pairs e = (if wq_chunk e < 0 then {} else {wq_chunk e} \<times> blocks (wq_map e))"

definition pending :: "workq \<Rightarrow> (int \<times> nat) set" where
  "pending w = (\<Union>e \<in> set (WorkQ w). elem_pairs e)"

text \<open>The work left: one unit for each pending block of each element and for each join reply.\<close>

definition elem_work :: "wqelem \<Rightarrow> nat" where
  "elem_work e = (if wq_chunk e < 0 then 1 else nat (wq_nblocks e))"

definition backlog :: "workq \<Rightarrow> nat" where
  "backlog w = sum_list (map elem_work (WorkQ w))"

lemma blocks_le: "BlockMap_t m \<Longrightarrow> blocks m \<subseteq> {..<1024}"
  using blocks_bound [of _ m] by (auto simp: BlockMap_t_length)

lemma card_blocks_le: "BlockMap_t m \<Longrightarrow> card (blocks m) \<le> 1024"
  using card_mono [OF _ blocks_le] by fastforce

lemma card_blocks_full: "BlockMap_t m \<Longrightarrow> card (blocks m) = 1024 \<Longrightarrow> blocks m = {..<1024}"
  by (rule card_subset_eq) (auto simp: blocks_le)

lemma data_elems_simps [simp]:
  "data_elems [] = []" "data_elems (xs @ ys) = data_elems xs @ data_elems ys"
  "data_elems (e # es) = (if wq_chunk e < 0 then data_elems es else e # data_elems es)"
  by (auto simp: data_elems_def)

lemma merge_request_spec:
  assumes "elem_ok nchunks e" and "0 \<le> wq_chunk e" and "BlockMap_t m" and "n = int (card (blocks m))"
  shows "\<exists>e'. merge_request e m n = Some e' \<and> wq_chunk e' = wq_chunk e \<and> elem_ok nchunks e' \<and>
    blocks (wq_map e') = blocks (wq_map e) \<union> blocks m"
proof -
  have e: "BlockMap_t (wq_map e)" "wq_nblocks e = int (card (blocks (wq_map e)))" "0 < wq_nblocks e"
    "wq_chunk e < nchunks"
    using assms by (auto simp: elem_ok_def)
  consider (full) "wq_nblocks e = 1024" | (all) "wq_nblocks e \<noteq> 1024" "n = 1024"
    | (merge) "wq_nblocks e \<noteq> 1024" "n \<noteq> 1024" by blast
  then show ?thesis
  proof cases
    case full
    then have "blocks (wq_map e) = {..<1024}" using e card_blocks_full by simp
    then show ?thesis using full assms blocks_le [OF assms(3)]
      by (auto simp: merge_request_def MAXCHUNKSIZE_def elem_ok_def)
  next
    case all
    then have "blocks m = {..<1024}" using assms card_blocks_full by simp
    then show ?thesis using all assms e blocks_le [OF e(1)]
      by (auto simp: merge_request_def MAXCHUNKSIZE_def elem_ok_def)
  next
    case merge
    have len: "length m = length (wq_map e)" using assms e by (simp add: BlockMap_t_length)
    from BlockMapMerge_spec [OF len] obtain m' where m':
      "BlockMapMerge m (wq_map e) = (m', int (card (blocks m - blocks (wq_map e))))"
      "length m' = length (wq_map e)" "blocks m' = blocks (wq_map e) \<union> blocks m" by blast
    then have t: "BlockMap_t m'" using e by (simp add: BlockMap_t_length)
    have "card (blocks m') = card (blocks (wq_map e)) + card (blocks m - blocks (wq_map e))"
      unfolding m'(3) by (subst card_Un_disjoint [symmetric]) auto
    then show ?thesis using merge assms(2) e m' t card_blocks_le [OF t]
      by (simp add: merge_request_def MAXCHUNKSIZE_def elem_ok_def)
  qed
qed

definition scan_merged :: "int \<Rightarrow> wqelem list \<Rightarrow> int \<Rightarrow> blockmap \<Rightarrow> wqelem list \<Rightarrow> bool" where
  "scan_merged nchunks q chunk m q' \<longleftrightarrow> (\<exists>i e'. i < length q \<and> q' = q[i := e'] \<and> wq_chunk (q ! i) = chunk \<and>
     wq_chunk e' = chunk \<and> elem_ok nchunks e' \<and> blocks (wq_map e') = blocks (wq_map (q ! i)) \<union> blocks m)"

lemma enqueue_scan_spec:
  assumes "\<forall>e \<in> set (WorkQ w). elem_ok nchunks e" and "0 \<le> chunk" and "BlockMap_t m"
    and "n = int (card (blocks m))" and "k \<le> length (WorkQ w)"
  shows "\<exists>r qb'. enqueue_scan w chunk m n k qb = Some (r, qb') \<and>
    (case r of None \<Rightarrow> \<forall>i<k. wq_chunk (WorkQ w ! i) = chunk \<longrightarrow> i = 0
     | Some q' \<Rightarrow> scan_merged nchunks (WorkQ w) chunk m q')"
  using assms(5)
proof (induction k arbitrary: qb)
  case 0
  then show ?case by simp
next
  case (Suc k)
  let ?e = "WorkQ w ! k"
  consider (other) "wq_chunk ?e \<noteq> chunk"
    | (head) "wq_chunk ?e = chunk" "k = 0" "chunk = WorkChunk w" "BlockMapFirst m < WorkBlock w + WorkCount w"
    | (merge) "wq_chunk ?e = chunk"
        "\<not> (k = 0 \<and> chunk = WorkChunk w \<and> BlockMapFirst m < WorkBlock w + WorkCount w)" by blast
  then show ?case
  proof cases
    case other
    from Suc.IH [of "qb + wq_nblocks ?e"] Suc.prems obtain r qb' where
      "enqueue_scan w chunk m n k (qb + wq_nblocks ?e) = Some (r, qb')"
      "case r of None \<Rightarrow> \<forall>i<k. wq_chunk (WorkQ w ! i) = chunk \<longrightarrow> i = 0
       | Some q' \<Rightarrow> scan_merged nchunks (WorkQ w) chunk m q'" by auto
    then show ?thesis using other by (auto simp: less_Suc_eq split: option.splits)
  next
    case head
    then show ?thesis by simp
  next
    case merge
    have "elem_ok nchunks ?e" using assms(1) Suc.prems by simp
    from merge_request_spec [OF this _ assms(3,4)] merge(1) assms(2) obtain e' where
      "merge_request ?e m n = Some e'" "wq_chunk e' = chunk" "elem_ok nchunks e'"
      "blocks (wq_map e') = blocks (wq_map ?e) \<union> blocks m" by auto
    then show ?thesis using merge Suc.prems
      by (auto simp: scan_merged_def Let_def simp del: not_le intro!: exI [of _ k] exI [of _ e'])
  qed
qed

lemma data_elems_update:
  assumes "i < length q" and "wq_chunk e' = wq_chunk (q ! i)"
  shows "map wq_chunk (data_elems (q[i := e'])) = map wq_chunk (data_elems q)"
  using assms
proof (induction q arbitrary: i)
  case Nil
  then show ?case by simp
next
  case (Cons x xs)
  then show ?case by (cases i) auto
qed

lemma pending_merged:
  assumes "scan_merged nchunks (WorkQ w) chunk m q'" and "0 \<le> chunk"
  shows "pending (w\<lparr>WorkQ := q'\<rparr>) = pending w \<union> {chunk} \<times> blocks m"
proof -
  obtain i e' where i: "i < length (WorkQ w)" "q' = (WorkQ w)[i := e']" "wq_chunk (WorkQ w ! i) = chunk"
    "wq_chunk e' = chunk" "blocks (wq_map e') = blocks (wq_map (WorkQ w ! i)) \<union> blocks m"
    using assms(1) by (auto simp: scan_merged_def)
  let ?A = "\<Union>e \<in> set (take i (WorkQ w)) \<union> set (drop (Suc i) (WorkQ w)). elem_pairs e"
  have "set (WorkQ w) = insert (WorkQ w ! i) (set (take i (WorkQ w)) \<union> set (drop (Suc i) (WorkQ w)))"
    using id_take_nth_drop [OF i(1)] by (metis Un_insert_right list.simps(15) set_append)
  then have "pending w = ?A \<union> elem_pairs (WorkQ w ! i)" by (auto simp: pending_def)
  moreover have "set q' = insert e' (set (take i (WorkQ w)) \<union> set (drop (Suc i) (WorkQ w)))"
    using i by (simp add: upd_conv_take_nth_drop)
  then have "pending (w\<lparr>WorkQ := q'\<rparr>) = ?A \<union> elem_pairs e'" by (auto simp: pending_def)
  moreover have "elem_pairs e' = elem_pairs (WorkQ w ! i) \<union> {chunk} \<times> blocks m"
    using i assms(2) by (auto simp: elem_pairs_def)
  ultimately show ?thesis by blast
qed

lemma inv_merged:
  assumes "workq_inv nchunks w" and "scan_merged nchunks (WorkQ w) chunk m q'"
  shows "workq_inv nchunks (w\<lparr>WorkQ := q'\<rparr>)"
proof -
  obtain i e' where i: "i < length (WorkQ w)" "q' = (WorkQ w)[i := e']" "wq_chunk (WorkQ w ! i) = chunk"
    "wq_chunk e' = chunk" "elem_ok nchunks e'"
    using assms(2) by (auto simp: scan_merged_def)
  have "map wq_chunk (tl (data_elems q')) = map wq_chunk (tl (data_elems (WorkQ w)))"
    using data_elems_update [of i "WorkQ w" e'] i by (simp add: map_tl)
  moreover have "\<forall>e \<in> set q'. elem_ok nchunks e"
    using assms(1) i set_update_subset_insert [of "WorkQ w" i e'] by (auto simp: workq_inv_def)
  ultimately show ?thesis using assms(1) i by (simp add: workq_inv_def)
qed

lemma set_tl_subset: "set (tl xs) \<subseteq> set xs"
  by (cases xs) auto

lemma inv_appended:
  assumes "workq_inv nchunks w" and "\<forall>i<length (WorkQ w). wq_chunk (WorkQ w ! i) = wq_chunk e \<longrightarrow> i = 0"
    and "elem_ok nchunks e"
  shows "workq_inv nchunks (w\<lparr>WorkQ := WorkQ w @ [e], WorkQSize := WorkQSize w + 1,
    WorkQMax := a, WorkQMaxBlocks := b\<rparr>)"
proof -
  have notin: "wq_chunk e \<notin> wq_chunk ` set (tl (WorkQ w))"
  proof
    assume "wq_chunk e \<in> wq_chunk ` set (tl (WorkQ w))"
    then obtain i where "i < length (tl (WorkQ w))" "wq_chunk e = wq_chunk (tl (WorkQ w) ! i)"
      by (auto simp: in_set_conv_nth)
    then have "Suc i < length (WorkQ w)" "wq_chunk (WorkQ w ! Suc i) = wq_chunk e"
      by (simp_all add: nth_tl)
    then show False using assms(2) by blast
  qed
  have "set (tl (data_elems (WorkQ w))) \<subseteq> set (tl (WorkQ w))"
    using set_tl_subset [of "data_elems (tl (WorkQ w))"]
    by (cases "WorkQ w") (auto simp: data_elems_def)
  then have "distinct (map wq_chunk (tl (data_elems (WorkQ w) @ (if wq_chunk e < 0 then [] else [e]))))"
    using assms(1) notin by (cases "data_elems (WorkQ w)") (auto simp: workq_inv_def)
  then show ?thesis using assms by (auto simp: workq_inv_def)
qed

lemma WorkQueueEnqueueChunk_spec:
  assumes "workq_inv nchunks w" and "0 \<le> chunk" and "chunk < nchunks" and "BlockMap_t m"
    and "n = int (card (blocks m))"
  shows "\<exists>r w'. WorkQueueEnqueueChunk chunk m n w = Some (r, w') \<and> workq_inv nchunks w' \<and>
    (r = 0 \<or> r = 1) \<and> int (length (WorkQ w')) = int (length (WorkQ w)) + r \<and>
    WorkChunk w' = WorkChunk w \<and> WorkBlock w' = WorkBlock w \<and> WorkCount w' = WorkCount w \<and>
    (if n = MAXCHUNKSIZE \<and> chunk = WorkChunk w \<and> n = WorkCount w then w' = w
     else pending w' = pending w \<union> {chunk} \<times> blocks m)"
proof -
  consider (none) "n = 0" | (sending) "n = MAXCHUNKSIZE" "chunk = WorkChunk w" "n = WorkCount w"
    | (scan) "n \<noteq> 0" "\<not> (n = MAXCHUNKSIZE \<and> chunk = WorkChunk w \<and> n = WorkCount w)" by blast
  then show ?thesis
  proof cases
    case none
    then show ?thesis using assms by (simp add: WorkQueueEnqueueChunk_def MAXCHUNKSIZE_def)
  next
    case sending
    then show ?thesis using assms by (simp add: WorkQueueEnqueueChunk_def)
  next
    case scan
    have ok: "\<forall>e \<in> set (WorkQ w). elem_ok nchunks e" using assms(1) by (simp add: workq_inv_def)
    from enqueue_scan_spec [OF ok assms(2,4,5) order_refl, of 0] obtain r qb where
      r: "enqueue_scan w chunk m n (length (WorkQ w)) 0 = Some (r, qb)"
      and res: "case r of None \<Rightarrow> \<forall>i<length (WorkQ w). wq_chunk (WorkQ w ! i) = chunk \<longrightarrow> i = 0
        | Some q' \<Rightarrow> scan_merged nchunks (WorkQ w) chunk m q'" by blast
    show ?thesis
    proof (cases r)
      case None
      let ?e = "\<lparr>wq_chunk = chunk, wq_nblocks = n, wq_map = m\<rparr>"
      have e: "elem_ok nchunks ?e" using assms scan by (simp add: elem_ok_def card_gt_0_iff)
      have all: "\<forall>i<length (WorkQ w). wq_chunk (WorkQ w ! i) = wq_chunk ?e \<longrightarrow> i = 0"
        using res None by simp
      show ?thesis using scan r None inv_appended [OF assms(1) all e] assms(2)
        by (auto simp: WorkQueueEnqueueChunk_def Let_def pending_def elem_pairs_def)
    next
      case (Some q')
      then have q': "scan_merged nchunks (WorkQ w) chunk m q'" using res by simp
      then have "length q' = length (WorkQ w)" by (auto simp: scan_merged_def)
      then show ?thesis
        using scan r Some inv_merged [OF assms(1) q'] pending_merged [OF q' assms(2)]
        by (auto simp: WorkQueueEnqueueChunk_def)
    qed
  qed
qed

lemma WorkQueueEnqueueJoin_spec:
  assumes "workq_inv nchunks w" and "vers = 1 \<or> vers = 2"
  shows "workq_inv nchunks (WorkQueueEnqueueJoin vers clientid w) \<and>
    pending (WorkQueueEnqueueJoin vers clientid w) = pending w"
  using assms
  by (auto simp: WorkQueueEnqueueJoin_def Let_def workq_inv_def pending_def elem_pairs_def elem_ok_def)

lemma dequeue_data:
  assumes "elem_ok nchunks e" and "0 \<le> wq_chunk e"
    and "(m, block, n) = (if wq_nblocks e = MAXCHUNKSIZE then (wq_map e, 0, MAXCHUNKSIZE)
      else BlockMapExtract (wq_map e) blockp)"
  shows "in_chunk block n \<and> n \<le> wq_nblocks e \<and>
    {nat block..<nat (block + n)} \<subseteq> blocks (wq_map e) \<and>
    (n = wq_nblocks e \<longrightarrow> blocks (wq_map e) = {nat block..<nat (block + n)}) \<and>
    (n \<noteq> wq_nblocks e \<longrightarrow> elem_ok nchunks (e\<lparr>wq_nblocks := wq_nblocks e - n, wq_map := m\<rparr>) \<and>
       blocks m = blocks (wq_map e) - {nat block..<nat (block + n)})"
proof -
  have e: "BlockMap_t (wq_map e)" "wq_nblocks e = int (card (blocks (wq_map e)))" "0 < wq_nblocks e"
    using assms by (auto simp: elem_ok_def)
  show ?thesis
  proof (cases "wq_nblocks e = MAXCHUNKSIZE")
    case True
    then have "blocks (wq_map e) = {..<1024}" using e card_blocks_full by (simp add: MAXCHUNKSIZE_def)
    moreover have "m = wq_map e" "block = 0" "n = 1024" "wq_nblocks e = 1024"
      using True assms(3) by (simp_all add: MAXCHUNKSIZE_def)
    ultimately show ?thesis by (simp add: in_chunk_def MAXCHUNKSIZE_def lessThan_atLeast0)
  next
    case False
    then have ext: "BlockMapExtract (wq_map e) blockp = (m, block, n)" using assms(3) by simp
    have "blocks (wq_map e) \<noteq> {}" using e by auto
    with BlockMapExtract_spec [OF ext] have run: "maximal_run (blocks (wq_map e)) (nat block) (nat n)"
      "0 \<le> block" "0 < n" "length m = length (wq_map e)"
      "blocks m = blocks (wq_map e) - {nat block..<nat block + nat n}" by auto
    let ?R = "{nat block..<nat block + nat n}"
    have nat_sum: "nat (block + n) = nat block + nat n" using run by simp
    have sub: "?R \<subseteq> blocks (wq_map e)" using run by (simp add: maximal_run_def)
    have "nat block + nat n - 1 \<in> ?R" using run(3) by simp
    then have "nat block + nat n - 1 < 1024" using blocks_le [OF e(1)] sub by blast
    then have rng: "in_chunk block n" using run by (auto simp: in_chunk_def MAXCHUNKSIZE_def)
    have c: "card (blocks m) = card (blocks (wq_map e)) - nat n"
      unfolding run(5) using card_Diff_subset [OF _ sub] by simp
    have le: "nat n \<le> card (blocks (wq_map e))" using card_mono [OF _ sub] by simp
    have eq: "blocks (wq_map e) = ?R" if "n = wq_nblocks e"
      by (rule card_subset_eq [OF _ sub, symmetric]) (use that e in auto)
    have "elem_ok nchunks (e\<lparr>wq_nblocks := wq_nblocks e - n, wq_map := m\<rparr>)" if "n \<noteq> wq_nblocks e"
      using that c le e run assms(1,2) by (auto simp: elem_ok_def BlockMap_t_length of_nat_diff)
    moreover have "n \<le> wq_nblocks e" using le e(2) run(3) by linarith
    ultimately show ?thesis unfolding nat_sum using rng sub eq run(5) by simp
  qed
qed

definition served :: "int \<times> int \<times> int \<Rightarrow> (int \<times> nat) set" where
  "served r = (case r of (c, b, n) \<Rightarrow> if c < 0 then {} else {c} \<times> {nat b..<nat (b + n)})"

lemma WorkQueueDequeue_spec:
  assumes "workq_inv nchunks w" and "WorkQ w = e # q"
  shows "\<exists>b n w'. WorkQueueDequeue blockp w = Some (Some (wq_chunk e, b, n), w') \<and> workq_inv nchunks w' \<and>
    pending w = served (wq_chunk e, b, n) \<union> pending w' \<and> backlog w' < backlog w \<and>
    (if wq_chunk e < 0 then b = blockp \<and> n = wq_nblocks e \<and> WorkQ w' = q
     else in_chunk b n \<and> WorkChunk w' = wq_chunk e \<and> WorkBlock w' = b \<and> WorkCount w' = n \<and>
       backlog w = backlog w' + nat n)"
proof (cases "wq_chunk e < 0")
  case True
  have "distinct (map wq_chunk (tl (data_elems q)))" "\<forall>x \<in> set q. elem_ok nchunks x"
    using assms True by (auto simp: workq_inv_def)
  then show ?thesis using True assms
    by (auto simp: WorkQueueDequeue_def workq_inv_def pending_def elem_pairs_def served_def backlog_def
        elem_work_def)
next
  case False
  obtain m b n where ext: "(m, b, n) = (if wq_nblocks e = MAXCHUNKSIZE then (wq_map e, 0, MAXCHUNKSIZE)
      else BlockMapExtract (wq_map e) blockp)" by (metis prod_cases3)
  have e: "elem_ok nchunks e" and q: "\<forall>x \<in> set q. elem_ok nchunks x"
    and d: "distinct (map wq_chunk (data_elems q))"
    using assms False by (auto simp: workq_inv_def)
  have d': "distinct (map wq_chunk (tl (data_elems q)))" using d by (cases "data_elems q") auto
  note data = dequeue_data [OF e _ ext]
  have pos: "0 < n" using data False by (simp add: in_chunk_def)
  let ?e' = "e\<lparr>wq_nblocks := wq_nblocks e - n, wq_map := m\<rparr>"
  let ?w' = "(if n = wq_nblocks e then w\<lparr>WorkQ := q, WorkQSize := WorkQSize w - 1\<rparr>
      else w\<lparr>WorkQ := ?e' # q\<rparr>)\<lparr>WorkChunk := wq_chunk e, WorkBlock := b, WorkCount := n\<rparr>"
  have deq: "WorkQueueDequeue blockp w = Some (Some (wq_chunk e, b, n), ?w')"
    using False data assms(2) by (simp add: WorkQueueDequeue_def ext [symmetric] Let_def)
  have inv: "workq_inv nchunks ?w'"
    using assms False data q d d' by (auto simp: workq_inv_def)
  have pend: "pending w = served (wq_chunk e, b, n) \<union> pending ?w'"
    using assms False data by (auto simp: pending_def elem_pairs_def served_def)
  have "backlog w = backlog ?w' + nat n"
    using assms(2) False data pos by (auto simp: backlog_def elem_work_def)
  then show ?thesis using deq inv pend False data pos
    by (intro exI [of _ b] exI [of _ n] exI [of _ ?w'] conjI) simp_all
qed

section \<open>Serving a queue\<close>

definition next_job :: "workq \<Rightarrow> ((int \<times> int \<times> int) \<times> workq) option" where
  "next_job w = (case WorkQueueDequeue 0 w of Some (Some r, w') \<Rightarrow> Some (r, w') | _ \<Rightarrow> None)"

lemma next_job_cases:
  assumes "workq_inv nchunks w"
  obtains (empty) "WorkQ w = []" "next_job w = None"
  | (job) e q b n w' where "WorkQ w = e # q" "next_job w = Some ((wq_chunk e, b, n), w')"
      "WorkQueueDequeue 0 w = Some (Some (wq_chunk e, b, n), w')"
      "workq_inv nchunks w'" "pending w = served (wq_chunk e, b, n) \<union> pending w'" "backlog w' < backlog w"
proof (cases "WorkQ w")
  case Nil
  then show ?thesis using empty by (simp add: next_job_def WorkQueueDequeue_def)
next
  case (Cons e q)
  from WorkQueueDequeue_spec [OF assms Cons, of 0] obtain b n w' where
    "WorkQueueDequeue 0 w = Some (Some (wq_chunk e, b, n), w')" "workq_inv nchunks w'"
    "pending w = served (wq_chunk e, b, n) \<union> pending w'" "backlog w' < backlog w" by blast
  then show ?thesis using job [OF Cons] by (simp add: next_job_def)
qed

lemma backlog_0: "workq_inv nchunks w \<Longrightarrow> backlog w = 0 \<longleftrightarrow> WorkQ w = []"
  by (cases "WorkQ w") (auto simp: backlog_def elem_work_def workq_inv_def elem_ok_def)

interpretation wq: job_queue "workq_inv nchunks" pending backlog next_job served
proof unfold_locales
  show "backlog w = 0" if "workq_inv nchunks w" "next_job w = None" for w
    using that by (cases rule: next_job_cases [OF that(1)]) (simp_all add: backlog_def)
  show "workq_inv nchunks w' \<and> backlog w' < backlog w \<and> pending w = served j \<union> pending w'"
    if "workq_inv nchunks w" "next_job w = Some (j, w')" for w j w'
    using that by (cases rule: next_job_cases [OF that(1)]) simp_all
  show "pending w = {}" if "workq_inv nchunks w" "backlog w = 0" for w
    using that backlog_0 by (simp add: pending_def)
qed

lemma data_elems_bound:
  assumes "workq_inv nchunks w" and "0 \<le> nchunks"
  shows "int (length (data_elems (WorkQ w))) \<le> nchunks + 1"
proof -
  let ?cs = "map wq_chunk (tl (data_elems (WorkQ w)))"
  have "set (data_elems (WorkQ w)) \<subseteq> {e. 0 \<le> wq_chunk e \<and> wq_chunk e < nchunks}"
  proof
    fix e assume "e \<in> set (data_elems (WorkQ w))"
    then have "elem_ok nchunks e" "0 \<le> wq_chunk e"
      using assms(1) by (simp_all add: data_elems_def workq_inv_def)
    then show "e \<in> {e. 0 \<le> wq_chunk e \<and> wq_chunk e < nchunks}" by (simp add: elem_ok_def)
  qed
  then have "set ?cs \<subseteq> {0..<nchunks}" using set_tl_subset [of "data_elems (WorkQ w)"] by auto
  then have "card (set ?cs) \<le> card {0..<nchunks}" by (intro card_mono) auto
  moreover have "card (set ?cs) = length ?cs"
    by (rule distinct_card) (use assms(1) in \<open>simp add: workq_inv_def\<close>)
  ultimately have "int (length (tl (data_elems (WorkQ w)))) \<le> nchunks" using assms(2) by simp
  then show ?thesis by simp
qed

section \<open>Properties\<close>

text \<open>
  C11. Enqueuing a request for the blocks of a map of a chunk of the image never fails its assertion and keeps the queue well
  formed; afterwards exactly the requested (chunk, block) pairs have been added to the pending
  ones, in a new element (result 1) or in a queued one (result 0). The one exception
  is a request for a whole chunk while the whole of that chunk is the range handed out last: it is
  dropped. The queue never has more than one element per chunk of the image, plus one.
\<close>

theorem workq_enqueue_adds:
  assumes "workq_inv nchunks w" and "0 \<le> chunk" and "chunk < nchunks" and "BlockMap_t m"
    and "n = int (card (blocks m))"
  shows "\<exists>r w'. WorkQueueEnqueueChunk chunk m n w = Some (r, w') \<and> workq_inv nchunks w' \<and>
    (r = 0 \<or> r = 1) \<and> int (length (WorkQ w')) = int (length (WorkQ w)) + r \<and>
    int (length (data_elems (WorkQ w'))) \<le> nchunks + 1 \<and>
    (if n = MAXCHUNKSIZE \<and> chunk = WorkChunk w \<and> n = WorkCount w then w' = w
     else pending w' = pending w \<union> {chunk} \<times> blocks m)"
proof -
  from WorkQueueEnqueueChunk_spec [OF assms] obtain r w' where
    e: "WorkQueueEnqueueChunk chunk m n w = Some (r, w')" "workq_inv nchunks w'" "r = 0 \<or> r = 1"
    "int (length (WorkQ w')) = int (length (WorkQ w)) + r"
    "if n = MAXCHUNKSIZE \<and> chunk = WorkChunk w \<and> n = WorkCount w then w' = w
     else pending w' = pending w \<union> {chunk} \<times> blocks m" by blast
  moreover have "int (length (data_elems (WorkQ w'))) \<le> nchunks + 1"
    using data_elems_bound [OF e(2)] assms(2,3) by simp
  ultimately show ?thesis by (intro exI [of _ r] exI [of _ w'] conjI)
qed

theorem workq_enqueue_adds_witness:
  "\<exists>w'. WorkQueueEnqueueChunk 3 (replicate 128 1) 128 WorkQ_static = Some (1, w') \<and>
    pending w' = {3} \<times> blocks (replicate 128 1)"
proof -
  have len: "BlockMap_t (replicate 128 1)" by (simp add: BlockMap_t_length)
  have "blocks (replicate 128 1) = (\<lambda>k. k * 8) ` {..<128}"
  proof (intro set_eqI iffI)
    show "x \<in> (\<lambda>k. k * 8) ` {..<128}" if "x \<in> blocks (replicate 128 1)" for x
      using that by (intro image_eqI [of _ _ "x div 8"]) (auto simp: blocks_def bit_1_iff less_mult_imp_div_less)
  qed (auto simp: blocks_def bit_1_iff)
  then have card: "128 = int (card (blocks (replicate 128 1)))"
    by (simp add: card_image inj_on_def)
  have inv: "workq_inv 10 WorkQ_static" by (simp add: workq_inv_def WorkQ_static_def)
  have "pending WorkQ_static = {}" by (simp add: pending_def WorkQ_static_def)
  with workq_enqueue_adds [OF inv _ _ len card, of 3] show ?thesis
    by (auto simp: WorkQueueEnqueueChunk_def WorkQ_static_def MAXCHUNKSIZE_def)
qed

text \<open>
  C12. Dequeuing from a well-formed queue that is not empty returns the reply or a range of the head
  element and keeps the queue well formed. A range lies in the chunk, all of it was pending, and
  what was pending is that range and what is still pending; the work left falls by the length of the range. The range is recorded
  in \<^verbatim>\<open>WorkChunk\<close>, \<^verbatim>\<open>WorkBlock\<close> and \<^verbatim>\<open>WorkCount\<close>.
\<close>

theorem workq_dequeue_takes:
  assumes "workq_inv nchunks w" and "WorkQ w = e # q"
  shows "\<exists>b n w'. WorkQueueDequeue blockp w = Some (Some (wq_chunk e, b, n), w') \<and> workq_inv nchunks w' \<and>
    pending w = served (wq_chunk e, b, n) \<union> pending w' \<and> backlog w' < backlog w \<and>
    (if wq_chunk e < 0 then b = blockp \<and> n = wq_nblocks e \<and> WorkQ w' = q
     else in_chunk b n \<and> WorkChunk w' = wq_chunk e \<and> WorkBlock w' = b \<and> WorkCount w' = n \<and>
       backlog w = backlog w' + nat n)"
  by (rule WorkQueueDequeue_spec [OF assms])

theorem workq_dequeue_takes_witness:
  "let e = \<lparr>wq_chunk = 2, wq_nblocks = 1024, wq_map = replicate 128 (- 1)\<rparr>;
       w = WorkQ_static\<lparr>WorkQ := [e], WorkQSize := 1\<rparr> in
   workq_inv 5 w \<and> (\<exists>w'. WorkQueueDequeue 0 w = Some (Some (2, 0, 1024), w') \<and> WorkQ w' = [] \<and>
     pending w = served (2, 0, 1024) \<union> pending w')"
proof -
  let ?e = "\<lparr>wq_chunk = 2, wq_nblocks = 1024, wq_map = replicate 128 (- 1)\<rparr>"
  let ?w = "WorkQ_static\<lparr>WorkQ := [?e], WorkQSize := 1\<rparr>"
  have inv: "workq_inv 5 ?w"
    by (simp add: workq_inv_def elem_ok_def BlockMap_t_length)
  then show ?thesis using workq_dequeue_takes [OF inv, of ?e "[]" 0]
    by (auto simp: WorkQueueDequeue_def MAXCHUNKSIZE_def Let_def)
qed

text \<open>
  C13. A queue that gets no new requests is worked off: after at most one dequeue per pending block and join
  reply it is empty, and the ranges handed out on the way cover exactly the blocks that were pending.
\<close>

theorem workq_drains:
  assumes "workq_inv nchunks w" and "serve next_job (backlog w) w = (js, w')"
  shows "WorkQ w' = [] \<and> (\<Union>j \<in> set js. served j) = pending w \<and> length js \<le> backlog w"
  using wq.serve_all [OF assms(1) order_refl assms(2)] backlog_0 by blast

theorem workq_drains_witness:
  "let w = WorkQueueEnqueueJoin 2 77 WorkQ_static in
   serve next_job (backlog w) w = ([(- 2, 0, 77)], w\<lparr>WorkQ := [], WorkQSize := 0\<rparr>) \<and>
   (\<Union>j \<in> set [(- 2, 0, 77)]. served j) = pending w"
proof -
  let ?w = "WorkQueueEnqueueJoin 2 77 WorkQ_static"
  have inv: "workq_inv 5 ?w"
    by (simp add: workq_inv_def WorkQueueEnqueueJoin_def elem_ok_def WorkQ_static_def)
  have "serve next_job (backlog ?w) ?w = ([(- 2, 0, 77)], ?w\<lparr>WorkQ := [], WorkQSize := 0\<rparr>)"
    by (simp add: backlog_def WorkQueueEnqueueJoin_def elem_work_def WorkQ_static_def next_job_def
        WorkQueueDequeue_def to_i32_def)
  with workq_drains [OF inv this] show ?thesis by simp
qed

end
