(* ===== verification/Packet.thy ===== *)
theory Packet
  imports BlockMap Timeval
begin

text \<open>
  The packets of the frisbee protocol (\<^verbatim>\<open>Packet_t\<close> in decls.h) and the packet routines of
  network.c: the checks of \<^verbatim>\<open>PacketReceive\<close> and \<^verbatim>\<open>PacketValid\<close> on what came from the network, and the
  sending loops of \<^verbatim>\<open>PacketSend\<close> and \<^verbatim>\<open>PacketReply\<close>. The sockets are not part of the program: what
  \<^verbatim>\<open>recvfrom\<close> and \<^verbatim>\<open>sendto\<close> return is an argument.
\<close>

section \<open>Packets\<close>

text \<open>
  The union \<^verbatim>\<open>msg\<close> is read through the member that the header's \<^verbatim>\<open>subtype\<close> selects; a
  packet is the header and the message under its subtype, and \<open>Other\<close> is a subtype that no
  macro defines. The member \<^verbatim>\<open>join\<close> is itself a union of the client's number and the block count, hence one value.
\<close>

datatype msg =
    Join (join_word: int)
  | Leave (leave_clientid: int) (leave_elapsed: int)
  | Block (block_chunk: int) (block_block: int) (block_buf: "byte list")
  | Request (request_chunk: int) (request_block: int) (request_count: int)
  | Leave2 (leave2_clientid: int) (leave2_elapsed: int)
  | Prequest (prequest_chunk: int) (prequest_retries: int) (prequest_blockmap: blockmap)
  | Join2 (join2_clientid: int) (join2_blockcount: int) (join2_chunksize: int)
      (join2_blocksize: int) (join2_bytecount: int)
  | Other (other_subtype: int)

record packet =
  hdr_type :: int
  hdr_datalen :: int
  hdr_srcip :: int
  msg :: msg

definition PKTTYPE_REQUEST :: int where "PKTTYPE_REQUEST = 1"

definition PKTTYPE_REPLY :: int where "PKTTYPE_REPLY = 2"

fun subtype :: "msg \<Rightarrow> int" where
  "subtype (Join _) = 1"
| "subtype (Leave _ _) = 2"
| "subtype (Block _ _ _) = 3"
| "subtype (Request _ _ _) = 4"
| "subtype (Leave2 _ _) = 5"
| "subtype (Prequest _ _ _) = 6"
| "subtype (Join2 _ _ _ _ _) = 7"
| "subtype (Other n) = n"

text \<open>
  The sizes in bytes of the header and of the members of the union. \<^verbatim>\<open>leave2\<close> ends in the
  packed \<^verbatim>\<open>ClientStats_t\<close>: a 4-byte version and 256 words.
\<close>

definition sizeof_hdr :: int where "sizeof_hdr = 16"

fun sizeof_msg :: "msg \<Rightarrow> int" where
  "sizeof_msg (Join _) = 4"
| "sizeof_msg (Leave _ _) = 8"
| "sizeof_msg (Block _ _ _) = 8 + MAXBLOCKSIZE"
| "sizeof_msg (Request _ _ _) = 12"
| "sizeof_msg (Leave2 _ _) = 8 + (4 + 256 * 4)"
| "sizeof_msg (Prequest _ _ _) = 8 + MAXCHUNKSIZE div 8"
| "sizeof_msg (Join2 _ _ _ _ _) = 24"
| "sizeof_msg (Other _) = 0"

section \<open>Receiving\<close>

text \<open>
  \<^verbatim>\<open>sizeof\<close> has the type \<^verbatim>\<open>size_t\<close>, so the comparisons with it convert both sides to
  unsigned 64-bit numbers, the signed \<^verbatim>\<open>datalen\<close> too.
\<close>

text \<open>
  What \<^verbatim>\<open>recvfrom\<close> did: a transient error (\<^verbatim>\<open>EWOULDBLOCK\<close>, \<^verbatim>\<open>EINTR\<close>), another error, or \<open>mlen\<close> bytes with the
  address and port they came from.
\<close>

datatype recv = RecvTimeout | RecvError | Recv int int int packet

record net =
  myipaddr :: int
  mcastaddr :: int
  sndportnum :: int

fun PacketReceive :: "net \<Rightarrow> recv \<Rightarrow> int option" where
  "PacketReceive nt RecvTimeout = Some (- 1)"
| "PacketReceive nt RecvError = None"
| "PacketReceive nt (Recv mlen from_addr from_port p) =
     (if to_u64 mlen < to_u64 (sizeof_hdr + hdr_datalen p) then Some 1
      else let from_addr = (if from_addr = mcastaddr nt then hdr_srcip p else from_addr) in
        if hdr_srcip p \<noteq> from_addr then Some 1
        else if sndportnum nt \<noteq> from_port then Some 1
        else Some 0)"

text \<open>
  \<^verbatim>\<open>PacketRequest\<close> reads the unicast socket, which exists only when \<^verbatim>\<open>selfsock\<close> was opened; it
  does not accept the multicast address as a sender.
\<close>

fun PacketRequest :: "net \<Rightarrow> bool \<Rightarrow> recv \<Rightarrow> int option" where
  "PacketRequest nt selfsock r =
     (if \<not> selfsock then Some (- 1)
      else case r of
        RecvTimeout \<Rightarrow> Some (- 1)
      | RecvError \<Rightarrow> None
      | Recv mlen from_addr from_port p \<Rightarrow>
          if to_u64 mlen < to_u64 (sizeof_hdr + hdr_datalen p) then Some 1
          else if hdr_srcip p \<noteq> from_addr then Some 1
          else if sndportnum nt \<noteq> from_port then Some 1
          else Some 0)"

text \<open>The sum \<^verbatim>\<open>block+count\<close> is a 32-bit sum.\<close>

definition msg_valid :: "msg \<Rightarrow> int \<Rightarrow> bool" where
  "msg_valid mg nchunks =
     (case mg of
        Block chunk block buf \<Rightarrow>
          \<not> (chunk < 0 \<or> chunk \<ge> nchunks \<or> block < 0 \<or> block \<ge> MAXCHUNKSIZE)
      | Request chunk block n \<Rightarrow>
          \<not> (chunk < 0 \<or> chunk \<ge> nchunks \<or> block < 0 \<or> block \<ge> MAXCHUNKSIZE \<or>
             n < 0 \<or> to_i32 (block + n) > MAXCHUNKSIZE)
      | Prequest chunk retries m \<Rightarrow> \<not> (chunk < 0 \<or> chunk \<ge> nchunks)
      | Join _ \<Rightarrow> True
      | Join2 _ _ _ _ _ \<Rightarrow> True
      | Leave _ _ \<Rightarrow> True
      | Leave2 _ _ \<Rightarrow> True
      | Other _ \<Rightarrow> False)"

definition PacketValid :: "packet \<Rightarrow> int \<Rightarrow> bool" where
  "PacketValid p nchunks =
     (if hdr_type p \<noteq> PKTTYPE_REQUEST \<and> hdr_type p \<noteq> PKTTYPE_REPLY then False
      else if to_u64 (hdr_datalen p) < to_u64 (sizeof_msg (msg p)) then False
      else msg_valid (msg p) nchunks)"

section \<open>Sending\<close>

text \<open>
  \<^verbatim>\<open>sendto\<close> sends, finds no buffer space (\<^verbatim>\<open>ENOBUFS\<close>, \<^verbatim>\<open>EAGAIN\<close>), returns 0, or fails otherwise. \<^verbatim>\<open>PacketSend\<close>
  retries the second and the third until the packet is out, and counts the delays; \<^verbatim>\<open>PacketReply\<close>
  takes 0 for a success. \<open>r n\<close> is the result of the \<open>n\<close>-th call of \<^verbatim>\<open>sendto\<close>.
  The loops return the number of calls made so far and the delays; \<^const>\<open>None\<close> is a fatal error or a loop that does not end.
\<close>

datatype sendres = Sent | NoBufs | SentNone | SendError

partial_function (option) PacketSend_loop :: "(nat \<Rightarrow> sendres) \<Rightarrow> nat \<Rightarrow> int \<Rightarrow> (nat \<times> int) option" where
  "PacketSend_loop r n delays =
     (case r n of
        Sent \<Rightarrow> Some (n + 1, delays)
      | NoBufs \<Rightarrow> PacketSend_loop r (n + 1) (delays + 1)
      | SentNone \<Rightarrow> PacketSend_loop r (n + 1) (delays + 1)
      | SendError \<Rightarrow> None)"

definition PacketSend :: "net \<Rightarrow> packet \<Rightarrow> (nat \<Rightarrow> sendres) \<Rightarrow> nat \<Rightarrow> (packet \<times> nat \<times> int) option" where
  "PacketSend nt p r n = do {
     (n', delays) \<leftarrow> PacketSend_loop r n 0;
     Some (p\<lparr>hdr_srcip := myipaddr nt\<rparr>, n', delays)
   }"

partial_function (option) PacketReply_loop :: "(nat \<Rightarrow> sendres) \<Rightarrow> nat \<Rightarrow> int \<Rightarrow> (nat \<times> int) option" where
  "PacketReply_loop r n nonetbufs =
     (case r n of
        Sent \<Rightarrow> Some (n + 1, nonetbufs)
      | SentNone \<Rightarrow> Some (n + 1, nonetbufs)
      | NoBufs \<Rightarrow> PacketReply_loop r (n + 1) (nonetbufs + 1)
      | SendError \<Rightarrow> None)"

text \<open>\<^verbatim>\<open>PacketReply\<close> sends to the address the packet came from: the destination is returned with the packet.\<close>

definition PacketReply ::
  "net \<Rightarrow> packet \<Rightarrow> (nat \<Rightarrow> sendres) \<Rightarrow> nat \<Rightarrow> (int \<times> packet \<times> nat \<times> int) option" where
  "PacketReply nt p r n = do {
     (n', delays) \<leftarrow> PacketReply_loop r n 0;
     Some (hdr_srcip p, p\<lparr>hdr_srcip := myipaddr nt\<rparr>, n', delays)
   }"

section \<open>Facts\<close>

definition is_i32 :: "int \<Rightarrow> bool" where
  "is_i32 x \<longleftrightarrow> - (2 ^ 31) \<le> x \<and> x < 2 ^ 31"

lemma sizeof_msg_range: "0 \<le> sizeof_msg m \<and> sizeof_msg m \<le> 1036"
  by (cases m) (simp_all add: MAXBLOCKSIZE_def MAXCHUNKSIZE_def)

lemma u64_less:
  assumes "0 \<le> a" and "a < 2 ^ 32" and "is_i32 b"
  shows "to_u64 b < to_u64 a \<longleftrightarrow> 0 \<le> b \<and> b < a"
    and "to_u64 a < to_u64 b \<longleftrightarrow> b < 0 \<or> a < b"
proof -
  have a: "to_u64 a = a" by (rule to_u64_id) (use assms in auto)
  have b: "to_u64 b = (if b < 0 then b + 2 ^ 64 else b)"
    using assms to_u64_neg [of b] to_u64_id [of b] by (simp add: is_i32_def)
  show "to_u64 b < to_u64 a \<longleftrightarrow> 0 \<le> b \<and> b < a"
    and "to_u64 a < to_u64 b \<longleftrightarrow> b < 0 \<or> a < b"
    unfolding a b using assms by (simp_all add: is_i32_def)
qed

lemma hdr_length_check:
  assumes "0 \<le> mlen" and "mlen < 2 ^ 31" and "is_i32 len"
  shows "to_u64 mlen < to_u64 (sizeof_hdr + len) \<longleftrightarrow> len < - 16 \<or> mlen < 16 + len"
proof -
  have "to_u64 mlen = mlen" by (rule to_u64_id) (use assms in auto)
  moreover have "to_u64 (16 + len) = (if len < - 16 then 16 + len + 2 ^ 64 else 16 + len)"
    using assms to_u64_neg [of "16 + len"] to_u64_id [of "16 + len"] by (simp add: is_i32_def)
  ultimately show ?thesis using assms by (simp add: sizeof_hdr_def is_i32_def)
qed

lemma request_sum_valid:
  assumes "0 \<le> block" and "block < MAXCHUNKSIZE" and "0 \<le> n" and "is_i32 n"
  shows "to_i32 (block + n) \<le> MAXCHUNKSIZE \<longleftrightarrow> block + n \<le> MAXCHUNKSIZE \<or> 2 ^ 31 \<le> block + n"
proof (cases "block + n < 2 ^ 31")
  case True
  then have "to_i32 (block + n) = block + n" using assms by (intro to_i32_id) auto
  then show ?thesis using True by auto
next
  case False
  have "(block + n + 2 ^ 31) mod 2 ^ 32 = (block + n - 2 ^ 31 + 2 ^ 32) mod 2 ^ 32"
    by (simp add: add.commute)
  also have "\<dots> = block + n - 2 ^ 31"
    by (subst mod_add_self2, rule mod_pos_pos_trivial)
      (use False assms in \<open>auto simp: is_i32_def MAXCHUNKSIZE_def\<close>)
  finally have "to_i32 (block + n) = block + n - 2 ^ 32" by (simp add: to_i32_def)
  then show ?thesis using False assms by (auto simp: MAXCHUNKSIZE_def is_i32_def)
qed

lemma PacketSend_loop_retry:
  assumes "\<And>j. j < k \<Longrightarrow> r (n + j) = NoBufs \<or> r (n + j) = SentNone"
  shows "PacketSend_loop r n d = PacketSend_loop r (n + k) (d + int k)"
  using assms
proof (induction k arbitrary: n d)
  case 0
  then show ?case by simp
next
  case (Suc k)
  have "PacketSend_loop r n d = PacketSend_loop r (n + 1) (d + 1)"
    using Suc.prems [of 0] by (auto simp: PacketSend_loop.simps [of r n d])
  also have "\<dots> = PacketSend_loop r (n + 1 + k) (d + 1 + int k)"
    by (rule Suc.IH) (use Suc.prems [of "Suc _"] in auto)
  finally show ?case by (simp add: add.commute add.left_commute)
qed

definition retried :: "(nat \<Rightarrow> sendres) \<Rightarrow> nat \<Rightarrow> nat \<Rightarrow> bool" where
  "retried r n k \<longleftrightarrow> (\<forall>j<k. r (n + j) = NoBufs \<or> r (n + j) = SentNone) \<and> r (n + k) = Sent"

lemma retried_Suc:
  "r n = NoBufs \<or> r n = SentNone \<Longrightarrow> retried r (n + 1) k \<Longrightarrow> retried r n (Suc k)"
  by (auto simp: retried_def less_Suc_eq_0_disj)

lemma PacketSend_loop_Some:
  assumes "PacketSend_loop r n d = Some y"
  shows "\<exists>k. y = (n + k + 1, d + int k) \<and> retried r n k"
  using assms
proof (induction rule: PacketSend_loop.raw_induct [rotated 1, consumes 1, case_names step])
  case (step f r n d y)
  consider (sent) "r n = Sent" "y = (n + 1, d)"
    | (retry) "r n = NoBufs \<or> r n = SentNone" "f r (n + 1) (d + 1) = Some y"
    using step(2) by (cases "r n") auto
  then show ?case
  proof cases
    case sent
    then show ?thesis by (intro exI [of _ 0]) (simp add: retried_def)
  next
    case retry
    from step(1) [OF retry(2)] obtain k where "y = (n + 1 + k + 1, d + 1 + int k)" "retried r (n + 1) k"
      by blast
    then show ?thesis using retried_Suc [of r n, OF retry(1)] by (intro exI [of _ "Suc k"]) simp
  qed
qed

lemma PacketSend_iff:
  "PacketSend nt p r n = Some (q, n', d) \<longleftrightarrow>
   (\<exists>k. retried r n k \<and> n' = n + k + 1 \<and> d = int k \<and> q = p\<lparr>hdr_srcip := myipaddr nt\<rparr>)"
proof
  assume "PacketSend nt p r n = Some (q, n', d)"
  then have l: "PacketSend_loop r n 0 = Some (n', d)" and q: "q = p\<lparr>hdr_srcip := myipaddr nt\<rparr>"
    by (auto simp: PacketSend_def split: bind_splits)
  from PacketSend_loop_Some [OF l] q
  show "\<exists>k. retried r n k \<and> n' = n + k + 1 \<and> d = int k \<and> q = p\<lparr>hdr_srcip := myipaddr nt\<rparr>" by auto
next
  assume "\<exists>k. retried r n k \<and> n' = n + k + 1 \<and> d = int k \<and> q = p\<lparr>hdr_srcip := myipaddr nt\<rparr>"
  then obtain k where k: "retried r n k" "n' = n + k + 1" "d = int k" "q = p\<lparr>hdr_srcip := myipaddr nt\<rparr>"
    by blast
  then have "PacketSend_loop r n 0 = PacketSend_loop r (n + k) (0 + int k)"
    by (intro PacketSend_loop_retry) (simp add: retried_def)
  also have "\<dots> = Some (n', d)" using k by (simp add: PacketSend_loop.simps retried_def)
  finally show "PacketSend nt p r n = Some (q, n', d)" using k by (simp add: PacketSend_def)
qed

section \<open>Properties\<close>

lemma PacketReceive_returns: "r \<noteq> RecvError \<Longrightarrow> \<exists>rc. PacketReceive nt r = Some rc"
  by (cases r) (simp_all add: Let_def)

text \<open>
  C32. What the two checks let through, exactly. A packet is processed iff its type is known, it comes from the
  expected port and from the address it claims (or from the multicast address), the fields of
  its message are valid, and either it holds the whole message, or its \<^verbatim>\<open>datalen\<close> is a
  negative number from -16 to -1: that passes both unsigned comparisons, so a
  packet that is nothing but a header is processed with whatever message the buffer held before.
\<close>

theorem packet_checks:
  assumes "0 \<le> mlen" and "mlen < 2 ^ 31" and "is_i32 (hdr_datalen p)"
  shows "PacketReceive nt (Recv mlen addr port p) = Some 0 \<and> PacketValid p nchunks \<longleftrightarrow>
    (hdr_type p = 1 \<or> hdr_type p = 2) \<and> port = sndportnum nt \<and>
    (addr = mcastaddr nt \<or> addr = hdr_srcip p) \<and> msg_valid (msg p) nchunks \<and>
    16 + hdr_datalen p \<le> mlen \<and>
    (sizeof_msg (msg p) \<le> hdr_datalen p \<or> - 16 \<le> hdr_datalen p \<and> hdr_datalen p < 0)"
proof -
  have valid: "PacketValid p nchunks \<longleftrightarrow> (hdr_type p = 1 \<or> hdr_type p = 2) \<and>
      (hdr_datalen p < 0 \<or> sizeof_msg (msg p) \<le> hdr_datalen p) \<and> msg_valid (msg p) nchunks"
    using u64_less(1) [of "sizeof_msg (msg p)" "hdr_datalen p"] sizeof_msg_range [of "msg p"] assms(3)
    by (auto simp: PacketValid_def PKTTYPE_REQUEST_def PKTTYPE_REPLY_def)
  have recv: "PacketReceive nt (Recv mlen addr port p) = Some 0 \<longleftrightarrow>
      - 16 \<le> hdr_datalen p \<and> 16 + hdr_datalen p \<le> mlen \<and> port = sndportnum nt \<and>
      (addr = mcastaddr nt \<or> addr = hdr_srcip p)"
    using hdr_length_check [OF assms] by (auto simp: Let_def)
  show ?thesis unfolding valid recv using sizeof_msg_range [of "msg p"] by auto
qed

theorem packet_checks_witness:
  "let p = \<lparr>hdr_type = 1, hdr_datalen = - 16, hdr_srcip = 7, msg = Block 0 5 []\<rparr>;
       nt = \<lparr>myipaddr = 9, mcastaddr = 8, sndportnum = 80\<rparr> in
   PacketReceive nt (Recv 16 7 80 p) = Some 0 \<and> PacketValid p 1"
proof -
  let ?p = "\<lparr>hdr_type = 1, hdr_datalen = - 16, hdr_srcip = 7, msg = Block 0 5 []\<rparr>"
  have "is_i32 (hdr_datalen ?p)" by (simp add: is_i32_def)
  from packet_checks [OF _ _ this, of 16 "\<lparr>myipaddr = 9, mcastaddr = 8, sndportnum = 80\<rparr>" 7 80 1]
  show ?thesis by (simp add: msg_valid_def MAXCHUNKSIZE_def)
qed

text \<open>
  A block request that passes \<^const>\<open>PacketValid\<close> names a chunk of the image and a first block of
  the chunk, and either its range lies in the chunk (it may be empty: a count of zero is valid), or
  the 32-bit sum of the check overflowed. Every other request is rejected.
\<close>

theorem request_check:
  assumes "is_i32 n" and "hdr_datalen p = 12" and "msg p = Request chunk block n"
    and "hdr_type p = PKTTYPE_REQUEST"
  shows "PacketValid p nchunks \<longleftrightarrow>
    0 \<le> chunk \<and> chunk < nchunks \<and> 0 \<le> block \<and> block < 1024 \<and> 0 \<le> n \<and>
    (block + n \<le> 1024 \<or> 2 ^ 31 \<le> block + n)"
proof -
  have "PacketValid p nchunks = msg_valid (Request chunk block n) nchunks"
    using assms by (simp add: PacketValid_def)
  then show ?thesis using request_sum_valid [of block n] assms(1)
    by (auto simp: msg_valid_def MAXCHUNKSIZE_def)
qed

theorem request_check_witness:
  "PacketValid \<lparr>hdr_type = 1, hdr_datalen = 12, hdr_srcip = 0, msg = Request 0 1000 (2 ^ 31 - 1)\<rparr> 1"
proof -
  let ?p = "\<lparr>hdr_type = 1, hdr_datalen = 12, hdr_srcip = 0, msg = Request 0 1000 (2 ^ 31 - 1)\<rparr>"
  have "is_i32 (2 ^ 31 - 1)" by (simp add: is_i32_def)
  from request_check [OF this, of ?p 0 1000 1] show ?thesis by (simp add: PKTTYPE_REQUEST_def)
qed

text \<open>
  \<^const>\<open>PacketSend\<close> returns exactly when the first call of \<^verbatim>\<open>sendto\<close> that is not a lack of buffer space
  succeeds; the packet then carries this host's address, and the reported number of resends is the
  number of calls that had to be repeated.
\<close>

theorem packet_send_returns:
  "((\<exists>k. retried r n k) \<longleftrightarrow> PacketSend nt p r n \<noteq> None) \<and>
   (PacketSend nt p r n = Some (q, n', d) \<longleftrightarrow>
     (\<exists>k. retried r n k \<and> n' = n + k + 1 \<and> d = int k \<and> q = p\<lparr>hdr_srcip := myipaddr nt\<rparr>))"
  using PacketSend_iff [of nt p r n] by auto

end
