(* ===== verification/Server.thy ===== *)
theory Server
  imports WorkQueue Packet
begin

text \<open>
  The server's receive thread (server.c: \<^verbatim>\<open>ClientEnqueueMap\<close>, \<^verbatim>\<open>ClientJoin\<close>, \<^verbatim>\<open>ClientLeave\<close>,
  \<^verbatim>\<open>ClientLeave2\<close>, \<^verbatim>\<open>ClientRequest\<close>, \<^verbatim>\<open>ClientPartialRequest\<close>, \<^verbatim>\<open>ServerRecvThread\<close>), as built with
  \<^verbatim>\<open>STATS\<close>. The file-level variables the thread uses are one record, around the work queue. Log and trace
  calls are left out; counters are unbounded integers.
\<close>

section \<open>State\<close>

definition MAXCLIENTS :: nat where "MAXCLIENTS = 256"

record file_info =
  fi_blocks :: int
  fi_chunks :: int
  fi_isimage :: bool
  fi_filesize :: int

record stats =
  st_msgin :: int
  st_joins :: int
  st_leaves :: int
  st_requests :: int
  st_joinrep :: int
  st_dupsent :: int
  st_partialreq :: int
  st_qmerges :: int
  st_badpackets :: int
  st_blockslost :: int
  st_clientlost :: int

text \<open>
  \<open>clients\<close> is the array of (id, ip) pairs. \<open>chunkmap\<close> and \<open>lostmap\<close> are the arrays of one \<^verbatim>\<open>char\<close> per
  chunk, \<^const>\<open>None\<close> when their allocation failed.
\<close>

record server =
  queue :: workq
  clients :: "(int \<times> int) list"
  activeclients :: int
  chunkmap :: "byte list option"
  lostmap :: "byte list option"
  blockslost :: int
  clientretries :: int
  FirstReq :: timeval
  LastReq :: timeval
  gotone :: bool
  keepalive :: int
  idles :: int
  kafails :: int
  Stats :: stats

section \<open>Handlers\<close>

definition note_chunk :: "int \<Rightarrow> server \<Rightarrow> server" where
  "note_chunk chunk s =
     (case chunkmap s of
        None \<Rightarrow> s
      | Some cm \<Rightarrow>
          if cm ! nat chunk \<noteq> 0 then s\<lparr>Stats := (Stats s)\<lparr>st_dupsent := st_dupsent (Stats s) + 1\<rparr>\<rparr>
          else s\<lparr>chunkmap := Some (cm[nat chunk := 1])\<rparr>)"

definition ClientEnqueueMap :: "int \<Rightarrow> blockmap \<Rightarrow> int \<Rightarrow> bool \<Rightarrow> server \<Rightarrow> server option" where
  "ClientEnqueueMap chunk bmap n isretry s = do {
     let s1 = (if n \<noteq> MAXCHUNKSIZE
               then s\<lparr>blockslost := blockslost s + n,
                      Stats := (Stats s)\<lparr>st_blockslost := st_blockslost (Stats s) + n,
                                         st_partialreq := st_partialreq (Stats s) + 1\<rparr>\<rparr>
               else s);
     (enqueued, q) \<leftarrow> WorkQueueEnqueueChunk chunk bmap n (queue s1);
     let s2 = s1\<lparr>queue := q\<rparr>;
     let s3 = (if enqueued = 0
               then s2\<lparr>Stats := (Stats s2)\<lparr>st_qmerges := st_qmerges (Stats s2) + 1\<rparr>\<rparr>
               else if n = MAXCHUNKSIZE then note_chunk chunk s2 else s2);
     Some (if isretry then
             let s4 = s3\<lparr>clientretries := clientretries s3 + 1\<rparr> in
             if enqueued \<noteq> 0
             then s4\<lparr>lostmap := map_option (\<lambda>lm. lm[nat chunk := lm ! nat chunk + 1]) (lostmap s4),
                     Stats := (Stats s4)\<lparr>st_clientlost := st_clientlost (Stats s4) + 1\<rparr>\<rparr>
             else s4
           else s3)
   }"

text \<open>
  The search of \<^verbatim>\<open>ClientJoin\<close> through the table from entry \<open>i\<close> on, with the first free entry \<open>j\<close> seen so far.
  The result is the table and whether the loop ended by a \<^verbatim>\<open>break\<close>.
\<close>

function join_scan :: "int \<Rightarrow> int \<Rightarrow> (int \<times> int) list \<Rightarrow> nat \<Rightarrow> nat option \<Rightarrow> (int \<times> int) list \<times> bool" where
  "join_scan clientid ip cl i j =
     (if i < MAXCLIENTS then
        if fst (cl ! i) = clientid then
          (if snd (cl ! i) \<noteq> ip then cl[i := (fst (cl ! i), ip)] else cl, True)
        else if snd (cl ! i) = ip then (cl[i := (clientid, snd (cl ! i))], True)
        else join_scan clientid ip cl (i + 1) (if j = None \<and> fst (cl ! i) = 0 then Some i else j)
      else (case j of None \<Rightarrow> cl | Some k \<Rightarrow> cl[k := (clientid, ip)], False))"
  by pat_completeness auto
termination
  by (relation "measure (\<lambda>(clientid, ip, cl, i, j). MAXCLIENTS - i)") auto

definition ClientJoin :: "int \<Rightarrow> int \<Rightarrow> int \<Rightarrow> server \<Rightarrow> server" where
  "ClientJoin clientid srcip version s =
     (let s1 = s\<lparr>queue := WorkQueueEnqueueJoin version clientid (queue s)\<rparr>;
          (cl, found) = join_scan clientid srcip (clients s1) 0 None in
      s1\<lparr>clients := cl,
         activeclients := (if found then activeclients s1 else activeclients s1 + 1),
         Stats := (Stats s1)\<lparr>st_joinrep := st_joinrep (Stats s1) + 1\<rparr>\<rparr>)"

function leave_scan :: "int \<Rightarrow> (int \<times> int) list \<Rightarrow> nat \<Rightarrow> nat option" where
  "leave_scan clientid cl i =
     (if i < MAXCLIENTS then
        if fst (cl ! i) = clientid then Some i else leave_scan clientid cl (i + 1)
      else None)"
  by pat_completeness auto
termination
  by (relation "measure (\<lambda>(clientid, cl, i). MAXCLIENTS - i)") auto

definition ClientLeave :: "int \<Rightarrow> server \<Rightarrow> server" where
  "ClientLeave clientid s =
     (case leave_scan clientid (clients s) 0 of
        Some i \<Rightarrow> s\<lparr>activeclients := activeclients s - 1, clients := (clients s)[i := (0, 0)]\<rparr>
      | None \<Rightarrow> s)"

text \<open>\<^verbatim>\<open>ClientLeave2\<close> differs in the order of the updates and in logging the client's statistics.\<close>

definition ClientLeave2 :: "int \<Rightarrow> server \<Rightarrow> server" where
  "ClientLeave2 clientid s =
     (case leave_scan clientid (clients s) 0 of
        Some i \<Rightarrow> s\<lparr>clients := (clients s)[i := (0, 0)], activeclients := activeclients s - 1\<rparr>
      | None \<Rightarrow> s)"

definition ClientRequest :: "int \<Rightarrow> int \<Rightarrow> int \<Rightarrow> server \<Rightarrow> server option" where
  "ClientRequest chunk block n s =
     (if block < 0 \<or> block \<ge> MAXCHUNKSIZE \<or> n \<le> 0 \<or> n > MAXCHUNKSIZE \<or> block + n > MAXCHUNKSIZE
      then Some s
      else do {
        tmp \<leftarrow> BlockMapInit block n;
        ClientEnqueueMap chunk tmp n False s
      })"

definition ClientPartialRequest :: "int \<Rightarrow> int \<Rightarrow> blockmap \<Rightarrow> server \<Rightarrow> server option" where
  "ClientPartialRequest chunk retries bmap s = do {
     n \<leftarrow> BlockMapIsAlloc bmap 0 MAXCHUNKSIZE;
     if n = 0 then Some s else ClientEnqueueMap chunk bmap n (retries \<noteq> 0) s
   }"

section \<open>The receive thread\<close>

text \<open>The first statement of the thread: seconds to receive timeouts of 30 ms.\<close>

definition PKTRCV_TIMEOUT :: int where "PKTRCV_TIMEOUT = 30000"

definition recv_init :: "server \<Rightarrow> server" where
  "recv_init s =
     (if keepalive s \<noteq> 0 then s\<lparr>keepalive := to_i32 (keepalive s * 1000000 div PKTRCV_TIMEOUT)\<rparr> else s)"

definition recv_idle :: "bool \<Rightarrow> server \<Rightarrow> server" where
  "recv_idle kafailed s =
     (if keepalive s \<noteq> 0 then
        let s1 = s\<lparr>idles := idles s + 1\<rparr> in
        if idles s1 > keepalive s1 then
          if kafailed then
            let s2 = s1\<lparr>kafails := kafails s1 + 1\<rparr> in
            if kafails s2 > 5 then s2\<lparr>keepalive := 0\<rparr> else s2
          else s1\<lparr>kafails := 0, idles := 0\<rparr>
        else s1
      else s)"

definition bump_joins :: "server \<Rightarrow> server" where
  "bump_joins s = s\<lparr>Stats := (Stats s)\<lparr>st_joins := st_joins (Stats s) + 1\<rparr>\<rparr>"

definition bump_leaves :: "server \<Rightarrow> server" where
  "bump_leaves s = s\<lparr>Stats := (Stats s)\<lparr>st_leaves := st_leaves (Stats s) + 1\<rparr>\<rparr>"

definition bump_requests :: "server \<Rightarrow> server" where
  "bump_requests s = s\<lparr>Stats := (Stats s)\<lparr>st_requests := st_requests (Stats s) + 1\<rparr>\<rparr>"

definition dispatch :: "packet \<Rightarrow> server \<Rightarrow> server option" where
  "dispatch p s =
     (case msg p of
        Join clientid \<Rightarrow> Some (ClientJoin clientid (hdr_srcip p) 1 (bump_joins s))
      | Join2 clientid _ _ _ _ \<Rightarrow> Some (ClientJoin clientid (hdr_srcip p) 2 (bump_joins s))
      | Leave clientid _ \<Rightarrow> Some (ClientLeave clientid (bump_leaves s))
      | Leave2 clientid _ \<Rightarrow> Some (ClientLeave2 clientid (bump_leaves s))
      | Request chunk block n \<Rightarrow> ClientRequest chunk block n (bump_requests s)
      | Prequest chunk retries bmap \<Rightarrow> ClientPartialRequest chunk retries bmap (bump_requests s)
      | Block _ _ _ \<Rightarrow> Some s
      | Other _ \<Rightarrow> Some s)"

text \<open>
  One turn of the thread's loop: \<open>r\<close> is what \<^verbatim>\<open>recvfrom\<close> returns, \<open>now\<close> the time, \<open>kafailed\<close> the result of
  \<^verbatim>\<open>NetMCKeepAlive\<close> if it is called. \<^const>\<open>None\<close> is the death of the process.
\<close>

definition received_packet :: "recv \<Rightarrow> packet option" where
  "received_packet r = (case r of Recv _ _ _ p \<Rightarrow> Some p | _ \<Rightarrow> None)"

definition ServerRecvThread :: "net \<Rightarrow> file_info \<Rightarrow> timeval \<Rightarrow> bool \<Rightarrow> recv \<Rightarrow> server \<Rightarrow> server option" where
  "ServerRecvThread nt fi now kafailed r s = do {
     rc \<leftarrow> PacketReceive nt r;
     if rc \<noteq> 0 then Some (recv_idle kafailed s)
     else do {
       p \<leftarrow> received_packet r;
       let s1 = s\<lparr>idles := 0, Stats := (Stats s)\<lparr>st_msgin := st_msgin (Stats s) + 1\<rparr>\<rparr>;
       if \<not> PacketValid p (fi_chunks fi)
       then Some (s1\<lparr>Stats := (Stats s1)\<lparr>st_badpackets := st_badpackets (Stats s1) + 1\<rparr>\<rparr>)
       else
         let s2 = s1\<lparr>LastReq := now\<rparr>;
             s3 = (if \<not> gotone s2 then s2\<lparr>FirstReq := LastReq s2, gotone := True\<rparr> else s2) in
         dispatch p s3
     }
   }"

declare join_scan.simps [simp del] leave_scan.simps [simp del]

section \<open>Invariant\<close>

definition map_ok :: "file_info \<Rightarrow> byte list option \<Rightarrow> bool" where
  "map_ok fi m \<longleftrightarrow> (case m of None \<Rightarrow> True | Some cm \<Rightarrow> int (length cm) = fi_chunks fi)"

definition server_inv :: "file_info \<Rightarrow> server \<Rightarrow> bool" where
  "server_inv fi s \<longleftrightarrow> workq_inv (fi_chunks fi) (queue s) \<and> length (clients s) = MAXCLIENTS \<and>
     map_ok fi (chunkmap s) \<and> map_ok fi (lostmap s)"

definition packet_typed :: "packet \<Rightarrow> bool" where
  "packet_typed p \<longleftrightarrow> (case msg p of Prequest _ _ m \<Rightarrow> BlockMap_t m | _ \<Rightarrow> True)"

text \<open>
  The pairs that a request for the blocks \<open>A\<close> of a chunk adds to the queue: all of them, unless it is for
  the whole chunk and that is the range being sent.
\<close>

definition added_pairs :: "workq \<Rightarrow> int \<Rightarrow> nat set \<Rightarrow> (int \<times> nat) set" where
  "added_pairs w chunk A =
     (if int (card A) = MAXCHUNKSIZE \<and> chunk = WorkChunk w \<and> WorkCount w = MAXCHUNKSIZE then {}
      else {chunk} \<times> A)"

definition requested_pairs :: "workq \<Rightarrow> packet \<Rightarrow> (int \<times> nat) set" where
  "requested_pairs w p =
     (case msg p of
        Request chunk block n \<Rightarrow>
          if in_chunk block n then added_pairs w chunk {nat block..<nat (block + n)} else {}
      | Prequest chunk _ m \<Rightarrow> added_pairs w chunk (blocks m)
      | _ \<Rightarrow> {})"

lemma map_ok_update [simp]: "map_ok fi (Some cm) \<Longrightarrow> map_ok fi (Some (cm[i := v]))"
  by (simp add: map_ok_def)

lemma note_chunk_frame:
  "map_ok fi (chunkmap s) \<Longrightarrow> map_ok fi (chunkmap (note_chunk c s))"
  "queue (note_chunk c s) = queue s" "clients (note_chunk c s) = clients s"
  "activeclients (note_chunk c s) = activeclients s" "lostmap (note_chunk c s) = lostmap s"
  by (auto simp: note_chunk_def split: option.splits)

lemma lostmap_ok: "map_ok fi m \<Longrightarrow> map_ok fi (map_option (\<lambda>lm. lm[i := lm ! i + 1]) m)"
  by (cases m) (simp_all add: map_ok_def)

lemma ClientEnqueueMap_spec:
  assumes "server_inv fi s" and "0 \<le> chunk" and "chunk < fi_chunks fi" and "BlockMap_t m"
    and "n = int (card (blocks m))"
  shows "\<exists>s'. ClientEnqueueMap chunk m n isretry s = Some s' \<and> server_inv fi s' \<and>
    pending (queue s') = pending (queue s) \<union> added_pairs (queue s) chunk (blocks m) \<and>
    clients s' = clients s \<and> activeclients s' = activeclients s"
proof -
  have inv: "workq_inv (fi_chunks fi) (queue s)" using assms(1) by (simp add: server_inv_def)
  from WorkQueueEnqueueChunk_spec [OF inv assms(2-5)] obtain r q where
    e: "WorkQueueEnqueueChunk chunk m n (queue s) = Some (r, q)" and q: "workq_inv (fi_chunks fi) q"
    and pend: "if n = MAXCHUNKSIZE \<and> chunk = WorkChunk (queue s) \<and> n = WorkCount (queue s) then q = queue s
      else pending q = pending (queue s) \<union> {chunk} \<times> blocks m" by blast
  have "pending q = pending (queue s) \<union> added_pairs (queue s) chunk (blocks m)"
    using pend assms(5) by (auto simp: added_pairs_def split: if_splits)
  then show ?thesis using e q assms(1)
    by (auto simp: ClientEnqueueMap_def server_inv_def Let_def note_chunk_frame lostmap_ok)
qed

lemma ClientRequest_spec:
  assumes "server_inv fi s" and "0 \<le> chunk" and "chunk < fi_chunks fi"
  shows "\<exists>s'. ClientRequest chunk block n s = Some s' \<and> server_inv fi s' \<and>
    pending (queue s') = pending (queue s) \<union>
      (if in_chunk block n then added_pairs (queue s) chunk {nat block..<nat (block + n)} else {}) \<and>
    clients s' = clients s \<and> activeclients s' = activeclients s"
proof (cases "in_chunk block n")
  case True
  then have g: "\<not> (block < 0 \<or> block \<ge> MAXCHUNKSIZE \<or> n \<le> 0 \<or> n > MAXCHUNKSIZE \<or> block + n > MAXCHUNKSIZE)"
    by (auto simp: in_chunk_def)
  from BlockMapInit_Some [OF True] obtain m where m: "BlockMapInit block n = Some m" "BlockMap_t m"
    "blocks m = {nat block..<nat (block + n)}" by blast
  have "n = int (card (blocks m))" using True by (simp add: m(3) in_chunk_def nat_add_distrib)
  from ClientEnqueueMap_spec [OF assms m(2) this, of False] show ?thesis
    using True g m by (simp add: ClientRequest_def)
next
  case False
  then have "block < 0 \<or> block \<ge> MAXCHUNKSIZE \<or> n \<le> 0 \<or> n > MAXCHUNKSIZE \<or> block + n > MAXCHUNKSIZE"
    by (auto simp: in_chunk_def)
  then show ?thesis using False assms(1) by (simp add: ClientRequest_def)
qed

lemma ClientPartialRequest_spec:
  assumes "server_inv fi s" and "0 \<le> chunk" and "chunk < fi_chunks fi" and "BlockMap_t m"
  shows "\<exists>s'. ClientPartialRequest chunk retries m s = Some s' \<and> server_inv fi s' \<and>
    pending (queue s') = pending (queue s) \<union> added_pairs (queue s) chunk (blocks m) \<and>
    clients s' = clients s \<and> activeclients s' = activeclients s"
proof -
  have "in_chunk 0 MAXCHUNKSIZE" by (simp add: in_chunk_def MAXCHUNKSIZE_def)
  moreover have "blocks m \<inter> {0..<1024} = blocks m" using blocks_le [OF assms(4)] by auto
  ultimately have n: "BlockMapIsAlloc m 0 MAXCHUNKSIZE = Some (int (card (blocks m)))"
    using BlockMapIsAlloc_Some [OF assms(4), of 0 MAXCHUNKSIZE] by (simp add: MAXCHUNKSIZE_def)
  show ?thesis
  proof (cases "blocks m = {}")
    case True
    then show ?thesis using n assms(1) by (simp add: ClientPartialRequest_def added_pairs_def)
  next
    case False
    then show ?thesis using n ClientEnqueueMap_spec [OF assms refl]
      by (simp add: ClientPartialRequest_def)
  qed
qed

section \<open>The table of clients\<close>

definition occupied :: "(int \<times> int) list \<Rightarrow> int" where
  "occupied cl = (\<Sum>e\<leftarrow>cl. if fst e \<noteq> 0 then 1 else 0)"

text \<open>A free entry of the table is cleared completely.\<close>

definition table_ok :: "(int \<times> int) list \<Rightarrow> bool" where
  "table_ok cl \<longleftrightarrow> length cl = MAXCLIENTS \<and> (\<forall>e \<in> set cl. fst e = 0 \<longrightarrow> snd e = 0)"

lemma occupied_update:
  assumes "i < length cl"
  shows "occupied (cl[i := e]) =
    occupied cl - (if fst (cl ! i) \<noteq> 0 then 1 else 0) + (if fst e \<noteq> 0 then 1 else 0)"
  using assms by (simp add: occupied_def sum_list_map_update)

lemma table_ok_update:
  "table_ok cl \<Longrightarrow> (fst e = 0 \<longrightarrow> snd e = 0) \<Longrightarrow> table_ok (cl[i := e])"
  using set_update_subset_insert [of cl i e] by (auto simp: table_ok_def)

definition known :: "int \<Rightarrow> int \<Rightarrow> (int \<times> int) list \<Rightarrow> nat \<Rightarrow> bool" where
  "known clientid ip cl i \<longleftrightarrow> fst (cl ! i) = clientid \<or> snd (cl ! i) = ip"

lemma join_scan_spec:
  assumes "table_ok cl" and "clientid \<noteq> 0" and "ip \<noteq> 0" and "i \<le> MAXCLIENTS"
    and "\<And>k. j = Some k \<Longrightarrow> k < MAXCLIENTS \<and> fst (cl ! k) = 0"
    and "j = None \<Longrightarrow> \<forall>k<i. fst (cl ! k) \<noteq> 0"
    and "\<forall>k<i. \<not> known clientid ip cl k"
    and "join_scan clientid ip cl i j = (cl', found)"
  shows "table_ok cl' \<and> (found \<longleftrightarrow> (\<exists>k<MAXCLIENTS. known clientid ip cl k)) \<and>
    (if found then occupied cl' = occupied cl
     else if \<exists>k<MAXCLIENTS. fst (cl ! k) = 0 then occupied cl' = occupied cl + 1 else cl' = cl)"
  using assms
proof (induction clientid ip cl i j rule: join_scan.induct)
  case (1 clientid ip cl i j)
  note unf = join_scan.simps [of clientid ip cl i j]
  have len: "length cl = MAXCLIENTS" using "1.prems"(1) by (simp add: table_ok_def)
  consider (stop) "i = MAXCLIENTS" | (id) "i < MAXCLIENTS" "fst (cl ! i) = clientid"
    | (ip) "i < MAXCLIENTS" "fst (cl ! i) \<noteq> clientid" "snd (cl ! i) = ip"
    | (next_i) "i < MAXCLIENTS" "\<not> known clientid ip cl i"
    using "1.prems"(4) by (auto simp: known_def le_less)
  then show ?case
  proof cases
    case stop
    then show ?thesis
    proof (cases j)
      case None
      then show ?thesis using stop unf "1.prems" by auto
    next
      case (Some k)
      then have "k < MAXCLIENTS" "fst (cl ! k) = 0" using "1.prems"(5) by auto
      then show ?thesis using stop unf Some "1.prems" len
        by (auto simp: occupied_update table_ok_update)
    qed
  next
    case id
    then have "\<exists>k<MAXCLIENTS. known clientid ip cl k" by (auto simp: known_def)
    moreover have "table_ok cl'" "occupied cl' = occupied cl"
      using id unf "1.prems" len by (auto simp: occupied_update table_ok_update split: if_splits)
    ultimately show ?thesis using id unf "1.prems"(8) by auto
  next
    case ip
    have "fst (cl ! i) \<noteq> 0" using "1.prems"(1,3) ip len by (auto simp: table_ok_def)
    then have "table_ok cl'" "occupied cl' = occupied cl" "found"
      using ip unf "1.prems" len by (auto simp: occupied_update table_ok_update)
    moreover have "\<exists>k<MAXCLIENTS. known clientid ip cl k" using ip by (auto simp: known_def)
    ultimately show ?thesis by simp
  next
    case next_i
    let ?j = "if j = None \<and> fst (cl ! i) = 0 then Some i else j"
    have rec: "join_scan clientid ip cl (i + 1) ?j = (cl', found)"
      using next_i unf "1.prems"(8) by (simp add: known_def)
    show ?thesis
    proof (rule "1.IH" [OF next_i(1)])
      show "fst (cl ! i) \<noteq> clientid" "snd (cl ! i) \<noteq> ip" using next_i by (auto simp: known_def)
      show "k < MAXCLIENTS \<and> fst (cl ! k) = 0" if "?j = Some k" for k
        using that next_i(1) "1.prems"(5) by (auto split: if_splits)
      show "\<forall>k<i + 1. fst (cl ! k) \<noteq> 0" if "?j = None"
        using that "1.prems"(6) by (auto simp: less_Suc_eq split: if_splits)
      show "\<forall>k<i + 1. \<not> known clientid ip cl k"
        using next_i(2) "1.prems"(7) by (auto simp: less_Suc_eq)
    qed (use next_i "1.prems" rec in auto)
  qed
qed

lemma leave_scan_spec:
  "i \<le> MAXCLIENTS \<Longrightarrow>
   (case leave_scan clientid cl i of
      None \<Rightarrow> \<forall>k. i \<le> k \<and> k < MAXCLIENTS \<longrightarrow> fst (cl ! k) \<noteq> clientid
    | Some k \<Rightarrow> i \<le> k \<and> k < MAXCLIENTS \<and> fst (cl ! k) = clientid)"
proof (induction clientid cl i rule: leave_scan.induct)
  case (1 clientid cl i)
  consider (stop) "i = MAXCLIENTS" | (found) "i < MAXCLIENTS" "fst (cl ! i) = clientid"
    | (next_i) "i < MAXCLIENTS" "fst (cl ! i) \<noteq> clientid" using "1.prems" by (auto simp: le_less)
  then show ?case
  proof cases
    case next_i
    with 1 have ih: "case leave_scan clientid cl (i + 1) of
        None \<Rightarrow> \<forall>k. i + 1 \<le> k \<and> k < MAXCLIENTS \<longrightarrow> fst (cl ! k) \<noteq> clientid
      | Some k \<Rightarrow> i + 1 \<le> k \<and> k < MAXCLIENTS \<and> fst (cl ! k) = clientid" by simp
    show ?thesis unfolding leave_scan.simps [of clientid cl i] using next_i ih
      by (auto split: option.splits simp: Suc_le_eq) (metis le_neq_implies_less)
  qed (simp_all add: leave_scan.simps [of clientid cl])
qed

lemma length_join_scan: "join_scan clientid ip cl i j = (cl', found) \<Longrightarrow> length cl' = length cl"
proof (induction clientid ip cl i j rule: join_scan.induct)
  case (1 clientid ip cl i j)
  then show ?case
    unfolding join_scan.simps [of clientid ip cl i j] by (auto split: if_splits option.splits)
qed

lemma ClientJoin_queue:
  assumes "server_inv fi s" and "vers = 1 \<or> vers = 2"
  shows "server_inv fi (ClientJoin clientid ip vers s) \<and>
    pending (queue (ClientJoin clientid ip vers s)) = pending (queue s)"
proof -
  obtain cl found where j: "join_scan clientid ip (clients s) 0 None = (cl, found)" by fastforce
  then show ?thesis
    using assms length_join_scan [OF j] WorkQueueEnqueueJoin_spec [of "fi_chunks fi" "queue s" vers clientid]
    by (simp add: ClientJoin_def server_inv_def Let_def)
qed

lemma ClientLeave_queue:
  "server_inv fi s \<Longrightarrow> server_inv fi (ClientLeave clientid s) \<and> queue (ClientLeave clientid s) = queue s"
  by (auto simp: ClientLeave_def server_inv_def split: option.splits)

lemma ClientLeave2_eq: "ClientLeave2 clientid s = ClientLeave clientid s"
  by (simp add: ClientLeave2_def ClientLeave_def split: option.splits)

lemma bump_frame [simp]:
  "queue (bump_joins s) = queue s" "queue (bump_leaves s) = queue s" "queue (bump_requests s) = queue s"
  "server_inv fi (bump_joins s) = server_inv fi s" "server_inv fi (bump_leaves s) = server_inv fi s"
  "server_inv fi (bump_requests s) = server_inv fi s"
  by (simp_all add: bump_joins_def bump_leaves_def bump_requests_def server_inv_def)

lemma dispatch_spec:
  assumes "server_inv fi s" and "packet_typed p" and "msg_valid (msg p) (fi_chunks fi)"
  shows "\<exists>s'. dispatch p s = Some s' \<and> server_inv fi s' \<and>
    pending (queue s') = pending (queue s) \<union> requested_pairs (queue s) p"
proof (cases "msg p")
  case (Request chunk block n)
  then show ?thesis using assms ClientRequest_spec [of fi "bump_requests s" chunk block n]
    by (auto simp: dispatch_def requested_pairs_def msg_valid_def)
next
  case (Prequest chunk retries m)
  then show ?thesis using assms ClientPartialRequest_spec [of fi "bump_requests s" chunk m retries]
    by (auto simp: dispatch_def requested_pairs_def msg_valid_def packet_typed_def)
qed (use assms in \<open>simp_all add: dispatch_def requested_pairs_def ClientJoin_queue ClientLeave_queue ClientLeave2_eq\<close>)

lemma recv_idle_frame [simp]: "queue (recv_idle k s) = queue s" "server_inv fi (recv_idle k s) = server_inv fi s"
  by (simp_all add: recv_idle_def Let_def server_inv_def)

text \<open>What a turn of the receive thread may add: the pairs of an accepted request.\<close>

definition turn_pairs :: "net \<Rightarrow> file_info \<Rightarrow> recv \<Rightarrow> workq \<Rightarrow> (int \<times> nat) set" where
  "turn_pairs nt fi r w =
     (if PacketReceive nt r = Some 0 then
        case received_packet r of
          None \<Rightarrow> {}
        | Some p \<Rightarrow> if PacketValid p (fi_chunks fi) then requested_pairs w p else {}
      else {})"

lemma PacketReceive_0: "PacketReceive nt r = Some 0 \<Longrightarrow> \<exists>p. received_packet r = Some p"
  by (cases r) (auto simp: received_packet_def)

lemma ServerRecvThread_spec:
  assumes "server_inv fi s" and "\<And>p. received_packet r = Some p \<Longrightarrow> packet_typed p" and "r \<noteq> RecvError"
  shows "\<exists>s'. ServerRecvThread nt fi now kafailed r s = Some s' \<and> server_inv fi s' \<and>
    pending (queue s') = pending (queue s) \<union> turn_pairs nt fi r (queue s)"
proof -
  obtain rc where rc: "PacketReceive nt r = Some rc" using PacketReceive_returns [OF assms(3)] by blast
  show ?thesis
  proof (cases "rc = 0")
    case True
    then obtain p where p: "received_packet r = Some p" using PacketReceive_0 rc by blast
    show ?thesis
    proof (cases "PacketValid p (fi_chunks fi)")
      case valid: True
      then have mv: "msg_valid (msg p) (fi_chunks fi)" by (auto simp: PacketValid_def split: if_splits)
      let ?s3 = "\<lambda>s1. if \<not> gotone s1 then s1\<lparr>FirstReq := LastReq s1, gotone := True\<rparr> else s1"
      define s3 where "s3 = ?s3 (s\<lparr>idles := 0, Stats := (Stats s)\<lparr>st_msgin := st_msgin (Stats s) + 1\<rparr>, LastReq := now\<rparr>)"
      have "server_inv fi s3" "queue s3 = queue s" using assms(1) by (simp_all add: s3_def server_inv_def)
      moreover have "ServerRecvThread nt fi now kafailed r s = dispatch p s3"
        using True rc p valid by (simp add: ServerRecvThread_def s3_def Let_def)
      ultimately show ?thesis using dispatch_spec [OF _ assms(2) [OF p] mv, of s3] True rc p valid
        by (simp add: turn_pairs_def)
    next
      case False
      then show ?thesis using True rc p assms(1)
        by (simp add: ServerRecvThread_def turn_pairs_def Let_def server_inv_def)
    qed
  next
    case False
    then show ?thesis using rc assms(1) by (simp add: ServerRecvThread_def turn_pairs_def)
  qed
qed

section \<open>Properties\<close>

text \<open>
  C10. No packet stops the server. Whatever arrives (the only assumption on the packet is that the bitmap of a partial request has
  its 128 bytes), a turn of the receive thread fails no assertion and stays inside
  the arrays it indexes; afterwards exactly the blocks of a request that was accepted
  have been added to the pending ones, except for a request of a whole chunk that is being sent as a whole. Only a fatal error of
  \<^verbatim>\<open>recvfrom\<close> ends the process.
\<close>

theorem server_survives_packets:
  assumes "server_inv fi s" and "\<And>p. received_packet r = Some p \<Longrightarrow> packet_typed p" and "r \<noteq> RecvError"
  shows "\<exists>s'. ServerRecvThread nt fi now kafailed r s = Some s' \<and> server_inv fi s' \<and>
    pending (queue s') = pending (queue s) \<union> turn_pairs nt fi r (queue s)"
  by (rule ServerRecvThread_spec [OF assms])

definition server_example :: server where
  "server_example = \<lparr>queue = WorkQ_static, clients = replicate 256 (0, 0), activeclients = 0,
     chunkmap = Some [0, 0, 0], lostmap = None, blockslost = 0, clientretries = 0,
     FirstReq = \<lparr>tv_sec = 0, tv_usec = 0\<rparr>, LastReq = \<lparr>tv_sec = 0, tv_usec = 0\<rparr>, gotone = False,
     keepalive = 0, idles = 0, kafails = 0,
     Stats = \<lparr>st_msgin = 0, st_joins = 0, st_leaves = 0, st_requests = 0, st_joinrep = 0,
       st_dupsent = 0, st_partialreq = 0, st_qmerges = 0, st_badpackets = 0, st_blockslost = 0,
       st_clientlost = 0\<rparr>\<rparr>"

definition file_example :: file_info where
  "file_example = \<lparr>fi_blocks = 3072, fi_chunks = 3, fi_isimage = True, fi_filesize = 3145728\<rparr>"

lemma server_example_inv: "server_inv file_example server_example"
  by (simp add: server_inv_def server_example_def file_example_def workq_inv_def WorkQ_static_def
      MAXCLIENTS_def map_ok_def)

theorem server_survives_packets_witness:
  "let nt = \<lparr>myipaddr = 9, mcastaddr = 8, sndportnum = 80\<rparr>;
       p = \<lparr>hdr_type = 1, hdr_datalen = 12, hdr_srcip = 7, msg = Request 2 5 3\<rparr> in
   \<exists>s'. ServerRecvThread nt file_example \<lparr>tv_sec = 1, tv_usec = 0\<rparr> False (Recv 28 7 80 p) server_example = Some s' \<and>
     pending (queue s') = {2} \<times> {5..<8}"
proof -
  let ?nt = "\<lparr>myipaddr = 9, mcastaddr = 8, sndportnum = 80\<rparr>"
  let ?p = "\<lparr>hdr_type = 1, hdr_datalen = 12, hdr_srcip = 7, msg = Request 2 5 3\<rparr>"
  let ?r = "Recv 28 7 80 ?p"
  have "turn_pairs ?nt file_example ?r (queue server_example) = {2} \<times> {5..<8}"
    by (simp add: turn_pairs_def received_packet_def to_u64_def sizeof_hdr_def PacketValid_def msg_valid_def
        PKTTYPE_REQUEST_def requested_pairs_def added_pairs_def in_chunk_def MAXCHUNKSIZE_def
        file_example_def to_i32_def)
  moreover have "pending (queue server_example) = {}"
    by (simp add: server_example_def pending_def WorkQ_static_def)
  ultimately show ?thesis
    using server_survives_packets [OF server_example_inv, of ?r ?nt "\<lparr>tv_sec = 1, tv_usec = 0\<rparr>" False]
    by (auto simp: received_packet_def packet_typed_def)
qed

text \<open>
  The count of active clients follows the table. On a table whose free entries are clear, a join
  with a non-zero number and address changes the count and the number of occupied entries together, unless the
  table is full and does not know the client, when only the count rises; a leave with a non-zero number
  keeps their difference. A leave with the number zero is taken for a leave of every free entry:
  it lowers the count although no client has left.
\<close>

theorem client_accounting:
  assumes "table_ok (clients s)" and "clientid \<noteq> 0" and "ip \<noteq> 0"
  shows "(let s' = ClientJoin clientid ip vers s in table_ok (clients s') \<and>
      (if (\<exists>k<MAXCLIENTS. known clientid ip (clients s) k) \<or> (\<exists>k<MAXCLIENTS. fst (clients s ! k) = 0)
       then activeclients s' - occupied (clients s') = activeclients s - occupied (clients s)
       else activeclients s' = activeclients s + 1 \<and> clients s' = clients s)) \<and>
    table_ok (clients (ClientLeave clientid s)) \<and>
    activeclients (ClientLeave clientid s) - occupied (clients (ClientLeave clientid s)) =
      activeclients s - occupied (clients s) \<and>
    ((\<exists>k<MAXCLIENTS. fst (clients s ! k) = 0) \<longrightarrow>
      activeclients (ClientLeave 0 s) = activeclients s - 1 \<and>
      occupied (clients (ClientLeave 0 s)) = occupied (clients s))"
proof -
  let ?cl = "clients s"
  have len: "length ?cl = MAXCLIENTS" using assms(1) by (simp add: table_ok_def)
  obtain cl found where j: "join_scan clientid ip ?cl 0 None = (cl, found)" by fastforce
  note sc = join_scan_spec [OF assms le0 _ _ _ j]
  have join: "clients (ClientJoin clientid ip vers s) = cl"
    "activeclients (ClientJoin clientid ip vers s) = activeclients s + (if found then 0 else 1)"
    using j by (simp_all add: ClientJoin_def Let_def)
  note lv = leave_scan_spec [where i = 0 and clientid = clientid and cl = ?cl]
    and l0 = leave_scan_spec [where i = 0 and clientid = 0 and cl = ?cl]
  have "table_ok (clients (ClientLeave clientid s)) \<and>
      activeclients (ClientLeave clientid s) - occupied (clients (ClientLeave clientid s)) =
      activeclients s - occupied ?cl"
    using lv len assms by (auto simp: ClientLeave_def occupied_update table_ok_update split: option.splits)
  moreover have "activeclients (ClientLeave 0 s) = activeclients s - 1 \<and>
      occupied (clients (ClientLeave 0 s)) = occupied ?cl" if "\<exists>k<MAXCLIENTS. fst (?cl ! k) = 0"
    using l0 len that by (auto simp: ClientLeave_def occupied_update split: option.splits)
  ultimately show ?thesis unfolding Let_def join using sc by auto
qed

theorem client_accounting_witness:
  "activeclients (ClientLeave 0 server_example) = - 1 \<and>
   occupied (clients (ClientLeave 0 server_example)) = 0 \<and>
   activeclients (ClientJoin 5 7 1 server_example) = occupied (clients (ClientJoin 5 7 1 server_example))"
proof -
  let ?s = server_example
  have t: "table_ok (clients ?s)" by (simp add: table_ok_def server_example_def MAXCLIENTS_def)
  have z: "occupied (clients ?s) = 0" "activeclients ?s = 0"
    by (simp_all add: occupied_def server_example_def sum_list_replicate)
  have free: "\<exists>k<MAXCLIENTS. fst (clients ?s ! k) = 0"
    by (rule exI [of _ 0]) (simp add: server_example_def MAXCLIENTS_def)
  from client_accounting [OF t, of 5 7 1] free z show ?thesis by (simp add: Let_def)
qed

end
