(* ===== verification/Sender.thy ===== *)
theory Sender
  imports Server Sizes
begin

text \<open>
  The server's main thread (server.c: \<^verbatim>\<open>PlayFrisbee\<close>, \<^verbatim>\<open>mypread\<close>, \<^verbatim>\<open>calcburst\<close>, the part of \<^verbatim>\<open>main\<close> that fills
  \<^verbatim>\<open>FileInfo\<close>): it takes ranges off the work queue, reads the blocks from the file and sends them in
  paced bursts. The operating system's answers (the clock, the results of \<^verbatim>\<open>pread\<close> and \<^verbatim>\<open>sendto\<close>) are
  sequences in the state with the position reached in each. \<open>wire\<close> is the history of the packets sent.
\<close>

section \<open>State\<close>

text \<open>
  A call of \<^verbatim>\<open>pread\<close> fails, or reads at most \<open>n + 1\<close> bytes of what was asked for and is there.
\<close>

datatype pread_res = PErr | PGot nat

record send_stats =
  st_blockssent :: int
  st_netusecs :: int
  st_netmaxusec :: int
  st_netmsplus :: int
  st_filereads :: int
  st_filebytes :: int
  st_fileusecs :: int
  st_filemaxusec :: int
  st_goesidle :: int
  st_intervals :: int
  st_missed :: int
  st_dyndecs :: int
  st_dynincs :: int
  st_dynminburst :: int
  st_dynmaxburst :: int

record sender =
  srv :: server
  clock :: "nat \<Rightarrow> timeval"
  tick :: nat
  preads :: "nat \<Rightarrow> pread_res"
  npread :: nat
  sends :: "nat \<Rightarrow> sendres"
  nsend :: nat
  wire :: "packet list"
  burstsize :: int
  maxburstsize :: int
  burstinterval :: int
  dynburst :: bool
  readsize :: int
  timeout :: int
  sendretries :: int
  IdleTimeStamp :: timeval
  idlelastloop :: bool
  throttle :: int
  thisburst :: int
  startnext :: timeval
  lastsendretries :: int
  lastclientretries :: int
  bursts :: int
  nextstamp :: timeval
  sstats :: send_stats

definition gettimeofday :: "sender \<Rightarrow> timeval \<times> sender" where
  "gettimeofday s = (clock s (tick s), s\<lparr>tick := tick s + 1\<rparr>)"

text \<open>What \<^verbatim>\<open>main\<close> stores about a file of \<open>fsize\<close> bytes.\<close>

definition init_file_info :: "int \<Rightarrow> (sizes \<times> file_info) option" where
  "init_file_info fsize = do {
     sz \<leftarrow> InitSizes MAXCHUNKSIZE MAXBLOCKSIZE fsize;
     bs \<leftarrow> BLOCKSIZE sz;
     cs \<leftarrow> CHUNKSIZE sz;
     Some (sz, \<lparr>fi_blocks = TotalBlocks sz, fi_chunks = TotalChunks sz,
                fi_isimage = (c_mod fsize (bs * cs) = 0), fi_filesize = fsize\<rparr>)
   }"

section \<open>Reading the file\<close>

definition pread_count :: "byte list \<Rightarrow> nat \<Rightarrow> int \<Rightarrow> int \<Rightarrow> int" where
  "pread_count img n nbytes offset =
     min (int n + 1) (min nbytes (max 0 (int (length img) - offset)))"

text \<open>
  The two loops of \<^verbatim>\<open>mypread\<close>: \<open>i\<close> counts the failed tries of the current read (at most 100), \<open>k\<close> is the
  position in the results of \<^verbatim>\<open>pread\<close>. \<^const>\<open>None\<close> is one of the fatal errors.
\<close>

function mypread_loop ::
  "byte list \<Rightarrow> (nat \<Rightarrow> pread_res) \<Rightarrow> nat \<Rightarrow> nat \<Rightarrow> int \<Rightarrow> int \<Rightarrow> byte list \<Rightarrow> (byte list \<times> nat) option" where
  "mypread_loop img r k i nbytes offset buf =
     (if nbytes \<le> 0 then Some (buf, k)
      else if i < 100 then
        case r k of
          PErr \<Rightarrow> mypread_loop img r (k + 1) (i + 1) nbytes offset buf
        | PGot n \<Rightarrow>
            let cc = pread_count img n nbytes offset in
            if cc = 0 then None
            else mypread_loop img r (k + 1) 0 (nbytes - cc) (offset + cc)
                   (buf @ take (nat cc) (drop (nat offset) img))
      else None)"
  by pat_completeness auto
termination
  by (relation "measures [\<lambda>(img, r, k, i, nbytes, offset, buf). nat nbytes,
      \<lambda>(img, r, k, i, nbytes, offset, buf). 100 - i]")
    (auto simp: pread_count_def min_def max_def)

definition mypread :: "byte list \<Rightarrow> int \<Rightarrow> int \<Rightarrow> sender \<Rightarrow> (byte list \<times> sender) option" where
  "mypread img nbytes offset s = do {
     (buf, k) \<leftarrow> mypread_loop img (preads s) (npread s) 0 nbytes offset [];
     Some (buf, s\<lparr>npread := k\<rparr>)
   }"

section \<open>The burst rate\<close>

definition LOSS_INTERVAL :: int where "LOSS_INTERVAL = 500"

text \<open>
  \<^verbatim>\<open>(int)(burstsize * MULT_DECREASE)\<close> with a factor of 0.90: for a positive \<^verbatim>\<open>int\<close> the product of doubles truncates to
  nine tenths rounded down.
\<close>

definition decreased :: "int \<Rightarrow> int" where
  "decreased obsize =
     (let b1 = 9 * obsize div 10;
          b2 = (if b1 = obsize then b1 - 1 else b1) in
      if b2 < 1 then 1 else b2)"

definition decrease_burst :: "sender \<Rightarrow> sender" where
  "decrease_burst s =
     (if burstsize s > 1 then
        let b = decreased (burstsize s) in
        s\<lparr>burstsize := b,
          sstats := (sstats s)\<lparr>st_dyndecs := st_dyndecs (sstats s) + 1,
            st_dynminburst := min b (st_dynminburst (sstats s))\<rparr>\<rparr>
      else s)"

definition increase_burst :: "sender \<Rightarrow> sender" where
  "increase_burst s =
     (if burstsize s < maxburstsize s then
        let b1 = burstsize s + 1;
            b2 = (if b1 > maxburstsize s then maxburstsize s else b1) in
        s\<lparr>burstsize := b2,
          sstats := (sstats s)\<lparr>st_dynincs := st_dynincs (sstats s) + 1,
            st_dynmaxburst := max b2 (st_dynmaxburst (sstats s))\<rparr>\<rparr>
      else s)"

text \<open>What counts as a loss: a resend in the interval, or a chunk in \<^verbatim>\<open>lostmap\<close>.\<close>

definition lost_chunks :: "server \<Rightarrow> nat" where
  "lost_chunks sv = (case lostmap sv of None \<Rightarrow> 0 | Some lm \<Rightarrow> length (filter (\<lambda>v. v \<noteq> 0) lm))"

definition had_loss :: "sender \<Rightarrow> bool" where
  "had_loss s \<longleftrightarrow> sendretries s - lastsendretries s > 0 \<or> lost_chunks (srv s) > 0"

definition clear_lost :: "sender \<Rightarrow> sender" where
  "clear_lost s = s\<lparr>srv := (srv s)\<lparr>lostmap := map_option (map (\<lambda>v. 0)) (lostmap (srv s))\<rparr>\<rparr>"

definition end_interval :: "sender \<Rightarrow> sender" where
  "end_interval s =
     (let s1 = (if had_loss s then decrease_burst (clear_lost s) else increase_burst (clear_lost s)) in
      s1\<lparr>nextstamp := addusec (nextstamp s1) (LOSS_INTERVAL * 1000),
         lastclientretries := clientretries (srv s1),
         lastsendretries := sendretries s1, bursts := 0\<rparr>)"

definition calcburst :: "sender \<Rightarrow> sender" where
  "calcburst s0 =
     (case gettimeofday s0 of (stamp, s) \<Rightarrow>
      if tv_sec (nextstamp s) = 0 then s\<lparr>nextstamp := addusec stamp (LOSS_INTERVAL * 1000)\<rparr>
      else if \<not> pasttime stamp (nextstamp s) then s\<lparr>bursts := bursts s + 1\<rparr>
      else end_interval (s\<lparr>bursts := bursts s + 1\<rparr>))"

text \<open>
  The end of a burst, after a block has been sent: sleep until the end of the interval, or start a new interval when it has
  passed already.
\<close>

definition restart_interval :: "sender \<Rightarrow> sender" where
  "restart_interval s0 =
     (case gettimeofday s0 of (t, s) \<Rightarrow>
      s\<lparr>startnext := t, sstats := (sstats s)\<lparr>st_missed := st_missed (sstats s) + 1\<rparr>\<rparr>)"

definition pause :: "sender \<Rightarrow> sender" where
  "pause s0 =
     (case gettimeofday s0 of (now, s) \<Rightarrow>
      case sleeptil now (startnext s) of
        None \<Rightarrow> restart_interval s
      | Some _ \<Rightarrow> s\<lparr>thisburst := 0\<rparr>)"

definition next_interval :: "sender \<Rightarrow> sender" where
  "next_interval s =
     s\<lparr>startnext := addusec (startnext s) (burstinterval s), throttle := 0,
       sstats := (sstats s)\<lparr>st_intervals := st_intervals (sstats s) + 1\<rparr>\<rparr>"

definition pace :: "sender \<Rightarrow> sender" where
  "pace s =
     (if burstinterval s > 0 then
        if throttle s + 1 \<ge> burstsize s then
          let s1 = pause (s\<lparr>throttle := throttle s + 1, thisburst := thisburst s + (throttle s + 1)\<rparr>) in
          next_interval (if dynburst s1 then calcburst s1 else s1)
        else s\<lparr>throttle := throttle s + 1\<rparr>
      else s)"

section \<open>Sending blocks\<close>

text \<open>The microseconds between two readings of the clock, in an \<^verbatim>\<open>int\<close>, with the assertion of the statistics.\<close>

definition elapsed :: "timeval \<Rightarrow> timeval \<Rightarrow> int option" where
  "elapsed start now =
     (let d = subtime now start; us = to_i32 (tv_sec d * 1000000 + tv_usec d) in
      do { c_assert (us \<ge> 0); Some us })"

definition note_send :: "int \<Rightarrow> send_stats \<Rightarrow> send_stats" where
  "note_send us st =
     st\<lparr>st_netusecs := st_netusecs st + us, st_netmaxusec := max us (st_netmaxusec st),
        st_netmsplus := (if us \<ge> 1000 then st_netmsplus st + 1 else st_netmsplus st),
        st_blockssent := st_blockssent st + 1\<rparr>"

definition send_block :: "net \<Rightarrow> packet \<Rightarrow> sender \<Rightarrow> sender option" where
  "send_block nt p s = do {
     let (wstamp, s1) = gettimeofday s;
     (q, n, resends) \<leftarrow> PacketSend nt p (sends s1) (nsend s1);
     let (now, s2) = gettimeofday (s1\<lparr>nsend := n, wire := wire s1 @ [q]\<rparr>);
     us \<leftarrow> elapsed wstamp now;
     Some (s2\<lparr>sendretries := sendretries s2 + resends, sstats := note_send us (sstats s2)\<rparr>)
   }"

definition block_buf :: "byte list \<Rightarrow> int \<Rightarrow> int \<Rightarrow> int \<Rightarrow> byte list" where
  "block_buf databuf readcount resid j =
     (if resid \<noteq> 0 \<and> j = readcount - 1 then
        take (nat (MAXBLOCKSIZE - resid)) (drop (nat (j * MAXBLOCKSIZE)) databuf) @ replicate (nat resid) 0
      else take (nat MAXBLOCKSIZE) (drop (nat (j * MAXBLOCKSIZE)) databuf))"

function send_group ::
  "net \<Rightarrow> int \<Rightarrow> int \<Rightarrow> int \<Rightarrow> int \<Rightarrow> byte list \<Rightarrow> int \<Rightarrow> sender \<Rightarrow> sender option" where
  "send_group nt chunk block readcount resid databuf j s =
     (if j < readcount then do {
        s' \<leftarrow> send_block nt \<lparr>hdr_type = PKTTYPE_REQUEST, hdr_datalen = 8 + MAXBLOCKSIZE, hdr_srcip = 0,
                msg = Block chunk (block + j) (block_buf databuf readcount resid j)\<rparr> s;
        send_group nt chunk block readcount resid databuf (j + 1) (pace s')
      } else Some s)"
  by pat_completeness auto
termination
  by (relation "measure (\<lambda>(nt, chunk, block, readcount, resid, databuf, j, s). nat (readcount - j))") auto

definition note_read :: "int \<Rightarrow> int \<Rightarrow> send_stats \<Rightarrow> send_stats" where
  "note_read us cc st =
     st\<lparr>st_fileusecs := st_fileusecs st + us, st_filemaxusec := max us (st_filemaxusec st),
        st_filereads := st_filereads st + 1, st_filebytes := st_filebytes st + cc\<rparr>"

definition read_group :: "byte list \<Rightarrow> int \<Rightarrow> int \<Rightarrow> sender \<Rightarrow> (byte list \<times> sender) option" where
  "read_group img readbytes offset s = do {
     let (rstamp, s1) = gettimeofday s;
     (databuf, s2) \<leftarrow> mypread img readbytes offset s1;
     let cc = int (length databuf);
     c_assert (cc > 0);
     let (now, s3) = gettimeofday s2;
     us \<leftarrow> elapsed rstamp now;
     c_assert (cc = readbytes);
     Some (databuf, s3\<lparr>sstats := note_read us cc (sstats s3)\<rparr>)
   }"

text \<open>
  The loop over the blocks of a range. It ends early at a read beyond the end of the file.
\<close>

partial_function (option) send_range ::
  "net \<Rightarrow> file_info \<Rightarrow> byte list \<Rightarrow> int \<Rightarrow> int \<Rightarrow> int \<Rightarrow> int \<Rightarrow> sender \<Rightarrow> sender option" where
  "send_range nt fi img chunk lastblock block offset s =
     (if block < lastblock then
        let readcount = (if lastblock - block > readsize s then readsize s else lastblock - block);
            readbytes = readcount * MAXBLOCKSIZE;
            diff = offset + readbytes - fi_filesize fi in
        if diff > 0 \<and> \<not> (\<not> fi_isimage fi \<and> diff < MAXBLOCKSIZE) then Some s
        else
          let resid = (if diff > 0 then diff else 0) in
          Option.bind (read_group img (readbytes - resid) offset s) (\<lambda>(databuf, s1).
          Option.bind (send_group nt chunk block readcount resid databuf 0 s1) (\<lambda>s2.
          send_range nt fi img chunk lastblock (block + readcount) (offset + (readbytes - resid)) s2))
      else Some s)"

declare mypread_loop.simps [simp del] send_group.simps [simp del]

section \<open>The main loop\<close>

text \<open>
  The turn of the loop when the queue is empty; the result says whether the loop ends.
\<close>

definition go_idle :: "sender \<Rightarrow> sender" where
  "go_idle s = s\<lparr>sstats := (sstats s)\<lparr>st_goesidle := st_goesidle (sstats s) + 1\<rparr>, idlelastloop := True\<rparr>"

definition idle_turn :: "sender \<Rightarrow> bool \<times> sender" where
  "idle_turn s0 =
     (case gettimeofday s0 of (stamp, s1) \<Rightarrow>
      let s = (if burstinterval s1 > 0 \<and> thisburst s1 > burstsize s1 then s1\<lparr>thisburst := 0\<rparr> else s1) in
      if timeout s = 0 then (False, if \<not> idlelastloop s then go_idle s else s)
      else if timeout s < 0 \<and> st_joins (Stats (srv s)) > 0 \<and> activeclients (srv s) = 0 then (True, s)
      else if idlelastloop s then
        (timeout s > 0 \<and> tv_sec stamp - tv_sec (IdleTimeStamp s) > timeout s, s)
      else (False, (go_idle s)\<lparr>IdleTimeStamp := stamp\<rparr>))"

definition wake :: "sender \<Rightarrow> sender" where
  "wake s =
     (if idlelastloop s then
        if burstinterval s > 0 then
          (case gettimeofday s of (stamp, s1) \<Rightarrow>
           s1\<lparr>startnext := addusec stamp (burstinterval s1), throttle := 0, thisburst := 0,
              idlelastloop := False\<rparr>)
        else s\<lparr>idlelastloop := False\<rparr>
      else s)"

text \<open>
  The join reply. In the first version the union \<^verbatim>\<open>join\<close> ends up holding the block count.
\<close>

definition join_reply :: "sizes \<Rightarrow> file_info \<Rightarrow> int \<Rightarrow> int \<Rightarrow> packet option" where
  "join_reply sz fi chunk blockcount =
     (let jvers = - chunk; clientid = to_u32 blockcount in
      do {
        c_assert (jvers = 1 \<or> jvers = 2);
        if jvers = 1 then
          Some \<lparr>hdr_type = PKTTYPE_REPLY, hdr_datalen = 4, hdr_srcip = 0, msg = Join (fi_blocks fi)\<rparr>
        else do {
          cs \<leftarrow> CHUNKSIZE sz;
          bs \<leftarrow> BLOCKSIZE sz;
          Some \<lparr>hdr_type = PKTTYPE_REPLY, hdr_datalen = 24, hdr_srcip = 0,
                msg = Join2 clientid 0 cs bs (fi_filesize fi)\<rparr>
        }
      })"

definition send_join :: "net \<Rightarrow> sizes \<Rightarrow> file_info \<Rightarrow> int \<Rightarrow> int \<Rightarrow> sender \<Rightarrow> sender option" where
  "send_join nt sz fi chunk blockcount s = do {
     p \<leftarrow> join_reply sz fi chunk blockcount;
     (q, n, resends) \<leftarrow> PacketSend nt p (sends s) (nsend s);
     Some (s\<lparr>nsend := n, wire := wire s @ [q]\<rparr>)
   }"

definition PlayFrisbee :: "net \<Rightarrow> sizes \<Rightarrow> file_info \<Rightarrow> byte list \<Rightarrow> bool \<Rightarrow> sender \<Rightarrow> (bool \<times> sender) option" where
  "PlayFrisbee nt sz fi img killme s =
     (if killme then Some (True, s)
      else do {
        (r, q) \<leftarrow> WorkQueueDequeue 0 (queue (srv s));
        let s1 = s\<lparr>srv := (srv s)\<lparr>queue := q\<rparr>\<rparr>;
        case r of
          None \<Rightarrow> Some (idle_turn s1)
        | Some (chunk, startblock, blockcount) \<Rightarrow>
            let s2 = wake s1 in
            if chunk < 0 then do {
              s3 \<leftarrow> send_join nt sz fi chunk blockcount s2;
              Some (False, s3)
            }
            else do {
              let offset = MAXBLOCKSIZE * chunk * MAXCHUNKSIZE + MAXBLOCKSIZE * startblock;
              s3 \<leftarrow> send_range nt fi img chunk (startblock + blockcount) startblock offset s2;
              Some (False, s3)
            }
      })"

section \<open>Reading returns the bytes of the file\<close>

lemma pread_count_range:
  assumes "0 < nbytes" and "0 \<le> offset" and "offset + nbytes \<le> int (length img)"
  shows "0 < pread_count img n nbytes offset \<and> pread_count img n nbytes offset \<le> nbytes"
  using assms by (auto simp: pread_count_def)

lemma slice_append:
  assumes "0 \<le> c" and "c \<le> n" and "0 \<le> off"
  shows "take (nat c) (drop (nat off) xs) @ take (nat (n - c)) (drop (nat (off + c)) xs) =
    take (nat n) (drop (nat off) xs)"
proof -
  have "nat n = nat c + nat (n - c)" "nat (off + c) = nat off + nat c" using assms by simp_all
  then show ?thesis by (simp only: take_add drop_drop add.commute)
qed

lemma mypread_loop_slice:
  assumes "0 \<le> nbytes" and "0 \<le> offset" and "offset + nbytes \<le> int (length img)"
    and "\<forall>n. \<exists>m<100. r (n + m) \<noteq> PErr" and "\<exists>m. m + i < 100 \<and> r (k + m) \<noteq> PErr"
  shows "\<exists>k'. mypread_loop img r k i nbytes offset buf =
    Some (buf @ take (nat nbytes) (drop (nat offset) img), k')"
  using assms
proof (induction img r k i nbytes offset buf rule: mypread_loop.induct)
  case (1 img r k i nbytes offset buf)
  note unf = mypread_loop.simps [of img r k i nbytes offset buf]
  obtain m where m: "m + i < 100" "r (k + m) \<noteq> PErr" using "1.prems"(5) by blast
  consider (stop) "nbytes = 0" | (err) "0 < nbytes" "r k = PErr" | (got) n where "0 < nbytes" "r k = PGot n"
    using "1.prems"(1) by (cases "r k") (auto simp: le_less)
  then show ?case
  proof cases
    case stop
    then show ?thesis using unf by simp
  next
    case err
    then have "m \<noteq> 0" using m(2) by (intro notI) simp
    then have "\<exists>m'. m' + (i + 1) < 100 \<and> r (k + 1 + m') \<noteq> PErr"
      using m by (intro exI [of _ "m - 1"]) simp
    then show ?thesis using "1.IH"(1) [OF _ _ err(2)] "1.prems" err m(1) unf by auto
  next
    case got
    define cc where "cc = pread_count img n nbytes offset"
    have cc: "0 < cc" "cc \<le> nbytes"
      using pread_count_range [OF got(1) "1.prems"(2,3), of n] by (simp_all add: cc_def)
    have "\<exists>m'. m' + 0 < 100 \<and> r (k + 1 + m') \<noteq> PErr"
      using "1.prems"(4) [rule_format, of "k + 1"] by simp
    then have "\<exists>k'. mypread_loop img r (k + 1) 0 (nbytes - cc) (offset + cc)
          (buf @ take (nat cc) (drop (nat offset) img)) =
        Some ((buf @ take (nat cc) (drop (nat offset) img)) @
          take (nat (nbytes - cc)) (drop (nat (offset + cc)) img), k')"
      using "1.IH"(2) [OF _ _ got(2) cc_def] "1.prems" got cc m(1) by simp
    then show ?thesis using unf got cc m(1) slice_append [of cc nbytes offset img] "1.prems"(2)
      by (simp add: cc_def [symmetric] Let_def)
  qed
qed

section \<open>What the sending routines keep\<close>

text \<open>
  The environment answers: \<^verbatim>\<open>sendto\<close> is never blocked for ever, \<^verbatim>\<open>pread\<close> never fails a hundred times in a
  row, and the clock does not go back and does not jump by half an hour.
\<close>

definition clock_ok :: "(nat \<Rightarrow> timeval) \<Rightarrow> bool" where
  "clock_ok c \<longleftrightarrow> (\<forall>i. tv_ok (c i) \<and> usecs_of (c i) \<le> usecs_of (c (Suc i)) \<and>
     usecs_of (c (Suc i)) < usecs_of (c i) + 2 ^ 31)"

definition env_ok :: "sender \<Rightarrow> bool" where
  "env_ok s \<longleftrightarrow> (\<forall>n. \<exists>k. retried (sends s) n k) \<and> (\<forall>n. \<exists>m<100. preads s (n + m) \<noteq> PErr) \<and> clock_ok (clock s)"

definition kept :: "sender \<Rightarrow> sender \<Rightarrow> bool" where
  "kept s s' \<longleftrightarrow> clock s' = clock s \<and> preads s' = preads s \<and> sends s' = sends s \<and>
     readsize s' = readsize s \<and> burstinterval s' = burstinterval s \<and> maxburstsize s' = maxburstsize s \<and>
     dynburst s' = dynburst s \<and> timeout s' = timeout s \<and>
     (srv s')\<lparr>lostmap := None\<rparr> = (srv s)\<lparr>lostmap := None\<rparr> \<and>
     map_option length (lostmap (srv s')) = map_option length (lostmap (srv s))"

lemma kept_refl [simp]: "kept s s"
  by (simp add: kept_def)

lemma kept_trans: "kept s t \<Longrightarrow> kept t u \<Longrightarrow> kept s u"
  by (simp add: kept_def)

lemma kept_env: "kept s s' \<Longrightarrow> env_ok s \<Longrightarrow> env_ok s'"
  by (simp add: kept_def env_ok_def)

text \<open>Fewer blocks than the burst size have been sent since the last pause.\<close>

definition pacing_inv :: "sender \<Rightarrow> bool" where
  "pacing_inv s \<longleftrightarrow> 1 \<le> burstsize s \<and> (dynburst s \<longrightarrow> burstsize s \<le> maxburstsize s) \<and>
     0 \<le> throttle s \<and> throttle s < burstsize s"

lemma gettimeofday_kept:
  "gettimeofday s = (t, s') \<Longrightarrow> kept s s' \<and> wire s' = wire s \<and> burstsize s' = burstsize s \<and>
     throttle s' = throttle s \<and> srv s' = srv s \<and> t = clock s (tick s) \<and> tick s' = tick s + 1"
  by (auto simp: gettimeofday_def kept_def)

lemma decreased_range: "1 < b \<Longrightarrow> 1 \<le> decreased b \<and> decreased b < b \<and> 10 * decreased b \<le> 9 * b"
proof -
  assume b: "1 < b"
  define n where "n = 9 * b div 10"
  have "1 \<le> n" "n < b" "10 * n \<le> 9 * b" unfolding n_def using b by linarith+
  then show ?thesis by (simp add: decreased_def n_def [symmetric] Let_def)
qed

lemma decrease_burst_frame:
  "kept s (decrease_burst s)" "wire (decrease_burst s) = wire s" "throttle (decrease_burst s) = throttle s"
  by (simp_all add: decrease_burst_def kept_def Let_def)

lemma decrease_burst_size:
  "burstsize (decrease_burst s) = (if 1 < burstsize s then decreased (burstsize s) else burstsize s)"
  by (simp add: decrease_burst_def Let_def)

lemma increase_burst_frame:
  "kept s (increase_burst s)" "wire (increase_burst s) = wire s" "throttle (increase_burst s) = throttle s"
  by (simp_all add: increase_burst_def kept_def Let_def)

lemma increase_burst_size:
  "burstsize (increase_burst s) = (if burstsize s < maxburstsize s then burstsize s + 1 else burstsize s)"
  by (simp add: increase_burst_def Let_def)

definition interval_over :: "sender \<Rightarrow> bool" where
  "interval_over s \<longleftrightarrow> tv_sec (nextstamp s) \<noteq> 0 \<and> pasttime (clock s (tick s)) (nextstamp s)"

definition next_burst :: "sender \<Rightarrow> int" where
  "next_burst s =
     (if \<not> interval_over s then burstsize s
      else if had_loss s then (if 1 < burstsize s then decreased (burstsize s) else burstsize s)
      else if burstsize s < maxburstsize s then burstsize s + 1 else burstsize s)"

lemma clear_lost_frame:
  "kept s (clear_lost s)" "wire (clear_lost s) = wire s" "throttle (clear_lost s) = throttle s"
  "burstsize (clear_lost s) = burstsize s" "maxburstsize (clear_lost s) = maxburstsize s"
  by (simp_all add: clear_lost_def kept_def option.map_comp o_def)

lemma end_interval_spec:
  "kept s (end_interval s) \<and> wire (end_interval s) = wire s \<and> throttle (end_interval s) = throttle s \<and>
   burstsize (end_interval s) =
     (if had_loss s then (if 1 < burstsize s then decreased (burstsize s) else burstsize s)
      else if burstsize s < maxburstsize s then burstsize s + 1 else burstsize s)"
proof -
  define s1 where "s1 = (if had_loss s then decrease_burst (clear_lost s) else increase_burst (clear_lost s))"
  note c = clear_lost_frame [of s]
  have "kept s s1" "wire s1 = wire s" "throttle s1 = throttle s"
    using c decrease_burst_frame [of "clear_lost s"] increase_burst_frame [of "clear_lost s"]
      kept_trans [OF c(1)] by (simp_all add: s1_def)
  moreover have "burstsize s1 = (if had_loss s then (if 1 < burstsize s then decreased (burstsize s) else burstsize s)
      else if burstsize s < maxburstsize s then burstsize s + 1 else burstsize s)"
    using c by (simp add: s1_def decrease_burst_size increase_burst_size)
  moreover have "end_interval s = s1\<lparr>nextstamp := addusec (nextstamp s1) (LOSS_INTERVAL * 1000),
      lastclientretries := clientretries (srv s1), lastsendretries := sendretries s1, bursts := 0\<rparr>"
    by (simp only: end_interval_def s1_def Let_def)
  ultimately show ?thesis by (simp add: kept_def)
qed

lemma calcburst_spec:
  "kept s (calcburst s) \<and> wire (calcburst s) = wire s \<and> throttle (calcburst s) = throttle s \<and>
   burstsize (calcburst s) = next_burst s"
proof -
  let ?s1 = "s\<lparr>tick := tick s + 1, bursts := bursts s + 1\<rparr>"
  have k: "kept s ?s1" by (simp add: kept_def)
  have l: "had_loss ?s1 = had_loss s" by (simp add: had_loss_def)
  consider (init) "tv_sec (nextstamp s) = 0"
    | (early) "tv_sec (nextstamp s) \<noteq> 0" "\<not> pasttime (clock s (tick s)) (nextstamp s)"
    | (over) "tv_sec (nextstamp s) \<noteq> 0" "pasttime (clock s (tick s)) (nextstamp s)" by blast
  then show ?thesis
  proof cases
    case over
    then have "calcburst s = end_interval ?s1" by (simp add: calcburst_def gettimeofday_def)
    moreover have "kept s (end_interval ?s1)" using end_interval_spec [of ?s1] kept_trans [OF k] by simp
    ultimately show ?thesis using end_interval_spec [of ?s1] over l
      by (simp add: next_burst_def interval_over_def)
  qed (simp_all add: calcburst_def gettimeofday_def kept_def next_burst_def interval_over_def)
qed

lemma next_burst_range:
  assumes "1 \<le> burstsize s" and "burstsize s \<le> maxburstsize s"
  shows "1 \<le> next_burst s \<and> next_burst s \<le> maxburstsize s"
  using assms decreased_range [of "burstsize s"] by (auto simp: next_burst_def)

lemma pause_frame:
  "kept s (pause s) \<and> wire (pause s) = wire s \<and> burstsize (pause s) = burstsize s"
  by (simp add: pause_def restart_interval_def gettimeofday_def kept_def split: option.split)

lemma pace_spec:
  assumes "pacing_inv s"
  shows "kept s (pace s) \<and> wire (pace s) = wire s \<and> pacing_inv (pace s)"
proof -
  consider (off) "\<not> 0 < burstinterval s" | (on) "0 < burstinterval s" "throttle s + 1 < burstsize s"
    | (full) "0 < burstinterval s" "throttle s + 1 \<ge> burstsize s" by linarith
  then show ?thesis
  proof cases
    case off
    then show ?thesis using assms by (simp add: pace_def)
  next
    case on
    then show ?thesis using assms by (simp add: pace_def kept_def pacing_inv_def)
  next
    case full
    let ?s1 = "s\<lparr>throttle := throttle s + 1, thisburst := thisburst s + (throttle s + 1)\<rparr>"
    define s3 where "s3 = pause ?s1"
    define s4 where "s4 = (if dynburst s3 then calcburst s3 else s3)"
    have p: "pace s = next_interval s4" using full by (simp add: pace_def s4_def s3_def Let_def)
    have "kept s ?s1" by (simp add: kept_def)
    then have s3: "kept s s3" "wire s3 = wire s" "burstsize s3 = burstsize s"
      using pause_frame [of ?s1] kept_trans [of s ?s1 s3] by (simp_all add: s3_def)
    have s4: "kept s s4" "wire s4 = wire s"
      using s3 calcburst_spec [of s3] kept_trans [of s s3 s4] by (simp_all add: s4_def)
    have c: "dynburst s3 = dynburst s" "maxburstsize s3 = maxburstsize s"
      "dynburst s4 = dynburst s" "maxburstsize s4 = maxburstsize s"
      using s3(1) s4(1) by (simp_all add: kept_def)
    have "1 \<le> burstsize s4 \<and> (dynburst s \<longrightarrow> burstsize s4 \<le> maxburstsize s)"
      using assms calcburst_spec [of s3] next_burst_range [of s3] s3(3) c by (auto simp: s4_def pacing_inv_def)
    then show ?thesis using p s4 c by (simp add: pacing_inv_def kept_def next_interval_def)
  qed
qed

section \<open>The packets sent for a range\<close>

definition block_packet :: "net \<Rightarrow> byte list \<Rightarrow> int \<Rightarrow> int \<Rightarrow> packet" where
  "block_packet nt img chunk block = \<lparr>hdr_type = PKTTYPE_REQUEST, hdr_datalen = 8 + MAXBLOCKSIZE,
     hdr_srcip = myipaddr nt, msg = Block chunk block (image_block img chunk block)\<rparr>"

lemma elapsed_ok: "clock_ok c \<Longrightarrow> \<exists>us. elapsed (c i) (c (Suc i)) = Some us"
proof -
  assume "clock_ok c"
  then have ok: "tv_ok (c i)" "tv_ok (c (Suc i))" "usecs_of (c i) \<le> usecs_of (c (Suc i))"
    "usecs_of (c (Suc i)) < usecs_of (c i) + 2 ^ 31" by (auto simp: clock_ok_def)
  let ?d = "subtime (c (Suc i)) (c i)"
  have d: "tv_sec ?d * 1000000 + tv_usec ?d = usecs_of (c (Suc i)) - usecs_of (c i)"
    using subtime_ok [OF ok(2,1)] by (simp add: usecs_of_def)
  have "to_i32 (tv_sec ?d * 1000000 + tv_usec ?d) = usecs_of (c (Suc i)) - usecs_of (c i)"
    unfolding d by (rule to_i32_id) (use ok in auto)
  then show ?thesis using ok by (simp add: elapsed_def Let_def)
qed

lemma send_block_spec:
  assumes "env_ok s"
  shows "\<exists>s'. send_block nt p s = Some s' \<and> kept s s' \<and> wire s' = wire s @ [p\<lparr>hdr_srcip := myipaddr nt\<rparr>] \<and>
    burstsize s' = burstsize s \<and> throttle s' = throttle s"
proof -
  from assms obtain k where "retried (sends s) (nsend s) k" by (auto simp: env_ok_def)
  then have ps: "PacketSend nt p (sends s) (nsend s) = Some (p\<lparr>hdr_srcip := myipaddr nt\<rparr>, nsend s + k + 1, int k)"
    by (subst PacketSend_iff) blast
  obtain us where "elapsed (clock s (tick s)) (clock s (Suc (tick s))) = Some us"
    using assms elapsed_ok [of "clock s" "tick s"] by (auto simp: env_ok_def)
  then show ?thesis using ps by (simp add: send_block_def gettimeofday_def kept_def)
qed

lemma pacing_inv_cong:
  "pacing_inv s \<Longrightarrow> kept s s' \<Longrightarrow> burstsize s' = burstsize s \<Longrightarrow> throttle s' = throttle s \<Longrightarrow> pacing_inv s'"
  by (simp add: pacing_inv_def kept_def)

lemma send_group_spec:
  assumes "\<And>i. j \<le> i \<Longrightarrow> i < readcount \<Longrightarrow> block_buf databuf readcount resid i = image_block img chunk (block + i)"
    and "env_ok s" and "pacing_inv s"
  shows "\<exists>s'. send_group nt chunk block readcount resid databuf j s = Some s' \<and> kept s s' \<and> pacing_inv s' \<and>
    wire s' = wire s @ map (\<lambda>i. block_packet nt img chunk (block + i)) [j..readcount - 1]"
  using assms
proof (induction nt chunk block readcount resid databuf j s rule: send_group.induct)
  case (1 nt chunk block readcount resid databuf j s)
  note unf = send_group.simps [of nt chunk block readcount resid databuf j s]
  show ?case
  proof (cases "j < readcount")
    case False
    then show ?thesis using unf "1.prems" by simp
  next
    case True
    let ?p = "\<lparr>hdr_type = PKTTYPE_REQUEST, hdr_datalen = 8 + MAXBLOCKSIZE, hdr_srcip = 0,
      msg = Block chunk (block + j) (block_buf databuf readcount resid j)\<rparr>"
    from send_block_spec [OF "1.prems"(2), of nt ?p] obtain s1 where
      s1: "send_block nt ?p s = Some s1" "kept s s1" "wire s1 = wire s @ [?p\<lparr>hdr_srcip := myipaddr nt\<rparr>]"
      "burstsize s1 = burstsize s" "throttle s1 = throttle s" by blast
    have pk: "?p\<lparr>hdr_srcip := myipaddr nt\<rparr> = block_packet nt img chunk (block + j)"
      using "1.prems"(1) True by (simp add: block_packet_def)
    note pc = pace_spec [OF pacing_inv_cong [OF "1.prems"(3) s1(2,4,5)]]
    have kp: "kept s (pace s1)" using kept_trans [OF s1(2)] pc by blast
    from "1.IH" [OF True s1(1) _ kept_env [OF kp "1.prems"(2)]] "1.prems"(1) pc obtain s' where
      "send_group nt chunk block readcount resid databuf (j + 1) (pace s1) = Some s'" "kept (pace s1) s'"
      "pacing_inv s'" "wire s' = wire (pace s1) @ map (\<lambda>i. block_packet nt img chunk (block + i)) [j + 1..readcount - 1]"
      by force
    then show ?thesis using unf True s1 pk pc kept_trans [OF kp]
      by (simp add: upto.simps [of j])
  qed
qed

text \<open>Cutting the bytes read for a group into blocks gives the blocks of the image.\<close>

lemma take_drop_slice: "a + n \<le> m \<Longrightarrow> take n (drop a (take m xs)) = take n (drop a xs)"
  by (simp add: drop_take min_absorb1)

lemma block_buf_image:
  assumes "0 \<le> pos" and "0 \<le> j" and "j < readcount" and "0 \<le> resid" and "resid < 1024"
    and "pos * 1024 + (readcount * 1024 - resid) \<le> int (length img)"
    and "resid \<noteq> 0 \<Longrightarrow> pos * 1024 + (readcount * 1024 - resid) = int (length img)"
  shows "block_buf (take (nat (readcount * 1024 - resid)) (drop (nat (pos * 1024)) img)) readcount resid j =
    padded (take 1024 (drop (nat ((pos + j) * 1024)) img))"
proof -
  obtain p i r t where n: "pos = int p" "j = int i" "resid = int r" "readcount = int t"
    using assms by (meson nonneg_int_cases order.strict_trans1 order_less_imp_le order_trans)
  let ?buf = "take (t * 1024 - r) (drop (p * 1024) img)"
  have it: "i < t" "r < 1024" using assms n by auto
  have le: "p * 1024 + (t * 1024 - r) \<le> length img" using assms(6) n it by linarith
  have eqs: "nat (readcount * 1024 - resid) = t * 1024 - r" "nat (pos * 1024) = p * 1024"
    "nat ((pos + j) * 1024) = p * 1024 + i * 1024"
    using n it by (simp_all add: nat_mult_distrib algebra_simps of_nat_diff nat_diff_distrib nat_add_distrib)
  show ?thesis
  proof (cases "r \<noteq> 0 \<and> i = t - 1")
    case True
    have len: "length img = p * 1024 + (t * 1024 - r)" using assms(7) n it True by linarith
    have "i * 1024 + (1024 - r) = t * 1024 - r" using True it by (cases t) auto
    then have "take (1024 - r) (drop (i * 1024) ?buf) = take (1024 - r) (drop (p * 1024 + i * 1024) img)"
      by (subst take_drop_slice) (simp_all add: add.commute)
    moreover have "length (drop (p * 1024 + i * 1024) img) = 1024 - r" using len True it by (cases t) auto
    moreover have cond: "resid \<noteq> 0 \<and> j = readcount - 1" using True n it by auto
    moreover have "nat (MAXBLOCKSIZE - resid) = 1024 - r" "nat (j * MAXBLOCKSIZE) = i * 1024" "nat resid = r"
      using n it by (simp_all add: MAXBLOCKSIZE_def nat_mult_distrib nat_diff_distrib)
    ultimately show ?thesis unfolding eqs block_buf_def if_P [OF cond] using it by (simp add: padded_def)
  next
    case False
    have "i * 1024 + 1024 \<le> t * 1024 - r"
    proof (cases "r = 0")
      case True
      then show ?thesis using it by simp
    next
      case r: False
      then have "i + 2 \<le> t" using False it by auto
      then show ?thesis using it by linarith
    qed
    then have "take 1024 (drop (i * 1024) ?buf) = take 1024 (drop (p * 1024 + i * 1024) img)"
      and "p * 1024 + i * 1024 + 1024 \<le> length img"
      using le by (subst take_drop_slice, simp_all add: add.commute)
    moreover have cond: "\<not> (resid \<noteq> 0 \<and> j = readcount - 1)" using False n it by auto
    moreover have "nat MAXBLOCKSIZE = 1024" "nat (j * MAXBLOCKSIZE) = i * 1024"
      using n by (simp_all add: MAXBLOCKSIZE_def nat_mult_distrib)
    ultimately show ?thesis unfolding eqs block_buf_def if_not_P [OF cond] by (simp add: padded_def)
  qed
qed

lemma upto_shift: "map (\<lambda>i. b + i) [i..j] = [b + i..b + j]" for b :: int
proof (induction i j rule: upto.induct)
  case (1 i j)
  then show ?case by (simp add: upto.simps [of i j] upto.simps [of "b + i"] add.assoc)
qed

lemma read_group_spec:
  assumes "env_ok s" and "0 < nbytes" and "0 \<le> offset" and "offset + nbytes \<le> int (length img)"
  shows "\<exists>s'. read_group img nbytes offset s = Some (take (nat nbytes) (drop (nat offset) img), s') \<and>
    kept s s' \<and> wire s' = wire s \<and> burstsize s' = burstsize s \<and> throttle s' = throttle s"
proof -
  have pr: "\<forall>n. \<exists>m<100. preads s (n + m) \<noteq> PErr" using assms(1) by (simp add: env_ok_def)
  then have "\<exists>m. m + 0 < 100 \<and> preads s (npread s + m) \<noteq> PErr" by auto
  from mypread_loop_slice [OF _ assms(3,4) pr this, of "[]"] assms(2) obtain k where
    k: "mypread_loop img (preads s) (npread s) 0 nbytes offset [] =
      Some (take (nat nbytes) (drop (nat offset) img), k)" by auto
  obtain us where us: "elapsed (clock s (tick s)) (clock s (Suc (tick s))) = Some us"
    using assms elapsed_ok [of "clock s" "tick s"] by (auto simp: env_ok_def)
  have "int (length (take (nat nbytes) (drop (nat offset) img))) = nbytes" using assms by simp
  then show ?thesis using k us assms(2) by (simp add: read_group_def mypread_def gettimeofday_def kept_def)
qed

text \<open>
  One group of blocks that lies in the image, its last block perhaps short: it is read and sent.
\<close>

lemma group_spec:
  assumes "env_ok s" and "pacing_inv s" and "0 \<le> chunk * 1024 + block" and "0 < readcount"
    and "0 \<le> resid" and "resid < 1024"
    and "(chunk * 1024 + block) * 1024 + (readcount * 1024 - resid) \<le> int (length img)"
    and "resid \<noteq> 0 \<Longrightarrow> (chunk * 1024 + block) * 1024 + (readcount * 1024 - resid) = int (length img)"
  shows "\<exists>buf s1 s2. read_group img (readcount * 1024 - resid) ((chunk * 1024 + block) * 1024) s = Some (buf, s1) \<and>
    send_group nt chunk block readcount resid buf 0 s1 = Some s2 \<and> kept s s2 \<and> pacing_inv s2 \<and>
    wire s2 = wire s @ map (block_packet nt img chunk) [block..block + readcount - 1]"
proof -
  let ?pos = "chunk * 1024 + block"
  let ?buf = "take (nat (readcount * 1024 - resid)) (drop (nat (?pos * 1024)) img)"
  from read_group_spec [OF assms(1), of "readcount * 1024 - resid" "?pos * 1024" img] assms(3-7) obtain s1 where
    r: "read_group img (readcount * 1024 - resid) (?pos * 1024) s = Some (?buf, s1)" "kept s s1"
    "wire s1 = wire s" "burstsize s1 = burstsize s" "throttle s1 = throttle s" by auto
  have buf: "block_buf ?buf readcount resid i = image_block img chunk (block + i)"
    if "0 \<le> i" "i < readcount" for i
    using block_buf_image [OF assms(3) that assms(5-8)] by (simp add: image_block_def block_slice_def add.assoc)
  from send_group_spec [OF buf kept_env [OF r(2) assms(1)] pacing_inv_cong [OF assms(2) r(2,4,5)], of 0 nt]
  obtain s2 where g: "send_group nt chunk block readcount resid ?buf 0 s1 = Some s2" "kept s1 s2" "pacing_inv s2"
    "wire s2 = wire s1 @ map (\<lambda>i. block_packet nt img chunk (block + i)) [0..readcount - 1]" by blast
  have "map (\<lambda>i. block_packet nt img chunk (block + i)) [0..readcount - 1] =
      map (block_packet nt img chunk) [block..block + readcount - 1]"
    using arg_cong [OF upto_shift [of block 0 "readcount - 1"], of "map (block_packet nt img chunk)"]
    by (simp add: o_def add_diff_eq)
  then show ?thesis using r g kept_trans [OF r(2) g(2)] by (intro exI [of _ ?buf] exI [of _ s1] exI [of _ s2]) simp
qed

definition file_of :: "file_info \<Rightarrow> byte list \<Rightarrow> bool" where
  "file_of fi img \<longleftrightarrow> fi_filesize fi = int (length img) \<and> (fi_isimage fi \<longrightarrow> fi_filesize fi mod 1024 = 0)"

text \<open>The first block of the range that is not sent: the end of the range if its last block is in the image.\<close>

definition sent_upto :: "net \<Rightarrow> byte list \<Rightarrow> int \<Rightarrow> int \<Rightarrow> int \<Rightarrow> sender \<Rightarrow> sender \<Rightarrow> bool" where
  "sent_upto nt img chunk block lastblock s s' \<longleftrightarrow> kept s s' \<and> pacing_inv s' \<and>
     (\<exists>e. block \<le> e \<and> e \<le> lastblock \<and> wire s' = wire s @ map (block_packet nt img chunk) [block..e - 1] \<and>
       (block < e \<longrightarrow> (chunk * 1024 + e - 1) * 1024 < int (length img)) \<and>
       ((chunk * 1024 + lastblock - 1) * 1024 < int (length img) \<longrightarrow> e = lastblock))"

lemma sent_upto_refl:
  assumes "pacing_inv s" and "block \<le> lastblock"
    and "(chunk * 1024 + lastblock - 1) * 1024 < int (length img) \<Longrightarrow> block = lastblock"
  shows "sent_upto nt img chunk block lastblock s s"
  using assms by (auto simp: sent_upto_def intro!: exI [of _ block])

lemma sent_upto_step:
  assumes "kept s s1" and "wire s1 = wire s @ map (block_packet nt img chunk) [block..m - 1]"
    and "block < m" and "(chunk * 1024 + m - 1) * 1024 < int (length img)"
    and "sent_upto nt img chunk m lastblock s1 s'"
  shows "sent_upto nt img chunk block lastblock s s'"
proof -
  obtain e where e: "m \<le> e" "e \<le> lastblock" "wire s' = wire s1 @ map (block_packet nt img chunk) [m..e - 1]"
    "m < e \<longrightarrow> (chunk * 1024 + e - 1) * 1024 < int (length img)"
    "(chunk * 1024 + lastblock - 1) * 1024 < int (length img) \<longrightarrow> e = lastblock" "kept s1 s'" "pacing_inv s'"
    using assms(5) by (auto simp: sent_upto_def)
  have "[block..e - 1] = [block..m - 1] @ [m..e - 1]" using upto_split2 [of block "m - 1" "e - 1"] assms(3) e(1) by simp
  then have "wire s' = wire s @ map (block_packet nt img chunk) [block..e - 1]" using e(3) assms(2) by simp
  moreover have "(chunk * 1024 + e - 1) * 1024 < int (length img)" using assms(4) e(1,4) by (cases "m < e") auto
  ultimately show ?thesis using kept_trans [OF assms(1) e(6)] e assms(3) by (auto simp: sent_upto_def intro!: exI [of _ e])
qed

lemma send_range_step:
  assumes "block < lastblock"
    and "rc = (if lastblock - block > readsize s then readsize s else lastblock - block)"
    and "diff = off + rc * 1024 - fi_filesize fi" and "\<not> (diff > 0 \<and> \<not> (\<not> fi_isimage fi \<and> diff < 1024))"
    and "resid = (if diff > 0 then diff else 0)"
    and "read_group img (rc * 1024 - resid) off s = Some (buf, s1)"
    and "send_group nt chunk block rc resid buf 0 s1 = Some s2"
  shows "send_range nt fi img chunk lastblock block off s =
    send_range nt fi img chunk lastblock (block + rc) (off + (rc * 1024 - resid)) s2"
  unfolding send_range.simps [of nt fi img chunk lastblock block off s] Let_def MAXBLOCKSIZE_def
    assms(2) [symmetric] assms(3) [symmetric] assms(5) [symmetric]
  using assms(1,4,6,7) by auto

lemma send_range_spec:
  assumes "env_ok s" and "pacing_inv s" and "0 < readsize s" and "file_of fi img"
    and "0 \<le> chunk * 1024 + block" and "block \<le> lastblock"
  shows "\<exists>s'. send_range nt fi img chunk lastblock block ((chunk * 1024 + block) * 1024) s = Some s' \<and>
    sent_upto nt img chunk block lastblock s s'"
  using assms
proof (induction "nat (lastblock - block)" arbitrary: block s rule: less_induct)
  case less
  let ?off = "(chunk * 1024 + block) * 1024"
  have size: "fi_filesize fi = int (length img)" using less.prems(4) by (simp add: file_of_def)
  note unf = send_range.simps [of nt fi img chunk lastblock block ?off s]
  show ?case
  proof (cases "block < lastblock")
    case False
    then show ?thesis using unf less.prems by (auto intro!: sent_upto_refl)
  next
    case True
    define rc where "rc = (if lastblock - block > readsize s then readsize s else lastblock - block)"
    define diff where "diff = ?off + rc * 1024 - int (length img)"
    have rc: "0 < rc" "block + rc \<le> lastblock" using True less.prems(3) by (auto simp: rc_def)
    show ?thesis
    proof (cases "diff > 0 \<and> \<not> (\<not> fi_isimage fi \<and> diff < 1024)")
      case beyond: True
      have "int (length img) \<le> ?off + (rc - 1) * 1024"
      proof (cases "diff < 1024")
        case True
        then have "int (length img) mod 1024 = 0" using beyond less.prems(4) by (auto simp: file_of_def)
        then obtain q where "int (length img) = 1024 * q" by (metis mod_0_imp_dvd dvdE)
        then have "diff = (chunk * 1024 + block + rc - q) * 1024" by (simp add: diff_def algebra_simps)
        moreover have "\<not> (0 < z * 1024 \<and> z * 1024 < 1024)" for z :: int by auto
        ultimately show ?thesis using beyond True by metis
      next
        case False
        then show ?thesis by (simp add: diff_def)
      qed
      then have "\<not> (chunk * 1024 + lastblock - 1) * 1024 < int (length img)" using rc(2) by simp
      then show ?thesis using unf True beyond less.prems(2)
        by (auto simp: rc_def [symmetric] diff_def size MAXBLOCKSIZE_def Let_def intro!: sent_upto_refl)
    next
      case inside: False
      define resid where "resid = (if diff > 0 then diff else 0)"
      have resid: "0 \<le> resid" "resid < 1024" "?off + (rc * 1024 - resid) \<le> int (length img)"
        "resid \<noteq> 0 \<Longrightarrow> ?off + (rc * 1024 - resid) = int (length img)"
        using inside by (auto simp: resid_def diff_def split: if_splits)
      from group_spec [OF less.prems(1,2,5) rc(1) resid, of nt] obtain buf s1 s2 where
        g: "read_group img (rc * 1024 - resid) ?off s = Some (buf, s1)"
        "send_group nt chunk block rc resid buf 0 s1 = Some s2" "kept s s2" "pacing_inv s2"
        "wire s2 = wire s @ map (block_packet nt img chunk) [block..block + rc - 1]" by blast
      have step: "send_range nt fi img chunk lastblock block ?off s =
          send_range nt fi img chunk lastblock (block + rc) (?off + (rc * 1024 - resid)) s2"
        by (rule send_range_step [OF True rc_def diff_def [folded size] inside resid_def g(1,2)])
      have last_in: "(chunk * 1024 + (block + rc) - 1) * 1024 < int (length img)" using resid by simp
      have "\<exists>s'. send_range nt fi img chunk lastblock (block + rc) (?off + (rc * 1024 - resid)) s2 = Some s' \<and>
          sent_upto nt img chunk (block + rc) lastblock s2 s'"
      proof (cases "resid = 0")
        case True
        have eq: "?off + (rc * 1024 - resid) = (chunk * 1024 + (block + rc)) * 1024" using True by simp
        show ?thesis unfolding eq
          by (rule less.hyps) (use rc less.prems kept_env [OF g(3)] g(3,4) in \<open>auto simp: kept_def\<close>)
      next
        case False
        have off: "?off + (rc * 1024 - resid) = int (length img)" using resid(4) False by simp
        have pos: "0 < readsize s2" using g(3) less.prems(3) by (simp add: kept_def)
        have "send_range nt fi img chunk lastblock (block + rc) (int (length img)) s2 = Some s2"
          using pos by (subst send_range.simps) (auto simp: size Let_def MAXBLOCKSIZE_def)
        moreover have "block + rc = lastblock" if "(chunk * 1024 + lastblock - 1) * 1024 < int (length img)"
        proof -
          have "(lastblock - 1 - (block + rc)) * 1024 < 0"
            using that off resid(1) by (simp add: algebra_simps)
          then show ?thesis using rc(2) by simp
        qed
        ultimately show ?thesis unfolding off using sent_upto_refl [OF g(4) rc(2)] by blast
      qed
      then show ?thesis using step sent_upto_step [OF g(3,5) _ last_in] rc(1) by auto
    qed
  qed
qed

section \<open>A turn of the main loop\<close>

definition carried :: "packet list \<Rightarrow> (int \<times> nat) set" where
  "carried ps = {(c, nat b) | c b. \<exists>p \<in> set ps. \<exists>buf. msg p = Block c b buf}"

lemma carried_simps [simp]:
  "carried [] = {}" "carried (ps @ qs) = carried ps \<union> carried qs"
  by (auto simp: carried_def)

lemma carried_block_packets:
  "0 \<le> b \<Longrightarrow> carried (map (block_packet nt img c) [b..e - 1]) = {c} \<times> {nat b..<nat e}"
  by (auto simp: carried_def block_packet_def image_iff intro!: exI [of _ "int _"])

definition sender_ok :: "file_info \<Rightarrow> sender \<Rightarrow> bool" where
  "sender_ok fi s \<longleftrightarrow> server_inv fi (srv s) \<and> env_ok s \<and> pacing_inv s \<and> 0 < readsize s"

definition sender_inv :: "file_info \<Rightarrow> byte list \<Rightarrow> sender \<Rightarrow> bool" where
  "sender_inv fi img s \<longleftrightarrow> sender_ok fi s \<and> pending (queue (srv s)) \<subseteq> in_image img"

lemma init_file_info_spec:
  assumes "size_ok (int (length img))" and "init_file_info (int (length img)) = Some (sz, fi)"
  shows "file_of fi img \<and> CHUNKSIZE sz = Some 1024 \<and> BLOCKSIZE sz = Some 1024 \<and>
    sz = geometry (int (length img)) \<and> fi_chunks fi = TotalChunks sz \<and> fi_blocks fi = TotalBlocks sz"
proof -
  let ?n = "int (length img)"
  have i: "InitSizes MAXCHUNKSIZE MAXBLOCKSIZE ?n = Some (geometry ?n)"
    by (rule InitSizes_geometry [OF assms(1)])
  note g = geometry_CHUNKSIZE [of ?n, OF of_nat_0_le_iff]
  have fi: "sz = geometry ?n" "fi = \<lparr>fi_blocks = TotalBlocks (geometry ?n), fi_chunks = TotalChunks (geometry ?n),
      fi_isimage = (c_mod ?n (1024 * 1024) = 0), fi_filesize = ?n\<rparr>"
    using assms(2) by (auto simp: init_file_info_def i g)
  have "?n mod 1024 = 0" if "c_mod ?n (1024 * 1024) = 0"
  proof -
    have "?n mod (1024 * 1024) = 0" using that by (simp add: c_mod_pos)
    then have "1024 * 1024 dvd ?n" by (rule mod_0_imp_dvd)
    then have "1024 dvd ?n" by (rule dvd_trans [OF dvd_triv_left])
    then show ?thesis by simp
  qed
  then show ?thesis using fi g by (simp add: file_of_def)
qed

lemma init_file_info_Some:
  "size_ok bytes \<Longrightarrow> \<exists>sz fi. init_file_info bytes = Some (sz, fi)"
  using InitSizes_geometry [of bytes] geometry_CHUNKSIZE [of bytes]
  by (simp add: init_file_info_def size_ok_def)

lemma wake_frame:
  "kept s (wake s) \<and> wire (wake s) = wire s \<and> (pacing_inv s \<longrightarrow> pacing_inv (wake s)) \<and> srv (wake s) = srv s"
  by (simp add: wake_def gettimeofday_def kept_def pacing_inv_def)

lemma kept_srv:
  assumes "kept s s'"
  shows "queue (srv s') = queue (srv s)" and "clients (srv s') = clients (srv s)"
    and "chunkmap (srv s') = chunkmap (srv s)"
proof -
  have eq: "(srv s')\<lparr>lostmap := None\<rparr> = (srv s)\<lparr>lostmap := None\<rparr>" using assms by (simp add: kept_def)
  show "queue (srv s') = queue (srv s)" and "clients (srv s') = clients (srv s)"
    and "chunkmap (srv s') = chunkmap (srv s)"
    using arg_cong [OF eq, of queue] arg_cong [OF eq, of clients] arg_cong [OF eq, of chunkmap] by simp_all
qed

lemma kept_server_inv:
  assumes "kept s s'" and "server_inv fi (srv s)"
  shows "server_inv fi (srv s')"
proof -
  have len: "map_option length (lostmap (srv s')) = map_option length (lostmap (srv s))"
    using assms(1) by (simp add: kept_def)
  then have "map_ok fi (lostmap (srv s')) = map_ok fi (lostmap (srv s))"
    by (auto simp: map_ok_def split: option.splits)
  then show ?thesis using assms(2) kept_srv [OF assms(1)] by (simp add: server_inv_def)
qed

lemma send_join_spec:
  assumes "env_ok s" and "CHUNKSIZE sz = Some 1024" and "BLOCKSIZE sz = Some 1024" and "c = - 1 \<or> c = - 2"
  shows "\<exists>p s'. join_reply sz fi c n = Some p \<and> send_join nt sz fi c n s = Some s' \<and> kept s s' \<and>
    wire s' = wire s @ [p\<lparr>hdr_srcip := myipaddr nt\<rparr>] \<and> burstsize s' = burstsize s \<and> throttle s' = throttle s"
proof -
  obtain p where p: "join_reply sz fi c n = Some p" using assms(2-4) by (auto simp: join_reply_def)
  from assms obtain k where "retried (sends s) (nsend s) k" by (auto simp: env_ok_def)
  then have "PacketSend nt p (sends s) (nsend s) = Some (p\<lparr>hdr_srcip := myipaddr nt\<rparr>, nsend s + k + 1, int k)"
    by (subst PacketSend_iff) blast
  then show ?thesis using p by (simp add: send_join_def kept_def)
qed

lemma carried_join: "join_reply sz fi c n = Some p \<Longrightarrow> carried [p\<lparr>hdr_srcip := ip\<rparr>] = {}"
  by (auto simp: join_reply_def carried_def Let_def split: if_splits bind_splits)

text \<open>The packets of a genuine server: join replies and blocks with the bytes of the image.\<close>

definition genuine :: "net \<Rightarrow> byte list \<Rightarrow> packet \<Rightarrow> bool" where
  "genuine nt img p \<longleftrightarrow> (case msg p of
     Block c b buf \<Rightarrow> 0 \<le> c \<and> 0 \<le> b \<and> b < 1024 \<and> (c, nat b) \<in> in_image img \<and> p = block_packet nt img c b
   | Join _ \<Rightarrow> True | Join2 _ _ _ _ _ \<Rightarrow> True | _ \<Rightarrow> False)"

lemma genuine_blocks:
  assumes "0 \<le> c" and "0 \<le> b" and "e \<le> 1024" and "b < e \<longrightarrow> (c * 1024 + e - 1) * 1024 < int (length img)"
    and "p \<in> set (map (block_packet nt img c) [b..e - 1])"
  shows "genuine nt img p"
proof -
  obtain i where i: "b \<le> i" "i \<le> e - 1" "p = block_packet nt img c i" using assms(5) by auto
  have "(c * 1024 + i) * 1024 \<le> (c * 1024 + e - 1) * 1024" using i by simp
  also have "\<dots> < int (length img)" using assms(4) i by simp
  finally show ?thesis using assms i by (auto simp: genuine_def block_packet_def in_image_def)
qed

lemma genuine_join: "join_reply sz fi c n = Some p \<Longrightarrow> genuine nt img (p\<lparr>hdr_srcip := ip\<rparr>)"
  by (auto simp: join_reply_def genuine_def Let_def split: if_splits bind_splits)

text \<open>The part of a turn that takes the next job off the queue.\<close>

definition taken :: "workq \<Rightarrow> sender \<Rightarrow> sender" where
  "taken w s = wake (s\<lparr>srv := (srv s)\<lparr>queue := w\<rparr>\<rparr>)"

lemma taken_spec:
  assumes "sender_ok fi s" and "workq_inv (fi_chunks fi) w"
  shows "sender_ok fi (taken w s)" and "wire (taken w s) = wire s" and "queue (srv (taken w s)) = w"
    and "timeout (taken w s) = timeout s"
proof -
  let ?s1 = "s\<lparr>srv := (srv s)\<lparr>queue := w\<rparr>\<rparr>"
  have s1: "sender_ok fi ?s1" using assms by (simp add: sender_ok_def env_ok_def pacing_inv_def server_inv_def)
  have k: "kept ?s1 (taken w s)" "wire (taken w s) = wire ?s1" "pacing_inv (taken w s)" "srv (taken w s) = srv ?s1"
    using wake_frame [of ?s1] s1 by (simp_all add: taken_def sender_ok_def)
  then show "sender_ok fi (taken w s)"
    using s1 kept_env [OF k(1)] by (simp add: sender_ok_def) (simp add: kept_def)
  show "wire (taken w s) = wire s" "queue (srv (taken w s)) = w" "timeout (taken w s) = timeout s"
    using k by (simp_all add: kept_def)
qed

lemma kept_sender_ok: "sender_ok fi s \<Longrightarrow> kept s s' \<Longrightarrow> pacing_inv s' \<Longrightarrow> sender_ok fi s'"
  using kept_env [of s s'] kept_server_inv [of s s' fi] by (simp add: sender_ok_def kept_def)

lemma play_join:
  assumes "sender_ok fi s" and "CHUNKSIZE sz = Some 1024" and "BLOCKSIZE sz = Some 1024" and "c = - 1 \<or> c = - 2"
  shows "\<exists>p s'. send_join nt sz fi c n s = Some s' \<and> sender_ok fi s' \<and> queue (srv s') = queue (srv s) \<and>
    wire s' = wire s @ [p] \<and> genuine nt img p \<and> carried [p] = {} \<and> timeout s' = timeout s"
proof -
  from send_join_spec [OF _ assms(2-4), of s fi n nt] assms(1) obtain p s' where
    j: "join_reply sz fi c n = Some p" "send_join nt sz fi c n s = Some s'" "kept s s'"
    "wire s' = wire s @ [p\<lparr>hdr_srcip := myipaddr nt\<rparr>]" "burstsize s' = burstsize s" "throttle s' = throttle s"
    by (auto simp: sender_ok_def)
  have "pacing_inv s'" using pacing_inv_cong [OF _ j(3,5,6)] assms(1) by (simp add: sender_ok_def)
  moreover have "timeout s' = timeout s" using j(3) by (simp add: kept_def)
  ultimately show ?thesis
    using j kept_sender_ok [OF assms(1) j(3)] kept_srv(1) [OF j(3)] carried_join [OF j(1)] genuine_join [OF j(1)] by blast
qed

lemma play_range:
  assumes "sender_ok fi s" and "file_of fi img" and "0 \<le> c" and "in_chunk b n"
  shows "\<exists>ps s'. send_range nt fi img c (b + n) b (MAXBLOCKSIZE * c * MAXCHUNKSIZE + MAXBLOCKSIZE * b) s = Some s' \<and>
    sender_ok fi s' \<and> queue (srv s') = queue (srv s) \<and> wire s' = wire s @ ps \<and> (\<forall>p \<in> set ps. genuine nt img p) \<and>
    carried ps \<subseteq> served (c, b, n) \<and> (served (c, b, n) \<subseteq> in_image img \<longrightarrow> carried ps = served (c, b, n)) \<and>
    timeout s' = timeout s"
proof -
  have b: "0 \<le> b" "0 < n" "b + n \<le> 1024" using assms(4) by (simp_all add: in_chunk_def MAXCHUNKSIZE_def)
  have off: "MAXBLOCKSIZE * c * MAXCHUNKSIZE + MAXBLOCKSIZE * b = (c * 1024 + b) * 1024"
    by (simp add: MAXBLOCKSIZE_def MAXCHUNKSIZE_def)
  have s: "env_ok s" "pacing_inv s" "0 < readsize s" using assms(1) by (simp_all add: sender_ok_def)
  from send_range_spec [OF s assms(2), of c b "b + n" nt] assms(3) b obtain s' where
    r: "send_range nt fi img c (b + n) b ((c * 1024 + b) * 1024) s = Some s'" "sent_upto nt img c b (b + n) s s'" by auto
  from r(2) obtain e where k: "kept s s'" "pacing_inv s'" and e: "b \<le> e" "e \<le> b + n"
    "wire s' = wire s @ map (block_packet nt img c) [b..e - 1]" "b < e \<longrightarrow> (c * 1024 + e - 1) * 1024 < int (length img)"
    "(c * 1024 + (b + n) - 1) * 1024 < int (length img) \<longrightarrow> e = b + n" unfolding sent_upto_def by auto
  let ?ps = "map (block_packet nt img c) [b..e - 1]"
  have car: "carried ?ps = {c} \<times> {nat b..<nat e}" using carried_block_packets [of b nt img c e] b by simp
  have srv: "served (c, b, n) = {c} \<times> {nat b..<nat (b + n)}" using assms(3) by (simp add: served_def)
  have "(c, nat (b + n - 1)) \<in> served (c, b, n)" using b by (auto simp: srv)
  then have "served (c, b, n) \<subseteq> in_image img \<longrightarrow> e = b + n" using e(5) b by (auto simp: in_image_def add_diff_eq)
  then have "served (c, b, n) \<subseteq> in_image img \<longrightarrow> carried ?ps = served (c, b, n)" using car srv by auto
  moreover have "carried ?ps \<subseteq> served (c, b, n)" using e(2) by (auto simp: car srv)
  moreover have "timeout s' = timeout s" using k(1) by (simp add: kept_def)
  moreover have "\<forall>p \<in> set ?ps. genuine nt img p" using genuine_blocks [of c b e img _ nt] assms(3) b e by simp
  ultimately show ?thesis
    using r(1) e(3) kept_sender_ok [OF assms(1) k] kept_srv(1) [OF k(1)] unfolding off by blast
qed

text \<open>A turn that finds work: what it sends is genuine, whatever was asked for, and it is all of the job if that lies in the image.\<close>

lemma PlayFrisbee_job:
  assumes "size_ok (int (length img))" and "init_file_info (int (length img)) = Some (sz, fi)"
    and "sender_ok fi s" and "WorkQ (queue (srv s)) = e # q"
  shows "\<exists>ps s'. PlayFrisbee nt sz fi img False s = Some (False, s') \<and> sender_ok fi s' \<and>
    wire s' = wire s @ ps \<and> (\<forall>p \<in> set ps. genuine nt img p) \<and>
    (pending (queue (srv s)) \<subseteq> in_image img \<longrightarrow> pending (queue (srv s)) = carried ps \<union> pending (queue (srv s'))) \<and>
    carried ps \<union> pending (queue (srv s')) \<subseteq> pending (queue (srv s)) \<and>
    backlog (queue (srv s')) < backlog (queue (srv s)) \<and> timeout s' = timeout s"
proof -
  note fi = init_file_info_spec [OF assms(1,2)]
  have inv: "workq_inv (fi_chunks fi) (queue (srv s))" using assms(3) by (simp add: sender_ok_def server_inv_def)
  from WorkQueueDequeue_spec [OF inv assms(4), of 0] obtain b n w' where
    deq: "WorkQueueDequeue 0 (queue (srv s)) = Some (Some (wq_chunk e, b, n), w')" "workq_inv (fi_chunks fi) w'"
    "pending (queue (srv s)) = served (wq_chunk e, b, n) \<union> pending w'" "backlog w' < backlog (queue (srv s))"
    "if wq_chunk e < 0 then b = 0 \<and> n = wq_nblocks e \<and> WorkQ w' = q
     else in_chunk b n \<and> WorkChunk w' = wq_chunk e \<and> WorkBlock w' = b \<and> WorkCount w' = n \<and>
       backlog (queue (srv s)) = backlog w' + nat n" by blast
  note t = taken_spec [OF assms(3) deq(2)]
  show ?thesis
  proof (cases "wq_chunk e < 0")
    case True
    have "wq_chunk e = - 1 \<or> wq_chunk e = - 2" using inv assms(4) True by (auto simp: workq_inv_def elem_ok_def)
    from play_join [OF t(1) _ _ this, of sz nt n img] fi obtain p s' where
      j: "send_join nt sz fi (wq_chunk e) n (taken w' s) = Some s'" "sender_ok fi s'" "queue (srv s') = w'"
      "wire s' = wire s @ [p]" "genuine nt img p" "carried [p] = {}" "timeout s' = timeout s" using t(2-4) by auto
    have "PlayFrisbee nt sz fi img False s = Some (False, s')"
      using deq(1) True j(1) by (simp add: PlayFrisbee_def taken_def)
    then show ?thesis using j deq(3,4) True
      by (intro exI [of _ "[p]"] exI [of _ s']) (simp add: served_def)
  next
    case False
    have rng: "in_chunk b n" using deq(5) False by simp
    from play_range [OF t(1) conjunct1 [OF fi] _ rng, of "wq_chunk e" nt] False obtain ps s' where
      r: "send_range nt fi img (wq_chunk e) (b + n) b (MAXBLOCKSIZE * wq_chunk e * MAXCHUNKSIZE + MAXBLOCKSIZE * b) (taken w' s) = Some s'"
      "sender_ok fi s'" "queue (srv s') = w'" "wire s' = wire s @ ps" "\<forall>p \<in> set ps. genuine nt img p"
      "carried ps \<subseteq> served (wq_chunk e, b, n)"
      "served (wq_chunk e, b, n) \<subseteq> in_image img \<longrightarrow> carried ps = served (wq_chunk e, b, n)"
      "timeout s' = timeout s" using t(2-4) by auto
    have "PlayFrisbee nt sz fi img False s = Some (False, s')"
      using deq(1) False r(1) by (simp add: PlayFrisbee_def taken_def)
    then show ?thesis using r deq(3,4) by (intro exI [of _ ps] exI [of _ s']) auto
  qed
qed

lemma PlayFrisbee_turn:
  assumes "size_ok (int (length img))" and "init_file_info (int (length img)) = Some (sz, fi)"
    and "sender_inv fi img s" and "WorkQ (queue (srv s)) = e # q"
  shows "\<exists>ps s'. PlayFrisbee nt sz fi img False s = Some (False, s') \<and> sender_inv fi img s' \<and>
    wire s' = wire s @ ps \<and> (\<forall>p \<in> set ps. genuine nt img p) \<and>
    pending (queue (srv s)) = carried ps \<union> pending (queue (srv s')) \<and>
    backlog (queue (srv s')) < backlog (queue (srv s))"
proof -
  have "sender_ok fi s" "pending (queue (srv s)) \<subseteq> in_image img" using assms(3) by (simp_all add: sender_inv_def)
  with PlayFrisbee_job [OF assms(1,2) this(1) assms(4), of nt] show ?thesis by (fastforce simp: sender_inv_def)
qed

text \<open>A turn without work sends nothing and keeps the server as it is.\<close>

lemma PlayFrisbee_idle:
  assumes "sender_ok fi s" and "WorkQ (queue (srv s)) = []"
  shows "\<exists>stop s'. PlayFrisbee nt sz fi img False s = Some (stop, s') \<and> sender_ok fi s' \<and> wire s' = wire s \<and>
    queue (srv s') = (queue (srv s))\<lparr>WorkChunk := - 1\<rparr> \<and> (timeout s = 0 \<longrightarrow> \<not> stop) \<and> timeout s' = timeout s"
proof -
  let ?s1 = "s\<lparr>srv := (srv s)\<lparr>queue := (queue (srv s))\<lparr>WorkChunk := - 1\<rparr>\<rparr>\<rparr>"
  have "workq_inv (fi_chunks fi) ((queue (srv s))\<lparr>WorkChunk := - 1\<rparr>)"
    using assms by (simp add: sender_ok_def server_inv_def workq_inv_def)
  then have s1: "sender_ok fi ?s1" using assms(1) by (simp add: sender_ok_def env_ok_def pacing_inv_def server_inv_def)
  have "kept ?s1 (snd (idle_turn ?s1))" "burstsize (snd (idle_turn ?s1)) = burstsize s" "throttle (snd (idle_turn ?s1)) = throttle s"
    "wire (snd (idle_turn ?s1)) = wire s"
    by (simp_all add: idle_turn_def gettimeofday_def go_idle_def kept_def Let_def)
  then have "sender_ok fi (snd (idle_turn ?s1))" "wire (snd (idle_turn ?s1)) = wire s" "timeout (snd (idle_turn ?s1)) = timeout s"
    "queue (srv (snd (idle_turn ?s1))) = (queue (srv s))\<lparr>WorkChunk := - 1\<rparr>"
    using kept_srv(1) [of ?s1 "snd (idle_turn ?s1)"] kept_sender_ok [OF s1] pacing_inv_cong [of ?s1] s1 by (simp_all add: sender_ok_def) (simp add: kept_def)
  moreover have "timeout s = 0 \<longrightarrow> \<not> fst (idle_turn ?s1)" by (simp add: idle_turn_def gettimeofday_def Let_def)
  moreover have "PlayFrisbee nt sz fi img False s = Some (idle_turn ?s1)"
    using assms(2) by (simp add: PlayFrisbee_def WorkQueueDequeue_def)
  ultimately show ?thesis by (cases "idle_turn ?s1") simp
qed

section \<open>Serving the queue\<close>

definition play_job :: "net \<Rightarrow> sizes \<Rightarrow> file_info \<Rightarrow> byte list \<Rightarrow> sender \<Rightarrow> (packet list \<times> sender) option" where
  "play_job nt sz fi img s =
     (if WorkQ (queue (srv s)) = [] then None
      else case PlayFrisbee nt sz fi img False s of
        None \<Rightarrow> None
      | Some (stop, s') \<Rightarrow> Some (drop (length (wire s)) (wire s'), s'))"

definition serving :: "sizes \<Rightarrow> file_info \<Rightarrow> byte list \<Rightarrow> sender \<Rightarrow> bool" where
  "serving sz fi img s \<longleftrightarrow> size_ok (int (length img)) \<and>
     init_file_info (int (length img)) = Some (sz, fi) \<and> sender_inv fi img s"

lemma play_job_cases:
  assumes "serving sz fi img s"
  obtains (empty) "WorkQ (queue (srv s)) = []" "play_job nt sz fi img s = None"
  | (job) ps s' where "play_job nt sz fi img s = Some (ps, s')" "serving sz fi img s'"
      "wire s' = wire s @ ps" "list_all (genuine nt img) ps"
      "pending (queue (srv s)) = carried ps \<union> pending (queue (srv s'))"
      "backlog (queue (srv s')) < backlog (queue (srv s))"
proof (cases "WorkQ (queue (srv s))")
  case Nil
  then show ?thesis using empty by (simp add: play_job_def)
next
  case (Cons e q)
  have a: "size_ok (int (length img))" "init_file_info (int (length img)) = Some (sz, fi)" "sender_inv fi img s"
    using assms by (simp_all add: serving_def)
  from PlayFrisbee_turn [OF a Cons, of nt] obtain ps s' where
    t: "PlayFrisbee nt sz fi img False s = Some (False, s')" "sender_inv fi img s'" "wire s' = wire s @ ps"
    "\<forall>p \<in> set ps. genuine nt img p" "pending (queue (srv s)) = carried ps \<union> pending (queue (srv s'))"
    "backlog (queue (srv s')) < backlog (queue (srv s))" by blast
  show ?thesis
    by (rule job [of ps s']) (use t Cons a in \<open>simp_all add: play_job_def serving_def list_all_iff\<close>)
qed

interpretation play: job_queue "serving sz fi img" "\<lambda>s. pending (queue (srv s))"
  "\<lambda>s. backlog (queue (srv s))" "play_job nt sz fi img" carried
proof unfold_locales
  show "backlog (queue (srv s)) = 0" if "serving sz fi img s" "play_job nt sz fi img s = None" for s
    by (cases rule: play_job_cases [OF that(1), of nt]) (use that(2) in \<open>simp_all add: backlog_def\<close>)
  show "serving sz fi img s' \<and> backlog (queue (srv s')) < backlog (queue (srv s)) \<and>
      pending (queue (srv s)) = carried ps \<union> pending (queue (srv s'))"
    if "serving sz fi img s" "play_job nt sz fi img s = Some (ps, s')" for s ps s'
    by (cases rule: play_job_cases [OF that(1), of nt]) (use that(2) in simp_all)
  show "pending (queue (srv s)) = {}" if "serving sz fi img s" "backlog (queue (srv s)) = 0" for s
    using that backlog_0 [of "fi_chunks fi" "queue (srv s)"]
    by (simp add: pending_def serving_def sender_inv_def sender_ok_def server_inv_def)
qed

section \<open>Properties\<close>

text \<open>
  Sending a range reads and sends its blocks in order: a packet for block \<open>b\<close> carries the 1024 bytes of the
  image at the block's place, the last block of the image filled up with zero bytes.
  If the last block of the range is in the image, the whole range is sent; otherwise a first part of it is sent,
  and nothing from beyond the image. The routine returns, given an environment that answers.
\<close>

theorem range_is_sent:
  assumes "env_ok s" and "pacing_inv s" and "0 < readsize s" and "file_of fi img"
    and "0 \<le> chunk * 1024 + block" and "block \<le> lastblock"
  shows "\<exists>s' e. send_range nt fi img chunk lastblock block ((chunk * 1024 + block) * 1024) s = Some s' \<and>
    block \<le> e \<and> e \<le> lastblock \<and> wire s' = wire s @ map (block_packet nt img chunk) [block..e - 1] \<and>
    (block < e \<longrightarrow> (chunk * 1024 + e - 1) * 1024 < int (length img)) \<and>
    ((chunk * 1024 + lastblock - 1) * 1024 < int (length img) \<longrightarrow> e = lastblock) \<and> pacing_inv s'"
  using send_range_spec [OF assms, of nt] by (auto simp: sent_upto_def)

definition sender_example :: sender where
  "sender_example = \<lparr>srv = server_example, clock = (\<lambda>i. \<lparr>tv_sec = 1, tv_usec = 0\<rparr>), tick = 0,
     preads = (\<lambda>i. PGot 99), npread = 0, sends = (\<lambda>i. Sent), nsend = 0, wire = [],
     burstsize = 16, maxburstsize = 128, burstinterval = 2000, dynburst = True, readsize = 32,
     timeout = 1800, sendretries = 0, IdleTimeStamp = \<lparr>tv_sec = 0, tv_usec = 0\<rparr>, idlelastloop = True,
     throttle = 0, thisburst = 0, startnext = \<lparr>tv_sec = 0, tv_usec = 0\<rparr>, lastsendretries = 0,
     lastclientretries = 0, bursts = 0, nextstamp = \<lparr>tv_sec = 0, tv_usec = 0\<rparr>,
     sstats = \<lparr>st_blockssent = 0, st_netusecs = 0, st_netmaxusec = 0, st_netmsplus = 0, st_filereads = 0,
       st_filebytes = 0, st_fileusecs = 0, st_filemaxusec = 0, st_goesidle = 0, st_intervals = 0,
       st_missed = 0, st_dyndecs = 0, st_dynincs = 0, st_dynminburst = 16, st_dynmaxburst = 16\<rparr>\<rparr>"

lemma sender_example_ok: "env_ok sender_example" "pacing_inv sender_example"
  by (auto simp: env_ok_def clock_ok_def sender_example_def retried_def tv_ok_def pacing_inv_def intro!: exI [of _ 0])

theorem range_is_sent_witness:
  "\<exists>s'. send_range \<lparr>myipaddr = 9, mcastaddr = 8, sndportnum = 80\<rparr>
      \<lparr>fi_blocks = 3, fi_chunks = 1, fi_isimage = False, fi_filesize = 2500\<rparr>
      (replicate 2500 7) 0 3 1 1024 sender_example = Some s' \<and> length (wire s') = 2"
proof -
  let ?fi = "\<lparr>fi_blocks = 3, fi_chunks = 1, fi_isimage = False, fi_filesize = 2500\<rparr>"
  have "file_of ?fi (replicate 2500 7)" by (simp add: file_of_def)
  from range_is_sent [OF sender_example_ok _ this, of 0 1 3 "\<lparr>myipaddr = 9, mcastaddr = 8, sndportnum = 80\<rparr>"]
  show ?thesis by (auto simp: sender_example_def)
qed

text \<open>
  The dynamic burst size stays between 1 and its maximum. \<^const>\<open>calcburst\<close> changes it only at the
  end of a loss interval: after a loss it falls to at most nine tenths (unless it is 1 already), without
  one it rises by one up to the maximum. And fewer blocks than the burst size are ever sent between two pauses.
\<close>

theorem burst_control:
  assumes "pacing_inv s" and "dynburst s"
  shows "burstsize (calcburst s) = next_burst s \<and> 1 \<le> next_burst s \<and> next_burst s \<le> maxburstsize s \<and>
    (interval_over s \<and> had_loss s \<and> 1 < burstsize s \<longrightarrow> 10 * next_burst s \<le> 9 * burstsize s) \<and>
    (interval_over s \<and> \<not> had_loss s \<longrightarrow> next_burst s = min (burstsize s + 1) (maxburstsize s)) \<and>
    (\<not> interval_over s \<longrightarrow> next_burst s = burstsize s) \<and> pacing_inv (pace s)"
proof -
  have "1 \<le> burstsize s" "burstsize s \<le> maxburstsize s" using assms by (simp_all add: pacing_inv_def)
  then show ?thesis
    using calcburst_spec [of s] next_burst_range [of s] pace_spec [OF assms(1)] decreased_range [of "burstsize s"]
    by (auto simp: next_burst_def)
qed

theorem burst_control_witness:
  "burstsize (calcburst (sender_example\<lparr>nextstamp := \<lparr>tv_sec = 1, tv_usec = 0\<rparr>\<rparr>)) = 17"
proof -
  let ?s = "sender_example\<lparr>nextstamp := \<lparr>tv_sec = 1, tv_usec = 0\<rparr>\<rparr>"
  have "pacing_inv ?s" "dynburst ?s" by (simp_all add: sender_example_def pacing_inv_def)
  moreover have "interval_over ?s" "\<not> had_loss ?s"
    by (simp_all add: sender_example_def interval_over_def had_loss_def lost_chunks_def pasttime_def server_example_def)
  ultimately show ?thesis using burst_control [of ?s] by (simp add: sender_example_def)
qed

text \<open>
  C8. The server's main loop works off its queue. From a state whose pending blocks are blocks of the image, as
  many turns of \<^const>\<open>PlayFrisbee\<close> as there is work, without new requests, return, empty the queue, and have sent a packet for
  every pending block and for no other block; every packet sent is a join reply or carries the bytes of its block.
\<close>

theorem server_serves_all:
  assumes "serving sz fi img s" and "serve (play_job nt sz fi img) (backlog (queue (srv s))) s = (pss, s')"
  shows "WorkQ (queue (srv s')) = [] \<and> carried (concat pss) = pending (queue (srv s)) \<and>
    wire s' = wire s @ concat pss \<and> list_all (genuine nt img) (concat pss)"
proof -
  note all = play.serve_all [OF assms(1) order_refl assms(2)]
  have "workq_inv (fi_chunks fi) (queue (srv s'))"
    using all by (simp add: serving_def sender_inv_def sender_ok_def server_inv_def)
  then have "WorkQ (queue (srv s')) = []" using all backlog_0 by blast
  moreover have "carried (concat pss) = (\<Union>ps \<in> set pss. carried ps)" by (induction pss) simp_all
  moreover have "wire s' = wire s @ concat pss \<and> list_all (genuine nt img) (concat pss)"
  proof (rule serve_appends [where I = "serving sz fi img" and h = wire, OF _ assms])
    show "serving sz fi img t' \<and> wire t' = wire t @ ps \<and> list_all (genuine nt img) ps"
      if "serving sz fi img t" "play_job nt sz fi img t = Some (ps, t')" for t ps t'
      by (cases rule: play_job_cases [OF that(1), of nt]) (use that(2) in simp_all)
  qed
  ultimately show ?thesis using all by simp
qed

definition busy_example :: sender where
  "busy_example = sender_example\<lparr>srv := server_example\<lparr>queue := WorkQ_static\<lparr>
     WorkQ := [\<lparr>wq_chunk = 2, wq_nblocks = 1024, wq_map = replicate 128 (- 1)\<rparr>], WorkQSize := 1\<rparr>\<rparr>\<rparr>"

lemma busy_example_serving:
  assumes "length img = 3145728"
  shows "\<exists>sz fi. serving sz fi img busy_example"
proof -
  have ok: "size_ok (int (length img))" by (simp add: size_ok_def assms)
  then obtain sz fi where i: "init_file_info (int (length img)) = Some (sz, fi)"
    using init_file_info_Some by blast
  then have "fi_chunks fi = TotalChunks (geometry 3145728)" using init_file_info_spec [OF ok i] assms by simp
  then have c: "fi_chunks fi = 3" by (simp add: TotalChunks_def geometry_def)
  have "pending (queue (srv busy_example)) = {2} \<times> {..<1024}"
    by (simp add: busy_example_def pending_def elem_pairs_def)
  moreover have "server_inv fi (srv busy_example)"
    by (simp add: server_inv_def busy_example_def workq_inv_def elem_ok_def BlockMap_t_length c server_example_def
        MAXCLIENTS_def map_ok_def)
  moreover have "env_ok busy_example" "pacing_inv busy_example" "0 < readsize busy_example"
    using sender_example_ok by (simp_all add: busy_example_def env_ok_def pacing_inv_def sender_example_def)
  moreover have "{2} \<times> {..<1024} \<subseteq> in_image img"
  proof
    fix x :: "int \<times> nat"
    assume "x \<in> {2} \<times> {..<1024}"
    then have "fst x = 2" "snd x < 1024" by (simp_all only: mem_Times_iff lessThan_iff singleton_iff)
    then show "x \<in> in_image img" by (cases x) (simp add: in_image_def assms)
  qed
  ultimately have "sender_inv fi img busy_example" by (simp only: sender_inv_def sender_ok_def simp_thms)
  then show ?thesis using ok i by (auto simp: serving_def)
qed

theorem server_serves_all_witness:
  "\<exists>sz fi pss s'. serving sz fi (replicate 3145728 7) busy_example \<and>
    serve (play_job \<lparr>myipaddr = 9, mcastaddr = 8, sndportnum = 80\<rparr> sz fi (replicate 3145728 7))
      (backlog (queue (srv busy_example))) busy_example = (pss, s') \<and>
    carried (concat pss) = {2} \<times> {..<1024}"
proof -
  obtain sz fi where s: "serving sz fi (replicate 3145728 7) busy_example"
    using busy_example_serving [OF length_replicate] by blast
  obtain pss s' where r: "serve (play_job \<lparr>myipaddr = 9, mcastaddr = 8, sndportnum = 80\<rparr> sz fi (replicate 3145728 7))
      (backlog (queue (srv busy_example))) busy_example = (pss, s')" by fastforce
  have "pending (queue (srv busy_example)) = {2} \<times> {..<1024}"
    by (simp add: busy_example_def pending_def elem_pairs_def)
  then show ?thesis using server_serves_all [OF s r] s r by auto
qed

end
