(* ===== verification/Client.thy ===== *)
theory Client
  imports Sizes Packet
begin

text \<open>
  The client's network side (client.c: \<^verbatim>\<open>RequestStamp\<close>, \<^verbatim>\<open>RequestRedoTime\<close>, \<^verbatim>\<open>GotBlock\<close>, \<^verbatim>\<open>RequestMissing\<close>,
  \<^verbatim>\<open>RequestRange\<close>, \<^verbatim>\<open>RequestChunk\<close>, \<^verbatim>\<open>ClientRecvThread\<close>) and its writing side (\<^verbatim>\<open>ChunkerStartup\<close>), as built with
  \<^verbatim>\<open>STATS\<close> and without \<^verbatim>\<open>PASSIVE\<close>, \<^verbatim>\<open>OLD_SCHOOL\<close> and \<^verbatim>\<open>NEVENTS\<close>. The receive thread owns the chunk
  descriptors; both threads share the chunk buffers, and the writing side touches only buffers that are full, so a turn of
  each thread is one step. This theory holds the definitions.
\<close>

section \<open>State\<close>

text \<open>\<^verbatim>\<open>Chunk_t\<close>; \<^verbatim>\<open>lastreq\<close> is a 61-bit field.\<close>

record chunk_desc =
  lastreq :: int
  ours :: bool
  seen :: bool
  finished :: bool

datatype bufstate = CHUNK_EMPTY | CHUNK_FILLING | CHUNK_FULL | CHUNK_DUBIOUS

text \<open>\<^verbatim>\<open>ChunkBuffer_t\<close>; \<open>bufdata\<close> is the array of 1024 blocks of 1024 bytes.\<close>

record chunkbuf =
  thischunk :: int
  state :: bufstate
  blockcount :: int
  blockmap :: blockmap
  bufdata :: "byte list list"

text \<open>Whether the main thread still runs its loop, has left it, or has ended the process with an error.\<close>

datatype phase = Running | Completed | Failed

record client_stats =
  cs_nochunksready :: int
  cs_nofreechunks :: int
  cs_dupchunk :: int
  cs_dupblock :: int
  cs_prequests :: int
  cs_recvidles :: int
  cs_requests :: int
  cs_lostblocks :: int
  cs_rerequests :: int
  cs_partialdrops :: int
  cs_fullrerequests :: int

text \<open>
  The globals of client.c and the static variables of its routines. \<open>clock\<close> gives the successive readings of the time in
  microseconds, \<open>sends\<close> the results of \<^verbatim>\<open>sendto\<close>; \<open>outbox\<close> is the history of the packets sent and
  \<open>written\<close> that of the chunks passed on to be written.
\<close>

record client =
  sizes_of :: sizes
  Chunks :: "chunk_desc list"
  ChunkBuffer :: "chunkbuf list"
  ChunkRequestList :: "int list"
  lastnoroomchunk :: int
  lastnoroomblocks :: int
  inprogress :: int
  redodelay :: int
  maxreadahead :: int
  maxinprogress :: int
  idletimer :: int
  servertimo :: int
  keepalive :: int
  serverip :: int
  IdleCounter :: int
  BackOff :: int
  KACounter :: int
  STCounter :: int
  gotone :: bool
  child_error :: bool
  main_gotone :: bool
  main_phase :: phase
  clock :: "nat \<Rightarrow> int"
  tick :: nat
  sends :: "nat \<Rightarrow> sendres"
  nsend :: nat
  outbox :: "packet list"
  chunkcount :: int
  written :: "(int \<times> byte list) list"
  cstats :: client_stats

definition TIMEOUT_HZ :: int where "TIMEOUT_HZ = 1000000 div 30000"

text \<open>
  The initial values of the globals and statics, with the defaults of decls.h, and what the receive thread sets before
  its loop.
\<close>

definition MAXREADAHEAD :: int where "MAXREADAHEAD = 2"

definition MAXINPROGRESS :: int where "MAXINPROGRESS = 8"

definition CLIENT_IDLETIMER_COUNT :: int where "CLIENT_IDLETIMER_COUNT = 3"

definition CLIENT_REQUEST_REDO_DELAY :: int where "CLIENT_REQUEST_REDO_DELAY = 1000000"

definition client_static :: "(nat \<Rightarrow> int) \<Rightarrow> (nat \<Rightarrow> sendres) \<Rightarrow> client" where
  "client_static readings results =
     \<lparr>sizes_of = \<lparr>sz_ChunkSize = 0, sz_BlockSize = 0, sz_TotalChunks = 0, sz_TotalBlocks = 0, sz_LastChunkSize = 0,
        sz_LastBlockSize = 0\<rparr>,
      Chunks = [], ChunkBuffer = [], ChunkRequestList = [], lastnoroomchunk = - 1, lastnoroomblocks = 0, inprogress = 0,
      redodelay = CLIENT_REQUEST_REDO_DELAY, maxreadahead = MAXREADAHEAD, maxinprogress = MAXINPROGRESS,
      idletimer = CLIENT_IDLETIMER_COUNT, servertimo = 0, keepalive = 0, serverip = 0,
      IdleCounter = 0, BackOff = 0, KACounter = 0, STCounter = 0, gotone = False, child_error = False,
      main_gotone = False, main_phase = Running, clock = readings, tick = 0, sends = results, nsend = 0, outbox = [],
      chunkcount = 0, written = [],
      cstats = \<lparr>cs_nochunksready = 0, cs_nofreechunks = 0, cs_dupchunk = 0, cs_dupblock = 0, cs_prequests = 0,
        cs_recvidles = 0, cs_requests = 0, cs_lostblocks = 0, cs_rerequests = 0, cs_partialdrops = 0,
        cs_fullrerequests = 0\<rparr>\<rparr>"

definition client_recv_init :: "client \<Rightarrow> client" where
  "client_recv_init s = s\<lparr>IdleCounter := 1, KACounter := (if keepalive s \<noteq> 0 then 1 else 0), BackOff := 0,
     STCounter := servertimo s * TIMEOUT_HZ\<rparr>"

definition chunk_at :: "client \<Rightarrow> int \<Rightarrow> chunk_desc" where
  "chunk_at s c = Chunks s ! nat c"

definition set_chunk :: "int \<Rightarrow> chunk_desc \<Rightarrow> client \<Rightarrow> client" where
  "set_chunk c d s = s\<lparr>Chunks := (Chunks s)[nat c := d]\<rparr>"

definition set_buf :: "nat \<Rightarrow> chunkbuf \<Rightarrow> client \<Rightarrow> client" where
  "set_buf i b s = s\<lparr>ChunkBuffer := (ChunkBuffer s)[i := b]\<rparr>"

definition send_packet :: "net \<Rightarrow> packet \<Rightarrow> client \<Rightarrow> client option" where
  "send_packet nt p s = do {
     (q, n, resends) \<leftarrow> PacketSend nt p (sends s) (nsend s);
     Some (s\<lparr>nsend := n, outbox := outbox s @ [q]\<rparr>)
   }"

section \<open>Request times\<close>

text \<open>The first buffer that is collecting a chunk; the number of buffers if there is none.\<close>

definition collecting :: "int \<Rightarrow> chunkbuf \<Rightarrow> bool" where
  "collecting chunk b \<longleftrightarrow> thischunk b = chunk \<and> (state b = CHUNK_FILLING \<or> state b = CHUNK_DUBIOUS)"

definition find_buf :: "int \<Rightarrow> client \<Rightarrow> nat" where
  "find_buf chunk s = length (takeWhile (\<lambda>b. \<not> collecting chunk b) (ChunkBuffer s))"

definition stamp_chunk :: "int \<Rightarrow> client \<Rightarrow> client" where
  "stamp_chunk chunk s =
     (set_chunk chunk ((chunk_at s chunk)\<lparr>lastreq := clock s (tick s) mod 2 ^ 61\<rparr>) s)\<lparr>tick := tick s + 1\<rparr>"

definition RequestStamp :: "int \<Rightarrow> int \<Rightarrow> int \<Rightarrow> bool \<Rightarrow> client \<Rightarrow> (bool \<times> client) option" where
  "RequestStamp chunk block n gotblock s =
     (if redodelay s = 0 then Some (False, s)
      else if finished (chunk_at s chunk) then Some (False, s)
      else do {
        csize \<leftarrow> ChunkSize (sizes_of s) chunk;
        (stampme, s1) \<leftarrow>
          (if block = 0 \<and> n = csize then Some (True, s)
           else if \<not> seen (chunk_at s chunk) then Some (True, s)
           else
             let i = find_buf chunk s in
             if i < length (ChunkBuffer s) then do {
               got \<leftarrow> BlockMapIsAlloc (blockmap (ChunkBuffer s ! i)) block n;
               if got \<noteq> n then
                 Some (True, if \<not> gotblock \<and> state (ChunkBuffer s ! i) = CHUNK_DUBIOUS
                             then set_buf i ((ChunkBuffer s ! i)\<lparr>state := CHUNK_FILLING\<rparr>) s else s)
               else Some (False, s)
             }
             else Some (False, s));
        Some (stampme, if stampme then stamp_chunk chunk s1 else s1)
      })"

text \<open>The difference of two 64-bit times is cut to an \<^verbatim>\<open>int\<close>.\<close>

definition RequestRedoTime :: "int \<Rightarrow> int \<Rightarrow> client \<Rightarrow> bool" where
  "RequestRedoTime chunk curtime s \<longleftrightarrow>
     lastreq (chunk_at s chunk) = 0 \<or> redodelay s = 0 \<or>
     to_i32 (to_u64 (curtime - lastreq (chunk_at s chunk))) \<ge> redodelay s"

section \<open>Requests\<close>

definition set_ours :: "int \<Rightarrow> client \<Rightarrow> client" where
  "set_ours chunk s = set_chunk chunk ((chunk_at s chunk)\<lparr>ours := True\<rparr>) s"

definition note_prequest :: "int \<Rightarrow> int \<Rightarrow> bool \<Rightarrow> client_stats \<Rightarrow> client_stats" where
  "note_prequest n csize retry st =
     (let st1 = st\<lparr>cs_lostblocks := cs_lostblocks st + n, cs_requests := cs_requests st + 1,
                   cs_prequests := cs_prequests st + 1\<rparr> in
      if retry then
        let st2 = st1\<lparr>cs_rerequests := cs_rerequests st1 + 1\<rparr> in
        if n = csize then st2\<lparr>cs_fullrerequests := cs_fullrerequests st2 + 1\<rparr> else st2
      else st1)"

definition missing_map :: "int \<Rightarrow> blockmap \<Rightarrow> blockmap option" where
  "missing_map csize held =
     (let m = BlockMapInvert held in
      if csize < MAXCHUNKSIZE then BlockMapClear m csize (MAXCHUNKSIZE - csize) else Some m)"

definition RequestMissing :: "net \<Rightarrow> int \<Rightarrow> blockmap \<Rightarrow> int \<Rightarrow> client \<Rightarrow> client option" where
  "RequestMissing nt chunk held n s = do {
     csize \<leftarrow> ChunkSize (sizes_of s) chunk;
     m \<leftarrow> missing_map csize held;
     let retry = ours (chunk_at s chunk);
     s1 \<leftarrow> send_packet nt \<lparr>hdr_type = PKTTYPE_REQUEST, hdr_datalen = 8 + MAXCHUNKSIZE div 8, hdr_srcip = 0,
             msg = Prequest chunk (if retry then 1 else 0) m\<rparr> s;
     chunksize \<leftarrow> CHUNKSIZE (sizes_of s1);
     allocated \<leftarrow> BlockMapIsAlloc m 0 chunksize;
     c_assert (n = allocated);
     let s2 = s1\<lparr>cstats := note_prequest n csize retry (cstats s1)\<rparr>;
     (_, s3) \<leftarrow> RequestStamp chunk 0 csize False s2;
     Some (set_ours chunk s3)
   }"

definition RequestRange :: "net \<Rightarrow> int \<Rightarrow> int \<Rightarrow> int \<Rightarrow> client \<Rightarrow> client option" where
  "RequestRange nt chunk block n s =
     (if ours (chunk_at s chunk) then do {
        csize \<leftarrow> ChunkSize (sizes_of s) chunk;
        tmap \<leftarrow> (if block = 0 \<and> n = csize then Some (replicate 128 0)
                 else BlockMapClear (replicate 128 (NOT 0)) block n);
        RequestMissing nt chunk tmap n s
      }
      else do {
        s1 \<leftarrow> send_packet nt \<lparr>hdr_type = PKTTYPE_REQUEST, hdr_datalen = 12, hdr_srcip = 0,
                msg = Request chunk block n\<rparr> s;
        let s2 = s1\<lparr>cstats := (cstats s1)\<lparr>cs_requests := cs_requests (cstats s1) + 1\<rparr>\<rparr>;
        (_, s3) \<leftarrow> RequestStamp chunk block n False s2;
        Some (set_ours chunk s3)
      })"

text \<open>
  The two loops of \<^verbatim>\<open>RequestChunk\<close>: over the buffers from \<open>i\<close> on, with the numbers of empty and filling
  buffers seen, and over the request list, with \<open>j\<close> read-aheads counted so far.
\<close>

definition request_buffer :: "net \<Rightarrow> nat \<Rightarrow> client \<Rightarrow> client option" where
  "request_buffer nt i s = do {
     let b = ChunkBuffer s ! i;
     s1 \<leftarrow> RequestMissing nt (thischunk b) (blockmap b) (blockcount b) s;
     let b1 = ChunkBuffer s1 ! i;
     Some (if state b1 = CHUNK_DUBIOUS then set_buf i (b1\<lparr>state := CHUNK_FILLING\<rparr>) s1 else s1)
   }"

function request_unfinished ::
  "net \<Rightarrow> bool \<Rightarrow> int \<Rightarrow> nat \<Rightarrow> nat \<Rightarrow> int \<Rightarrow> int \<Rightarrow> client \<Rightarrow> (int \<times> int \<times> client) option" where
  "request_unfinished nt timedout stamp nbufs i emptybufs fillingbufs s =
     (if i < nbufs then
        let b = ChunkBuffer s ! i in
        if state b = CHUNK_EMPTY then
          request_unfinished nt timedout stamp nbufs (i + 1) (emptybufs + 1) fillingbufs s
        else if state b = CHUNK_FULL then
          request_unfinished nt timedout stamp nbufs (i + 1) emptybufs fillingbufs s
        else if \<not> timedout \<and> \<not> RequestRedoTime (thischunk b) stamp s then
          request_unfinished nt timedout stamp nbufs (i + 1) emptybufs (fillingbufs + 1) s
        else do {
          s1 \<leftarrow> request_buffer nt i s;
          request_unfinished nt timedout stamp nbufs (i + 1) emptybufs (fillingbufs + 1) s1
        }
      else Some (emptybufs, fillingbufs, s))"
  by pat_completeness auto
termination
  by (relation "measure (\<lambda>(nt, timedout, stamp, nbufs, i, _). nbufs - i)") auto

fun read_ahead :: "net \<Rightarrow> bool \<Rightarrow> int \<Rightarrow> int \<Rightarrow> int list \<Rightarrow> int \<Rightarrow> client \<Rightarrow> client option" where
  "read_ahead nt timedout stamp k [] j s = Some s"
| "read_ahead nt timedout stamp k (chunk # rest) j s =
     (if j < k then
        if seen (chunk_at s chunk) then read_ahead nt timedout stamp k rest j s
        else if timedout \<or> RequestRedoTime chunk stamp s then do {
          csize \<leftarrow> ChunkSize (sizes_of s) chunk;
          s1 \<leftarrow> RequestRange nt chunk 0 csize s;
          read_ahead nt timedout stamp k rest (j + 1) s1
        }
        else read_ahead nt timedout stamp k rest (j + 1) s
      else Some s)"

definition RequestChunk :: "net \<Rightarrow> bool \<Rightarrow> client \<Rightarrow> client option" where
  "RequestChunk nt timedout s0 = do {
     let (stamp, s) = (if \<not> timedout then (clock s0 (tick s0), s0\<lparr>tick := tick s0 + 1\<rparr>) else (0, s0));
     (emptybufs, fillingbufs, s1) \<leftarrow> request_unfinished nt timedout stamp (length (ChunkBuffer s)) 0 0 0 s;
     if emptybufs = 0 \<or> fillingbufs \<ge> maxinprogress s1 then Some s1
     else
       let k = (if maxreadahead s1 > emptybufs then emptybufs else maxreadahead s1) in
       read_ahead nt timedout stamp k (ChunkRequestList s1) 0 s1
   }"

declare request_unfinished.simps [simp del]

section \<open>Receiving a block\<close>

text \<open>
  The search of \<^verbatim>\<open>GotBlock\<close> through the buffers from number \<open>i\<close> on: the buffer that collects the chunk (or the
  number of buffers), the first empty buffer and the first dubious buffer passed.
\<close>

fun buf_scan :: "int \<Rightarrow> chunkbuf list \<Rightarrow> nat \<Rightarrow> nat option \<Rightarrow> nat option \<Rightarrow> nat \<times> nat option \<times> nat option" where
  "buf_scan chunk [] i free dubious = (i, free, dubious)"
| "buf_scan chunk (b # bs) i free dubious =
     (case state b of
        CHUNK_FULL \<Rightarrow> buf_scan chunk bs (i + 1) free dubious
      | CHUNK_EMPTY \<Rightarrow> buf_scan chunk bs (i + 1) (if free = None then Some i else free) dubious
      | CHUNK_FILLING \<Rightarrow>
          if thischunk b = chunk then (i, free, dubious) else buf_scan chunk bs (i + 1) free dubious
      | CHUNK_DUBIOUS \<Rightarrow>
          if thischunk b = chunk then (i, free, dubious)
          else buf_scan chunk bs (i + 1) free (if dubious = None then Some i else dubious))"

text \<open>Dropping the contents of a dubious buffer for the start of another chunk.\<close>

definition reuse_dubious :: "nat \<Rightarrow> client \<Rightarrow> client option" where
  "reuse_dubious d s = do {
     let dchunk = thischunk (ChunkBuffer s ! d);
     c_assert (\<not> finished (chunk_at s dchunk));
     c_assert (seen (chunk_at s dchunk));
     let s1 = set_chunk dchunk ((chunk_at s dchunk)\<lparr>seen := False, lastreq := 0\<rparr>) s;
     let s2 = set_buf d ((ChunkBuffer s1 ! d)\<lparr>state := CHUNK_EMPTY\<rparr>) s1;
     Some (s2\<lparr>lastnoroomchunk := - 1, inprogress := inprogress s2 - 1,
              cstats := (cstats s2)\<lparr>cs_partialdrops := cs_partialdrops (cstats s2) + 1\<rparr>\<rparr>)
   }"

definition no_room :: "int \<Rightarrow> client \<Rightarrow> client" where
  "no_room chunk s =
     (let s1 = (if chunk \<noteq> lastnoroomchunk s then s\<lparr>lastnoroomchunk := chunk, lastnoroomblocks := 0\<rparr> else s) in
      s1\<lparr>lastnoroomblocks := lastnoroomblocks s1 + 1,
         cstats := (cstats s1)\<lparr>cs_nofreechunks := cs_nofreechunks (cstats s1) + 1\<rparr>\<rparr>)"

definition start_chunk :: "int \<Rightarrow> nat \<Rightarrow> client \<Rightarrow> client option" where
  "start_chunk chunk i s = do {
     let st = (if chunk = lastnoroomchunk s then CHUNK_DUBIOUS else CHUNK_FILLING);
     csize \<leftarrow> ChunkSize (sizes_of s) chunk;
     let s1 = set_chunk chunk ((chunk_at s chunk)\<lparr>seen := True\<rparr>)
                (s\<lparr>lastnoroomchunk := - 1, lastnoroomblocks := 0\<rparr>);
     let s2 = set_buf i ((ChunkBuffer s1 ! i)\<lparr>state := st, thischunk := chunk, blockcount := csize,
                blockmap := replicate 128 0\<rparr>) s1;
     Some (s2\<lparr>inprogress := inprogress s2 + 1\<rparr>)
   }"

text \<open>
  The buffer that takes the block: the one that collects the chunk already, or a new one; \<^const>\<open>None\<close> inside when the
  block is dropped for want of a buffer.
\<close>

definition place_block :: "int \<Rightarrow> int \<Rightarrow> client \<Rightarrow> (nat option \<times> client) option" where
  "place_block chunk block s =
     (case buf_scan chunk (ChunkBuffer s) 0 None None of (i, free, dubious) \<Rightarrow>
      if i < length (ChunkBuffer s) then Some (Some i, s)
      else do {
        c_assert (\<not> seen (chunk_at s chunk));
        case free of
          Some f \<Rightarrow> do { s1 \<leftarrow> start_chunk chunk f s; Some (Some f, s1) }
        | None \<Rightarrow>
            (case dubious of
               Some d \<Rightarrow>
                 if block = 0 then do {
                   s1 \<leftarrow> reuse_dubious d s;
                   s2 \<leftarrow> start_chunk chunk d s1;
                   Some (Some d, s2)
                 }
                 else Some (None, no_room chunk s)
             | None \<Rightarrow> Some (None, no_room chunk s))
      })"

definition store_block :: "chunkbuf \<Rightarrow> int \<Rightarrow> int \<Rightarrow> byte list \<Rightarrow> blockmap \<Rightarrow> chunkbuf" where
  "store_block b block n buf m =
     b\<lparr>blockmap := m, blockcount := blockcount b - 1,
       bufdata := (bufdata b)[nat block :=
         take (nat n) buf @ drop (nat n) (bufdata b ! nat block)]\<rparr>"

definition complete_chunk :: "int \<Rightarrow> nat \<Rightarrow> client \<Rightarrow> client option" where
  "complete_chunk chunk i s = do {
     c_assert (thischunk (ChunkBuffer s ! i) = chunk);
     let s1 = s\<lparr>inprogress := inprogress s - 1\<rparr>;
     let s2 = set_buf i ((ChunkBuffer s1 ! i)\<lparr>state := CHUNK_FULL\<rparr>) s1;
     Some (set_chunk chunk ((chunk_at s2 chunk)\<lparr>finished := True\<rparr>) s2)
   }"

definition GotBlock :: "net \<Rightarrow> int \<Rightarrow> int \<Rightarrow> byte list \<Rightarrow> client \<Rightarrow> (bool \<times> client) option" where
  "GotBlock nt chunk block buf s =
     (if finished (chunk_at s chunk) then do {
        c_assert (seen (chunk_at s chunk));
        Some (False, s\<lparr>cstats := (cstats s)\<lparr>cs_dupchunk := cs_dupchunk (cstats s) + 1\<rparr>\<rparr>)
      }
      else do {
        (place, s1) \<leftarrow> place_block chunk block s;
        case place of
          None \<Rightarrow> Some (False, s1)
        | Some i \<Rightarrow> do {
            c_assert (seen (chunk_at s1 chunk));
            (dup, m) \<leftarrow> BlockMapAlloc (blockmap (ChunkBuffer s1 ! i)) block;
            if dup then Some (False, s1\<lparr>cstats := (cstats s1)\<lparr>cs_dupblock := cs_dupblock (cstats s1) + 1\<rparr>\<rparr>)
            else do {
              n \<leftarrow> BlockSize (sizes_of s1) chunk block;
              let s2 = set_buf i (store_block (ChunkBuffer s1 ! i) block n buf m) s1;
              if blockcount (ChunkBuffer s2 ! i) = 0 then do {
                s3 \<leftarrow> complete_chunk chunk i s2;
                s4 \<leftarrow> RequestChunk nt False s3;
                Some (True, s4)
              }
              else Some (True, s2)
            }
          }
      })"

section \<open>The receive thread\<close>

definition tick_keepalive :: "bool \<Rightarrow> client \<Rightarrow> client" where
  "tick_keepalive kafailed s =
     (if KACounter s = 1 then
        let ka = (if kafailed then 0 else keepalive s) in s\<lparr>keepalive := ka, KACounter := ka * TIMEOUT_HZ\<rparr>
      else if KACounter s > 1 then s\<lparr>KACounter := KACounter s - 1\<rparr> else s)"

definition idle_backoff :: "client \<Rightarrow> client" where
  "idle_backoff s =
     (let back = BackOff s + 1 in
      if BackOff s \<noteq> 0
      then s\<lparr>IdleCounter := idletimer s + back, BackOff := (if back > TIMEOUT_HZ then TIMEOUT_HZ else back)\<rparr>
      else s\<lparr>IdleCounter := idletimer s, BackOff := back\<rparr>)"

definition idle_request :: "net \<Rightarrow> client \<Rightarrow> client option" where
  "idle_request nt s = do {
     let s1 = (if gotone s then s\<lparr>cstats := (cstats s)\<lparr>cs_recvidles := cs_recvidles (cstats s) + 1\<rparr>\<rparr> else s);
     s2 \<leftarrow> RequestChunk nt True s1;
     Some (idle_backoff s2)
   }"

definition client_timeout :: "net \<Rightarrow> bool \<Rightarrow> client \<Rightarrow> client option" where
  "client_timeout nt kafailed s0 =
     (let s1 = (if servertimo s0 \<noteq> 0 then s0\<lparr>STCounter := STCounter s0 - 1\<rparr> else s0) in
      if servertimo s1 \<noteq> 0 \<and> STCounter s1 \<le> 0 then Some (s1\<lparr>child_error := True\<rparr>)
      else
        let s2 = tick_keepalive kafailed s1;
            s3 = s2\<lparr>IdleCounter := IdleCounter s2 - 1\<rparr> in
        if IdleCounter s3 \<le> 0 then idle_request nt s3 else Some s3)"

definition stamp_range :: "client option range_fun" where
  "stamp_range chunk block n so =
     (case so of None \<Rightarrow> (True, None)
      | Some s \<Rightarrow>
          (case RequestStamp chunk block n False s of
             None \<Rightarrow> (True, None)
           | Some (r, s') \<Rightarrow> (r, Some s')))"

definition client_dispatch :: "net \<Rightarrow> packet \<Rightarrow> client \<Rightarrow> client option" where
  "client_dispatch nt p s =
     (case msg p of
        Block chunk block buf \<Rightarrow>
          if serverip s \<noteq> 0 \<and> serverip s \<noteq> hdr_srcip p then Some s
          else do {
            (useful, s1) \<leftarrow> GotBlock nt chunk block buf (s\<lparr>BackOff := 0\<rparr>);
            let s2 = (if useful then s1\<lparr>IdleCounter := idletimer s1\<rparr> else s1);
            (_, s3) \<leftarrow> RequestStamp chunk block 1 True s2;
            Some s3
          }
      | Request chunk block n \<Rightarrow> do {
          (stamped, s1) \<leftarrow> RequestStamp chunk block n False s;
          Some (if stamped then s1\<lparr>IdleCounter := idletimer s1\<rparr> else s1)
        }
      | Prequest chunk retries bmap \<Rightarrow> snd (BlockMapApply bmap chunk (Some stamp_range) (Some s))
      | _ \<Rightarrow> Some s)"

text \<open>
  One turn of \<^verbatim>\<open>ClientRecvThread\<close>; the thread has ended when \<open>child_error\<close> is set, or when the main thread
  has left its loop and cancelled it.
\<close>

definition ClientRecvThread :: "net \<Rightarrow> bool \<Rightarrow> recv \<Rightarrow> client \<Rightarrow> client option" where
  "ClientRecvThread nt kafailed r s =
     (if child_error s \<or> main_phase s \<noteq> Running then Some s
      else do {
        rc \<leftarrow> PacketReceive nt r;
        if rc \<noteq> 0 then client_timeout nt kafailed s
        else case r of
          Recv _ _ _ p \<Rightarrow>
            let s1 = s\<lparr>STCounter := (if servertimo s \<noteq> 0 then servertimo s * TIMEOUT_HZ else STCounter s),
                      KACounter := (if keepalive s \<noteq> 0 then keepalive s * TIMEOUT_HZ else KACounter s),
                      gotone := True\<rparr> in
            if \<not> PacketValid p (TotalChunks (sizes_of s1)) then Some s1 else client_dispatch nt p s1
        | _ \<Rightarrow> Some s
      })"

section \<open>The writing side\<close>

text \<open>
  A turn of the loop of \<^verbatim>\<open>ChunkerStartup\<close>: the loop is over and the receive thread is cancelled; or there is nothing to
  write, and the process ends if the receive thread has died; or the first full buffer is written and freed.
  What \<^verbatim>\<open>ImageWriteChunk\<close> or \<^verbatim>\<open>ImageUnzipChunk\<close> gets is recorded in \<open>written\<close>; their failure, which
  ends the process, is not a step of this model.
\<close>

definition no_chunk_ready :: "client \<Rightarrow> client" where
  "no_chunk_ready s =
     (if child_error s then s\<lparr>main_phase := Failed\<rparr>
      else if main_gotone s then s\<lparr>cstats := (cstats s)\<lparr>cs_nochunksready := cs_nochunksready (cstats s) + 1\<rparr>\<rparr>
      else s)"

definition ChunkerStartup :: "client \<Rightarrow> client option" where
  "ChunkerStartup s =
     (let i = length (takeWhile (\<lambda>b. state b \<noteq> CHUNK_FULL) (ChunkBuffer s)) in
      if main_phase s \<noteq> Running then Some s
      else if chunkcount s = 0 then Some (s\<lparr>main_phase := Completed\<rparr>)
      else if i = length (ChunkBuffer s) then Some (no_chunk_ready s)
      else do {
        let b = ChunkBuffer s ! i;
        chunkbytes \<leftarrow> ChunkBytes (sizes_of s) (thischunk b);
        Some ((set_buf i (b\<lparr>state := CHUNK_EMPTY\<rparr>) s)\<lparr>chunkcount := chunkcount s - 1, main_gotone := True,
          written := written s @ [(thischunk b, take (nat chunkbytes) (concat (bufdata b)))]\<rparr>)
      })"

text \<open>
  The start of \<^verbatim>\<open>ChunkerStartup\<close>: the descriptors are cleared, the buffers are empty (their contents are
  whatever \<^verbatim>\<open>malloc\<close> returned) and the request list is the list of chunks, shuffled by swapping entries.
\<close>

fun shuffle :: "(nat \<times> nat) list \<Rightarrow> int list \<Rightarrow> int list" where
  "shuffle [] cs = cs"
| "shuffle ((c1, c2) # rs) cs = shuffle rs (let t1 = cs ! c1; t2 = cs ! c2 in cs[c2 := t1, c1 := t2])"

definition init_chunks :: "sizes \<Rightarrow> chunkbuf list \<Rightarrow> (nat \<times> nat) list \<Rightarrow> client \<Rightarrow> client" where
  "init_chunks sz bufs swaps s =
     s\<lparr>sizes_of := sz,
       Chunks := replicate (nat (TotalChunks sz)) \<lparr>lastreq = 0, ours = False, seen = False, finished = False\<rparr>,
       ChunkBuffer := map (\<lambda>b. b\<lparr>state := CHUNK_EMPTY\<rparr>) bufs,
       ChunkRequestList := shuffle swaps (map int [0..<nat (TotalChunks sz)]),
       chunkcount := TotalChunks sz, written := [], child_error := False, main_gotone := False,
       main_phase := Running\<rparr>"

end
