(* ===== verification/ClientReq.thy ===== *)
theory ClientReq
  imports Client
begin

text \<open>
  The request side of the client: the routines that stamp chunks and send requests change only times, ownership flags
  and dubious marks (the relation \<open>soft\<close>), never fail an assertion on a well-formed state, and ask only for
  blocks of the image that the client does not have.
\<close>

section \<open>The well-formed client\<close>

definition csize :: "byte list \<Rightarrow> int \<Rightarrow> int" where
  "csize img c = min 1024 (TotalBlocks (geometry (int (length img))) - c * 1024)"

definition nchunks :: "byte list \<Rightarrow> int" where
  "nchunks img = TotalChunks (geometry (int (length img)))"

lemma csize_range: "c < nchunks img \<Longrightarrow> 0 < csize img c \<and> csize img c \<le> 1024"
  by (simp add: csize_def nchunks_def TotalChunks_iff)

lemma ChunkSize_csize: "c < nchunks img \<Longrightarrow> ChunkSize (geometry (int (length img))) c = Some (csize img c)"
  by (simp add: csize_def nchunks_def geometry_ChunkSize)

lemma block_in_image:
  assumes "0 \<le> c" and "b < csize img c"
  shows "(c * 1024 + b) * 1024 < int (length img)"
  using assms TotalBlocks_iff [of "c * 1024 + b" "int (length img)"] by (simp add: csize_def)

lemma BlockSize_slice:
  assumes "0 \<le> c" and "0 \<le> b" and "b < csize img c"
  shows "BlockSize (geometry (int (length img))) c b = Some (int (length (block_slice img c b)))"
proof -
  have "BlockSize (geometry (int (length img))) c b =
      Some (min 1024 (int (length img) - (c * 1024 + b) * 1024))"
    by (rule geometry_BlockSize) (use assms in \<open>auto simp: csize_def\<close>)
  moreover have "int (length (block_slice img c b)) = min 1024 (int (length img) - (c * 1024 + b) * 1024)"
  proof -
    define off where "off = (c * 1024 + b) * 1024"
    have "0 \<le> off" "off < int (length img)"
      using block_in_image [OF assms(1,3)] assms(1,2) by (simp_all add: off_def)
    then have "int (length (take 1024 (drop (nat off) img))) = min 1024 (int (length img) - off)"
      by (simp add: of_nat_diff min_def) linarith
    then show ?thesis by (simp only: block_slice_def off_def)
  qed
  ultimately show ?thesis by simp
qed

text \<open>A block of the buffer holds the bytes of the block of the image, at its front.\<close>

definition holds :: "byte list \<Rightarrow> chunkbuf \<Rightarrow> nat \<Rightarrow> bool" where
  "holds img b k \<longleftrightarrow> take (length (block_slice img (thischunk b) (int k))) (bufdata b ! k) =
     block_slice img (thischunk b) (int k)"

definition buf_shape :: "chunkbuf \<Rightarrow> bool" where
  "buf_shape b \<longleftrightarrow> length (bufdata b) = 1024 \<and> (\<forall>d \<in> set (bufdata b). length d = 1024)"

definition buf_ok :: "byte list \<Rightarrow> chunkbuf \<Rightarrow> bool" where
  "buf_ok img b \<longleftrightarrow> buf_shape b \<and> (state b \<noteq> CHUNK_EMPTY \<longrightarrow>
     0 \<le> thischunk b \<and> thischunk b < nchunks img \<and> BlockMap_t (blockmap b) \<and>
     blocks (blockmap b) \<subseteq> {..<nat (csize img (thischunk b))} \<and>
     blockcount b = csize img (thischunk b) - int (card (blocks (blockmap b))) \<and>
     (state b = CHUNK_FULL \<longleftrightarrow> blockcount b = 0) \<and> (\<forall>k \<in> blocks (blockmap b). holds img b k))"

text \<open>A request that only asks for blocks of the image.\<close>

definition good_request :: "byte list \<Rightarrow> packet \<Rightarrow> bool" where
  "good_request img p \<longleftrightarrow> hdr_type p = PKTTYPE_REQUEST \<and> hdr_datalen p = sizeof_msg (msg p) \<and>
     (case msg p of
        Request c b n \<Rightarrow> 0 \<le> c \<and> c < nchunks img \<and> in_chunk b n \<and> b + n \<le> csize img c
      | Prequest c r m \<Rightarrow> 0 \<le> c \<and> c < nchunks img \<and> BlockMap_t m \<and> blocks m \<subseteq> {..<nat (csize img c)}
      | _ \<Rightarrow> False)"

definition net_ok :: "client \<Rightarrow> bool" where
  "net_ok s \<longleftrightarrow> (\<forall>n. \<exists>k. retried (sends s) n k)"

text \<open>What the request routines rely on.\<close>

definition req_inv :: "byte list \<Rightarrow> client \<Rightarrow> bool" where
  "req_inv img s \<longleftrightarrow> net_ok s \<and> sizes_of s = geometry (int (length img)) \<and>
     int (length (Chunks s)) = nchunks img \<and> set (ChunkRequestList s) = {0..<nchunks img} \<and>
     (\<forall>b \<in> set (ChunkBuffer s). buf_ok img b)"

section \<open>Soft steps\<close>

definition soft_buf :: "chunkbuf \<Rightarrow> chunkbuf \<Rightarrow> bool" where
  "soft_buf b b' \<longleftrightarrow> b' = b \<or> state b = CHUNK_DUBIOUS \<and> b' = b\<lparr>state := CHUNK_FILLING\<rparr>"

definition soft :: "byte list \<Rightarrow> client \<Rightarrow> client \<Rightarrow> bool" where
  "soft img s s' \<longleftrightarrow> sizes_of s' = sizes_of s \<and> map seen (Chunks s') = map seen (Chunks s) \<and>
     map finished (Chunks s') = map finished (Chunks s) \<and>
     list_all2 soft_buf (ChunkBuffer s) (ChunkBuffer s') \<and>
     ChunkRequestList s' = ChunkRequestList s \<and> inprogress s' = inprogress s \<and>
     written s' = written s \<and> chunkcount s' = chunkcount s \<and> sends s' = sends s \<and>
     serverip s' = serverip s \<and> child_error s' = child_error s \<and> main_phase s' = main_phase s \<and>
     servertimo s' = servertimo s \<and> maxreadahead s' = maxreadahead s \<and> maxinprogress s' = maxinprogress s \<and>
     (\<exists>ps. outbox s' = outbox s @ ps \<and> list_all (good_request img) ps)"

lemma soft_buf_refl [simp]: "soft_buf b b"
  by (simp add: soft_buf_def)

lemma soft_buf_trans: "soft_buf a b \<Longrightarrow> soft_buf b c \<Longrightarrow> soft_buf a c"
  by (auto simp: soft_buf_def)

lemma soft_refl [simp]: "soft img s s"
  by (simp add: soft_def list_all2_refl)

lemma soft_trans: "soft img s t \<Longrightarrow> soft img t u \<Longrightarrow> soft img s u"
  using list_all2_trans [of soft_buf soft_buf soft_buf "ChunkBuffer s" "ChunkBuffer t" "ChunkBuffer u"]
  by (auto simp: soft_def intro: soft_buf_trans)

lemma soft_buf_ok: "soft_buf b b' \<Longrightarrow> buf_ok img b \<Longrightarrow> buf_ok img b'"
  by (auto simp: soft_buf_def buf_ok_def buf_shape_def holds_def)

lemma list_all2_pred: "list_all2 R xs ys \<Longrightarrow> (\<And>x y. R x y \<Longrightarrow> P x \<Longrightarrow> P y) \<Longrightarrow> \<forall>x \<in> set xs. P x \<Longrightarrow> \<forall>y \<in> set ys. P y"
  by (auto simp: list_all2_conv_all_nth all_set_conv_all_nth)

lemma soft_req_inv: "soft img s s' \<Longrightarrow> req_inv img s \<Longrightarrow> req_inv img s'"
proof -
  assume a: "soft img s s'" "req_inv img s"
  have "\<forall>b \<in> set (ChunkBuffer s'). buf_ok img b"
    by (rule list_all2_pred [of soft_buf "ChunkBuffer s"])
      (use a soft_buf_ok in \<open>auto simp: soft_def req_inv_def\<close>)
  moreover have "length (Chunks s') = length (Chunks s)"
    using a(1) map_eq_imp_length_eq [of seen "Chunks s'" seen "Chunks s"] by (simp add: soft_def)
  ultimately show ?thesis using a by (simp add: soft_def req_inv_def net_ok_def)
qed

lemma map_update_same: "f d = f (xs ! i) \<Longrightarrow> map f (xs[i := d]) = map f xs"
  by (metis list_update_id map_update)

lemma soft_set_chunk:
  assumes "seen d = seen (chunk_at s c)" and "finished d = finished (chunk_at s c)"
  shows "soft img s (set_chunk c d s)"
  using assms by (simp add: soft_def set_chunk_def chunk_at_def map_update_same list_all2_refl)

lemma soft_stamp: "soft img s (stamp_chunk c s)"
proof -
  have "soft img s (set_chunk c ((chunk_at s c)\<lparr>lastreq := clock s (tick s) mod 2 ^ 61\<rparr>) s)"
    by (rule soft_set_chunk) simp_all
  then show ?thesis by (simp add: soft_def stamp_chunk_def)
qed

lemma soft_ours: "soft img s (set_ours c s)"
  unfolding set_ours_def by (rule soft_set_chunk) simp_all

lemma soft_promote:
  assumes "state (ChunkBuffer s ! i) = CHUNK_DUBIOUS"
  shows "soft img s (set_buf i ((ChunkBuffer s ! i)\<lparr>state := CHUNK_FILLING\<rparr>) s)"
proof -
  have "list_all2 soft_buf (ChunkBuffer s) ((ChunkBuffer s)[i := (ChunkBuffer s ! i)\<lparr>state := CHUNK_FILLING\<rparr>])"
    using list_all2_update_cong [of soft_buf "ChunkBuffer s" "ChunkBuffer s" "ChunkBuffer s ! i"
        "(ChunkBuffer s ! i)\<lparr>state := CHUNK_FILLING\<rparr>" i] assms
    by (simp add: list_all2_refl soft_buf_def)
  then show ?thesis by (simp add: soft_def set_buf_def)
qed

lemma find_buf_collecting:
  "find_buf c s < length (ChunkBuffer s) \<Longrightarrow> collecting c (ChunkBuffer s ! find_buf c s)"
  unfolding find_buf_def by (metis nth_length_takeWhile)

lemma RequestStamp_soft:
  assumes "req_inv img s" and "0 \<le> c" and "c < nchunks img" and "in_chunk b n"
  shows "\<exists>r s'. RequestStamp c b n g s = Some (r, s') \<and> soft img s s'"
proof -
  have cs: "ChunkSize (sizes_of s) c = Some (csize img c)"
    using assms ChunkSize_csize by (simp add: req_inv_def)
  let ?i = "find_buf c s"
  have "BlockMap_t (blockmap (ChunkBuffer s ! ?i))" if "?i < length (ChunkBuffer s)"
    using find_buf_collecting [OF that] nth_mem [OF that] assms(1)
    by (auto simp: req_inv_def buf_ok_def collecting_def)
  then have al: "\<exists>k. BlockMapIsAlloc (blockmap (ChunkBuffer s ! ?i)) b n = Some k" if "?i < length (ChunkBuffer s)"
    using that BlockMapIsAlloc_Some [OF _ assms(4)] by blast
  show ?thesis
  proof (cases "?i < length (ChunkBuffer s)")
    case True
    then obtain k where "BlockMapIsAlloc (blockmap (ChunkBuffer s ! ?i)) b n = Some k" using al by blast
    then show ?thesis using cs True soft_stamp [of img s c] soft_promote [of s ?i img]
        soft_trans [OF soft_promote soft_stamp, of s ?i img c]
      by (auto simp: RequestStamp_def Let_def)
  next
    case False
    then show ?thesis using cs soft_stamp [of img s c] by (auto simp: RequestStamp_def Let_def)
  qed
qed

text \<open>A stamp for a range that is not in the chunk fails exactly when the chunk is being collected.\<close>

lemma RequestStamp_outside:
  assumes "req_inv img s" and "0 \<le> c" and "c < nchunks img" and "\<not> in_chunk b n"
  shows "if redodelay s \<noteq> 0 \<and> \<not> finished (chunk_at s c) \<and> seen (chunk_at s c) \<and> find_buf c s < length (ChunkBuffer s)
    then RequestStamp c b n g s = None else \<exists>r s'. RequestStamp c b n g s = Some (r, s') \<and> soft img s s'"
proof -
  have cs: "ChunkSize (sizes_of s) c = Some (csize img c)" using assms(1,3) ChunkSize_csize by (simp add: req_inv_def)
  have part: "\<not> (b = 0 \<and> n = csize img c)"
    using assms(4) csize_range [OF assms(3)] by (auto simp: in_chunk_def MAXCHUNKSIZE_def)
  let ?i = "find_buf c s"
  have "BlockMap_t (blockmap (ChunkBuffer s ! ?i))" if "?i < length (ChunkBuffer s)"
    using find_buf_collecting [OF that] nth_mem [OF that] assms(1)
    by (auto simp: req_inv_def buf_ok_def collecting_def)
  then have "BlockMapIsAlloc (blockmap (ChunkBuffer s ! ?i)) b n = None" if "?i < length (ChunkBuffer s)"
    using that range_in_array [of "blockmap (ChunkBuffer s ! ?i)" b n] assms(4) by (auto simp: BlockMapIsAlloc_def c_assert_def)
  then show ?thesis using cs part soft_stamp [of img s c] by (auto simp: RequestStamp_def Let_def)
qed

lemma missing_map_spec:
  assumes "c < nchunks img" and "BlockMap_t held" and "blocks held \<subseteq> {..<nat (csize img c)}"
  shows "\<exists>m. missing_map (csize img c) held = Some m \<and> BlockMap_t m \<and>
    blocks m = {..<nat (csize img c)} - blocks held \<and>
    int (card (blocks m)) = csize img c - int (card (blocks held))"
proof -
  let ?k = "csize img c"
  have k: "0 < ?k" "?k \<le> 1024" using csize_range [OF assms(1)] by simp_all
  have len: "length held = 128" using assms(2) by (simp add: BlockMap_t_length)
  have inv: "BlockMap_t (BlockMapInvert held)" "blocks (BlockMapInvert held) = {..<1024} - blocks held"
    using len by (simp_all add: BlockMap_t_length blocks_BlockMapInvert)
  have "\<exists>m. missing_map ?k held = Some m \<and> BlockMap_t m \<and> blocks m = {..<nat ?k} - blocks held"
  proof (cases "?k < 1024")
    case True
    then have "in_chunk ?k (1024 - ?k)" using k by (simp add: in_chunk_def MAXCHUNKSIZE_def)
    from BlockMapClear_Some [OF inv(1) this] obtain m where
      "BlockMapClear (BlockMapInvert held) ?k (1024 - ?k) = Some m" "BlockMap_t m"
      "blocks m = blocks (BlockMapInvert held) - {nat ?k..<nat (?k + (1024 - ?k))}" by blast
    moreover have "{..<1024} - A - {nat ?k..<1024} = {..<nat ?k} - A" for A using k by (auto simp: lessThan_def)
    ultimately show ?thesis using True inv(2)
      by (intro exI [of _ m]) (simp add: missing_map_def MAXCHUNKSIZE_def)
  next
    case False
    then have "?k = 1024" using k by simp
    then show ?thesis using inv by (simp add: missing_map_def MAXCHUNKSIZE_def)
  qed
  moreover have "int (card ({..<nat ?k} - blocks held)) = ?k - int (card (blocks held))"
    using assms(3) k card_mono [OF _ assms(3)] by (simp add: card_Diff_subset of_nat_diff)
  ultimately show ?thesis by auto
qed

lemma send_packet_soft:
  assumes "req_inv img s" and "good_request img (p\<lparr>hdr_srcip := myipaddr nt\<rparr>)"
  shows "\<exists>s'. send_packet nt p s = Some s' \<and> soft img s s' \<and> outbox s' = outbox s @ [p\<lparr>hdr_srcip := myipaddr nt\<rparr>] \<and>
    Chunks s' = Chunks s \<and> ChunkBuffer s' = ChunkBuffer s"
proof -
  from assms(1) obtain k where "retried (sends s) (nsend s) k" unfolding req_inv_def net_ok_def by blast
  then have "PacketSend nt p (sends s) (nsend s) = Some (p\<lparr>hdr_srcip := myipaddr nt\<rparr>, nsend s + k + 1, int k)"
    by (subst PacketSend_iff) blast
  then show ?thesis using assms(2) by (simp add: send_packet_def soft_def list_all2_refl)
qed

lemma soft_cstats: "soft img s (s\<lparr>cstats := x\<rparr>)"
  by (simp add: soft_def list_all2_refl)

definition missing_request :: "net \<Rightarrow> int \<Rightarrow> blockmap \<Rightarrow> bool \<Rightarrow> packet" where
  "missing_request nt c m retry = \<lparr>hdr_type = PKTTYPE_REQUEST, hdr_datalen = 8 + MAXCHUNKSIZE div 8,
     hdr_srcip = myipaddr nt, msg = Prequest c (if retry then 1 else 0) m\<rparr>"

lemma RequestStamp_whole:
  assumes "ChunkSize (sizes_of s) c = Some k"
  shows "\<exists>r s'. RequestStamp c 0 k False s = Some (r, s') \<and> outbox s' = outbox s \<and> ChunkBuffer s' = ChunkBuffer s \<and>
    soft img s s'"
proof -
  have "outbox (stamp_chunk c s) = outbox s" "ChunkBuffer (stamp_chunk c s) = ChunkBuffer s"
    by (simp_all add: stamp_chunk_def set_chunk_def)
  then show ?thesis using assms soft_stamp [of img s c]
    by (cases "redodelay s = 0 \<or> finished (chunk_at s c)") (auto simp: RequestStamp_def)
qed

lemma set_ours_frame [simp]: "outbox (set_ours c s) = outbox s" "ChunkBuffer (set_ours c s) = ChunkBuffer s"
  by (simp_all add: set_ours_def set_chunk_def)

lemma RequestMissing_spec:
  assumes "req_inv img s" and "0 \<le> c" and "c < nchunks img" and "BlockMap_t held"
    and "blocks held \<subseteq> {..<nat (csize img c)}" and "n = csize img c - int (card (blocks held))"
  shows "\<exists>m s'. RequestMissing nt c held n s = Some s' \<and> soft img s s' \<and> ChunkBuffer s' = ChunkBuffer s \<and>
    outbox s' = outbox s @ [missing_request nt c m (ours (chunk_at s c))] \<and>
    blocks m = {..<nat (csize img c)} - blocks held"
proof -
  from missing_map_spec [OF assms(3-5)] obtain m where
    m: "missing_map (csize img c) held = Some m" "BlockMap_t m" "blocks m = {..<nat (csize img c)} - blocks held"
    "int (card (blocks m)) = n" using assms(6) by auto
  let ?p = "\<lparr>hdr_type = PKTTYPE_REQUEST, hdr_datalen = 8 + MAXCHUNKSIZE div 8, hdr_srcip = 0,
    msg = Prequest c (if ours (chunk_at s c) then 1 else 0) m\<rparr>"
  have p: "?p\<lparr>hdr_srcip := myipaddr nt\<rparr> = missing_request nt c m (ours (chunk_at s c))"
    by (simp add: missing_request_def)
  have "good_request img (?p\<lparr>hdr_srcip := myipaddr nt\<rparr>)" using m assms(2,3) by (auto simp: good_request_def)
  from send_packet_soft [OF assms(1) this] obtain s1 where
    s1: "send_packet nt ?p s = Some s1" "soft img s s1" "ChunkBuffer s1 = ChunkBuffer s"
    "outbox s1 = outbox s @ [missing_request nt c m (ours (chunk_at s c))]" using p by auto
  have sz: "sizes_of s = geometry (int (length img))" "sizes_of s1 = geometry (int (length img))"
    using assms(1) s1(2) by (simp_all add: req_inv_def soft_def)
  have "in_chunk 0 1024" by (simp add: in_chunk_def MAXCHUNKSIZE_def)
  moreover have "blocks m \<inter> {0..<1024} = blocks m"
    using blocks_bound [of _ m] m(2) by (auto simp: BlockMap_t_length)
  ultimately have al: "BlockMapIsAlloc m 0 1024 = Some n" using BlockMapIsAlloc_Some [OF m(2), of 0 1024] m(4) by simp
  let ?s2 = "s1\<lparr>cstats := note_prequest n (csize img c) (ours (chunk_at s c)) (cstats s1)\<rparr>"
  have "ChunkSize (sizes_of ?s2) c = Some (csize img c)" using sz assms(3) ChunkSize_csize by simp
  from RequestStamp_whole [OF this, of img] obtain r s3 where
    s3: "RequestStamp c 0 (csize img c) False ?s2 = Some (r, s3)" "outbox s3 = outbox s1" "ChunkBuffer s3 = ChunkBuffer s1"
    "soft img ?s2 s3" by auto
  have "RequestMissing nt c held n s = Some (set_ours c s3)"
    using sz assms(3) m(1) s1(1) s3(1) al
    by (simp add: RequestMissing_def ChunkSize_csize geometry_CHUNKSIZE Let_def)
  moreover have "soft img s (set_ours c s3)"
    using soft_trans [OF s1(2) soft_trans [OF soft_cstats soft_trans [OF s3(4) soft_ours]]] .
  ultimately show ?thesis using s1 s3 m by auto
qed

definition range_request :: "net \<Rightarrow> int \<Rightarrow> int \<Rightarrow> int \<Rightarrow> packet" where
  "range_request nt c b n = \<lparr>hdr_type = PKTTYPE_REQUEST, hdr_datalen = 12, hdr_srcip = myipaddr nt,
     msg = Request c b n\<rparr>"

text \<open>The blocks that a packet asks for.\<close>

definition asked :: "packet \<Rightarrow> (int \<times> nat) set" where
  "asked p = (case msg p of
     Request c b n \<Rightarrow> {c} \<times> {nat b..<nat (b + n)} | Prequest c r m \<Rightarrow> {c} \<times> blocks m | _ \<Rightarrow> {})"

lemma asked_requests [simp]:
  "asked (missing_request nt c m retry) = {c} \<times> blocks m"
  "asked (range_request nt c b n) = {c} \<times> {nat b..<nat (b + n)}"
  by (simp_all add: asked_def missing_request_def range_request_def)

lemma RequestRange_whole:
  assumes "req_inv img s" and "0 \<le> c" and "c < nchunks img"
  shows "\<exists>s'. RequestRange nt c 0 (csize img c) s = Some s' \<and> soft img s s' \<and>
    (\<exists>p. outbox s' = outbox s @ [p] \<and> hdr_srcip p = myipaddr nt \<and> asked p = {c} \<times> {..<nat (csize img c)})"
proof (cases "ours (chunk_at s c)")
  case True
  have "BlockMap_t (replicate 128 0)" by (simp add: BlockMap_t_length)
  moreover have "hdr_srcip (missing_request nt c m k) = myipaddr nt" for m k by (simp add: missing_request_def)
  ultimately show ?thesis
    using True assms ChunkSize_csize [OF assms(3)] RequestMissing_spec [OF assms, of "replicate 128 0" "csize img c" nt]
    by (fastforce simp: RequestRange_def req_inv_def)
next
  case False
  let ?p = "\<lparr>hdr_type = PKTTYPE_REQUEST, hdr_datalen = 12, hdr_srcip = 0, msg = Request c 0 (csize img c)\<rparr>"
  have "good_request img (?p\<lparr>hdr_srcip := myipaddr nt\<rparr>)"
    using assms csize_range [OF assms(3)] by (simp add: good_request_def in_chunk_def MAXCHUNKSIZE_def)
  from send_packet_soft [OF assms(1) this] obtain s1 where
    s1: "send_packet nt ?p s = Some s1" "soft img s s1" "outbox s1 = outbox s @ [range_request nt c 0 (csize img c)]"
    by (auto simp: range_request_def)
  let ?s2 = "s1\<lparr>cstats := (cstats s1)\<lparr>cs_requests := cs_requests (cstats s1) + 1\<rparr>\<rparr>"
  have "ChunkSize (sizes_of ?s2) c = Some (csize img c)"
    using soft_req_inv [OF s1(2) assms(1)] assms(3) ChunkSize_csize by (simp add: req_inv_def)
  from RequestStamp_whole [OF this, of img] obtain r s3 where
    s3: "RequestStamp c 0 (csize img c) False ?s2 = Some (r, s3)" "soft img ?s2 s3" "outbox s3 = outbox s1" by auto
  have "soft img s (set_ours c s3)"
    using soft_trans [OF s1(2) soft_trans [OF soft_cstats soft_trans [OF s3(2) soft_ours]]] .
  moreover have "RequestRange nt c 0 (csize img c) s = Some (set_ours c s3)"
    using False s1(1) s3(1) by (simp add: RequestRange_def Let_def)
  moreover have "hdr_srcip (range_request nt c 0 (csize img c)) = myipaddr nt" by (simp add: range_request_def)
  moreover have "{0..<nat (csize img c)} = {..<nat (csize img c)}" by auto
  ultimately show ?thesis using s1(3) s3(3) by simp
qed

lemma soft_length: "soft img s s' \<Longrightarrow> length (ChunkBuffer s') = length (ChunkBuffer s)"
  by (auto simp: soft_def dest: list_all2_lengthD)

text \<open>A step after which the first new packet sent asks for the blocks \<open>A\<close> of a chunk.\<close>

definition asks :: "net \<Rightarrow> client \<Rightarrow> client \<Rightarrow> int \<Rightarrow> nat set \<Rightarrow> bool" where
  "asks nt s s' c A \<longleftrightarrow> (\<exists>p ps. outbox s' = outbox s @ p # ps \<and> hdr_srcip p = myipaddr nt \<and> asked p = {c} \<times> A)"

lemma asks_soft: "asks nt s s' c A \<Longrightarrow> soft img s' t \<Longrightarrow> asks nt s t c A"
  by (fastforce simp: asks_def soft_def)

lemma asks_before: "asks nt t s' c A \<Longrightarrow> outbox t = outbox s \<Longrightarrow> asks nt s s' c A"
  by (simp add: asks_def)

lemma request_buffer_soft:
  assumes "req_inv img s" and "i < length (ChunkBuffer s)" and "state (ChunkBuffer s ! i) \<noteq> CHUNK_EMPTY"
  shows "\<exists>s'. request_buffer nt i s = Some s' \<and> soft img s s' \<and>
    asks nt s s' (thischunk (ChunkBuffer s ! i))
      ({..<nat (csize img (thischunk (ChunkBuffer s ! i)))} - blocks (blockmap (ChunkBuffer s ! i)))"
proof -
  let ?b = "ChunkBuffer s ! i"
  have b: "0 \<le> thischunk ?b" "thischunk ?b < nchunks img" "BlockMap_t (blockmap ?b)"
    "blocks (blockmap ?b) \<subseteq> {..<nat (csize img (thischunk ?b))}"
    "blockcount ?b = csize img (thischunk ?b) - int (card (blocks (blockmap ?b)))"
    using assms nth_mem [OF assms(2)] by (auto simp: req_inv_def buf_ok_def)
  from RequestMissing_spec [OF assms(1) b, of nt] obtain s1 where
    s1: "RequestMissing nt (thischunk ?b) (blockmap ?b) (blockcount ?b) s = Some s1" "soft img s s1"
    "asks nt s s1 (thischunk ?b) ({..<nat (csize img (thischunk ?b))} - blocks (blockmap ?b))"
    by (fastforce simp: asks_def missing_request_def asked_def)
  show ?thesis
  proof (cases "state (ChunkBuffer s1 ! i) = CHUNK_DUBIOUS")
    case True
    then show ?thesis using s1 soft_trans [OF s1(2) soft_promote [OF True]] asks_soft [OF s1(3) soft_promote [OF True]]
      by (simp add: request_buffer_def Let_def)
  next
    case False
    then show ?thesis using s1 by (simp add: request_buffer_def Let_def)
  qed
qed

lemma request_unfinished_soft:
  assumes "req_inv img s" and "nbufs = length (ChunkBuffer s)"
  shows "\<exists>e f s'. request_unfinished nt timedout stamp nbufs i eb fb s = Some (e, f, s') \<and> soft img s s'"
  using assms
proof (induction nt timedout stamp nbufs i eb fb s rule: request_unfinished.induct)
  case (1 nt timedout stamp nbufs i eb fb s)
  note unf = request_unfinished.simps [of nt timedout stamp nbufs i eb fb s]
  let ?b = "ChunkBuffer s ! i"
  consider (stop) "\<not> i < nbufs" | (empty) "i < nbufs" "state ?b = CHUNK_EMPTY"
    | (full) "i < nbufs" "state ?b \<noteq> CHUNK_EMPTY" "state ?b = CHUNK_FULL"
    | (early) "i < nbufs" "state ?b \<noteq> CHUNK_EMPTY" "state ?b \<noteq> CHUNK_FULL"
        "\<not> timedout \<and> \<not> RequestRedoTime (thischunk ?b) stamp s"
    | (req) "i < nbufs" "state ?b \<noteq> CHUNK_EMPTY" "state ?b \<noteq> CHUNK_FULL"
        "\<not> (\<not> timedout \<and> \<not> RequestRedoTime (thischunk ?b) stamp s)" by blast
  then show ?case
  proof cases
    case stop
    then show ?thesis using unf by simp
  next
    case empty
    then show ?thesis using unf "1.IH"(1) "1.prems" by simp
  next
    case full
    then show ?thesis using unf "1.IH"(2) "1.prems" by simp
  next
    case early
    then show ?thesis using unf "1.IH"(3) "1.prems" by simp
  next
    case req
    from request_buffer_soft [OF "1.prems"(1) _ req(2), of nt] req(1) "1.prems"(2) obtain s1 where
      s1: "request_buffer nt i s = Some s1" "soft img s s1" by blast
    have "\<exists>e f s'. request_unfinished nt timedout stamp nbufs (i + 1) eb (fb + 1) s1 = Some (e, f, s') \<and> soft img s1 s'"
      using "1.IH"(4) [OF req(1) refl req(2-4) s1(1)] soft_req_inv [OF s1(2) "1.prems"(1)] soft_length [OF s1(2)]
        "1.prems"(2) by simp
    then show ?thesis using unf req s1 soft_trans [OF s1(2)] by (auto simp: Let_def)
  qed
qed

lemma read_ahead_soft:
  assumes "req_inv img s" and "set cs \<subseteq> {0..<nchunks img}"
  shows "\<exists>s'. read_ahead nt timedout stamp k cs j s = Some s' \<and> soft img s s'"
  using assms
proof (induction nt timedout stamp k cs j s rule: read_ahead.induct)
  case (1 nt timedout stamp k j s)
  then show ?case by simp
next
  case (2 nt timedout stamp k chunk rest j s)
  have c: "0 \<le> chunk" "chunk < nchunks img" "set rest \<subseteq> {0..<nchunks img}" using "2.prems"(2) by auto
  have cs: "ChunkSize (sizes_of s) chunk = Some (csize img chunk)"
    using "2.prems"(1) c ChunkSize_csize by (simp add: req_inv_def)
  show ?case
  proof (cases "j < k \<and> \<not> seen (chunk_at s chunk) \<and> (timedout \<or> RequestRedoTime chunk stamp s)")
    case True
    from RequestRange_whole [OF "2.prems"(1) c(1,2), of nt] obtain s1 where
      s1: "RequestRange nt chunk 0 (csize img chunk) s = Some s1" "soft img s s1" by blast
    have "\<exists>s'. read_ahead nt timedout stamp k rest (j + 1) s1 = Some s' \<and> soft img s1 s'"
      using "2.IH"(2) [OF _ _ _ cs s1(1)] True soft_req_inv [OF s1(2) "2.prems"(1)] c(3) by blast
    then show ?thesis using True cs s1 soft_trans [OF s1(2)] by auto
  next
    case False
    then show ?thesis using "2.IH"(1,3) "2.prems"(1) c(3) by auto
  qed
qed

lemma RequestChunk_soft:
  assumes "req_inv img s"
  shows "\<exists>s'. RequestChunk nt timedout s = Some s' \<and> soft img s s'"
proof -
  obtain stamp s0 where st: "(if \<not> timedout then (clock s (tick s), s\<lparr>tick := tick s + 1\<rparr>) else (0, s)) = (stamp, s0)"
    by fastforce
  then have s0: "soft img s s0" by (auto simp: soft_def list_all2_refl split: if_splits)
  from request_unfinished_soft [OF soft_req_inv [OF s0 assms] refl, of nt timedout stamp 0 0 0] obtain e f s1 where
    u: "request_unfinished nt timedout stamp (length (ChunkBuffer s0)) 0 0 0 s0 = Some (e, f, s1)" "soft img s0 s1"
    by blast
  have s1: "soft img s s1" "req_inv img s1" using soft_trans [OF s0 u(2)] soft_req_inv assms by blast+
  let ?k = "if maxreadahead s1 > e then e else maxreadahead s1"
  have "\<exists>s'. read_ahead nt timedout stamp ?k (ChunkRequestList s1) 0 s1 = Some s' \<and> soft img s1 s'"
    by (rule read_ahead_soft [OF s1(2)]) (use s1(2) in \<open>simp add: req_inv_def\<close>)
  then show ?thesis using st u(1) s1(1) soft_trans [OF s1(1)] by (auto simp: RequestChunk_def Let_def)
qed

end
