(* ===== verification/ChunkCache.thy ===== *)
theory ChunkCache
  imports Prelude
begin

text \<open>
  The abstract client: a cache of slots, each free, open (collecting a chunk) or full (holding a complete chunk), the
  chunks that are known to be in progress or finished, and the chunks written. Four operations change it; the
  invariant says that every chunk is in exactly one place, and that a chunk is written at most once. The client of
  client.c refines it.
\<close>

datatype slot = Free | Open int | Full int

record cache =
  slots :: "slot list"
  known :: "int \<Rightarrow> bool"
  complete :: "int \<Rightarrow> bool"
  done_list :: "int list"

fun chunk_in :: "slot \<Rightarrow> int option" where
  "chunk_in Free = None"
| "chunk_in (Open c) = Some c"
| "chunk_in (Full c) = Some c"

inductive cache_step :: "int \<Rightarrow> cache \<Rightarrow> cache \<Rightarrow> bool" for T :: int where
  open_slot: "i < length (slots k) \<Longrightarrow> slots k ! i = Free \<Longrightarrow> 0 \<le> c \<Longrightarrow> c < T \<Longrightarrow> \<not> known k c \<Longrightarrow>
    cache_step T k (k\<lparr>slots := (slots k)[i := Open c], known := (known k)(c := True)\<rparr>)"
| drop_slot: "i < length (slots k) \<Longrightarrow> slots k ! i = Open c \<Longrightarrow>
    cache_step T k (k\<lparr>slots := (slots k)[i := Free], known := (known k)(c := False)\<rparr>)"
| fill_slot: "i < length (slots k) \<Longrightarrow> slots k ! i = Open c \<Longrightarrow>
    cache_step T k (k\<lparr>slots := (slots k)[i := Full c], complete := (complete k)(c := True)\<rparr>)"
| write_slot: "i < length (slots k) \<Longrightarrow> slots k ! i = Full c \<Longrightarrow>
    cache_step T k (k\<lparr>slots := (slots k)[i := Free], done_list := done_list k @ [c]\<rparr>)"

definition cache_init :: "cache \<Rightarrow> bool" where
  "cache_init k \<longleftrightarrow> (\<forall>x \<in> set (slots k). x = Free) \<and> (\<forall>c. \<not> known k c \<and> \<not> complete k c) \<and> done_list k = []"

definition one_place :: "slot list \<Rightarrow> bool" where
  "one_place xs \<longleftrightarrow> (\<forall>i<length xs. \<forall>j<length xs. chunk_in (xs ! i) \<noteq> None \<longrightarrow>
     chunk_in (xs ! i) = chunk_in (xs ! j) \<longrightarrow> i = j)"

definition cache_inv :: "int \<Rightarrow> cache \<Rightarrow> bool" where
  "cache_inv T k \<longleftrightarrow> one_place (slots k) \<and>
     (\<forall>c. Open c \<in> set (slots k) \<longleftrightarrow> 0 \<le> c \<and> c < T \<and> known k c \<and> \<not> complete k c) \<and>
     (\<forall>c. Full c \<in> set (slots k) \<or> c \<in> set (done_list k) \<longleftrightarrow> 0 \<le> c \<and> c < T \<and> complete k c) \<and>
     (\<forall>c. 0 \<le> c \<and> c < T \<and> complete k c \<longrightarrow> known k c) \<and>
     distinct (done_list k) \<and> (\<forall>c. Full c \<in> set (slots k) \<longrightarrow> c \<notin> set (done_list k))"

lemma mem_update_other:
  "i < length xs \<Longrightarrow> y \<noteq> xs ! i \<Longrightarrow> y \<in> set (xs[i := x]) \<longleftrightarrow> y = x \<or> y \<in> set xs"
  by (metis in_set_conv_nth length_list_update nth_list_update nth_list_update_eq nth_list_update_neq)

lemma mem_update_same:
  assumes "one_place xs" and "i < length xs" and "chunk_in (xs ! i) = Some c" and "chunk_in x \<noteq> Some c"
    and "chunk_in y = Some c"
  shows "y \<notin> set (xs[i := x])"
proof
  assume "y \<in> set (xs[i := x])"
  then obtain j where "j < length xs" "xs[i := x] ! j = y" by (auto simp: in_set_conv_nth)
  then show False using assms by (cases "j = i") (auto simp: one_place_def nth_list_update)
qed

lemma one_place_update:
  assumes "one_place xs" and "i < length xs"
    and "\<And>j. j < length xs \<Longrightarrow> j \<noteq> i \<Longrightarrow> chunk_in x \<noteq> None \<Longrightarrow> chunk_in (xs ! j) \<noteq> chunk_in x"
  shows "one_place (xs[i := x])"
  unfolding one_place_def
proof (intro allI impI)
  fix a b
  assume h: "a < length (xs[i := x])" "b < length (xs[i := x])" "chunk_in (xs[i := x] ! a) \<noteq> None"
    "chunk_in (xs[i := x] ! a) = chunk_in (xs[i := x] ! b)"
  consider "a = i" "b = i" | "a = i" "b \<noteq> i" | "a \<noteq> i" "b = i" | "a \<noteq> i" "b \<noteq> i" by blast
  then show "a = b"
  proof cases
    case 2
    then show ?thesis using h assms(2) assms(3) [of b] by simp
  next
    case 3
    then show ?thesis using h assms(2) assms(3) [of a] by simp
  next
    case 4
    then show ?thesis using h assms(1) by (simp add: one_place_def)
  qed simp
qed

lemma one_place_unique:
  "one_place xs \<Longrightarrow> i < length xs \<Longrightarrow> j < length xs \<Longrightarrow> chunk_in (xs ! i) = Some c \<Longrightarrow> chunk_in (xs ! j) = Some c \<Longrightarrow> i = j"
  by (auto simp: one_place_def)

lemma in_slots_nth: "j < length xs \<Longrightarrow> chunk_in (xs ! j) = Some c \<Longrightarrow> Open c \<in> set xs \<or> Full c \<in> set xs"
  by (cases "xs ! j") (auto dest: nth_mem)

lemma cache_inv_D:
  assumes "cache_inv T k"
  shows "one_place (slots k)"
    and "Open c \<in> set (slots k) \<longleftrightarrow> 0 \<le> c \<and> c < T \<and> known k c \<and> \<not> complete k c"
    and "Full c \<in> set (slots k) \<or> c \<in> set (done_list k) \<longleftrightarrow> 0 \<le> c \<and> c < T \<and> complete k c"
    and "0 \<le> c \<Longrightarrow> c < T \<Longrightarrow> complete k c \<Longrightarrow> known k c"
    and "distinct (done_list k)" and "Full c \<in> set (slots k) \<Longrightarrow> c \<notin> set (done_list k)"
  using assms unfolding cache_inv_def by blast+

lemma cache_init_inv: "cache_init k \<Longrightarrow> cache_inv T k"
  by (auto simp: cache_init_def cache_inv_def one_place_def dest!: nth_mem)

lemma inv_open_slot:
  assumes "cache_inv T k" and "i < length (slots k)" and "slots k ! i = Free" and "0 \<le> c" and "c < T"
    and "\<not> known k c"
  shows "cache_inv T (k\<lparr>slots := (slots k)[i := Open c], known := (known k)(c := True)\<rparr>)"
proof -
  note d = cache_inv_D [OF assms(1)]
  have nc: "\<not> complete k c" using d(4) assms by blast
  have absent: "Open c \<notin> set (slots k)" "Full c \<notin> set (slots k)" using d(2,3) [of c] assms nc by auto
  have "one_place ((slots k)[i := Open c])"
    by (rule one_place_update [OF d(1) assms(2)]) (use in_slots_nth absent in fastforce)
  moreover have mem: "x \<in> set ((slots k)[i := Open c]) \<longleftrightarrow> x = Open c \<or> x \<in> set (slots k)" if "x \<noteq> Free" for x
    by (rule mem_update_other [OF assms(2)]) (use that assms(3) in simp)
  ultimately show ?thesis unfolding cache_inv_def using d nc assms(4,5) by (auto simp: mem)
qed

lemma inv_drop_slot:
  assumes "cache_inv T k" and "i < length (slots k)" and "slots k ! i = Open c"
  shows "cache_inv T (k\<lparr>slots := (slots k)[i := Free], known := (known k)(c := False)\<rparr>)"
proof -
  note d = cache_inv_D [OF assms(1)]
  have c: "0 \<le> c" "c < T" "known k c" "\<not> complete k c" using d(2) [of c] nth_mem [OF assms(2)] assms(3) by auto
  have "one_place ((slots k)[i := Free])" by (rule one_place_update [OF d(1) assms(2)]) simp
  moreover have gone: "Open c \<notin> set ((slots k)[i := Free])" "Full c \<notin> set ((slots k)[i := Free])"
    using mem_update_same [OF d(1) assms(2), of c Free] assms(3) by simp_all
  moreover have mem: "x \<in> set ((slots k)[i := Free]) \<longleftrightarrow> x \<in> set (slots k)" if "x \<noteq> Free" "x \<noteq> Open c" for x
    using mem_update_other [OF assms(2), of x Free] that assms(3) by simp
  have opens: "Open x \<in> set ((slots k)[i := Free]) \<longleftrightarrow> x \<noteq> c \<and> Open x \<in> set (slots k)" for x
    using gone(1) mem [of "Open x"] by (cases "x = c") simp_all
  show ?thesis unfolding cache_inv_def using d c calculation(1) by (auto simp: mem opens)
qed

lemma inv_fill_slot:
  assumes "cache_inv T k" and "i < length (slots k)" and "slots k ! i = Open c"
  shows "cache_inv T (k\<lparr>slots := (slots k)[i := Full c], complete := (complete k)(c := True)\<rparr>)"
proof -
  note d = cache_inv_D [OF assms(1)]
  have c: "0 \<le> c" "c < T" "known k c" "\<not> complete k c" using d(2) [of c] nth_mem [OF assms(2)] assms(3) by auto
  have "one_place ((slots k)[i := Full c])"
    by (rule one_place_update [OF d(1) assms(2)])
      (use one_place_unique [OF d(1) _ assms(2)] assms(3) in auto)
  moreover have mem: "x \<in> set ((slots k)[i := Full c]) \<longleftrightarrow> x = Full c \<or> x \<in> set (slots k)" if "x \<noteq> Open c" for x
    using mem_update_other [OF assms(2), of x "Full c"] that assms(3) by simp
  moreover have gone: "Open c \<notin> set ((slots k)[i := Full c])"
  proof
    assume "Open c \<in> set ((slots k)[i := Full c])"
    then obtain j where j: "j < length (slots k)" "(slots k)[i := Full c] ! j = Open c"
      by (auto simp: in_set_conv_nth)
    then have "j \<noteq> i" "slots k ! j = Open c" using assms(2) by (auto simp: nth_list_update split: if_splits)
    then show False using one_place_unique [OF d(1) j(1) assms(2)] assms(3) by simp
  qed
  have opens: "Open x \<in> set ((slots k)[i := Full c]) \<longleftrightarrow> x \<noteq> c \<and> Open x \<in> set (slots k)" for x
    using gone mem [of "Open x"] by (cases "x = c") simp_all
  have "c \<notin> set (done_list k)" using d(3) [of c] c by auto
  then show ?thesis unfolding cache_inv_def using d c calculation(1) by (auto simp: mem opens)
qed

lemma inv_write_slot:
  assumes "cache_inv T k" and "i < length (slots k)" and "slots k ! i = Full c"
  shows "cache_inv T (k\<lparr>slots := (slots k)[i := Free], done_list := done_list k @ [c]\<rparr>)"
proof -
  note d = cache_inv_D [OF assms(1)]
  have full: "Full c \<in> set (slots k)" using nth_mem [OF assms(2)] assms(3) by simp
  have c: "0 \<le> c" "c < T" "complete k c" "c \<notin> set (done_list k)" using d(3,6) [of c] full by auto
  have "one_place ((slots k)[i := Free])" by (rule one_place_update [OF d(1) assms(2)]) simp
  moreover have gone: "Open c \<notin> set ((slots k)[i := Free])" "Full c \<notin> set ((slots k)[i := Free])"
    using mem_update_same [OF d(1) assms(2), of c Free] assms(3) by simp_all
  moreover have mem: "x \<in> set ((slots k)[i := Free]) \<longleftrightarrow> x \<in> set (slots k)" if "x \<noteq> Free" "x \<noteq> Full c" for x
    using mem_update_other [OF assms(2), of x Free] that assms(3) by simp
  have fulls: "Full x \<in> set ((slots k)[i := Free]) \<longleftrightarrow> x \<noteq> c \<and> Full x \<in> set (slots k)" for x
    using gone(2) mem [of "Full x"] by (cases "x = c") simp_all
  show ?thesis unfolding cache_inv_def using d c calculation(1) by (auto simp: mem fulls)
qed

interpretation cache_sys: invariant_system cache_init "cache_step T" "cache_inv T"
proof unfold_locales
  show "cache_inv T k" if "cache_init k" for k by (rule cache_init_inv [OF that])
  show "cache_inv T k'" if "cache_inv T k" "cache_step T k k'" for k k'
    using that(2)
  proof cases
    case (open_slot i c)
    show ?thesis unfolding open_slot(1) by (rule inv_open_slot [OF that(1) open_slot(2-)])
  next
    case (drop_slot i c)
    show ?thesis unfolding drop_slot(1) by (rule inv_drop_slot [OF that(1) drop_slot(2-)])
  next
    case (fill_slot i c)
    show ?thesis unfolding fill_slot(1) by (rule inv_fill_slot [OF that(1) fill_slot(2-)])
  next
    case (write_slot i c)
    show ?thesis unfolding write_slot(1) by (rule inv_write_slot [OF that(1) write_slot(2-)])
  qed
qed

text \<open>When as many chunks have been written as there are, each of them has been written exactly once.\<close>

lemma all_written:
  assumes "cache_inv T k" and "int (length (done_list k)) = T"
  shows "set (done_list k) = {0..<T}"
proof (rule card_subset_eq)
  note d = cache_inv_D [OF assms(1)]
  show "set (done_list k) \<subseteq> {0..<T}"
  proof
    show "c \<in> {0..<T}" if "c \<in> set (done_list k)" for c using d(3) [of c] that by simp
  qed
  show "card (set (done_list k)) = card {0..<T}" using d(5) assms(2) by (simp add: distinct_card)
qed simp

end
