(* ===== verification/ClientInv.thy ===== *)
theory ClientInv
  imports ClientReq ChunkCache
begin

text \<open>
  The client refines the abstract chunk cache: its buffers, descriptors and written chunks are a cache
  (\<open>abs_cache\<close>), every routine keeps the client well formed and moves the cache by abstract steps, and none of the assertions
  of client.c can fail on the packets of the server. Hence whatever subset of the blocks arrives, in whatever order and
  how often, the chunks that are written hold the bytes of the image.
\<close>

section \<open>Abstraction and invariant\<close>

definition slot_of :: "chunkbuf \<Rightarrow> slot" where
  "slot_of b = (case state b of CHUNK_EMPTY \<Rightarrow> Free | CHUNK_FULL \<Rightarrow> Full (thischunk b)
     | CHUNK_FILLING \<Rightarrow> Open (thischunk b) | CHUNK_DUBIOUS \<Rightarrow> Open (thischunk b))"

definition flag :: "(chunk_desc \<Rightarrow> bool) \<Rightarrow> client \<Rightarrow> int \<Rightarrow> bool" where
  "flag f s c \<longleftrightarrow> 0 \<le> c \<and> c < int (length (Chunks s)) \<and> f (chunk_at s c)"

definition abs_cache :: "client \<Rightarrow> cache" where
  "abs_cache s = \<lparr>slots = map slot_of (ChunkBuffer s), known = flag seen s, complete = flag finished s,
     done_list = map fst (written s)\<rparr>"

definition write_ok :: "byte list \<Rightarrow> int \<times> byte list \<Rightarrow> bool" where
  "write_ok img w \<longleftrightarrow> (\<exists>n. ChunkBytes (geometry (int (length img))) (fst w) = Some n \<and> length (snd w) = nat n \<and>
     (let k = nat (min n (chunk_len (int (length img)) (fst w))) in
      take k (snd w) = take k (drop (nat (fst w * 1024 * 1024)) img)))"

definition client_inv :: "byte list \<Rightarrow> client \<Rightarrow> bool" where
  "client_inv img s \<longleftrightarrow> req_inv img s \<and> cache_inv (nchunks img) (abs_cache s) \<and>
     chunkcount s = nchunks img - int (length (written s)) \<and> (\<forall>w \<in> set (written s). write_ok img w)"

lemma slot_of_simps [simp]:
  "slot_of b = Free \<longleftrightarrow> state b = CHUNK_EMPTY"
  "slot_of b = Open c \<longleftrightarrow> collecting c b"
  "slot_of b = Full c \<longleftrightarrow> state b = CHUNK_FULL \<and> thischunk b = c"
  by (auto simp: slot_of_def collecting_def split: bufstate.splits)

lemma abs_simps [simp]:
  "slots (abs_cache s) = map slot_of (ChunkBuffer s)" "known (abs_cache s) = flag seen s"
  "complete (abs_cache s) = flag finished s" "done_list (abs_cache s) = map fst (written s)"
  by (simp_all add: abs_cache_def)

lemma client_invD:
  assumes "client_inv img s"
  shows "req_inv img s" and "cache_inv (nchunks img) (abs_cache s)"
  using assms by (simp_all add: client_inv_def)

lemma in_range:
  assumes "client_inv img s" and "0 \<le> c" and "c < nchunks img"
  shows "nat c < length (Chunks s)" and "flag f s c = f (chunk_at s c)"
  using assms by (auto simp: client_inv_def req_inv_def flag_def)

lemma soft_flag:
  assumes "map f (Chunks s') = map f (Chunks s)"
  shows "flag f s' = flag f s"
proof
  fix c
  have len: "length (Chunks s') = length (Chunks s)" by (rule map_eq_imp_length_eq [OF assms])
  show "flag f s' c = flag f s c"
  proof (cases "0 \<le> c \<and> c < int (length (Chunks s))")
    case True
    then have "nat c < length (Chunks s)" by (simp add: nat_less_iff)
    then have "f (Chunks s' ! nat c) = f (Chunks s ! nat c)" using arg_cong [OF assms, of "\<lambda>xs. xs ! nat c"] len by simp
    then show ?thesis using len by (simp add: flag_def chunk_at_def)
  qed (use len in \<open>auto simp: flag_def\<close>)
qed

lemma soft_buf_slot: "soft_buf b b' \<Longrightarrow> slot_of b' = slot_of b"
  by (auto simp: soft_buf_def slot_of_def)

lemma soft_abs:
  assumes "soft img s s'"
  shows "abs_cache s' = abs_cache s"
proof -
  have "map slot_of (ChunkBuffer s') = map slot_of (ChunkBuffer s)"
    using assms by (auto simp: soft_def list_all2_conv_all_nth soft_buf_slot intro!: nth_equalityI)
  then show ?thesis using assms soft_flag [of seen s' s] soft_flag [of finished s' s]
    by (simp add: soft_def abs_cache_def)
qed

lemma soft_client_inv: "soft img s s' \<Longrightarrow> client_inv img s \<Longrightarrow> client_inv img s'"
  using soft_abs [of img s s'] soft_req_inv [of img s s'] by (simp add: client_inv_def soft_def)

text \<open>The state of the two threads plays no part in the invariant.\<close>

lemma flag_ended [simp]: "flag f (s\<lparr>main_phase := x\<rparr>) = flag f s" "flag f (s\<lparr>child_error := y\<rparr>) = flag f s"
  by (simp_all add: flag_def chunk_at_def fun_eq_iff)

lemma ended_same [simp]:
  "abs_cache (s\<lparr>main_phase := x\<rparr>) = abs_cache s" "abs_cache (s\<lparr>child_error := y\<rparr>) = abs_cache s"
  "client_inv img (s\<lparr>main_phase := x\<rparr>) = client_inv img s" "client_inv img (s\<lparr>child_error := y\<rparr>) = client_inv img s"
  by (simp_all add: client_inv_def req_inv_def net_ok_def abs_cache_def)

section \<open>Changes of a buffer and of a descriptor\<close>

lemma set_buf_frame [simp]:
  "Chunks (set_buf i b s) = Chunks s" "sizes_of (set_buf i b s) = sizes_of s" "written (set_buf i b s) = written s"
  "ChunkBuffer (set_buf i b s) = (ChunkBuffer s)[i := b]" "chunk_at (set_buf i b s) c = chunk_at s c"
  "flag f (set_buf i b s) = flag f s" "chunkcount (set_buf i b s) = chunkcount s"
  by (simp_all add: set_buf_def chunk_at_def flag_def fun_eq_iff)

lemma set_chunk_frame [simp]:
  "ChunkBuffer (set_chunk c d s) = ChunkBuffer s" "sizes_of (set_chunk c d s) = sizes_of s"
  "written (set_chunk c d s) = written s" "length (Chunks (set_chunk c d s)) = length (Chunks s)"
  "chunkcount (set_chunk c d s) = chunkcount s"
  by (simp_all add: set_chunk_def)

lemma chunk_at_set:
  assumes "0 \<le> c" and "c < int (length (Chunks s))" and "0 \<le> c'"
  shows "chunk_at (set_chunk c d s) c' = (if c' = c then d else chunk_at s c')"
  using assms by (auto simp: chunk_at_def set_chunk_def nth_list_update nat_eq_iff)

lemma flag_set:
  assumes "0 \<le> c" and "c < int (length (Chunks s))"
  shows "flag f (set_chunk c d s) = (flag f s)(c := f d)"
  using assms by (auto simp: flag_def fun_eq_iff chunk_at_set)

lemma req_inv_set_buf:
  assumes "req_inv img s" and "buf_ok img b"
  shows "req_inv img (set_buf i b s)"
  using assms set_update_subset_insert [of "ChunkBuffer s" i b]
  by (auto simp: req_inv_def net_ok_def set_buf_def)

lemma req_inv_set_chunk: "req_inv img s \<Longrightarrow> req_inv img (set_chunk c d s)"
  by (simp add: req_inv_def net_ok_def set_chunk_def)

lemma client_inv_step:
  assumes "client_inv img s" and "req_inv img s'" and "cache_step (nchunks img) (abs_cache s) (abs_cache s')"
    and "written s' = written s" and "chunkcount s' = chunkcount s"
  shows "client_inv img s'"
  using assms cache_sys.inv_step [OF client_invD(2) [OF assms(1)] assms(3)] by (simp add: client_inv_def)

lemma client_inv_set_buf:
  assumes "client_inv img s" and "buf_ok img b" and "slot_of b = slot_of (ChunkBuffer s ! i)"
  shows "client_inv img (set_buf i b s)"
proof -
  have "map slot_of ((ChunkBuffer s)[i := b]) = map slot_of (ChunkBuffer s)"
    using assms(3) by (metis list_update_id map_update)
  then have "abs_cache (set_buf i b s) = abs_cache s" by (simp add: abs_cache_def)
  then show ?thesis using assms req_inv_set_buf [OF client_invD(1) [OF assms(1)] assms(2), of i]
    by (simp add: client_inv_def)
qed

text \<open>What a turn of the receive thread does not change.\<close>

definition same_run :: "client \<Rightarrow> client \<Rightarrow> bool" where
  "same_run s s' \<longleftrightarrow> serverip s' = serverip s \<and> child_error s' = child_error s \<and> main_phase s' = main_phase s \<and>
     written s' = written s \<and> chunkcount s' = chunkcount s \<and> length (ChunkBuffer s') = length (ChunkBuffer s) \<and>
     servertimo s' = servertimo s \<and> maxreadahead s' = maxreadahead s \<and> maxinprogress s' = maxinprogress s"

lemma same_run_refl [simp]: "same_run s s"
  by (simp add: same_run_def)

lemma same_run_trans: "same_run s t \<Longrightarrow> same_run t u \<Longrightarrow> same_run s u"
  by (simp add: same_run_def)

lemma soft_same_run: "soft img s s' \<Longrightarrow> same_run s s'"
  using list_all2_lengthD [of soft_buf "ChunkBuffer s" "ChunkBuffer s'"] by (simp add: same_run_def soft_def)

section \<open>Finding a buffer for a block\<close>

lemma buf_scan_spec:
  assumes "bufs = pre @ bs" and "i = length pre" and "\<forall>b \<in> set pre. \<not> collecting c b"
    and "\<And>k. free = Some k \<Longrightarrow> k < length bufs \<and> state (bufs ! k) = CHUNK_EMPTY"
    and "\<And>k. dub = Some k \<Longrightarrow> k < length bufs \<and> state (bufs ! k) = CHUNK_DUBIOUS"
    and "buf_scan c bs i free dub = (j, f, d)"
  shows "(if j < length bufs then collecting c (bufs ! j) else \<forall>b \<in> set bufs. \<not> collecting c b) \<and>
    (\<forall>k. f = Some k \<longrightarrow> k < length bufs \<and> state (bufs ! k) = CHUNK_EMPTY) \<and>
    (\<forall>k. d = Some k \<longrightarrow> k < length bufs \<and> state (bufs ! k) = CHUNK_DUBIOUS)"
  using assms
proof (induction c bs i free dub arbitrary: pre rule: buf_scan.induct)
  case (1 c i free dub)
  then show ?case by auto
next
  case (2 c b bs i free dub)
  have at: "bufs ! i = b" "i < length bufs" using "2.prems"(1,2) by simp_all
  show ?case
  proof (cases "collecting c b")
    case True
    then have "buf_scan c (b # bs) i free dub = (i, free, dub)" by (auto simp: collecting_def)
    then show ?thesis using True at "2.prems"(4-6) by auto
  next
    case False
    have pre: "bufs = (pre @ [b]) @ bs" "i + 1 = length (pre @ [b])" "\<forall>x \<in> set (pre @ [b]). \<not> collecting c x"
      using "2.prems"(1-3) False by simp_all
    show ?thesis
    proof (cases "state b")
      case CHUNK_EMPTY
      with "2.prems"(6) have "buf_scan c bs (i + 1) (if free = None then Some i else free) dub = (j, f, d)" by simp
      then show ?thesis
        by (intro "2.IH"(1) [OF CHUNK_EMPTY pre]) (use "2.prems"(4,5) at CHUNK_EMPTY in \<open>auto split: if_splits\<close>)
    next
      case CHUNK_FULL
      with "2.prems"(6) have "buf_scan c bs (i + 1) free dub = (j, f, d)" by simp
      then show ?thesis by (intro "2.IH"(3) [OF CHUNK_FULL pre]) (use "2.prems"(4,5) in auto)
    next
      case CHUNK_FILLING
      then have ne: "thischunk b \<noteq> c" using False by (simp add: collecting_def)
      with CHUNK_FILLING "2.prems"(6) have "buf_scan c bs (i + 1) free dub = (j, f, d)" by simp
      then show ?thesis by (intro "2.IH"(2) [OF CHUNK_FILLING ne pre]) (use "2.prems"(4,5) in auto)
    next
      case CHUNK_DUBIOUS
      then have ne: "thischunk b \<noteq> c" using False by (simp add: collecting_def)
      with CHUNK_DUBIOUS "2.prems"(6) have
        "buf_scan c bs (i + 1) free (if dub = None then Some i else dub) = (j, f, d)" by simp
      then show ?thesis
        by (intro "2.IH"(4) [OF CHUNK_DUBIOUS ne pre]) (use "2.prems"(4,5) at CHUNK_DUBIOUS in \<open>auto split: if_splits\<close>)
    qed
  qed
qed

lemma buf_okD:
  assumes "client_inv img s" and "i < length (ChunkBuffer s)"
  shows "buf_ok img (ChunkBuffer s ! i)"
  using assms nth_mem [OF assms(2)] by (auto simp: client_inv_def req_inv_def)

lemma collecting_range:
  assumes "client_inv img s" and "i < length (ChunkBuffer s)" and "collecting c (ChunkBuffer s ! i)"
  shows "0 \<le> c \<and> c < nchunks img \<and> seen (chunk_at s c) \<and> \<not> finished (chunk_at s c)"
proof -
  have "slot_of (ChunkBuffer s ! i) = Open c" using assms(3) by simp
  then have "Open c \<in> set (slots (abs_cache s))" using nth_mem [OF assms(2)]
    unfolding abs_simps(1) set_map by (metis image_eqI)
  then have "0 \<le> c \<and> c < nchunks img \<and> flag seen s c \<and> \<not> flag finished s c"
    using cache_inv_D(2) [OF client_invD(2) [OF assms(1)], of c] by simp
  then show ?thesis using in_range(2) [OF assms(1), of c] by simp
qed

lemma start_chunk_spec:
  assumes "client_inv img s" and "f < length (ChunkBuffer s)" and "state (ChunkBuffer s ! f) = CHUNK_EMPTY"
    and "0 \<le> c" and "c < nchunks img" and "\<not> seen (chunk_at s c)"
  shows "\<exists>s1. start_chunk c f s = Some s1 \<and> client_inv img s1 \<and> length (ChunkBuffer s1) = length (ChunkBuffer s) \<and>
    collecting c (ChunkBuffer s1 ! f) \<and> cache_step (nchunks img) (abs_cache s) (abs_cache s1)"
proof -
  let ?st = "if c = lastnoroomchunk s then CHUNK_DUBIOUS else CHUNK_FILLING"
  let ?b = "(ChunkBuffer s ! f)\<lparr>state := ?st, thischunk := c, blockcount := csize img c, blockmap := replicate 128 0\<rparr>"
  let ?s0 = "s\<lparr>lastnoroomchunk := - 1, lastnoroomblocks := 0\<rparr>"
  let ?s1 = "set_chunk c ((chunk_at s c)\<lparr>seen := True\<rparr>) ?s0"
  define s2 where "s2 = (set_buf f ?b ?s1)\<lparr>inprogress := inprogress s + 1\<rparr>"
  have cs: "ChunkSize (sizes_of s) c = Some (csize img c)"
    using client_invD(1) [OF assms(1)] ChunkSize_csize [OF assms(5)] by (simp add: req_inv_def)
  have eq: "start_chunk c f s = Some s2"
    using cs by (simp add: start_chunk_def s2_def Let_def set_chunk_def set_buf_def)
  have shape: "buf_shape (ChunkBuffer s ! f)" using buf_okD [OF assms(1,2)] by (simp add: buf_ok_def)
  have b: "buf_ok img ?b"
    using shape assms(4,5) csize_range [OF assms(5)] by (auto simp: buf_ok_def buf_shape_def BlockMap_t_length)
  have r0: "req_inv img ?s0" using client_invD(1) [OF assms(1)] by (simp add: req_inv_def net_ok_def)
  have "req_inv img (set_buf f ?b ?s1)" by (rule req_inv_set_buf [OF req_inv_set_chunk [OF r0] b])
  then have r: "req_inv img s2" by (simp add: req_inv_def net_ok_def s2_def)
  have len: "c < int (length (Chunks s))" using client_invD(1) [OF assms(1)] assms(5) by (simp add: req_inv_def)
  have fl: "flag g s2 = flag g ?s1" for g by (simp add: s2_def flag_def chunk_at_def fun_eq_iff set_buf_def)
  have "flag seen ?s1 = (flag seen s)(c := True)" "flag finished ?s1 = flag finished s"
    using flag_set [of c ?s0 _ "(chunk_at s c)\<lparr>seen := True\<rparr>"] assms(4) len
    by (auto simp: flag_def chunk_at_def fun_eq_iff)
  moreover have sl: "slot_of ?b = Open c" by (simp add: collecting_def)
  ultimately have a: "abs_cache s2 = (abs_cache s)\<lparr>slots := (slots (abs_cache s))[f := Open c],
      known := (known (abs_cache s))(c := True)\<rparr>"
    unfolding abs_cache_def fl by (simp add: s2_def map_update sl)
  have step: "cache_step (nchunks img) (abs_cache s) (abs_cache s2)"
    unfolding a by (rule open_slot) (use assms in_range(2) [OF assms(1,4,5), of seen] in simp_all)
  have "client_inv img s2" by (rule client_inv_step [OF assms(1) r step]) (simp_all add: s2_def)
  then show ?thesis using eq step assms(2) by (simp add: s2_def collecting_def)
qed

lemma reuse_dubious_spec:
  assumes "client_inv img s" and "d < length (ChunkBuffer s)" and "state (ChunkBuffer s ! d) = CHUNK_DUBIOUS"
    and "0 \<le> c" and "\<not> seen (chunk_at s c)"
  shows "\<exists>s1. reuse_dubious d s = Some s1 \<and> client_inv img s1 \<and> length (ChunkBuffer s1) = length (ChunkBuffer s) \<and>
    state (ChunkBuffer s1 ! d) = CHUNK_EMPTY \<and> \<not> seen (chunk_at s1 c) \<and>
    cache_step (nchunks img) (abs_cache s) (abs_cache s1)"
proof -
  define dc where "dc = thischunk (ChunkBuffer s ! d)"
  have col: "collecting dc (ChunkBuffer s ! d)" using assms(3) by (simp add: collecting_def dc_def)
  have dc: "0 \<le> dc" "dc < nchunks img" "seen (chunk_at s dc)" "\<not> finished (chunk_at s dc)"
    using collecting_range [OF assms(1,2) col] by simp_all
  let ?d = "(chunk_at s dc)\<lparr>seen := False, lastreq := 0\<rparr>"
  let ?b = "(ChunkBuffer s ! d)\<lparr>state := CHUNK_EMPTY\<rparr>"
  define s2 where "s2 = (set_buf d ?b (set_chunk dc ?d s))\<lparr>lastnoroomchunk := - 1, inprogress := inprogress s - 1,
     cstats := (cstats s)\<lparr>cs_partialdrops := cs_partialdrops (cstats s) + 1\<rparr>\<rparr>"
  have eq: "reuse_dubious d s = Some s2"
    using dc by (simp add: reuse_dubious_def s2_def Let_def dc_def [symmetric] set_chunk_def set_buf_def)
  have "buf_ok img ?b" using buf_okD [OF assms(1,2)] by (simp add: buf_ok_def buf_shape_def)
  then have "req_inv img (set_buf d ?b (set_chunk dc ?d s))"
    by (rule req_inv_set_buf [OF req_inv_set_chunk [OF client_invD(1) [OF assms(1)]]])
  then have r: "req_inv img s2" by (simp add: req_inv_def net_ok_def s2_def)
  have len: "dc < int (length (Chunks s))" using client_invD(1) [OF assms(1)] dc(2) by (simp add: req_inv_def)
  have fl: "flag g s2 = (flag g s)(dc := g ?d)" for g
    using flag_set [OF dc(1) len, of g ?d] by (simp add: s2_def flag_def chunk_at_def fun_eq_iff set_buf_def)
  have sl: "slot_of ?b = Free" by simp
  have fin: "(flag finished s)(dc := finished ?d) = flag finished s"
    using in_range(2) [OF assms(1) dc(1,2), of finished] by (intro fun_upd_idem) simp
  have a: "abs_cache s2 = (abs_cache s)\<lparr>slots := (slots (abs_cache s))[d := Free],
      known := (known (abs_cache s))(dc := False)\<rparr>"
    unfolding abs_cache_def fl fin by (simp add: s2_def map_update sl)
  have step: "cache_step (nchunks img) (abs_cache s) (abs_cache s2)"
    unfolding a by (rule drop_slot) (use assms(2) col in simp_all)
  have "client_inv img s2" by (rule client_inv_step [OF assms(1) r step]) (simp_all add: s2_def)
  moreover have "chunk_at s2 c = chunk_at s c"
    using chunk_at_set [OF dc(1) len assms(4), of ?d] assms(5) dc(3) by (auto simp: s2_def chunk_at_def set_buf_def)
  ultimately show ?thesis using eq step assms(2,5) by (simp add: s2_def)
qed

lemma no_room_soft: "soft img s (no_room c s)"
  by (simp add: no_room_def Let_def soft_def list_all2_refl)

lemma start_chunk_same_run: "start_chunk c f s = Some s1 \<Longrightarrow> same_run s s1"
  by (auto simp: start_chunk_def same_run_def set_chunk_def set_buf_def Let_def split: bind_splits)

lemma reuse_dubious_same_run: "reuse_dubious d s = Some s1 \<Longrightarrow> same_run s s1"
  by (auto simp: reuse_dubious_def c_assert_def same_run_def set_chunk_def set_buf_def Let_def split: bind_splits if_splits)

lemma place_block_same_run: "place_block c block s = Some (p, s1) \<Longrightarrow> same_run s s1"
  using soft_same_run [OF no_room_soft, of s c] start_chunk_same_run [of c _ s s1] reuse_dubious_same_run [of _ s]
    same_run_trans [OF reuse_dubious_same_run start_chunk_same_run]
  by (fastforce simp: place_block_def c_assert_def split: prod.splits if_splits option.splits bind_splits)

lemma place_block_spec:
  assumes "client_inv img s" and "0 \<le> c" and "c < nchunks img" and "\<not> finished (chunk_at s c)"
  shows "\<exists>p s1. place_block c block s = Some (p, s1) \<and> client_inv img s1 \<and>
    (cache_step (nchunks img))\<^sup>*\<^sup>* (abs_cache s) (abs_cache s1) \<and>
    (\<forall>i. p = Some i \<longrightarrow> i < length (ChunkBuffer s1) \<and> collecting c (ChunkBuffer s1 ! i))"
proof -
  obtain j f d where sc: "buf_scan c (ChunkBuffer s) 0 None None = (j, f, d)" by (metis prod_cases3)
  note scan = buf_scan_spec [of "ChunkBuffer s" "[]", OF _ _ _ _ _ sc, simplified]
  show ?thesis
  proof (cases "j < length (ChunkBuffer s)")
    case True
    then show ?thesis using scan sc assms(1) by (simp add: place_block_def)
  next
    case False
    then have none: "\<forall>b \<in> set (ChunkBuffer s). \<not> collecting c b" using scan by simp
    then have "Open c \<notin> set (slots (abs_cache s))"
      by (auto simp: image_iff) (metis slot_of_simps(2))
    then have ns: "\<not> seen (chunk_at s c)"
      using cache_inv_D(2) [OF client_invD(2) [OF assms(1)], of c] in_range(2) [OF assms(1-3)] assms(2-4) by simp
    consider (free) k where "f = Some k" | (dub) k where "f = None" "d = Some k" "block = 0"
      | (room) "f = None" "d = None \<or> block \<noteq> 0" by (cases f; cases d) auto
    then show ?thesis
    proof cases
      case free
      then have k: "k < length (ChunkBuffer s)" "state (ChunkBuffer s ! k) = CHUNK_EMPTY" using scan by auto
      from start_chunk_spec [OF assms(1) k assms(2,3) ns] show ?thesis
        using sc False ns free k(1) by (auto simp: place_block_def)
    next
      case dub
      then have k: "k < length (ChunkBuffer s)" "state (ChunkBuffer s ! k) = CHUNK_DUBIOUS" using scan by auto
      from reuse_dubious_spec [OF assms(1) k assms(2) ns] obtain s1 where
        s1: "reuse_dubious k s = Some s1" "client_inv img s1" "length (ChunkBuffer s1) = length (ChunkBuffer s)"
        "state (ChunkBuffer s1 ! k) = CHUNK_EMPTY" "\<not> seen (chunk_at s1 c)"
        "cache_step (nchunks img) (abs_cache s) (abs_cache s1)" by blast
      from start_chunk_spec [OF s1(2) _ s1(4) assms(2,3) s1(5)] k(1) s1(3) obtain s2 where
        s2: "start_chunk c k s1 = Some s2" "client_inv img s2" "length (ChunkBuffer s2) = length (ChunkBuffer s1)"
        "collecting c (ChunkBuffer s2 ! k)" "cache_step (nchunks img) (abs_cache s1) (abs_cache s2)" by auto
      have "(cache_step (nchunks img))\<^sup>*\<^sup>* (abs_cache s) (abs_cache s2)" using s1(6) s2(5) by auto
      then show ?thesis using sc False ns dub k(1) s1 s2 by (simp add: place_block_def)
    next
      case room
      then have "place_block c block s = Some (None, no_room c s)"
        using sc False ns by (auto simp: place_block_def split: option.splits)
      then show ?thesis using soft_client_inv [OF no_room_soft assms(1)] soft_abs [OF no_room_soft [of img s c]] by simp
    qed
  qed
qed

section \<open>Gathering a chunk\<close>

text \<open>The chunk is complete, or a buffer collects it and holds some blocks of it.\<close>

definition gathers :: "int \<Rightarrow> nat set \<Rightarrow> client \<Rightarrow> bool" where
  "gathers c B s \<longleftrightarrow> flag finished s c \<or> (\<exists>i<length (ChunkBuffer s). collecting c (ChunkBuffer s ! i) \<and>
     B \<subseteq> blocks (blockmap (ChunkBuffer s ! i)))"

lemma soft_gathers:
  assumes "soft img s s'" and "gathers c B s"
  shows "gathers c B s'"
proof -
  have fin: "flag finished s' = flag finished s" using assms(1) soft_flag [of finished s' s] by (simp add: soft_def)
  have len: "length (ChunkBuffer s') = length (ChunkBuffer s)" by (rule soft_length [OF assms(1)])
  have buf: "collecting c (ChunkBuffer s' ! i) \<and> blockmap (ChunkBuffer s' ! i) = blockmap (ChunkBuffer s ! i)"
    if "i < length (ChunkBuffer s)" "collecting c (ChunkBuffer s ! i)" for i
  proof -
    have "list_all2 soft_buf (ChunkBuffer s) (ChunkBuffer s')" using assms(1) by (simp add: soft_def)
    then have "soft_buf (ChunkBuffer s ! i) (ChunkBuffer s' ! i)" using that(1) by (rule list_all2_nthD)
    then show ?thesis using that(2) by (auto simp: soft_buf_def collecting_def)
  qed
  show ?thesis using assms(2) buf unfolding gathers_def fin len by (metis (no_types))
qed

section \<open>Storing a block\<close>

text \<open>What a packet of the server carries: the bytes of the block at the front of a full packet.\<close>

definition carries :: "byte list \<Rightarrow> int \<Rightarrow> int \<Rightarrow> byte list \<Rightarrow> bool" where
  "carries img c block buf \<longleftrightarrow> length buf = 1024 \<and>
     take (length (block_slice img c block)) buf = block_slice img c block"

lemma length_block_slice: "length (block_slice img c b) \<le> 1024"
  by (simp add: block_slice_def)

lemma image_block_carries: "carries img c b (image_block img c b)"
  using length_block_slice [of img c b] by (simp add: carries_def image_block_def padded_def)

lemma store_block_ok:
  assumes "buf_ok img b" and "collecting c b" and "0 \<le> block" and "block < csize img c"
    and "carries img c block buf" and "nat block \<notin> blocks (blockmap b)"
    and "BlockMap_t m" and "blocks m = insert (nat block) (blocks (blockmap b))"
    and "b' = store_block b block (int (length (block_slice img c block))) buf m"
  shows "blockcount b' = csize img c - int (card (blocks m)) \<and> blocks m \<subseteq> {..<nat (csize img c)} \<and>
    buf_shape b' \<and> (\<forall>k \<in> blocks m. holds img b' k) \<and> thischunk b' = c \<and> blockmap b' = m \<and>
    state b' = state b \<and> 0 \<le> blockcount b'"
proof -
  have c: "thischunk b = c" "state b \<noteq> CHUNK_EMPTY" using assms(2) by (auto simp: collecting_def)
  have b: "buf_shape b" "blocks (blockmap b) \<subseteq> {..<nat (csize img c)}" "c < nchunks img"
    "blockcount b = csize img c - int (card (blocks (blockmap b)))" "\<forall>k \<in> blocks (blockmap b). holds img b k"
    using assms(1) c by (auto simp: buf_ok_def)
  let ?n = "length (block_slice img c block)"
  let ?d = "take ?n buf @ drop ?n (bufdata b ! nat block)"
  have b': "bufdata b' = (bufdata b)[nat block := ?d]" "thischunk b' = c" "blockmap b' = m" "state b' = state b"
    "blockcount b' = blockcount b - 1"
    using assms(9) c(1) by (simp_all add: store_block_def)
  have lt: "nat block < length (bufdata b)"
    using b(1) assms(3,4) csize_range [OF b(3)] by (simp add: buf_shape_def)
  have "length (bufdata b ! nat block) = 1024" using b(1) lt by (simp add: buf_shape_def)
  then have d: "length ?d = 1024" using assms(5) length_block_slice [of img c block] by (simp add: carries_def)
  then have shape: "buf_shape b'"
    using b(1) set_update_subset_insert [of "bufdata b" "nat block" ?d] by (auto simp: buf_shape_def b'(1))
  have new: "holds img b' (nat block)"
    using assms(3,5) lt by (simp add: holds_def b'(1,2) carries_def)
  have old: "holds img b' k" if "k \<in> blocks (blockmap b)" for k
  proof -
    have "k \<noteq> nat block" using that assms(6) by blast
    then show ?thesis using b(5) that c(1) by (simp add: holds_def b'(1,2))
  qed
  have sub: "blocks m \<subseteq> {..<nat (csize img c)}" using b(2) assms(3,4,8) by auto
  have "int (card (blocks m)) \<le> csize img c" using card_mono [OF _ sub] csize_range [OF b(3)] by (simp add: le_nat_iff)
  then show ?thesis using b(4) b' shape new old sub assms(6,8) by auto
qed

lemma stored_full:
  assumes "blocks m \<subseteq> {..<nat k}" and "0 \<le> k" and "k - int (card (blocks m)) = 0"
  shows "blocks m = {..<nat k}"
  by (rule card_subset_eq) (use assms in auto)

lemma complete_chunk_spec:
  assumes "client_inv img s" and "i < length (ChunkBuffer s)" and "collecting c (ChunkBuffer s ! i)"
    and "buf_ok img (b\<lparr>state := CHUNK_FULL\<rparr>)" and "thischunk b = c"
  shows "\<exists>s3. complete_chunk c i (set_buf i b s) = Some s3 \<and> client_inv img s3 \<and>
    cache_step (nchunks img) (abs_cache s) (abs_cache s3) \<and> same_run s s3 \<and> flag finished s3 c"
proof -
  have c: "0 \<le> c" "c < nchunks img" using collecting_range [OF assms(1-3)] by simp_all
  let ?d = "(chunk_at s c)\<lparr>finished := True\<rparr>"
  let ?b = "b\<lparr>state := CHUNK_FULL\<rparr>"
  define s3 where "s3 = (set_chunk c ?d (set_buf i ?b s))\<lparr>inprogress := inprogress s - 1\<rparr>"
  have eq: "complete_chunk c i (set_buf i b s) = Some s3"
    using assms(2,5) by (simp add: complete_chunk_def s3_def set_buf_def set_chunk_def chunk_at_def Let_def)
  have "req_inv img (set_chunk c ?d (set_buf i ?b s))"
    by (rule req_inv_set_chunk [OF req_inv_set_buf [OF client_invD(1) [OF assms(1)] assms(4)]])
  then have r: "req_inv img s3" by (simp add: req_inv_def net_ok_def s3_def)
  have len: "c < int (length (Chunks (set_buf i ?b s)))"
    using client_invD(1) [OF assms(1)] c(2) by (simp add: req_inv_def)
  have fl: "flag g s3 = (flag g s)(c := g ?d)" for g
    using flag_set [OF c(1) len, of g ?d] by (simp add: s3_def flag_def chunk_at_def fun_eq_iff)
  have sl: "slot_of ?b = Full c" using assms(5) by simp
  have sn: "(flag seen s)(c := seen ?d) = flag seen s"
    using in_range(2) [OF assms(1) c, of seen] by (intro fun_upd_idem) simp
  have a: "abs_cache s3 = (abs_cache s)\<lparr>slots := (slots (abs_cache s))[i := Full c],
      complete := (complete (abs_cache s))(c := True)\<rparr>"
    unfolding abs_cache_def fl sn by (simp add: s3_def map_update sl)
  have step: "cache_step (nchunks img) (abs_cache s) (abs_cache s3)"
    unfolding a by (rule fill_slot) (use assms(2,3) in simp_all)
  have "client_inv img s3" by (rule client_inv_step [OF assms(1) r step]) (simp_all add: s3_def)
  moreover have "same_run s s3" by (simp add: s3_def same_run_def set_buf_def set_chunk_def)
  moreover have "flag finished s3 c" unfolding fl by simp
  ultimately show ?thesis using eq step by blast
qed

text \<open>The part of \<^verbatim>\<open>GotBlock\<close> that follows the search for a buffer.\<close>

definition accept_block :: "net \<Rightarrow> int \<Rightarrow> int \<Rightarrow> byte list \<Rightarrow> nat \<Rightarrow> client \<Rightarrow> (bool \<times> client) option" where
  "accept_block nt chunk block buf i s1 = do {
     (dup, m) \<leftarrow> BlockMapAlloc (blockmap (ChunkBuffer s1 ! i)) block;
     if dup then Some (False, s1\<lparr>cstats := (cstats s1)\<lparr>cs_dupblock := cs_dupblock (cstats s1) + 1\<rparr>\<rparr>)
     else do {
       n \<leftarrow> BlockSize (sizes_of s1) chunk block;
       let s2 = set_buf i (store_block (ChunkBuffer s1 ! i) block n buf m) s1;
       if blockcount (ChunkBuffer s2 ! i) = 0 then do {
         s3 \<leftarrow> complete_chunk chunk i s2;
         s4 \<leftarrow> RequestChunk nt False s3;
         Some (True, s4)
       }
       else Some (True, s2)
     }
   }"

lemma accept_block_spec:
  assumes "client_inv img s" and "i < length (ChunkBuffer s)" and "collecting c (ChunkBuffer s ! i)"
    and "0 \<le> block" and "block < csize img c" and "carries img c block buf"
  shows "\<exists>r s'. accept_block nt c block buf i s = Some (r, s') \<and> client_inv img s' \<and>
    (cache_step (nchunks img))\<^sup>*\<^sup>* (abs_cache s) (abs_cache s') \<and> same_run s s' \<and>
    gathers c (insert (nat block) (blocks (blockmap (ChunkBuffer s ! i)))) s'"
proof -
  let ?b = "ChunkBuffer s ! i"
  note ok = buf_okD [OF assms(1,2)]
  have c: "0 \<le> c" "c < nchunks img" using collecting_range [OF assms(1-3)] by simp_all
  have bm: "BlockMap_t (blockmap ?b)" using ok assms(3) by (auto simp: buf_ok_def collecting_def)
  have "block < MAXCHUNKSIZE" using assms(5) csize_range [OF c(2)] by (simp add: MAXCHUNKSIZE_def)
  from BlockMapAlloc_Some [OF bm assms(4) this] obtain m where
    m: "BlockMapAlloc (blockmap ?b) block = Some (nat block \<in> blocks (blockmap ?b), m)" "BlockMap_t m"
    "blocks m = insert (nat block) (blocks (blockmap ?b))" by blast
  have bs: "BlockSize (sizes_of s) c block = Some (int (length (block_slice img c block)))"
    using BlockSize_slice [OF c(1) assms(4,5)] client_invD(1) [OF assms(1)] by (simp add: req_inv_def)
  define b' where "b' = store_block ?b block (int (length (block_slice img c block))) buf m"
  show ?thesis
  proof (cases "nat block \<in> blocks (blockmap ?b)")
    case True
    then have "accept_block nt c block buf i s =
        Some (False, s\<lparr>cstats := (cstats s)\<lparr>cs_dupblock := cs_dupblock (cstats s) + 1\<rparr>\<rparr>)"
      using m(1) by (simp add: accept_block_def)
    moreover have "gathers c (insert (nat block) (blocks (blockmap ?b))) s" using True assms(2,3) by (auto simp: gathers_def)
    ultimately show ?thesis using soft_client_inv [OF soft_cstats assms(1)] soft_abs [OF soft_cstats]
        soft_same_run [OF soft_cstats] soft_gathers [OF soft_cstats] by auto
  next
    case False
    note st = store_block_ok [OF ok assms(3-6) False m(2,3) b'_def]
    have acc: "accept_block nt c block buf i s = (if blockcount b' = 0 then do {
        s3 \<leftarrow> complete_chunk c i (set_buf i b' s); s4 \<leftarrow> RequestChunk nt False s3; Some (True, s4) }
      else Some (True, set_buf i b' s))"
      using m(1) False bs assms(2) by (simp add: accept_block_def b'_def Let_def)
    show ?thesis
    proof (cases "blockcount b' = 0")
      case True
      have full: "buf_ok img (b'\<lparr>state := CHUNK_FULL\<rparr>)"
        using st True c m(2) by (auto simp: buf_ok_def buf_shape_def holds_def)
      from complete_chunk_spec [OF assms(1-3) full] st obtain s3 where
        s3: "complete_chunk c i (set_buf i b' s) = Some s3" "client_inv img s3"
        "cache_step (nchunks img) (abs_cache s) (abs_cache s3)" "same_run s s3" "flag finished s3 c" by blast
      from RequestChunk_soft [OF client_invD(1) [OF s3(2)], of nt False] obtain s4 where
        s4: "RequestChunk nt False s3 = Some s4" "soft img s3 s4" by blast
      have "gathers c B s4" for B using soft_gathers [OF s4(2), of c B] s3(5) by (simp add: gathers_def)
      then show ?thesis using acc True s3 s4 soft_client_inv [OF s4(2) s3(2)] soft_abs [OF s4(2)]
          same_run_trans [OF s3(4) soft_same_run [OF s4(2)]] by auto
    next
      case nz: False
      have "state ?b \<noteq> CHUNK_FULL" using assms(3) by (auto simp: collecting_def)
      then have "buf_ok img b'" using st nz c m(2) by (auto simp: buf_ok_def)
      moreover have same: "slot_of b' = slot_of ?b" using st assms(3) by (auto simp: slot_of_def collecting_def)
      ultimately have "client_inv img (set_buf i b' s)" by (rule client_inv_set_buf [OF assms(1)])
      moreover have "abs_cache (set_buf i b' s) = abs_cache s"
        using same by (simp add: abs_cache_def map_update_same)
      moreover have "same_run s (set_buf i b' s)" by (simp add: same_run_def set_buf_def)
      moreover have "gathers c (insert (nat block) (blocks (blockmap ?b))) (set_buf i b' s)"
        using st m(3) assms(2,3) by (auto simp: gathers_def collecting_def)
      ultimately show ?thesis using acc nz by auto
    qed
  qed
qed

lemma GotBlock_spec:
  assumes "client_inv img s" and "0 \<le> c" and "c < nchunks img" and "0 \<le> block" and "block < csize img c"
    and "carries img c block buf"
  shows "\<exists>r s'. GotBlock nt c block buf s = Some (r, s') \<and> client_inv img s' \<and>
    (cache_step (nchunks img))\<^sup>*\<^sup>* (abs_cache s) (abs_cache s') \<and> same_run s s'"
proof (cases "finished (chunk_at s c)")
  case True
  then have "seen (chunk_at s c)"
    using cache_inv_D(4) [OF client_invD(2) [OF assms(1)] assms(2,3)] in_range(2) [OF assms(1-3)] by simp
  moreover have "soft img s (s\<lparr>cstats := (cstats s)\<lparr>cs_dupchunk := cs_dupchunk (cstats s) + 1\<rparr>\<rparr>)"
    by (rule soft_cstats)
  ultimately show ?thesis using True soft_client_inv [OF _ assms(1)] soft_abs soft_same_run by (force simp: GotBlock_def)
next
  case False
  from place_block_spec [OF assms(1-3) False, of block] obtain p s1 where
    p: "place_block c block s = Some (p, s1)" "client_inv img s1"
    "(cache_step (nchunks img))\<^sup>*\<^sup>* (abs_cache s) (abs_cache s1)"
    "\<forall>i. p = Some i \<longrightarrow> i < length (ChunkBuffer s1) \<and> collecting c (ChunkBuffer s1 ! i)" by blast
  show ?thesis
  proof (cases p)
    case None
    then show ?thesis using False p place_block_same_run [OF p(1)] by (auto simp: GotBlock_def)
  next
    case (Some i)
    then have i: "i < length (ChunkBuffer s1)" "collecting c (ChunkBuffer s1 ! i)" using p(4) by auto
    have seen: "seen (chunk_at s1 c)" using collecting_range [OF p(2) i] by simp
    from accept_block_spec [OF p(2) i assms(4-6), of nt] obtain r s2 where
      a: "accept_block nt c block buf i s1 = Some (r, s2)" "client_inv img s2"
      "(cache_step (nchunks img))\<^sup>*\<^sup>* (abs_cache s1) (abs_cache s2)" "same_run s1 s2" by blast
    have "GotBlock nt c block buf s = accept_block nt c block buf i s1"
      using False p(1) Some seen by (simp add: GotBlock_def accept_block_def)
    then show ?thesis using a rtranclp_trans [OF p(3) a(3)] same_run_trans [OF place_block_same_run [OF p(1)] a(4)] by auto
  qed
qed

section \<open>Writing a chunk\<close>

lemma length_concat_1024: "\<forall>d \<in> set ds. length d = (1024 :: nat) \<Longrightarrow> length (concat ds) = 1024 * length ds"
  by (induction ds) auto

text \<open>Blocks whose fronts are the blocks of a list make, joined, a list with this front.\<close>

lemma concat_front:
  assumes "\<forall>d \<in> set ds. length d = 1024" and "length src \<le> 1024 * length ds"
    and "\<And>j. j * 1024 < length src \<Longrightarrow>
      take (length (take 1024 (drop (j * 1024) src))) (ds ! j) = take 1024 (drop (j * 1024) src)"
  shows "take (length src) (concat ds) = src"
  using assms
proof (induction ds arbitrary: src)
  case Nil
  then show ?case by simp
next
  case (Cons d ds)
  have len: "length d = 1024" using Cons.prems(1) by simp
  have first: "take (length (take 1024 src)) d = take 1024 src"
    using Cons.prems(3) [of 0] by (cases "src = []") simp_all
  show ?case
  proof (cases "length src \<le> 1024")
    case True
    then show ?thesis using first len by simp
  next
    case False
    have d: "d = take 1024 src" using first len False by simp
    have "take (length (drop 1024 src)) (concat ds) = drop 1024 src"
    proof (rule Cons.IH)
      show "\<forall>d \<in> set ds. length d = 1024" using Cons.prems(1) by simp
      show "length (drop 1024 src) \<le> 1024 * length ds" using Cons.prems(2) by simp
      show "take (length (take 1024 (drop (j * 1024) (drop 1024 src)))) (ds ! j) =
          take 1024 (drop (j * 1024) (drop 1024 src))" if "j * 1024 < length (drop 1024 src)" for j
        using Cons.prems(3) [of "Suc j"] that by (simp add: add.commute)
    qed
    then have "take (length src) (concat (d # ds)) = take 1024 src @ drop 1024 src"
      using d False by (simp add: take_Cons')
    then show ?thesis by simp
  qed
qed

lemma block_slice_chunk:
  assumes "0 \<le> c" and "j < 1024"
  shows "block_slice img c (int j) = take 1024 (drop (j * 1024) (take 1048576 (drop (nat (c * 1048576)) img)))"
proof -
  have "nat ((c * 1024 + int j) * 1024) = j * 1024 + nat (c * 1048576)"
    using assms(1) by (simp add: nat_add_distrib nat_mult_distrib algebra_simps)
  moreover have "j * 1024 + 1024 \<le> 1048576" using assms(2) by simp
  then have "take 1024 (drop (j * 1024) (take 1048576 xs)) = take 1024 (drop (j * 1024) xs)" for xs :: "byte list"
    by (simp add: drop_take min_absorb1)
  ultimately show ?thesis by (simp add: block_slice_def)
qed

lemma csize_covers:
  assumes "0 \<le> c" and "c * 1048576 + int j * 1024 < int (length img)" and "j < 1024"
  shows "int j < csize img c"
proof -
  have "(c * 1024 + int j) * 1024 < int (length img)" using assms(2) by simp
  then have "c * 1024 + int j < TotalBlocks (geometry (int (length img)))" by (simp only: TotalBlocks_iff)
  then show ?thesis using assms(3) by (simp add: csize_def)
qed

lemma full_content:
  assumes "buf_ok img b" and "state b = CHUNK_FULL"
  shows "take (length (take 1048576 (drop (nat (thischunk b * 1048576)) img))) (concat (bufdata b)) =
    take 1048576 (drop (nat (thischunk b * 1048576)) img)"
proof (rule concat_front)
  let ?c = "thischunk b"
  let ?src = "take 1048576 (drop (nat (?c * 1048576)) img)"
  have b: "0 \<le> ?c" "?c < nchunks img" "blocks (blockmap b) \<subseteq> {..<nat (csize img ?c)}"
    "csize img ?c - int (card (blocks (blockmap b))) = 0" "\<forall>k \<in> blocks (blockmap b). holds img b k" "buf_shape b"
    using assms by (auto simp: buf_ok_def)
  have all: "blocks (blockmap b) = {..<nat (csize img ?c)}"
    by (rule stored_full [OF b(3) _ b(4)]) (use csize_range [OF b(2)] in simp)
  show "\<forall>d \<in> set (bufdata b). length d = 1024" using b(6) by (simp add: buf_shape_def)
  show "length ?src \<le> 1024 * length (bufdata b)" using b(6) by (simp add: buf_shape_def)
  show "take (length (take 1024 (drop (j * 1024) ?src))) (bufdata b ! j) = take 1024 (drop (j * 1024) ?src)"
    if j: "j * 1024 < length ?src" for j
  proof -
    have lt: "j < 1024" "nat (?c * 1048576) + j * 1024 < length img" using j by auto
    then have "?c * 1048576 + int j * 1024 < int (length img)" using b(1) by linarith
    then have "int j < csize img ?c" by (rule csize_covers [OF b(1) _ lt(1)])
    then have "holds img b j" using b(5) all by simp
    then show ?thesis using block_slice_chunk [OF b(1) lt(1), of img] by (simp add: holds_def)
  qed
qed

lemma ChunkBytes_bound:
  assumes "c < TotalChunks (geometry bytes)"
  shows "\<exists>n. ChunkBytes (geometry bytes) c = Some n \<and> n \<le> 1048576"
proof -
  have "chunk_len bytes c \<le> 1048576" by (simp add: chunk_len_def)
  then show ?thesis unfolding geometry_ChunkBytes [OF assms] by simp
qed

lemma full_write_ok:
  assumes "buf_ok img b" and "state b = CHUNK_FULL"
  shows "\<exists>n. ChunkBytes (geometry (int (length img))) (thischunk b) = Some n \<and>
    write_ok img (thischunk b, take (nat n) (concat (bufdata b)))"
proof -
  let ?c = "thischunk b" and ?len = "int (length img)"
  let ?src = "take 1048576 (drop (nat (?c * 1048576)) img)"
  have b: "0 \<le> ?c" "?c < TotalChunks (geometry ?len)" "buf_shape b" using assms by (auto simp: buf_ok_def nchunks_def)
  from ChunkBytes_bound [OF b(2)] obtain n where n: "ChunkBytes (geometry ?len) ?c = Some n" "n \<le> 1048576" by blast
  have len: "length (concat (bufdata b)) = 1048576"
    using length_concat_1024 [of "bufdata b"] b(3) by (simp add: buf_shape_def)
  define k where "k = nat (min n (chunk_len ?len ?c))"
  define p where "p = nat (?c * 1048576)"
  have p: "?c * 1024 * 1024 = int p" using b(1) by (simp add: p_def)
  have "min 1048576 (?len - int p) \<le> int (min 1048576 (length img - p))" by linarith
  then have "chunk_len ?len ?c \<le> int (length ?src)" by (simp add: chunk_len_def p [simplified] p_def [symmetric])
  then have k: "k \<le> nat n" "k \<le> length ?src" by (auto simp: k_def nat_le_iff min_def)
  have "take k (take (nat n) (concat (bufdata b))) = take k (take (length ?src) (concat (bufdata b)))"
    using k by (simp add: min_absorb1)
  also have "\<dots> = take k ?src" by (simp only: full_content [OF assms])
  also have "\<dots> = take k (drop (nat (?c * 1024 * 1024)) img)" using k(2) by (simp add: min_absorb1 mult.commute)
  finally show ?thesis using n len by (auto simp: write_ok_def k_def)
qed

lemma ChunkerStartup_spec:
  assumes "client_inv img s"
  shows "\<exists>s'. ChunkerStartup s = Some s' \<and> client_inv img s' \<and>
    (cache_step (nchunks img))\<^sup>*\<^sup>* (abs_cache s) (abs_cache s')"
proof -
  let ?i = "length (takeWhile (\<lambda>b. state b \<noteq> CHUNK_FULL) (ChunkBuffer s))"
  show ?thesis
  proof (cases "main_phase s \<noteq> Running \<or> chunkcount s = 0 \<or> ?i = length (ChunkBuffer s)")
    case True
    have "client_inv img (no_chunk_ready s) \<and> abs_cache (no_chunk_ready s) = abs_cache s"
      using assms soft_client_inv [OF soft_cstats assms] soft_abs [OF soft_cstats] by (simp add: no_chunk_ready_def)
    then show ?thesis using True assms by (auto simp: ChunkerStartup_def Let_def)
  next
    case False
    then have i: "?i < length (ChunkBuffer s)"
      using length_takeWhile_le [of "\<lambda>b. state b \<noteq> CHUNK_FULL" "ChunkBuffer s"] by simp
    let ?b = "ChunkBuffer s ! ?i"
    have full: "state ?b = CHUNK_FULL" using nth_length_takeWhile [OF i] by simp
    note ok = buf_okD [OF assms i]
    from full_write_ok [OF ok full] obtain n where n: "ChunkBytes (geometry (int (length img))) (thischunk ?b) = Some n"
      "write_ok img (thischunk ?b, take (nat n) (concat (bufdata ?b)))" by blast
    let ?e = "?b\<lparr>state := CHUNK_EMPTY\<rparr>"
    define s' where "s' = (set_buf ?i ?e s)\<lparr>chunkcount := chunkcount s - 1, main_gotone := True,
       written := written s @ [(thischunk ?b, take (nat n) (concat (bufdata ?b)))]\<rparr>"
    have eq: "ChunkerStartup s = Some s'"
      using False n(1) client_invD(1) [OF assms] by (simp add: ChunkerStartup_def Let_def s'_def req_inv_def)
    have "buf_ok img ?e" using ok by (simp add: buf_ok_def buf_shape_def)
    then have "req_inv img (set_buf ?i ?e s)" by (rule req_inv_set_buf [OF client_invD(1) [OF assms]])
    then have r: "req_inv img s'" by (simp add: req_inv_def net_ok_def s'_def)
    have sl: "slot_of ?e = Free" by simp
    have fl: "flag g s' = flag g s" for g by (simp add: s'_def flag_def chunk_at_def fun_eq_iff)
    have a: "abs_cache s' = (abs_cache s)\<lparr>slots := (slots (abs_cache s))[?i := Free],
        done_list := done_list (abs_cache s) @ [thischunk ?b]\<rparr>"
      unfolding abs_cache_def fl by (simp add: s'_def map_update sl)
    have step: "cache_step (nchunks img) (abs_cache s) (abs_cache s')"
      unfolding a by (rule write_slot) (use i full in simp_all)
    have "cache_inv (nchunks img) (abs_cache s')" by (rule cache_sys.inv_step [OF client_invD(2) [OF assms] step])
    then have "client_inv img s'" using r n(2) assms by (auto simp: client_inv_def s'_def)
    then show ?thesis using eq step by blast
  qed
qed

section \<open>A turn of the receive thread\<close>

text \<open>
  A packet that the client may see: blocks only from the server, carrying what the image has at their place. Nothing is assumed
  about the rest; the other clients may ask for what they like.
\<close>

definition fair_packet :: "byte list \<Rightarrow> packet \<Rightarrow> bool" where
  "fair_packet img p \<longleftrightarrow> (case msg p of
     Block c b buf \<Rightarrow> 0 \<le> c \<and> c < nchunks img \<longrightarrow> b < csize img c \<and> carries img c b buf
   | _ \<Rightarrow> True)"

text \<open>
  The request that a client does not survive: the checks let it through, it asks for a range that is no part of a
  chunk (no block at all, or with a sum that wraps), and the client collects the chunk and delays requests.
\<close>

definition bad_request :: "net \<Rightarrow> client \<Rightarrow> recv \<Rightarrow> bool" where
  "bad_request nt s r \<longleftrightarrow> \<not> child_error s \<and> main_phase s = Running \<and> redodelay s \<noteq> 0 \<and> PacketReceive nt r = Some 0 \<and>
     (case r of
        Recv mlen addr port p \<Rightarrow> PacketValid p (TotalChunks (sizes_of s)) \<and>
          (case msg p of
             Request c b n \<Rightarrow> \<not> in_chunk b n \<and> (\<exists>x \<in> set (ChunkBuffer s). collecting c x)
           | _ \<Rightarrow> False)
      | _ \<Rightarrow> False)"

lemma find_buf_less: "find_buf c s < length (ChunkBuffer s) \<longleftrightarrow> (\<exists>x \<in> set (ChunkBuffer s). collecting c x)"
proof
  assume "find_buf c s < length (ChunkBuffer s)"
  then show "\<exists>x \<in> set (ChunkBuffer s). collecting c x" using find_buf_collecting nth_mem by blast
next
  assume "\<exists>x \<in> set (ChunkBuffer s). collecting c x"
  then show "find_buf c s < length (ChunkBuffer s)" unfolding find_buf_def by (auto intro: takeWhile_stops)
qed

lemma RequestStamp_request:
  assumes "client_inv img s" and "0 \<le> c" and "c < nchunks img"
  shows "if redodelay s \<noteq> 0 \<and> \<not> in_chunk b n \<and> (\<exists>x \<in> set (ChunkBuffer s). collecting c x)
    then RequestStamp c b n g s = None else \<exists>r s'. RequestStamp c b n g s = Some (r, s') \<and> soft img s s'"
proof (cases "in_chunk b n")
  case True
  then show ?thesis using RequestStamp_soft [OF client_invD(1) [OF assms(1)] assms(2,3) True, of g] by simp
next
  case False
  have "seen (chunk_at s c) \<and> \<not> finished (chunk_at s c)" if "x \<in> set (ChunkBuffer s)" "collecting c x" for x
    using that collecting_range [OF assms(1)] by (auto simp: in_set_conv_nth)
  then show ?thesis
    using RequestStamp_outside [OF client_invD(1) [OF assms(1)] assms(2,3) False, of g] False unfolding find_buf_less
    by (auto split: if_splits)
qed

lemma stamp_runs_soft:
  assumes "req_inv img s" and "0 \<le> c" and "c < nchunks img" and "\<forall>(b, n) \<in> set rs. in_chunk (int b) (int n)"
  shows "\<exists>did s'. apply_runs (Some stamp_range) c rs k (Some s) = (did, Some s') \<and> soft img s s'"
  using assms
proof (induction rs arbitrary: k s)
  case Nil
  then show ?case by simp
next
  case (Cons x rs)
  obtain b n where x: "x = (b, n)" by (cases x)
  then have "in_chunk (int b) (int n)" using Cons.prems(4) by simp
  from RequestStamp_soft [OF Cons.prems(1-3) this, of False] obtain r s1 where
    s1: "RequestStamp c (int b) (int n) False s = Some (r, s1)" "soft img s s1" by blast
  have call: "call_range (Some stamp_range) c b n (Some s) = (r, Some s1)"
    using s1(1) by (simp add: call_range_def stamp_range_def)
  show ?case
  proof (cases r)
    case True
    then show ?thesis using x call s1(2) by simp
  next
    case False
    from Cons.IH [OF soft_req_inv [OF s1(2) Cons.prems(1)] Cons.prems(2,3), of "k + n"] Cons.prems(4)
    show ?thesis using x call False soft_trans [OF s1(2)] by fastforce
  qed
qed

lemma ranges_ok:
  assumes "BlockMap_t m"
  shows "\<forall>(b, n) \<in> set (ranges m). in_chunk (int b) (int n)"
proof clarify
  fix b n
  assume bn: "(b, n) \<in> set (ranges m)"
  have pos: "0 < n" using ranges_separated [of m] bn by auto
  have "{b..<b + n} \<subseteq> blocks m" using ranges_partition [of m] bn by auto
  then have "b + n - 1 \<in> blocks m" using pos by auto
  then have "b + n - 1 < 1024" using blocks_bound [of "b + n - 1" m] assms by (simp add: BlockMap_t_length)
  then have "int b + int n \<le> 1024" "b < 1024" using pos by linarith+
  then show "in_chunk (int b) (int n)" using pos by (simp add: in_chunk_def MAXCHUNKSIZE_def)
qed

lemma client_dispatch_spec:
  assumes "client_inv img s" and "fair_packet img p" and "msg_valid (msg p) (nchunks img)"
    and "\<And>c r m. msg p = Prequest c r m \<Longrightarrow> BlockMap_t m"
    and "\<And>c b n. msg p = Request c b n \<Longrightarrow> redodelay s \<noteq> 0 \<Longrightarrow> in_chunk b n \<or> \<not> (\<exists>x \<in> set (ChunkBuffer s). collecting c x)"
  shows "\<exists>s'. client_dispatch nt p s = Some s' \<and> client_inv img s' \<and>
    (cache_step (nchunks img))\<^sup>*\<^sup>* (abs_cache s) (abs_cache s') \<and> same_run s s'"
proof (cases "msg p")
  case (Block c b buf)
  have v: "0 \<le> c" "c < nchunks img" "0 \<le> b" "b < csize img c" "carries img c b buf"
    using assms(2,3) Block by (auto simp: msg_valid_def fair_packet_def)
  have soft0: "soft img s (s\<lparr>BackOff := 0\<rparr>)" by (simp add: soft_def list_all2_refl)
  from GotBlock_spec [OF soft_client_inv [OF soft0 assms(1)] v, of nt] soft_abs [OF soft0] obtain r s1 where
    s1: "GotBlock nt c b buf (s\<lparr>BackOff := 0\<rparr>) = Some (r, s1)" "client_inv img s1"
    "(cache_step (nchunks img))\<^sup>*\<^sup>* (abs_cache s) (abs_cache s1)" "same_run (s\<lparr>BackOff := 0\<rparr>) s1" by auto
  define s2 where "s2 = (if r then s1\<lparr>IdleCounter := idletimer s1\<rparr> else s1)"
  have soft2: "soft img s1 s2" by (simp add: s2_def soft_def list_all2_refl)
  have rng: "in_chunk b 1" using v csize_range [OF v(2)] by (simp add: in_chunk_def MAXCHUNKSIZE_def)
  from RequestStamp_soft [OF client_invD(1) [OF soft_client_inv [OF soft2 s1(2)]] v(1,2) rng, of True] obtain r' s3 where
    s3: "RequestStamp c b 1 True s2 = Some (r', s3)" "soft img s2 s3" by blast
  have soft3: "soft img s1 s3" by (rule soft_trans [OF soft2 s3(2)])
  have "client_dispatch nt p s = Some (if serverip s \<noteq> 0 \<and> serverip s \<noteq> hdr_srcip p then s else s3)"
    using Block s1(1) s3(1) by (simp add: client_dispatch_def s2_def Let_def)
  then show ?thesis using s1(3) assms(1) soft_client_inv [OF soft3 s1(2)] soft_abs [OF soft3]
      same_run_trans [OF same_run_trans [OF soft_same_run [OF soft0] s1(4)] soft_same_run [OF soft3]] by auto
next
  case (Request c b n)
  have v: "0 \<le> c" "c < nchunks img" using assms(3) Request by (auto simp: msg_valid_def)
  obtain r s1 where s1: "RequestStamp c b n False s = Some (r, s1)" "soft img s s1"
    using RequestStamp_request [OF assms(1) v, of b n False] assms(5) [OF Request] by (auto split: if_splits)
  let ?s2 = "if r then s1\<lparr>IdleCounter := idletimer s1\<rparr> else s1"
  have "soft img s1 ?s2" by (simp add: soft_def list_all2_refl)
  then have soft2: "soft img s ?s2" by (rule soft_trans [OF s1(2)])
  have "client_dispatch nt p s = Some ?s2" using Request s1(1) by (simp add: client_dispatch_def)
  then show ?thesis using soft_client_inv [OF soft2 assms(1)] soft_abs [OF soft2] soft_same_run [OF soft2] by auto
next
  case (Prequest c r m)
  have v: "0 \<le> c" "c < nchunks img" using assms(3) Prequest by (auto simp: msg_valid_def)
  from stamp_runs_soft [OF client_invD(1) [OF assms(1)] v ranges_ok [OF assms(4) [OF Prequest]], of 0] obtain did s' where
    "apply_runs (Some stamp_range) c (ranges m) 0 (Some s) = (did, Some s')" "soft img s s'" by blast
  then show ?thesis using Prequest soft_client_inv [OF _ assms(1)] soft_abs [of img s s'] soft_same_run [of img s s']
    by (simp add: client_dispatch_def BlockMapApply_runs)
qed (use assms(1) in \<open>auto simp: client_dispatch_def\<close>)

lemma tick_keepalive_soft: "soft img s (tick_keepalive kafailed s)"
  by (simp add: tick_keepalive_def Let_def soft_def list_all2_refl)

lemma idle_backoff_soft: "soft img s (idle_backoff s)"
  by (simp add: idle_backoff_def Let_def soft_def list_all2_refl)

lemma idle_request_soft:
  assumes "req_inv img s"
  shows "\<exists>s'. idle_request nt s = Some s' \<and> soft img s s'"
proof -
  define s1 where "s1 = (if gotone s then s\<lparr>cstats := (cstats s)\<lparr>cs_recvidles := cs_recvidles (cstats s) + 1\<rparr>\<rparr> else s)"
  have so: "soft img s s1" by (simp add: s1_def soft_def list_all2_refl)
  from RequestChunk_soft [OF soft_req_inv [OF so assms], of nt True] obtain s2 where
    s2: "RequestChunk nt True s1 = Some s2" "soft img s1 s2" by blast
  have "idle_request nt s = Some (idle_backoff s2)"
    unfolding idle_request_def s1_def [symmetric] Let_def using s2(1) by simp
  then show ?thesis using soft_trans [OF so soft_trans [OF s2(2) idle_backoff_soft]] by blast
qed

lemma client_timeout_spec:
  assumes "client_inv img s"
  shows "\<exists>s'. client_timeout nt kafailed s = Some s' \<and> client_inv img s' \<and> abs_cache s' = abs_cache s \<and>
    (servertimo s = 0 \<longrightarrow> soft img s s')"
proof -
  define s1 where "s1 = (if servertimo s \<noteq> 0 then s\<lparr>STCounter := STCounter s - 1\<rparr> else s)"
  define s2 where "s2 = tick_keepalive kafailed s1"
  define s3 where "s3 = s2\<lparr>IdleCounter := IdleCounter s2 - 1\<rparr>"
  have so: "soft img s s1" "soft img s2 s3" by (simp_all add: s1_def s3_def soft_def list_all2_refl)
  note s3 = soft_trans [OF so(1) soft_trans [OF tick_keepalive_soft [of img s1 kafailed, folded s2_def] so(2)]]
  from idle_request_soft [OF client_invD(1) [OF soft_client_inv [OF s3 assms]], of nt] obtain s4 where
    s4: "idle_request nt s3 = Some s4" "soft img s3 s4" by blast
  define cut where "cut = (servertimo s1 \<noteq> 0 \<and> STCounter s1 \<le> 0)"
  have turn: "client_timeout nt kafailed s = (if cut then Some (s1\<lparr>child_error := True\<rparr>) else
      if IdleCounter s3 \<le> 0 then idle_request nt s3 else Some s3)"
    unfolding client_timeout_def Let_def s1_def [symmetric] s2_def [symmetric] s3_def [symmetric] cut_def by simp
  have "client_inv img (s1\<lparr>child_error := True\<rparr>)" "abs_cache (s1\<lparr>child_error := True\<rparr>) = abs_cache s"
    using soft_client_inv [OF so(1) assms] soft_abs [OF so(1)] by simp_all
  moreover have live: "servertimo s = 0 \<longrightarrow> \<not> cut" by (simp add: cut_def s1_def)
  ultimately show ?thesis
    using turn s3 s4 soft_client_inv [OF s3 assms] soft_client_inv [OF soft_trans [OF s3 s4(2)] assms] soft_abs [OF s3]
      soft_abs [OF soft_trans [OF s3 s4(2)]] live soft_trans [OF s3 s4(2)]
    by (cases cut; cases "IdleCounter s3 \<le> 0") simp_all
qed

lemma bad_request_fails:
  assumes "client_inv img s" and "bad_request nt s r"
  shows "ClientRecvThread nt kafailed r s = None"
proof -
  obtain mlen addr port p c b n where r: "r = Recv mlen addr port p" "msg p = Request c b n"
    using assms(2) by (auto simp: bad_request_def split: recv.splits msg.splits)
  define s1 where "s1 = s\<lparr>STCounter := (if servertimo s \<noteq> 0 then servertimo s * TIMEOUT_HZ else STCounter s),
    KACounter := (if keepalive s \<noteq> 0 then keepalive s * TIMEOUT_HZ else KACounter s), gotone := True\<rparr>"
  have so: "soft img s s1" by (simp add: s1_def soft_def list_all2_refl)
  have inv: "client_inv img s1" by (rule soft_client_inv [OF so assms(1)])
  have T: "TotalChunks (sizes_of s1) = nchunks img" "sizes_of s1 = sizes_of s"
    using client_invD(1) [OF inv] by (simp_all add: req_inv_def nchunks_def s1_def)
  have b: "\<not> child_error s" "main_phase s = Running" "redodelay s1 \<noteq> 0" "PacketReceive nt r = Some 0" "PacketValid p (nchunks img)"
    "\<not> in_chunk b n" "\<exists>x \<in> set (ChunkBuffer s1). collecting c x"
    using assms(2) T r by (simp_all add: bad_request_def s1_def)
  have "msg_valid (msg p) (nchunks img)" using b(5) by (auto simp: PacketValid_def split: if_splits)
  then have "0 \<le> c" "c < nchunks img" using r(2) by (auto simp: msg_valid_def)
  from RequestStamp_request [OF inv this, of b n False] b have "client_dispatch nt p s1 = None"
    using r(2) by (simp add: client_dispatch_def)
  then show ?thesis using b(1,2,4,5) T r(1) unfolding ClientRecvThread_def s1_def Let_def by simp
qed

lemma ClientRecvThread_spec:
  assumes "client_inv img s" and "\<not> bad_request nt s r" and "r \<noteq> RecvError"
    and "\<And>mlen addr port p. r = Recv mlen addr port p \<Longrightarrow>
      fair_packet img p \<and> (\<forall>c k m. msg p = Prequest c k m \<longrightarrow> BlockMap_t m)"
  shows "\<exists>s'. ClientRecvThread nt kafailed r s = Some s' \<and> client_inv img s' \<and>
    (cache_step (nchunks img))\<^sup>*\<^sup>* (abs_cache s) (abs_cache s') \<and> (servertimo s = 0 \<longrightarrow> same_run s s')"
proof -
  from PacketReceive_returns [OF assms(3)] obtain rc where rc: "PacketReceive nt r = Some rc" by blast
  consider (err) "child_error s \<or> main_phase s \<noteq> Running" | (time) "\<not> (child_error s \<or> main_phase s \<noteq> Running)" "rc \<noteq> 0"
    | (pkt) mlen addr port p where "\<not> (child_error s \<or> main_phase s \<noteq> Running)" "rc = 0" "r = Recv mlen addr port p"
    using rc by (cases r) auto
  then show ?thesis
  proof cases
    case err
    then show ?thesis using assms(1) by (simp add: ClientRecvThread_def)
  next
    case time
    from client_timeout_spec [OF assms(1), of nt kafailed] obtain s' where
      "client_timeout nt kafailed s = Some s'" "client_inv img s'" "abs_cache s' = abs_cache s"
      "servertimo s = 0 \<longrightarrow> soft img s s'" by blast
    then show ?thesis using time rc soft_same_run [of img s s'] by (simp add: ClientRecvThread_def)
  next
    case pkt
    define s1 where "s1 = s\<lparr>STCounter := (if servertimo s \<noteq> 0 then servertimo s * TIMEOUT_HZ else STCounter s),
      KACounter := (if keepalive s \<noteq> 0 then keepalive s * TIMEOUT_HZ else KACounter s), gotone := True\<rparr>"
    have so: "soft img s s1" by (simp add: s1_def soft_def list_all2_refl)
    have T: "TotalChunks (sizes_of s1) = nchunks img"
      using client_invD(1) [OF soft_client_inv [OF so assms(1)]] by (simp add: req_inv_def nchunks_def)
    have turn: "ClientRecvThread nt kafailed r s =
        (if \<not> PacketValid p (nchunks img) then Some s1 else client_dispatch nt p s1)"
      using pkt rc T by (simp add: ClientRecvThread_def s1_def Let_def)
    show ?thesis
    proof (cases "PacketValid p (nchunks img)")
      case True
      then have "msg_valid (msg p) (nchunks img)" by (auto simp: PacketValid_def split: if_splits)
      have "in_chunk b n \<or> \<not> (\<exists>x \<in> set (ChunkBuffer s1). collecting c x)" if "msg p = Request c b n" "redodelay s1 \<noteq> 0" for c b n
        using assms(2) that pkt rc True T by (auto simp: bad_request_def s1_def)
      with client_dispatch_spec [OF soft_client_inv [OF so assms(1)] _ \<open>msg_valid (msg p) (nchunks img)\<close>, of nt] assms(4) [OF pkt(3)]
      show ?thesis using turn True soft_abs [OF so] same_run_trans [OF soft_same_run [OF so]] by auto
    next
      case False
      then show ?thesis using turn soft_client_inv [OF so assms(1)] soft_abs [OF so] soft_same_run [OF so] by simp
    qed
  qed
qed

section \<open>The start\<close>

lemma set_shuffle: "\<forall>(a, b) \<in> set swaps. a < length cs \<and> b < length cs \<Longrightarrow> set (shuffle swaps cs) = set cs"
proof (induction swaps cs rule: shuffle.induct)
  case (2 c1 c2 rs cs)
  have "set (cs[c2 := cs ! c1, c1 := cs ! c2]) = set cs" using "2.prems" by (intro set_swap) auto
  then show ?case using 2 by (simp add: Let_def)
qed simp

lemma init_client_inv:
  assumes "net_ok s" and "\<forall>b \<in> set bufs. buf_shape b"
    and "\<forall>(a, b) \<in> set swaps. int a < nchunks img \<and> int b < nchunks img"
  shows "client_inv img (init_chunks (geometry (int (length img))) bufs swaps s)"
proof -
  let ?s = "init_chunks (geometry (int (length img))) bufs swaps s"
  have T: "0 \<le> nchunks img"
    using TotalChunks_iff [of "- 1" "int (length img)"] TotalBlocks_iff [of "- 1024" "int (length img)"]
    by (simp add: nchunks_def)
  have sw: "\<forall>(a, b) \<in> set swaps. a < length (map int [0..<nat (nchunks img)]) \<and> b < length (map int [0..<nat (nchunks img)])"
    using assms(3) by (auto simp: zless_nat_eq_int_zless)
  have "set (ChunkRequestList ?s) = {0..<nchunks img}"
    unfolding init_chunks_def nchunks_def [symmetric] using set_shuffle [OF sw] T
    by (simp add: image_int_atLeastLessThan)
  moreover have "\<forall>b \<in> set (ChunkBuffer ?s). buf_ok img b"
    using assms(2) by (auto simp: init_chunks_def buf_ok_def buf_shape_def)
  ultimately have "req_inv img ?s"
    using assms(1) T by (simp add: req_inv_def net_ok_def init_chunks_def nchunks_def)
  moreover have "cache_init (abs_cache ?s)"
    by (auto simp: cache_init_def abs_cache_def init_chunks_def flag_def chunk_at_def nat_less_iff)
  then have "cache_inv (nchunks img) (abs_cache ?s)" by (rule cache_init_inv)
  ultimately show ?thesis by (simp add: client_inv_def init_chunks_def nchunks_def)
qed

end
