(* ===== verification/Download.thy ===== *)
theory Download
  imports ClientInv
begin

text \<open>
  What the client achieves. Turns of its two threads in any order, on any packets the server and the other clients can
  send, are a transition system that starts with \<^const>\<open>init_chunks\<close> and keeps \<^const>\<open>client_inv\<close>. From that follow
  the properties of a download: no chunk is written twice, what is written is what the image holds, and the loop
  of the main thread only ends when every chunk is written.
\<close>

section \<open>Turns of the two threads\<close>

definition fair_recv :: "byte list \<Rightarrow> recv \<Rightarrow> bool" where
  "fair_recv img r \<longleftrightarrow> (case r of RecvError \<Rightarrow> False | RecvTimeout \<Rightarrow> True
     | Recv mlen addr port p \<Rightarrow> fair_packet img p \<and> (case msg p of Prequest c k m \<Rightarrow> BlockMap_t m | _ \<Rightarrow> True))"

inductive client_turn :: "byte list \<Rightarrow> net \<Rightarrow> client \<Rightarrow> client \<Rightarrow> bool" for img :: "byte list" and nt :: net where
  recv_turn: "fair_recv img r \<Longrightarrow> ClientRecvThread nt kafailed r s = Some s' \<Longrightarrow> client_turn img nt s s'"
| write_turn: "ChunkerStartup s = Some s' \<Longrightarrow> client_turn img nt s s'"

definition client_start :: "byte list \<Rightarrow> client \<Rightarrow> bool" where
  "client_start img s \<longleftrightarrow> (\<exists>s0 bufs swaps. net_ok s0 \<and> (\<forall>b \<in> set bufs. buf_shape b) \<and>
     (\<forall>(a, b) \<in> set swaps. int a < nchunks img \<and> int b < nchunks img) \<and>
     s = client_recv_init (init_chunks (geometry (int (length img))) bufs swaps s0))"

lemma client_recv_init_soft: "soft img s (client_recv_init s)"
  by (simp add: client_recv_init_def soft_def list_all2_refl)

lemma recv_turn_spec:
  assumes "client_inv img s" and "fair_recv img r" and "\<not> bad_request nt s r"
  shows "\<exists>s'. ClientRecvThread nt kafailed r s = Some s' \<and> client_inv img s' \<and>
    (cache_step (nchunks img))\<^sup>*\<^sup>* (abs_cache s) (abs_cache s') \<and> (servertimo s = 0 \<longrightarrow> same_run s s')"
proof (rule ClientRecvThread_spec [OF assms(1,3)])
  show "r \<noteq> RecvError" using assms(2) by (auto simp: fair_recv_def)
  show "fair_packet img p \<and> (\<forall>c k m. msg p = Prequest c k m \<longrightarrow> BlockMap_t m)"
    if "r = Recv mlen addr port p" for mlen addr port p
    using assms(2) that by (auto simp: fair_recv_def)
qed

lemma client_turn_spec:
  assumes "client_inv img s" and "client_turn img nt s s'"
  shows "client_inv img s'" and "(cache_step (nchunks img))\<^sup>*\<^sup>* (abs_cache s) (abs_cache s')"
proof -
  have "client_inv img s' \<and> (cache_step (nchunks img))\<^sup>*\<^sup>* (abs_cache s) (abs_cache s')"
    using assms(2)
  proof cases
    case (recv_turn r kafailed)
    then have "\<not> bad_request nt s r" using bad_request_fails [OF assms(1), of nt r kafailed] by auto
    then show ?thesis using recv_turn_spec [OF assms(1) recv_turn(1), of nt kafailed] recv_turn(2) by auto
  next
    case write_turn
    then show ?thesis using ChunkerStartup_spec [OF assms(1)] by auto
  qed
  then show "client_inv img s'" and "(cache_step (nchunks img))\<^sup>*\<^sup>* (abs_cache s) (abs_cache s')" by simp_all
qed

interpretation client_sys: invariant_system "client_start img" "client_turn img nt" "client_inv img"
proof unfold_locales
  show "client_inv img s" if "client_start img s" for s
    using that init_client_inv soft_client_inv [OF client_recv_init_soft] by (auto simp: client_start_def)
  show "client_inv img s'" if "client_inv img s" "client_turn img nt s s'" for s s'
    by (rule client_turn_spec(1) [OF that])
qed

section \<open>What has been written\<close>

lemma written_facts:
  assumes "client_inv img s"
  shows "distinct (map fst (written s))" and "fst ` set (written s) \<subseteq> {0..<nchunks img}"
    and "w \<in> set (written s) \<Longrightarrow> write_ok img w"
    and "chunkcount s = 0 \<Longrightarrow> fst ` set (written s) = {0..<nchunks img}"
proof -
  note k = client_invD(2) [OF assms]
  show "distinct (map fst (written s))" using cache_inv_D(5) [OF k] by simp
  show "fst ` set (written s) \<subseteq> {0..<nchunks img}"
  proof
    show "c \<in> {0..<nchunks img}" if "c \<in> fst ` set (written s)" for c using cache_inv_D(3) [OF k, of c] that by auto
  qed
  show "write_ok img w" if "w \<in> set (written s)" using assms that by (simp add: client_inv_def)
  show "fst ` set (written s) = {0..<nchunks img}" if "chunkcount s = 0"
    using all_written [OF k] that assms by (simp add: client_inv_def)
qed

text \<open>An image of whole megabytes, as \<^verbatim>\<open>imagezip\<close> makes them.\<close>

lemma whole_chunk_content:
  assumes "write_ok img w" and "int (length img) mod (1024 * 1024) = 0" and "0 \<le> fst w" and "fst w < nchunks img"
  shows "snd w = take (1024 * 1024) (drop (nat (fst w) * (1024 * 1024)) img)"
proof -
  define c where "c = fst w"
  define M where "M = (1024 * 1024 :: int)"
  have M: "0 < M" by (simp add: M_def)
  have small: "c * M < int (length img)"
    using assms(3,4) block_in_image [of c 0 img] csize_range [of c img] by (simp add: c_def M_def)
  moreover obtain k where k: "int (length img) = M * k" using assms(2) by (auto simp: M_def mod_eq_0_iff_dvd dvd_def)
  ultimately have "c < k" using M by (simp add: mult.commute)
  then have room: "(c + 1) * M \<le> int (length img)" using M by (simp add: k mult.commute)
  then have len: "chunk_len (int (length img)) c = M" by (simp add: chunk_len_def M_def algebra_simps)
  have "TotalBlocks (geometry (int (length img))) = 1024 * k"
  proof (rule antisym)
    show "TotalBlocks (geometry (int (length img))) \<le> 1024 * k"
      using TotalBlocks_iff [of "1024 * k" "int (length img)"] k by (simp add: M_def)
    show "1024 * k \<le> TotalBlocks (geometry (int (length img)))"
      using TotalBlocks_iff [of "TotalBlocks (geometry (int (length img)))" "int (length img)"] k by (simp add: M_def)
  qed
  then have "TotalBlocks (geometry (int (length img))) mod 1024 = 0" by simp
  then have "ChunkBytes (geometry (int (length img))) c = Some M"
    using geometry_ChunkBytes [of c "int (length img)"] assms(4) len by (simp add: c_def M_def nchunks_def)
  then have "length (snd w) = nat M" "take (nat M) (snd w) = take (nat M) (drop (nat (c * 1024 * 1024)) img)"
    using assms(1) len by (simp_all add: write_ok_def Let_def c_def [symmetric])
  moreover have "nat (c * 1024 * 1024) = nat c * (1024 * 1024)" using assms(3) by (simp add: c_def nat_mult_distrib)
  ultimately show ?thesis by (simp add: M_def c_def)
qed


lemma image_covered: "length img \<le> nat (nchunks img) * (1024 * 1024)"
proof -
  let ?g = "geometry (int (length img))"
  have "TotalBlocks ?g \<le> TotalChunks ?g * 1024" "int (length img) \<le> TotalBlocks ?g * 1024"
    using TotalChunks_iff [of "TotalChunks ?g" "int (length img)"] TotalBlocks_iff [of "TotalBlocks ?g" "int (length img)"]
    by simp_all
  then have "int (length img) \<le> nchunks img * (1024 * 1024)" by (simp add: nchunks_def)
  then show ?thesis by linarith
qed

lemma concat_slices: "concat (map (\<lambda>k. take m (drop (k * m) xs)) [0..<n]) = take (n * m) xs"
  by (induction n) (simp_all add: take_add [symmetric] add.commute)

lemma sorted_chunks:
  assumes "distinct (map fst ws)" and "fst ` set ws = {0..<n}"
  shows "map fst (sort_key fst ws) = map int [0..<nat n]"
proof (rule sorted_distinct_set_unique)
  show "distinct (map fst (sort_key fst ws))" using assms(1) by (simp add: distinct_map)
  show "distinct (map int [0..<nat n])" by (simp add: distinct_map inj_on_def)
  show "sorted (map int [0..<nat n])" by (simp add: sorted_iff_nth_mono)
  show "set (map fst (sort_key fst ws)) = set (map int [0..<nat n])"
    using assms(2) by (cases "0 \<le> n") (simp_all add: image_int_atLeastLessThan)
qed simp


lemma download_content:
  assumes "client_inv img s" and "chunkcount s = 0" and "int (length img) mod (1024 * 1024) = 0"
  shows "concat (map snd (sort_key fst (written s))) = img"
proof -
  let ?f = "\<lambda>c. take (1024 * 1024) (drop (nat c * (1024 * 1024)) img)"
  note w = written_facts [OF assms(1)]
  have "map snd (sort_key fst (written s)) = map (?f \<circ> fst) (sort_key fst (written s))"
  proof (rule map_cong [OF refl])
    fix x
    assume "x \<in> set (sort_key fst (written s))"
    then have x: "x \<in> set (written s)" by simp
    then have "fst x \<in> {0..<nchunks img}" using w(2) by blast
    then show "snd x = (?f \<circ> fst) x" using whole_chunk_content [OF w(3) [OF x] assms(3)] by simp
  qed
  also have "\<dots> = map ?f (map fst (sort_key fst (written s)))" by simp
  also have "\<dots> = map (\<lambda>k. take (1024 * 1024) (drop (k * (1024 * 1024)) img)) [0..<nat (nchunks img)]"
    unfolding sorted_chunks [OF w(1) w(4) [OF assms(2)]] by simp
  finally have "concat (map snd (sort_key fst (written s))) = take (nat (nchunks img) * (1024 * 1024)) img"
    by (simp only: concat_slices)
  moreover have "length img \<le> nat (nchunks img) * (1024 * 1024)" by (rule image_covered)
  ultimately show ?thesis by simp
qed


section \<open>An example\<close>

text \<open>A client with one buffer, at the start of a download of an image of one byte.\<close>

definition buf_example :: chunkbuf where
  "buf_example = \<lparr>thischunk = 0, state = CHUNK_EMPTY, blockcount = 0, blockmap = replicate 128 0,
     bufdata = replicate 1024 (replicate 1024 0)\<rparr>"

definition net_example :: net where
  "net_example = \<lparr>myipaddr = 2, mcastaddr = 9, sndportnum = 7\<rparr>"

definition client_example :: client where
  "client_example = client_recv_init
     (init_chunks (geometry (int (length [7 :: byte]))) [buf_example] [] (client_static (\<lambda>_. 5) (\<lambda>_. Sent)))"

lemma client_example_start: "client_start [7] client_example"
proof -
  have "net_ok (client_static (\<lambda>_. 5) (\<lambda>_. Sent))"
    by (auto simp: net_ok_def client_static_def retried_def intro: exI [of _ 0])
  moreover have "\<forall>b \<in> set [buf_example]. buf_shape b" by (simp add: buf_shape_def buf_example_def)
  ultimately show ?thesis unfolding client_start_def client_example_def
    by (intro exI [of _ "client_static (\<lambda>_. 5) (\<lambda>_. Sent)"] exI [of _ "[buf_example]"] exI [of _ "[]"]) simp
qed

lemmas client_example_inv = client_sys.inv_init [OF client_example_start]

lemma client_example_simps:
  "ChunkBuffer client_example = [buf_example]" "chunk_at client_example 0 = \<lparr>lastreq = 0, ours = False, seen = False, finished = False\<rparr>"
  "redodelay client_example = 1000000" "main_phase client_example = Running" "child_error client_example = False"
  "nchunks [7] = 1" "serverip client_example = 0" "servertimo client_example = 0" "maxreadahead client_example = 2"
  "maxinprogress client_example = 8" "chunkcount client_example = 1"
  by (simp_all add: client_example_def client_recv_init_def init_chunks_def client_static_def CLIENT_REQUEST_REDO_DELAY_def
      MAXREADAHEAD_def MAXINPROGRESS_def geometry_def TotalChunks_def nchunks_def chunk_at_def buf_example_def)

text \<open>The same client after the receive thread has started to collect the chunk.\<close>

definition filling_example :: client where
  "filling_example = the (start_chunk 0 0 client_example)"

lemma filling_example:
  "client_inv [7] filling_example" "0 < length (ChunkBuffer filling_example)" "collecting 0 (ChunkBuffer filling_example ! 0)"
proof -
  have "0 < length (ChunkBuffer client_example)" "state (ChunkBuffer client_example ! 0) = CHUNK_EMPTY"
    "0 < nchunks [7]" "\<not> seen (chunk_at client_example 0)"
    by (simp_all add: client_example_simps buf_example_def)
  from start_chunk_spec [OF client_example_inv this(1,2) order_refl this(3,4)]
  obtain s where "start_chunk 0 0 client_example = Some s" "client_inv [7] s" "length (ChunkBuffer s) = length (ChunkBuffer client_example)"
    "collecting 0 (ChunkBuffer s ! 0)" by auto
  then show "client_inv [7] filling_example" "0 < length (ChunkBuffer filling_example)"
    "collecting 0 (ChunkBuffer filling_example ! 0)" by (simp_all add: filling_example_def client_example_simps)
qed

section \<open>Properties\<close>



text \<open>
  C19. The client asks for exactly what it misses. For a buffer that collects a chunk, \<^const>\<open>RequestMissing\<close> returns and
  sends one partial request whose map holds the blocks of the chunk that the buffer does not have yet: none twice, none beyond
  the end of the image, and at least one. The request is marked as a retry if the client asked for the chunk before.
\<close>

theorem client_requests_missing:
  assumes "client_inv img s" and "i < length (ChunkBuffer s)" and "collecting c (ChunkBuffer s ! i)"
  shows "\<exists>m s'. RequestMissing nt c (blockmap (ChunkBuffer s ! i)) (blockcount (ChunkBuffer s ! i)) s = Some s' \<and>
    client_inv img s' \<and> outbox s' = outbox s @ [missing_request nt c m (ours (chunk_at s c))] \<and>
    blocks m = {..<nat (csize img c)} - blocks (blockmap (ChunkBuffer s ! i)) \<and> blocks m \<noteq> {}"
proof -
  let ?b = "ChunkBuffer s ! i"
  have c: "thischunk ?b = c" "state ?b \<noteq> CHUNK_EMPTY" "state ?b \<noteq> CHUNK_FULL" using assms(3) by (auto simp: collecting_def)
  have ok: "0 \<le> c" "c < nchunks img" "BlockMap_t (blockmap ?b)" "blocks (blockmap ?b) \<subseteq> {..<nat (csize img c)}"
    "blockcount ?b = csize img c - int (card (blocks (blockmap ?b)))" "blockcount ?b \<noteq> 0"
    using buf_okD [OF assms(1,2)] c by (auto simp: buf_ok_def)
  from RequestMissing_spec [OF client_invD(1) [OF assms(1)] ok(1-5), of nt] obtain m s' where
    r: "RequestMissing nt c (blockmap ?b) (blockcount ?b) s = Some s'" "soft img s s'"
    "outbox s' = outbox s @ [missing_request nt c m (ours (chunk_at s c))]"
    "blocks m = {..<nat (csize img c)} - blocks (blockmap ?b)" by auto
  have "blocks m \<noteq> {}"
  proof
    assume "blocks m = {}"
    then have "blocks (blockmap ?b) = {..<nat (csize img c)}" using r(4) ok(4) by blast
    then show False using ok(5,6) csize_range [OF ok(2)] by simp
  qed
  then show ?thesis using r soft_client_inv [OF r(2) assms(1)] by blast
qed

theorem client_requests_missing_witness:
  "\<exists>m s'. RequestMissing net_example 0 (blockmap (ChunkBuffer filling_example ! 0))
     (blockcount (ChunkBuffer filling_example ! 0)) filling_example = Some s' \<and> blocks m \<noteq> {}"
  using client_requests_missing [OF filling_example] by blast

text \<open>
  C4. A download is right whenever it ends, and nothing is ever written twice. In every state that turns of the two threads
  reach from the start, in any interleaving and on any packets that carry blocks of the image: the chunks written are distinct chunks
  of the image, each with the bytes of its place (as many as \<^const>\<open>ChunkBytes\<close> says); and when the main loop's count is
  zero every chunk has been written. For an image of whole megabytes, which is what imagezip makes, the chunks in order are
  then the image.
\<close>

theorem download_correct:
  assumes "client_start img s0" and "(client_turn img nt)\<^sup>*\<^sup>* s0 s"
  shows "distinct (map fst (written s)) \<and> fst ` set (written s) \<subseteq> {0..<nchunks img} \<and>
    (\<forall>w \<in> set (written s). write_ok img w) \<and>
    (chunkcount s = 0 \<longrightarrow> fst ` set (written s) = {0..<nchunks img}) \<and>
    (chunkcount s = 0 \<and> int (length img) mod (1024 * 1024) = 0 \<longrightarrow> concat (map snd (sort_key fst (written s))) = img)"
proof -
  have inv: "client_inv img s"
    by (rule client_sys.reach_steps_inv [OF client_sys.inv_init [OF assms(1)] assms(2)])
  note w = written_facts [OF inv] download_content [OF inv]
  show ?thesis
  proof (intro conjI ballI impI)
    show "write_ok img x" if "x \<in> set (written s)" for x by (rule w(3) [OF that])
    show "concat (map snd (sort_key fst (written s))) = img"
      if "chunkcount s = 0 \<and> int (length img) mod (1024 * 1024) = 0"
      by (rule w(5)) (use that in blast)+
  qed (rule w(1,2,4); assumption)+
qed

theorem download_correct_witness:
  "\<exists>s. (client_turn [7] net_example)\<^sup>*\<^sup>* client_example s \<and> (\<forall>w \<in> set (written s). write_ok [7] w)"
  using download_correct [OF client_example_start rtranclp.rtrancl_refl] by blast

text \<open>
  A chunk may be asked for again once its last request is as old as the delay, as long as it is younger than
  \<open>2\<^sup>3\<^sup>1\<close> microseconds (about 36 minutes). The elapsed time is then cut to a negative
  \<^verbatim>\<open>int\<close>: for as long again \<^const>\<open>RequestRedoTime\<close> answers no, however old the request is.
\<close>

theorem redo_time:
  assumes "lastreq (chunk_at s c) \<noteq> 0" and "0 < redodelay s" and "lastreq (chunk_at s c) \<le> now"
    and "now - lastreq (chunk_at s c) < 2 ^ 32"
  shows "RequestRedoTime c now s \<longleftrightarrow>
    redodelay s \<le> now - lastreq (chunk_at s c) \<and> now - lastreq (chunk_at s c) < 2 ^ 31"
proof -
  define d where "d = now - lastreq (chunk_at s c)"
  have "to_i32 (to_u64 d) = (if d < 2 ^ 31 then d else d - 2 ^ 32)"
  proof (cases "d < 2 ^ 31")
    case False
    have "(d + 2 ^ 31) mod 2 ^ 32 = (d + 2 ^ 31 - 2 ^ 32) mod 2 ^ 32"
      by (rule mod_pos_geq) (use False in simp_all)
    also have "\<dots> = d - 2 ^ 31" using False assms(4) unfolding d_def [symmetric] by simp
    finally show ?thesis using False assms(3,4) by (simp add: to_i32_def to_u64_def d_def)
  qed (use assms(3,4) in \<open>simp add: to_i32_def to_u64_def d_def\<close>)
  then show ?thesis using assms by (auto simp: RequestRedoTime_def d_def)
qed

theorem redo_time_witness:
  "\<not> RequestRedoTime 0 (2 ^ 31 + 5) (stamp_chunk 0 client_example) \<and> RequestRedoTime 0 (1000000 + 5) (stamp_chunk 0 client_example)"
  using redo_time [of "stamp_chunk 0 client_example" 0 "2 ^ 31 + 5"] redo_time [of "stamp_chunk 0 client_example" 0 "1000000 + 5"]
  by (simp add: stamp_chunk_def client_example_def client_recv_init_def init_chunks_def client_static_def set_chunk_def chunk_at_def
      geometry_def TotalChunks_def CLIENT_REQUEST_REDO_DELAY_def)

text \<open>
  C33. A request for no block ends the client. While a client collects a chunk and delays requests, a valid
  packet of any other host that requests zero blocks of that chunk makes it fail the assertion of \<^verbatim>\<open>BlockMapIsAlloc\<close>.
\<close>

theorem empty_request_aborts:
  assumes "client_inv img s" and "i < length (ChunkBuffer s)" and "collecting c (ChunkBuffer s ! i)" and "redodelay s \<noteq> 0"
    and "\<not> child_error s" and "main_phase s = Running" and "msg p = Request c b 0" and "PacketValid p (nchunks img)"
    and "PacketReceive nt (Recv mlen addr port p) = Some 0"
  shows "ClientRecvThread nt kafailed (Recv mlen addr port p) s = None"
proof (rule bad_request_fails [OF assms(1)])
  have "TotalChunks (sizes_of s) = nchunks img" using client_invD(1) [OF assms(1)] by (simp add: req_inv_def nchunks_def)
  then show "bad_request nt s (Recv mlen addr port p)"
    using assms(2-9) nth_mem [OF assms(2)] by (auto simp: bad_request_def in_chunk_def)
qed

theorem empty_request_aborts_witness:
  "ClientRecvThread net_example False (Recv 100 4 7 \<lparr>hdr_type = PKTTYPE_REQUEST, hdr_datalen = 12, hdr_srcip = 4,
     msg = Request 0 0 0\<rparr>) filling_example = None"
proof -
  have "start_chunk 0 0 client_example = Some filling_example" "redodelay filling_example \<noteq> 0" "\<not> child_error filling_example"
    "main_phase filling_example = Running"
    by (simp_all add: filling_example_def start_chunk_def client_example_def client_recv_init_def init_chunks_def client_static_def
        set_chunk_def set_buf_def CLIENT_REQUEST_REDO_DELAY_def geometry_def ChunkSize_def TotalChunks_def Let_def)
  moreover have "PacketValid \<lparr>hdr_type = PKTTYPE_REQUEST, hdr_datalen = 12, hdr_srcip = 4, msg = Request 0 0 0\<rparr> (nchunks [7])"
    by (simp add: PacketValid_def msg_valid_def client_example_simps MAXCHUNKSIZE_def to_i32_def to_u64_def)
  ultimately show ?thesis
    by (intro empty_request_aborts [OF filling_example]) (simp_all add: net_example_def to_u64_def sizeof_hdr_def)
qed

end
