(* ===== verification/ClientMain.thy ===== *)
theory ClientMain
  imports Download
begin

text \<open>
  The client around its two threads (client.c: the tunable limits set by the options in \<^verbatim>\<open>main\<close>, and \<^verbatim>\<open>PlayFrisbee\<close>:
  the join handshake, the adjustment of the limits to the size of the image, the start of the threads, the leave
  message). Built without \<^verbatim>\<open>USE_REUSEADDR_COMPAT\<close> and \<^verbatim>\<open>DOEVENTS\<close>.
\<close>

section \<open>Limits\<close>

definition DEFCHUNKBUFS :: int where "DEFCHUNKBUFS = 64"

definition MAXCHUNKBUFS :: int where "MAXCHUNKBUFS = 128 * 1024"

definition DEFWRITEBUFMEM :: int where "DEFWRITEBUFMEM = 64"

definition MAXWRITEBUFMEM :: int where "MAXWRITEBUFMEM = 128 * 1024"

definition MAXMEMUSE :: int where "MAXMEMUSE = 256 * 1024"

definition SOCKBUFSIZE :: int where "SOCKBUFSIZE = 1 * 1024 * 1024"

definition MAXSOCKBUFSIZE :: int where "MAXSOCKBUFSIZE = 4 * 1024 * 1024"

record tunables =
  maxchunkbufs :: int
  maxwritebufmem :: int
  maxmem :: int
  sockbufsize :: int
  readahead :: int
  in_progress :: int
  redo_delay :: int
  keep_alive :: int

definition tunables_static :: tunables where
  "tunables_static = \<lparr>maxchunkbufs = DEFCHUNKBUFS, maxwritebufmem = DEFWRITEBUFMEM, maxmem = 0, sockbufsize = SOCKBUFSIZE,
     readahead = MAXREADAHEAD, in_progress = MAXINPROGRESS, redo_delay = CLIENT_REQUEST_REDO_DELAY, keep_alive = 0\<rparr>"

text \<open>The options that set limits, with the number that \<^verbatim>\<open>atoi\<close> read.\<close>

datatype client_opt = Opt_k int | Opt_C int | Opt_W int | Opt_M int | Opt_R int | Opt_I int | Opt_K int

definition clamp :: "int \<Rightarrow> int \<Rightarrow> int \<Rightarrow> int" where
  "clamp low high mem = (if mem < low then max low 1 else if mem > high then high else mem)"

fun client_option :: "client_opt \<Rightarrow> tunables \<Rightarrow> tunables" where
  "client_option (Opt_k mem) t =
     t\<lparr>sockbufsize := (if mem \<le> 0 \<or> to_i32 (mem * 1024) > MAXSOCKBUFSIZE then MAXSOCKBUFSIZE else to_i32 (mem * 1024))\<rparr>"
| "client_option (Opt_C mem) t = t\<lparr>maxchunkbufs := clamp 0 MAXCHUNKBUFS mem\<rparr>"
| "client_option (Opt_W mem) t = t\<lparr>maxwritebufmem := clamp 0 MAXWRITEBUFMEM mem\<rparr>"
| "client_option (Opt_M mem) t = t\<lparr>maxmem := clamp 2 MAXMEMUSE mem\<rparr>"
| "client_option (Opt_R n) t =
     (let t1 = t\<lparr>readahead := n\<rparr>; n4 = to_i32 (n * 4) in
      if in_progress t1 < n4 then
        t1\<lparr>in_progress := (if maxchunkbufs t1 > 0 \<and> n4 > maxchunkbufs t1 then maxchunkbufs t1 else n4)\<rparr>
      else t1)"
| "client_option (Opt_I n) t = t\<lparr>redo_delay := (if to_i32 (n * 1000) < 0 then 0 else to_i32 (n * 1000))\<rparr>"
| "client_option (Opt_K n) t = t\<lparr>keep_alive := (if n < 0 then 0 else n)\<rparr>"

text \<open>
  The size of \<^verbatim>\<open>ChunkBuffer_t\<close>: three \<^verbatim>\<open>int\<close>s, the bitmap and the blocks. Memory given by \<^verbatim>\<open>-M\<close> is divided
  between chunk buffers and write buffers; after the join the excess of the former goes to the latter.
\<close>

definition sizeof_ChunkBuffer :: int where
  "sizeof_ChunkBuffer = 3 * 4 + MAXCHUNKSIZE div 8 + MAXCHUNKSIZE * MAXBLOCKSIZE"

definition memory_limits :: "tunables \<Rightarrow> tunables" where
  "memory_limits t =
     (if maxmem t \<noteq> 0 then
        t\<lparr>maxchunkbufs := to_i32 (to_u64 (maxmem t) div 2 * 1024 * 1024 div sizeof_ChunkBuffer),
          maxwritebufmem := c_div (maxmem t) 2\<rparr>
      else t)"

definition keepalive_limit :: "bool \<Rightarrow> int \<Rightarrow> tunables \<Rightarrow> tunables" where
  "keepalive_limit broadcast addr t =
     (if broadcast \<or> to_u32 addr div 2 ^ 28 \<noteq> 14 then t\<lparr>keep_alive := 0\<rparr> else t)"

definition give_excess :: "int \<Rightarrow> tunables \<Rightarrow> tunables" where
  "give_excess nch t =
     (if maxmem t \<noteq> 0 then
        let excessmb = to_i32 (to_u64 (maxchunkbufs t - nch) * sizeof_ChunkBuffer div (1024 * 1024)) in
        if excessmb > 0 then t\<lparr>maxwritebufmem := maxwritebufmem t + excessmb\<rparr> else t
      else t)"

definition adjust_limits :: "int \<Rightarrow> tunables \<Rightarrow> tunables" where
  "adjust_limits nch t0 =
     (let t = (if maxchunkbufs t0 = 0 then t0\<lparr>maxchunkbufs := nch\<rparr> else t0) in
      if maxchunkbufs t > nch then
        (give_excess nch t)\<lparr>maxchunkbufs := nch,
          in_progress := (if in_progress t > nch then nch else in_progress t),
          readahead := (if readahead t > nch then nch else readahead t)\<rparr>
      else t)"

section \<open>Joining\<close>

definition join_packet :: "bool \<Rightarrow> int \<Rightarrow> packet" where
  "join_packet nodecompress myid =
     \<lparr>hdr_type = PKTTYPE_REQUEST, hdr_datalen = (if nodecompress then 24 else 4), hdr_srcip = 0,
      msg = (if nodecompress then Join2 myid 0 MAXCHUNKSIZE MAXBLOCKSIZE 0 else Join myid)\<rparr>"

text \<open>
  A packet that ends the wait for a reply. \<^verbatim>\<open>msg.join.clientid\<close> is the first word of the message; it is compared only
  for the second version of the protocol.
\<close>

definition join_accepts :: "bool \<Rightarrow> int \<Rightarrow> packet \<Rightarrow> bool" where
  "join_accepts nodecompress myid p \<longleftrightarrow> hdr_type p = PKTTYPE_REPLY \<and>
     (case msg p of Join w \<Rightarrow> \<not> nodecompress | Join2 clientid _ _ _ _ \<Rightarrow> nodecompress \<and> clientid = myid | _ \<Rightarrow> False)"

text \<open>
  The loop, on the readings of the clock and what \<^verbatim>\<open>recvfrom\<close> returns, turn by turn. It ends with the reply, or is
  still waiting when the inputs are used up; then the last \<^verbatim>\<open>rv\<close> and the time of the next join message are returned.
\<close>

datatype joined = Joined packet | Waiting int int

fun join_loop :: "net \<Rightarrow> bool \<Rightarrow> int \<Rightarrow> (int \<times> recv) list \<Rightarrow> int \<Rightarrow> int \<Rightarrow> client \<Rightarrow> (joined \<times> client) option" where
  "join_loop nt nodecompress myid [] rv timeo s = Some (Waiting rv timeo, s)"
| "join_loop nt nodecompress myid ((now, r) # rest) rv timeo s = do {
     (timeo', s') \<leftarrow> (if rv \<noteq> 0 \<and> timeo \<le> now then do {
         s1 \<leftarrow> send_packet nt (join_packet nodecompress myid) s;
         Some (now + 500000, s1)
       } else Some (timeo, s));
     rv' \<leftarrow> PacketReceive nt r;
     (case r of
        Recv mlen addr port p \<Rightarrow>
          if rv' = 0 \<and> join_accepts nodecompress myid p then Some (Joined p, s')
          else join_loop nt nodecompress myid rest rv' timeo' s'
      | _ \<Rightarrow> join_loop nt nodecompress myid rest rv' timeo' s')
   }"

text \<open>What the reply says about the sizes; a first-version reply only has the number of blocks.\<close>

definition join_sizes :: "packet \<Rightarrow> sizes option" where
  "join_sizes p =
     (case msg p of
        Join w \<Rightarrow> InitSizes MAXCHUNKSIZE MAXBLOCKSIZE (to_i64 (to_i32 w * MAXBLOCKSIZE))
      | Join2 _ _ chunksize blocksize bytecount \<Rightarrow> InitSizes chunksize blocksize (to_i64 bytecount)
      | _ \<Rightarrow> None)"

text \<open>From the reply to the two threads; \<open>mem\<close> is what \<^verbatim>\<open>malloc\<close> gave for the buffers.\<close>

definition start_threads ::
    "tunables \<Rightarrow> sizes \<Rightarrow> (nat \<Rightarrow> chunkbuf) \<Rightarrow> (nat \<times> nat) list \<Rightarrow> client \<Rightarrow> tunables \<times> client" where
  "start_threads t0 sz mem swaps s =
     (let t = adjust_limits (TotalChunks sz) t0;
          s1 = s\<lparr>redodelay := redo_delay t, maxreadahead := readahead t, maxinprogress := in_progress t,
                 keepalive := keep_alive t\<rparr> in
      (t, client_recv_init (init_chunks sz (map mem [0..<nat (maxchunkbufs t)]) swaps s1)))"

definition leave_packet :: "int \<Rightarrow> int \<Rightarrow> packet" where
  "leave_packet myid elapsed =
     \<lparr>hdr_type = PKTTYPE_REQUEST, hdr_datalen = sizeof_msg (Leave2 myid elapsed), hdr_srcip = 0, msg = Leave2 myid elapsed\<rparr>"

definition start_delay :: "int \<Rightarrow> int \<Rightarrow> int \<Rightarrow> int" where
  "start_delay startat startdelay rnd =
     (if startat > 0 then startat * 1000 else if startdelay > 0 then rnd mod (startdelay * 1000) else 0)"


section \<open>Bounds of the limits\<close>

definition limits_ok :: "tunables \<Rightarrow> bool" where
  "limits_ok t \<longleftrightarrow> 0 \<le> maxchunkbufs t \<and> maxchunkbufs t \<le> MAXCHUNKBUFS \<and>
     (maxmem t = 0 \<or> 2 \<le> maxmem t \<and> maxmem t \<le> MAXMEMUSE) \<and> 1 \<le> in_progress t"

lemma client_option_ok: "limits_ok t \<Longrightarrow> limits_ok (client_option opt t)"
  by (cases opt) (auto simp: limits_ok_def clamp_def Let_def MAXCHUNKBUFS_def MAXMEMUSE_def)

lemma options_ok: "limits_ok t \<Longrightarrow> limits_ok (fold client_option opts t)"
  by (induction opts arbitrary: t) (simp_all add: client_option_ok)

lemma static_ok: "limits_ok tunables_static"
  by (simp add: limits_ok_def tunables_static_def DEFCHUNKBUFS_def MAXCHUNKBUFS_def MAXINPROGRESS_def)

lemma memory_limits_exact:
  assumes "2 \<le> maxmem t" and "maxmem t \<le> MAXMEMUSE"
  shows "maxchunkbufs (memory_limits t) = maxmem t div 2 * 1048576 div 1048716"
proof -
  define h where "h = maxmem t div 2"
  have h: "1 \<le> h" "h \<le> 131072" using assms by (simp_all add: h_def MAXMEMUSE_def)
  have "h * 1048576 div 1048716 \<le> h * 1048576 div 1048576" by (rule zdiv_mono2) (use h in simp_all)
  then have "h * 1048576 div 1048716 \<le> 131072" using h by simp
  moreover have "0 \<le> h * 1048576 div 1048716" using h by simp
  moreover have "to_u64 (maxmem t) = maxmem t" using assms by (simp add: to_u64_id MAXMEMUSE_def)
  ultimately show ?thesis using assms
    by (simp add: memory_limits_def sizeof_ChunkBuffer_def MAXCHUNKSIZE_def MAXBLOCKSIZE_def to_i32_id h_def mult.assoc)
qed

lemma memory_limits_small:
  assumes "2 \<le> maxmem t" and "maxmem t \<le> MAXMEMUSE"
  shows "maxchunkbufs (memory_limits t) = 0 \<longleftrightarrow> maxmem t < 4"
proof -
  define h where "h = maxmem t div 2"
  have "h * 1048576 div 1048716 = 0 \<longleftrightarrow> h < 2" using assms(1) by (auto simp: h_def div_eq_0_iff)
  moreover have "h < 2 \<longleftrightarrow> maxmem t < 4" unfolding h_def by linarith
  ultimately show ?thesis unfolding memory_limits_exact [OF assms] h_def by simp
qed

lemma adjust_limits_bufs:
  "maxchunkbufs (adjust_limits n t) = (if maxchunkbufs t = 0 \<or> n < maxchunkbufs t then n else maxchunkbufs t)"
  by (simp add: adjust_limits_def Let_def)

section \<open>Properties\<close>

text \<open>
  C34. The limits that the options leave. Whatever options are given, after the join there is at least one chunk buffer and no more
  than the image has chunks, and at least one chunk may be in progress. A limit on the memory
  of 4 MB or more is kept by the buffers; with the smallest ones, 2 and 3 MB, the division leaves no buffer, which is
  then taken to mean as many buffers as chunks: the memory is not limited at all.
\<close>

theorem buffer_limits:
  assumes "1 \<le> n" and "t = fold client_option opts tunables_static"
  shows "1 \<le> maxchunkbufs (adjust_limits n (memory_limits t)) \<and> maxchunkbufs (adjust_limits n (memory_limits t)) \<le> n \<and>
    1 \<le> in_progress (adjust_limits n (memory_limits t)) \<and>
    (4 \<le> maxmem t \<longrightarrow>
      maxchunkbufs (adjust_limits n (memory_limits t)) * sizeof_ChunkBuffer \<le> maxmem t div 2 * (1024 * 1024)) \<and>
    (maxmem t = 2 \<or> maxmem t = 3 \<longrightarrow> maxchunkbufs (adjust_limits n (memory_limits t)) = n)"
proof -
  have ok: "limits_ok t" using options_ok [OF static_ok] assms(2) by simp
  have prog: "in_progress (memory_limits t) = in_progress t" by (simp add: memory_limits_def)
  have nn: "0 \<le> maxchunkbufs (memory_limits t)"
    using ok memory_limits_exact [of t] by (cases "maxmem t = 0") (simp_all add: limits_ok_def memory_limits_def [of t] div_int_pos_iff)
  have big: "maxchunkbufs (adjust_limits n (memory_limits t)) * sizeof_ChunkBuffer \<le> maxmem t div 2 * (1024 * 1024)" if "4 \<le> maxmem t"
  proof -
    have m: "2 \<le> maxmem t" "maxmem t \<le> MAXMEMUSE" using that ok by (simp_all add: limits_ok_def)
    then have "maxchunkbufs (adjust_limits n (memory_limits t)) \<le> maxmem t div 2 * 1048576 div 1048716"
      using memory_limits_small [OF m] that memory_limits_exact [OF m] by (simp add: adjust_limits_bufs)
    then have "maxchunkbufs (adjust_limits n (memory_limits t)) * 1048716 \<le> maxmem t div 2 * 1048576 div 1048716 * 1048716" by simp
    also have "\<dots> \<le> maxmem t div 2 * 1048576"
      using minus_mod_eq_div_mult [of "maxmem t div 2 * 1048576" 1048716, symmetric] by (simp only:)
    finally show ?thesis by (simp add: sizeof_ChunkBuffer_def MAXCHUNKSIZE_def MAXBLOCKSIZE_def)
  qed
  have "maxchunkbufs (adjust_limits n (memory_limits t)) = n" if "maxmem t = 2 \<or> maxmem t = 3"
    using memory_limits_small [of t] that by (auto simp: adjust_limits_bufs MAXMEMUSE_def)
  moreover have "1 \<le> in_progress (adjust_limits n (memory_limits t))"
    using ok prog assms(1) by (simp add: adjust_limits_def give_excess_def Let_def limits_ok_def)
  ultimately show ?thesis using big nn assms(1) by (simp add: adjust_limits_bufs)
qed

theorem buffer_limits_witness:
  "maxchunkbufs (adjust_limits 5000 (memory_limits (fold client_option [Opt_M 2] tunables_static))) = 5000"
  using buffer_limits [of 5000 _ "[Opt_M 2]", OF _ refl]
  by (simp add: tunables_static_def clamp_def MAXMEMUSE_def)

text \<open>
  A busy network starves the join. The client sends its join message again only in a turn that follows a
  receive that failed. While every receive returns a packet, however long that lasts and however old the last join message
  is, no further one is sent: after the first message the client waits without asking again.
\<close>

theorem join_starves:
  assumes "\<forall>(now, r) \<in> set ins. \<exists>mlen addr port p. r = Recv mlen addr port p \<and> PacketReceive nt r = Some 0 \<and>
      \<not> join_accepts nodecompress myid p"
  shows "join_loop nt nodecompress myid ins 0 timeo s = Some (Waiting 0 timeo, s)"
  using assms by (induction ins) (auto simp del: PacketReceive.simps)

theorem join_starves_witness:
  "join_loop net_example False 3 [(10 ^ 12, Recv 1100 4 7 \<lparr>hdr_type = PKTTYPE_REQUEST, hdr_datalen = 1032, hdr_srcip = 4,
      msg = Block 0 0 []\<rparr>)] 0 5 client_example = Some (Waiting 0 5, client_example)"
  by (rule join_starves) (simp add: net_example_def to_u64_def sizeof_hdr_def join_accepts_def)

end
