(* ===== verification/System.thy ===== *)
theory System
  imports Sender ClientMain
begin

text \<open>
  The whole: a server and a client on a network that loses, repeats, reorders and delays packets and that other hosts use as
  well. The theory shows that the join handshake makes both sides cut the image in the same way, that a server's packets are
  blocks of the image as the client sees it, and that a download over such a network is right.
\<close>

section \<open>The image a client sees\<close>

text \<open>
  The first version of the join reply gives the number of blocks only: the client then sees the image filled up with zero bytes to
  whole blocks, which is also how the server sends the last block.
\<close>

definition whole_image :: "byte list \<Rightarrow> byte list" where
  "whole_image img = img @ replicate (nat (1024 * TotalBlocks (geometry (int (length img)))) - length img) 0"

definition seen_image :: "bool \<Rightarrow> byte list \<Rightarrow> byte list" where
  "seen_image nodecompress img = (if nodecompress then img else whole_image img)"

lemma TotalBlocks_bounds:
  assumes "0 \<le> n"
  shows "n \<le> 1024 * TotalBlocks (geometry n)" and "1024 * TotalBlocks (geometry n) < n + 1024"
    and "0 \<le> TotalBlocks (geometry n)"
  using TotalBlocks_iff [of "TotalBlocks (geometry n)" n] TotalBlocks_iff [of "TotalBlocks (geometry n) - 1" n]
    TotalBlocks_iff [of "- 1" n] assms by simp_all

lemma length_whole_image: "int (length (whole_image img)) = 1024 * TotalBlocks (geometry (int (length img)))"
  using TotalBlocks_bounds(1) [of "int (length img)"] by (simp add: whole_image_def)

lemma whole_image_geometry:
  shows "TotalBlocks (geometry (int (length (whole_image img)))) = TotalBlocks (geometry (int (length img)))" (is "?a = ?b")
    and "TotalChunks (geometry (int (length (whole_image img)))) = TotalChunks (geometry (int (length img)))"
proof -
  have iff: "b < ?a \<longleftrightarrow> b < ?b" for b
    using TotalBlocks_iff [of b "int (length (whole_image img))"] by (simp add: length_whole_image)
  show eq: "?a = ?b" using iff [of ?a] iff [of ?b] by simp
  show "TotalChunks (geometry (int (length (whole_image img)))) = TotalChunks (geometry (int (length img)))" (is "?c = ?d")
    using TotalChunks_iff [of ?c "int (length img)"] TotalChunks_iff [of ?d "int (length (whole_image img))"]
      TotalChunks_iff [of ?c "int (length (whole_image img))"] TotalChunks_iff [of ?d "int (length img)"] eq by simp
qed

lemma seen_image_counts:
  "nchunks (seen_image nd img) = nchunks img" "csize (seen_image nd img) c = csize img c"
  by (simp_all add: seen_image_def nchunks_def csize_def whole_image_geometry)

lemma block_slice_whole:
  assumes "0 \<le> c * 1024 + b" and "(c * 1024 + b) * 1024 < int (length img)"
  shows "block_slice (whole_image img) c b = image_block img c b"
proof -
  define st where "st = nat ((c * 1024 + b) * 1024)"
  define pad where "pad = nat (1024 * TotalBlocks (geometry (int (length img)))) - length img"
  obtain k where k: "c * 1024 + b = int k" using assms(1) by (rule nonneg_int_cases)
  have st: "st < length img" "1024 dvd st" using assms(2) unfolding st_def k by (simp_all add: nat_mult_distrib)
  have tot: "1024 dvd length img + pad" "pad < 1024"
    using TotalBlocks_bounds [of "int (length img)"] by (auto simp: pad_def nat_mult_distrib)
  have "st + 1024 \<le> length img + pad"
  proof -
    obtain i j where ij: "st = 1024 * i" "length img + pad = 1024 * j" using st(2) tot(1) by (auto elim!: dvdE)
    then have "i < j" using st(1) by linarith
    then show ?thesis using ij by simp
  qed
  then show ?thesis using st(1) tot(2)
    unfolding block_slice_def image_block_def padded_def whole_image_def st_def [symmetric] pad_def [symmetric]
    by (auto simp: min_def)
qed

lemma seen_carries:
  assumes "0 \<le> c * 1024 + b" and "(c * 1024 + b) * 1024 < int (length img)"
  shows "carries (seen_image nd img) c b (image_block img c b)"
proof (cases nd)
  case True
  then show ?thesis by (simp add: seen_image_def image_block_carries)
next
  case False
  have "length (image_block img c b) = 1024" using length_block_slice [of img c b] by (simp add: image_block_def padded_def)
  then show ?thesis using False block_slice_whole [OF assms] by (simp add: seen_image_def carries_def)
qed

lemma genuine_fair:
  assumes "genuine nt img p"
  shows "fair_packet (seen_image nd img) p \<and> packet_typed p"
proof (cases "msg p")
  case (Block c b buf)
  have g: "0 \<le> c" "0 \<le> b" "b < 1024" "(c * 1024 + b) * 1024 < int (length img)" "buf = image_block img c b"
    using assms Block by (auto simp: genuine_def in_image_def block_packet_def)
  have "b < csize img c"
    using g TotalBlocks_iff [of "c * 1024 + b" "int (length img)"] by (simp add: csize_def)
  then show ?thesis using g seen_carries [of c b img nd] Block
    by (simp add: fair_packet_def packet_typed_def seen_image_counts)
qed (use assms in \<open>auto simp: genuine_def fair_packet_def packet_typed_def\<close>)


text \<open>An image of whole megabytes is seen as it is.\<close>

lemma seen_image_id:
  assumes "int (length img) mod (1024 * 1024) = 0"
  shows "seen_image nd img = img"
proof -
  obtain k where k: "int (length img) = 1024 * 1024 * k" using assms by (auto simp: mod_eq_0_iff_dvd dvd_def)
  define n where "n = int (length img)"
  have "n = 1024 * (1024 * k)" using k by (simp add: n_def)
  then have "1024 * TotalBlocks (geometry n) \<le> n"
    using TotalBlocks_iff [of "1024 * k" n] by simp
  then show ?thesis by (simp add: seen_image_def whole_image_def n_def)
qed

section \<open>The join handshake\<close>

lemma geometry_whole: "geometry (int (length (whole_image img))) = geometry (1024 * TotalBlocks (geometry (int (length img))))"
  by (simp only: length_whole_image)

lemma join_sizes_reply:
  assumes "size_ok (int (length img))" and "init_file_info (int (length img)) = Some (sz, fi)"
    and "0 \<le> myid" and "myid < 2 ^ 32"
    and "join_reply sz fi (if nodecompress then - 2 else - 1) (to_i32 myid) = Some p"
  shows "join_accepts nodecompress myid (p\<lparr>hdr_srcip := ip\<rparr>)"
    and "join_sizes (p\<lparr>hdr_srcip := ip\<rparr>) = Some (geometry (int (length (seen_image nodecompress img))))"
proof -
  note fi = init_file_info_spec [OF assms(1,2)]
  define n where "n = int (length img)"
  define tb where "tb = TotalBlocks (geometry n)"
  have n: "0 \<le> n" "n \<le> (2 ^ 31 - 1024) * 1024" using assms(1) by (simp_all add: size_ok_def n_def)
  have tb: "0 \<le> tb" "n \<le> 1024 * tb" "1024 * tb < n + 1024" using TotalBlocks_bounds [OF n(1)] by (simp_all add: tb_def)
  then have small: "tb \<le> 2 ^ 31 - 1024" using n(2) by simp
  have id: "to_u32 (to_i32 myid) = myid"
    using assms(3,4) by (simp add: to_u32_def to_i32_def mod_diff_left_eq)
  have p: "p = (if nodecompress then \<lparr>hdr_type = PKTTYPE_REPLY, hdr_datalen = 24, hdr_srcip = 0, msg = Join2 myid 0 1024 1024 n\<rparr>
      else \<lparr>hdr_type = PKTTYPE_REPLY, hdr_datalen = 4, hdr_srcip = 0, msg = Join tb\<rparr>)"
    using assms(5) fi id by (auto simp: join_reply_def file_of_def n_def tb_def)
  show "join_accepts nodecompress myid (p\<lparr>hdr_srcip := ip\<rparr>)" by (simp add: p join_accepts_def)
  show "join_sizes (p\<lparr>hdr_srcip := ip\<rparr>) = Some (geometry (int (length (seen_image nodecompress img))))"
  proof (cases nodecompress)
    case True
    have "to_i64 n = n" using n by (intro to_i64_id) simp_all
    then show ?thesis using InitSizes_geometry [OF assms(1)] True
      by (simp add: p join_sizes_def seen_image_def n_def [symmetric] MAXCHUNKSIZE_def MAXBLOCKSIZE_def)
  next
    case False
    have "to_i32 tb = tb" using tb small by (intro to_i32_id) simp_all
    moreover have "to_i64 (tb * 1024) = tb * 1024" using tb small by (intro to_i64_id) simp_all
    moreover have "size_ok (tb * 1024)" using tb(1) small by (simp add: size_ok_def)
    ultimately show ?thesis using InitSizes_geometry [of "tb * 1024"] False
      by (simp add: p join_sizes_def seen_image_def geometry_whole n_def [symmetric] tb_def [symmetric] mult.commute
          MAXBLOCKSIZE_def)
  qed
qed


text \<open>The join message reaches the server: its reply becomes the head of the queue.\<close>

definition join_element :: "bool \<Rightarrow> int \<Rightarrow> wqelem" where
  "join_element nodecompress myid =
     \<lparr>wq_chunk = (if nodecompress then - 2 else - 1), wq_nblocks = to_i32 myid, wq_map = replicate 128 0\<rparr>"

lemma server_gets_join:
  assumes "server_inv fi sv" and "p = (join_packet nodecompress myid)\<lparr>hdr_srcip := ip\<rparr>"
    and "PacketReceive nt (Recv mlen addr port p) = Some 0"
  shows "\<exists>sv'. ServerRecvThread nt fi now kafailed (Recv mlen addr port p) sv = Some sv' \<and> server_inv fi sv' \<and>
    WorkQ (queue sv') = join_element nodecompress myid # WorkQ (queue sv)"
proof -
  have typed: "packet_typed p" using assms(2) by (simp add: join_packet_def packet_typed_def)
  have "\<exists>sv'. ServerRecvThread nt fi now kafailed (Recv mlen addr port p) sv = Some sv' \<and> server_inv fi sv' \<and>
      pending (queue sv') = pending (queue sv) \<union> turn_pairs nt fi (Recv mlen addr port p) (queue sv)"
    by (rule ServerRecvThread_spec [OF assms(1)]) (use typed in \<open>simp_all add: received_packet_def\<close>)
  then obtain sv' where sv': "ServerRecvThread nt fi now kafailed (Recv mlen addr port p) sv = Some sv'" "server_inv fi sv'"
    by blast
  have valid: "PacketValid p (fi_chunks fi)"
    using assms(2) by (simp add: join_packet_def PacketValid_def msg_valid_def)
  have "WorkQ (queue sv') = join_element nodecompress myid # WorkQ (queue sv)"
    using sv'(1) assms(3) valid unfolding ServerRecvThread_def received_packet_def
    by (cases nodecompress) (auto simp: assms(2) join_packet_def dispatch_def ClientJoin_def WorkQueueEnqueueJoin_def
        join_element_def bump_joins_def Let_def split: prod.splits if_splits)
  then show ?thesis using sv' by blast
qed

lemma server_answers_join:
  assumes "size_ok (int (length img))" and "init_file_info (int (length img)) = Some (sz, fi)"
    and "sender_ok fi h" and "WorkQ (queue (srv h)) = join_element nodecompress myid # q"
  shows "\<exists>h' p. PlayFrisbee nt sz fi img False h = Some (False, h') \<and>
    join_reply sz fi (if nodecompress then - 2 else - 1) (to_i32 myid) = Some p \<and>
    wire h' = wire h @ [p\<lparr>hdr_srcip := myipaddr nt\<rparr>] \<and> WorkQ (queue (srv h')) = q"
proof -
  let ?c = "if nodecompress then - 2 else - 1 :: int"
  define w where "w = (queue (srv h))\<lparr>WorkQ := q, WorkQSize := WorkQSize (queue (srv h)) - 1\<rparr>"
  note fi = init_file_info_spec [OF assms(1,2)]
  have inv: "workq_inv (fi_chunks fi) (queue (srv h))" using assms(3) by (simp add: sender_ok_def server_inv_def)
  have deq: "WorkQueueDequeue 0 (queue (srv h)) = Some (Some (?c, 0, to_i32 myid), w)"
    using assms(4) by (simp add: WorkQueueDequeue_def join_element_def w_def)
  have "workq_inv (fi_chunks fi) w" using WorkQueueDequeue_spec [OF inv assms(4), of 0] deq by auto
  note t = taken_spec [OF assms(3) this]
  have "env_ok (taken w h)" "?c = - 1 \<or> ?c = - 2" using t(1) by (simp_all add: sender_ok_def)
  from send_join_spec [OF this(1) _ _ this(2), of sz fi "to_i32 myid" nt] fi obtain p h' where
    j: "join_reply sz fi ?c (to_i32 myid) = Some p" "send_join nt sz fi ?c (to_i32 myid) (taken w h) = Some h'"
    "kept (taken w h) h'" "wire h' = wire (taken w h) @ [p\<lparr>hdr_srcip := myipaddr nt\<rparr>]" by blast
  have "PlayFrisbee nt sz fi img False h = Some (False, h')"
    using deq j(2) by (cases nodecompress) (simp_all add: PlayFrisbee_def taken_def)
  moreover have "WorkQ (queue (srv h')) = q" using kept_srv(1) [OF j(3)] t(3) by (simp add: w_def)
  ultimately show ?thesis using j(1,4) t(2) by auto
qed

text \<open>
  A join message of either version that reaches the server is answered by the next turn of its main loop, for a file of any
  size; in the first version the client then sees the file filled up to whole blocks.
\<close>

lemma join_answered:
  assumes "size_ok (int (length img))" and "init_file_info (int (length img)) = Some (sz, fi)" and "sender_ok fi h"
    and "0 \<le> myid" and "myid < 2 ^ 32" and "p = (join_packet nodecompress myid)\<lparr>hdr_srcip := ip\<rparr>"
    and "PacketReceive nt (Recv mlen addr port p) = Some 0"
  shows "\<exists>sv h' q. ServerRecvThread nt fi now kafailed (Recv mlen addr port p) (srv h) = Some sv \<and>
    PlayFrisbee nt sz fi img False (h\<lparr>srv := sv\<rparr>) = Some (False, h') \<and> wire h' = wire h @ [q] \<and>
    join_accepts nodecompress myid q \<and> join_sizes q = Some (geometry (int (length (seen_image nodecompress img))))"
proof -
  have inv: "server_inv fi (srv h)" using assms(3) by (simp add: sender_ok_def)
  from server_gets_join [OF inv assms(6,7), of now kafailed] obtain sv where
    sv: "ServerRecvThread nt fi now kafailed (Recv mlen addr port p) (srv h) = Some sv" "server_inv fi sv"
    "WorkQ (queue sv) = join_element nodecompress myid # WorkQ (queue (srv h))" by blast
  have "sender_ok fi (h\<lparr>srv := sv\<rparr>)" using assms(3) sv(2) by (simp add: sender_ok_def env_ok_def pacing_inv_def)
  from server_answers_join [OF assms(1,2) this, of nodecompress myid "WorkQ (queue (srv h))" nt] sv(3) obtain h' r where
    h': "PlayFrisbee nt sz fi img False (h\<lparr>srv := sv\<rparr>) = Some (False, h')"
    "join_reply sz fi (if nodecompress then - 2 else - 1) (to_i32 myid) = Some r"
    "wire h' = wire h @ [r\<lparr>hdr_srcip := myipaddr nt\<rparr>]" by auto
  show ?thesis using sv(1) h'(1,3) join_sizes_reply [OF assms(1,2,4,5) h'(2), of "myipaddr nt"] by blast
qed


text \<open>
  C18. The two sides agree on the geometry. A join message of the second version for any file, or of the first version for an
  image of whole megabytes (the files it is meant for), that reaches the server is answered by the next turn of its main
  loop; the client accepts the answer and cuts the image exactly as the server does.
\<close>

theorem join_handshake:
  assumes "size_ok (int (length img))" and "init_file_info (int (length img)) = Some (sz, fi)" and "sender_ok fi h"
    and "0 \<le> myid" and "myid < 2 ^ 32" and "p = (join_packet nodecompress myid)\<lparr>hdr_srcip := ip\<rparr>"
    and "PacketReceive nt (Recv mlen addr port p) = Some 0" and "nodecompress \<or> fi_isimage fi"
  shows "\<exists>sv h' q. ServerRecvThread nt fi now kafailed (Recv mlen addr port p) (srv h) = Some sv \<and>
    PlayFrisbee nt sz fi img False (h\<lparr>srv := sv\<rparr>) = Some (False, h') \<and> wire h' = wire h @ [q] \<and>
    join_accepts nodecompress myid q \<and> join_sizes q = Some sz"
proof -
  have "seen_image nodecompress img = img"
  proof (cases nodecompress)
    case False
    then have "fi_isimage fi" using assms(8) by simp
    then have "c_mod (int (length img)) (1024 * 1024) = 0"
      using assms(2) InitSizes_geometry [OF assms(1)] geometry_CHUNKSIZE [of "int (length img)"]
      by (auto simp: init_file_info_def)
    then show ?thesis by (intro seen_image_id) (simp add: c_mod_pos)
  qed (simp add: seen_image_def)
  then show ?thesis using join_answered [OF assms(1-7), of now kafailed] init_file_info_spec [OF assms(1,2)] by simp
qed


section \<open>A server and a client on a network\<close>

record system =
  host :: sender
  box :: client

text \<open>
  What else may arrive at the client: packets of the other hosts of the group, which may be anything but blocks. The server may get
  anything.
\<close>

definition peer_packet :: "packet \<Rightarrow> bool" where
  "peer_packet p \<longleftrightarrow> packet_typed p \<and> (case msg p of Block _ _ _ \<Rightarrow> False | _ \<Rightarrow> True)"

definition delivered :: "packet list \<Rightarrow> recv \<Rightarrow> bool" where
  "delivered ps r \<longleftrightarrow> (case r of RecvError \<Rightarrow> False | RecvTimeout \<Rightarrow> True | Recv mlen addr port p \<Rightarrow> p \<in> set ps \<or> peer_packet p)"

definition any_typed :: "recv \<Rightarrow> bool" where
  "any_typed r \<longleftrightarrow> (case r of RecvError \<Rightarrow> False | RecvTimeout \<Rightarrow> True | Recv mlen addr port p \<Rightarrow> packet_typed p)"

inductive sys_step :: "byte list \<Rightarrow> sizes \<Rightarrow> file_info \<Rightarrow> net \<Rightarrow> net \<Rightarrow> system \<Rightarrow> system \<Rightarrow> bool"
  for img :: "byte list" and sz :: sizes and fi :: file_info and nts :: net and ntc :: net where
  server_recv: "any_typed r \<Longrightarrow> ServerRecvThread nts fi now kafailed r (srv (host s)) = Some sv \<Longrightarrow>
    sys_step img sz fi nts ntc s (s\<lparr>host := (host s)\<lparr>srv := sv\<rparr>\<rparr>)"
| server_play: "PlayFrisbee nts sz fi img False (host s) = Some (stop, h) \<Longrightarrow>
    sys_step img sz fi nts ntc s (s\<lparr>host := h\<rparr>)"
| client_recv: "delivered (wire (host s)) r \<Longrightarrow> ClientRecvThread ntc kafailed r (box s) = Some b \<Longrightarrow>
    sys_step img sz fi nts ntc s (s\<lparr>box := b\<rparr>)"
| client_write: "ChunkerStartup (box s) = Some b \<Longrightarrow> sys_step img sz fi nts ntc s (s\<lparr>box := b\<rparr>)"

text \<open>The start: a server with its file, and a client that has its reply and starts its threads.\<close>

definition sys_start :: "bool \<Rightarrow> byte list \<Rightarrow> sizes \<Rightarrow> file_info \<Rightarrow> system \<Rightarrow> bool" where
  "sys_start nd img sz fi s \<longleftrightarrow> size_ok (int (length img)) \<and> init_file_info (int (length img)) = Some (sz, fi) \<and>
     sender_ok fi (host s) \<and> wire (host s) = [] \<and> client_start (seen_image nd img) (box s)"

definition sys_inv :: "bool \<Rightarrow> byte list \<Rightarrow> sizes \<Rightarrow> file_info \<Rightarrow> net \<Rightarrow> system \<Rightarrow> bool" where
  "sys_inv nd img sz fi nts s \<longleftrightarrow> size_ok (int (length img)) \<and> init_file_info (int (length img)) = Some (sz, fi) \<and>
     sender_ok fi (host s) \<and> (\<forall>p \<in> set (wire (host s)). genuine nts img p) \<and> client_inv (seen_image nd img) (box s)"

lemma delivered_fair:
  assumes "delivered ps r" and "\<forall>p \<in> set ps. genuine nt img p"
  shows "fair_recv (seen_image nd img) r"
proof (cases r)
  case (Recv mlen addr port p)
  then have "p \<in> set ps \<or> peer_packet p" using assms(1) by (simp add: delivered_def)
  moreover have "fair_packet (seen_image nd img) p \<and> packet_typed p" if "peer_packet p"
    using that by (cases "msg p") (simp_all add: peer_packet_def fair_packet_def)
  ultimately have "fair_packet (seen_image nd img) p \<and> packet_typed p" using genuine_fair assms(2) by blast
  then show ?thesis using Recv by (auto simp: fair_recv_def packet_typed_def split: msg.splits)
qed (use assms in \<open>simp_all add: delivered_def fair_recv_def\<close>)

lemma server_recv_returns:
  assumes "sender_ok fi h" and "any_typed r"
  shows "\<exists>sv. ServerRecvThread nt fi now kafailed r (srv h) = Some sv \<and> sender_ok fi (h\<lparr>srv := sv\<rparr>)"
proof -
  have "\<exists>sv. ServerRecvThread nt fi now kafailed r (srv h) = Some sv \<and> server_inv fi sv \<and>
      pending (queue sv) = pending (queue (srv h)) \<union> turn_pairs nt fi r (queue (srv h))"
    by (rule ServerRecvThread_spec)
      (use assms in \<open>auto simp: sender_ok_def any_typed_def received_packet_def split: recv.splits\<close>)
  then show ?thesis using assms(1) by (auto simp: sender_ok_def env_ok_def pacing_inv_def)
qed

lemma server_play_returns:
  assumes "size_ok (int (length img))" and "init_file_info (int (length img)) = Some (sz, fi)" and "sender_ok fi h"
  shows "\<exists>stop h' ps. PlayFrisbee nt sz fi img False h = Some (stop, h') \<and> sender_ok fi h' \<and>
    wire h' = wire h @ ps \<and> (\<forall>p \<in> set ps. genuine nt img p)"
proof (cases "WorkQ (queue (srv h))")
  case Nil
  then show ?thesis using PlayFrisbee_idle [OF assms(3), of nt sz img] by fastforce
next
  case (Cons e q)
  then show ?thesis using PlayFrisbee_job [OF assms Cons, of nt] by blast
qed

lemma sys_inv_step:
  assumes "sys_inv nd img sz fi nts s" and "sys_step img sz fi nts ntc s s'"
  shows "sys_inv nd img sz fi nts s'"
proof -
  have inv: "size_ok (int (length img))" "init_file_info (int (length img)) = Some (sz, fi)" "sender_ok fi (host s)"
    "\<forall>p \<in> set (wire (host s)). genuine nts img p" "client_inv (seen_image nd img) (box s)"
    using assms(1) by (simp_all add: sys_inv_def)
  show ?thesis using assms(2)
  proof cases
    case (server_recv r now kafailed sv)
    then show ?thesis using server_recv_returns [OF inv(3) server_recv(2), of nts now kafailed] inv by (simp add: sys_inv_def)
  next
    case (server_play stop h)
    then show ?thesis using server_play_returns [OF inv(1-3), of nts] inv by (auto simp: sys_inv_def)
  next
    case (client_recv r kafailed b)
    then have "\<not> bad_request ntc (box s) r" using bad_request_fails [OF inv(5), of ntc r kafailed] by auto
    then show ?thesis using client_recv recv_turn_spec [OF inv(5) delivered_fair [OF client_recv(2) inv(4)], of ntc kafailed] inv
      by (simp add: sys_inv_def)
  next
    case (client_write b)
    then show ?thesis using ChunkerStartup_spec [OF inv(5)] inv by (simp add: sys_inv_def)
  qed
qed

interpretation sys: invariant_system "sys_start nd img sz fi" "sys_step img sz fi nts ntc" "sys_inv nd img sz fi nts"
proof unfold_locales
  show "sys_inv nd img sz fi nts s" if "sys_start nd img sz fi s" for s
    using that client_sys.inv_init by (simp add: sys_start_def sys_inv_def)
  show "sys_inv nd img sz fi nts s'" if "sys_inv nd img sz fi nts s" "sys_step img sz fi nts ntc s s'" for s s'
    by (rule sys_inv_step [OF that])
qed



section \<open>Examples\<close>

definition host_example :: sender where
  "host_example = sender_example\<lparr>srv := server_example\<lparr>chunkmap := None\<rparr>, timeout := 0\<rparr>"

lemma host_example_ok: "sender_ok fi host_example" "wire host_example = []"
proof -
  have "server_inv fi (server_example\<lparr>chunkmap := None\<rparr>)"
    by (simp add: server_inv_def server_example_def workq_inv_def WorkQ_static_def MAXCLIENTS_def map_ok_def)
  moreover have "env_ok host_example" "pacing_inv host_example" "0 < readsize host_example" "wire host_example = []"
    using sender_example_ok by (simp_all add: host_example_def env_ok_def pacing_inv_def sender_example_def)
  ultimately show "sender_ok fi host_example" "wire host_example = []" by (simp_all add: sender_ok_def host_example_def)
qed

lemma byte_image: "\<exists>sz fi. size_ok (int (length [7 :: byte])) \<and> init_file_info (int (length [7 :: byte])) = Some (sz, fi)"
proof -
  have "size_ok (int (length [7 :: byte]))" by (simp add: size_ok_def)
  then show ?thesis using init_file_info_Some by blast
qed

theorem join_handshake_witness:
  "\<exists>sz fi sv h' q. init_file_info (int (length [7 :: byte])) = Some (sz, fi) \<and>
    PlayFrisbee net_example sz fi [7] False (host_example\<lparr>srv := sv\<rparr>) = Some (False, h') \<and> wire h' = [q] \<and>
    join_accepts True 3 q \<and> join_sizes q = Some sz"
proof -
  obtain sz fi where i: "size_ok (int (length [7 :: byte]))" "init_file_info (int (length [7 :: byte])) = Some (sz, fi)"
    using byte_image by blast
  have "PacketReceive net_example (Recv 100 4 7 ((join_packet True 3)\<lparr>hdr_srcip := 4\<rparr>)) = Some 0"
    by (simp add: join_packet_def net_example_def to_u64_def sizeof_hdr_def)
  from join_handshake [where now = "\<lparr>tv_sec = 0, tv_usec = 0\<rparr>" and kafailed = False, OF i host_example_ok(1) _ _ refl this] obtain sv h' q where
    "PlayFrisbee net_example sz fi [7] False (host_example\<lparr>srv := sv\<rparr>) = Some (False, h')"
    "wire h' = wire host_example @ [q]" "join_accepts True 3 q" "join_sizes q = Some sz" by auto
  then show ?thesis using i(2) by (auto simp: host_example_ok)
qed


end
