(* ===== verification/Progress.thy ===== *)
theory Progress
  imports System
begin

text \<open>
  A download gets to its end. Whatever the network has done so far, as soon as it delivers for a while what the two sides
  send, the client's own requests and the server's answers to them bring the download forward by a chunk at a time.
\<close>

section \<open>Blocks for a chunk\<close>

text \<open>A chunk that is collected, or for which there is an empty buffer.\<close>

definition room_for :: "int \<Rightarrow> client \<Rightarrow> bool" where
  "room_for c s \<longleftrightarrow> (\<exists>b \<in> set (ChunkBuffer s). collecting c b \<or> state b = CHUNK_EMPTY)"

lemma soft_room:
  assumes "soft img s s'" and "room_for c s"
  shows "room_for c s'"
proof -
  have all: "list_all2 soft_buf (ChunkBuffer s) (ChunkBuffer s')" using assms(1) by (simp add: soft_def)
  obtain i where i: "i < length (ChunkBuffer s)" "collecting c (ChunkBuffer s ! i) \<or> state (ChunkBuffer s ! i) = CHUNK_EMPTY"
    using assms(2) by (auto simp: room_for_def in_set_conv_nth)
  have "collecting c (ChunkBuffer s' ! i) \<or> state (ChunkBuffer s' ! i) = CHUNK_EMPTY"
    using list_all2_nthD [OF all i(1)] i(2) by (auto simp: soft_buf_def collecting_def)
  moreover have "ChunkBuffer s' ! i \<in> set (ChunkBuffer s')" using i(1) list_all2_lengthD [OF all] by simp
  ultimately show ?thesis by (auto simp: room_for_def)
qed

lemma buf_scan_free:
  assumes "buf_scan c bs i free dub = (j, f, d)" and "\<forall>b \<in> set bs. \<not> collecting c b"
    and "free \<noteq> None \<or> (\<exists>b \<in> set bs. state b = CHUNK_EMPTY)"
  shows "f \<noteq> None"
  using assms
proof (induction c bs i free dub rule: buf_scan.induct)
  case (2 c b bs i free dub)
  then show ?case by (cases "state b") (auto simp: collecting_def split: if_splits)
qed auto

lemma collecting_unique:
  assumes "client_inv img s" and "i < length (ChunkBuffer s)" and "j < length (ChunkBuffer s)"
    and "collecting c (ChunkBuffer s ! i)" and "collecting c (ChunkBuffer s ! j)"
  shows "i = j"
proof -
  have "chunk_in (slot_of b) = Some c" if "collecting c b" for b using that by (auto simp: slot_of_def collecting_def)
  then show ?thesis using one_place_unique [OF cache_inv_D(1) [OF client_invD(2) [OF assms(1)]], of i j c] assms(2-5) by simp
qed

lemma place_block_gathers:
  assumes "client_inv img s" and "0 \<le> c" and "c < nchunks img" and "\<not> finished (chunk_at s c)"
    and "gathers c B s \<or> B = {} \<and> room_for c s"
  shows "\<exists>i s1. place_block c block s = Some (Some i, s1) \<and> client_inv img s1 \<and> same_run s s1 \<and>
    i < length (ChunkBuffer s1) \<and> collecting c (ChunkBuffer s1 ! i) \<and> B \<subseteq> blocks (blockmap (ChunkBuffer s1 ! i))"
proof -
  obtain j f d where sc: "buf_scan c (ChunkBuffer s) 0 None None = (j, f, d)" by (metis prod_cases3)
  note scan = buf_scan_spec [of "ChunkBuffer s" "[]", OF _ _ _ _ _ sc, simplified]
  from place_block_spec [OF assms(1-4), of block] obtain p s1 where
    p: "place_block c block s = Some (p, s1)" "client_inv img s1"
    "\<forall>i. p = Some i \<longrightarrow> i < length (ChunkBuffer s1) \<and> collecting c (ChunkBuffer s1 ! i)" by blast
  have nf: "\<not> flag finished s c" using in_range(2) [OF assms(1-3)] assms(4) by simp
  show ?thesis
  proof (cases "j < length (ChunkBuffer s)")
    case True
    then have j: "collecting c (ChunkBuffer s ! j)" using scan by simp
    have ps: "p = Some j" "s1 = s" using p(1) sc True by (simp_all add: place_block_def)
    have "B \<subseteq> blocks (blockmap (ChunkBuffer s ! j))"
      using assms(5) nf collecting_unique [OF assms(1) _ True _ j] by (auto simp: gathers_def)
    then show ?thesis using p(1,2) ps True j by auto
  next
    case False
    then have none: "\<forall>b \<in> set (ChunkBuffer s). \<not> collecting c b" using scan by simp
    then have "\<not> gathers c B s" using nf by (auto simp: gathers_def)
    then have B: "B = {}" "\<exists>b \<in> set (ChunkBuffer s). state b = CHUNK_EMPTY" using assms(5) none by (auto simp: room_for_def)
    then obtain k where k: "f = Some k" using buf_scan_free [OF sc none] by auto
    have "p = Some k" "start_chunk c k s = Some s1"
      using p(1) sc False k by (auto simp: place_block_def c_assert_def split: bind_splits if_splits)
    then show ?thesis using p start_chunk_same_run B(1) by blast
  qed
qed

lemma GotBlock_gathers:
  assumes "client_inv img s" and "0 \<le> c" and "c < nchunks img" and "0 \<le> block" and "block < csize img c"
    and "carries img c block buf" and "gathers c B s \<or> B = {} \<and> room_for c s"
  shows "\<exists>r s'. GotBlock nt c block buf s = Some (r, s') \<and> client_inv img s' \<and> same_run s s' \<and>
    gathers c (insert (nat block) B) s'"
proof (cases "finished (chunk_at s c)")
  case True
  from GotBlock_spec [OF assms(1-6), of nt] obtain r s' where
    g: "GotBlock nt c block buf s = Some (r, s')" "client_inv img s'" by blast
  then have s': "s' = s\<lparr>cstats := (cstats s)\<lparr>cs_dupchunk := cs_dupchunk (cstats s) + 1\<rparr>\<rparr>"
    using True by (auto simp: GotBlock_def c_assert_def split: if_splits)
  have "gathers c (insert (nat block) B) s" using True in_range(2) [OF assms(1-3), of finished] by (simp add: gathers_def)
  then show ?thesis using g soft_gathers [OF soft_cstats] soft_same_run [OF soft_cstats] unfolding s' by blast
next
  case False
  from place_block_gathers [OF assms(1-3) False assms(7), of block] obtain i s1 where
    p: "place_block c block s = Some (Some i, s1)" "client_inv img s1" "same_run s s1" "i < length (ChunkBuffer s1)"
    "collecting c (ChunkBuffer s1 ! i)" "B \<subseteq> blocks (blockmap (ChunkBuffer s1 ! i))" by blast
  have seen: "seen (chunk_at s1 c)" using collecting_range [OF p(2,4,5)] by simp
  from accept_block_spec [OF p(2,4,5) assms(4-6), of nt] obtain r s' where
    a: "accept_block nt c block buf i s1 = Some (r, s')" "client_inv img s'" "same_run s1 s'"
    "gathers c (insert (nat block) (blocks (blockmap (ChunkBuffer s1 ! i)))) s'" by blast
  have "GotBlock nt c block buf s = accept_block nt c block buf i s1"
    using False p(1) seen by (simp add: GotBlock_def accept_block_def)
  moreover have "gathers c (insert (nat block) B) s'" using a(4) p(6) by (auto simp: gathers_def)
  ultimately show ?thesis using a same_run_trans [OF p(3) a(3)] by auto
qed

section \<open>A block on the wire\<close>

text \<open>A packet that arrives as it was sent.\<close>

definition arrives :: "net \<Rightarrow> packet \<Rightarrow> recv" where
  "arrives nt p = Recv 2000 (hdr_srcip p) (sndportnum nt) p"

lemma client_takes_block:
  assumes "client_inv img s" and "0 \<le> c" and "c < nchunks img" and "0 \<le> block" and "block < csize img c"
    and "carries img c block buf" and "gathers c B s \<or> B = {} \<and> room_for c s"
    and "\<not> child_error s" and "main_phase s = Running" and "serverip s = 0 \<or> serverip s = ip"
    and "p = \<lparr>hdr_type = PKTTYPE_REQUEST, hdr_datalen = 8 + MAXBLOCKSIZE, hdr_srcip = ip, msg = Block c block buf\<rparr>"
  shows "\<exists>s'. ClientRecvThread nt kafailed (arrives nt p) s = Some s' \<and> same_run s s' \<and> gathers c (insert (nat block) B) s'"
proof -
  define s1 where "s1 = s\<lparr>STCounter := (if servertimo s \<noteq> 0 then servertimo s * TIMEOUT_HZ else STCounter s),
    KACounter := (if keepalive s \<noteq> 0 then keepalive s * TIMEOUT_HZ else KACounter s), gotone := True, BackOff := 0\<rparr>"
  have so: "soft img s s1" by (simp add: s1_def soft_def list_all2_refl)
  have inv: "client_inv img s1" by (rule soft_client_inv [OF so assms(1)])
  have "room_for c s1 = room_for c s" by (simp add: room_for_def s1_def)
  then have g: "gathers c B s1 \<or> B = {} \<and> room_for c s1" using assms(7) soft_gathers [OF so] by blast
  from GotBlock_gathers [OF inv assms(2-6) g, of nt] obtain r s2 where
    s2: "GotBlock nt c block buf s1 = Some (r, s2)" "client_inv img s2" "same_run s1 s2" "gathers c (insert (nat block) B) s2" by blast
  define s3 where "s3 = (if r then s2\<lparr>IdleCounter := idletimer s2\<rparr> else s2)"
  have so3: "soft img s2 s3" by (simp add: s3_def soft_def list_all2_refl)
  have "in_chunk block 1" using assms(4,5) csize_range [OF assms(3)] by (simp add: in_chunk_def MAXCHUNKSIZE_def)
  from RequestStamp_soft [OF client_invD(1) [OF soft_client_inv [OF so3 s2(2)]] assms(2,3) this, of True] obtain q s4 where
    s4: "RequestStamp c block 1 True s3 = Some (q, s4)" "soft img s3 s4" by blast
  have so4: "soft img s2 s4" by (rule soft_trans [OF so3 s4(2)])
  have rc: "PacketReceive nt (arrives nt p) = Some 0"
    by (simp add: arrives_def assms(11) Let_def to_u64_def sizeof_hdr_def MAXBLOCKSIZE_def)
  have "TotalChunks (sizes_of s) = nchunks img" using client_invD(1) [OF assms(1)] by (simp add: req_inv_def nchunks_def)
  then have valid: "PacketValid p (TotalChunks (sizes_of s))"
    using assms(2-5) csize_range [OF assms(3)]
    by (simp add: assms(11) PacketValid_def msg_valid_def to_u64_def MAXBLOCKSIZE_def MAXCHUNKSIZE_def)
  have "ClientRecvThread nt kafailed (arrives nt p) s = client_dispatch nt p (s\<lparr>STCounter := (if servertimo s \<noteq> 0 then servertimo s * TIMEOUT_HZ else STCounter s),
      KACounter := (if keepalive s \<noteq> 0 then keepalive s * TIMEOUT_HZ else KACounter s), gotone := True\<rparr>)"
    using assms(8,9) rc valid by (simp add: ClientRecvThread_def) (simp add: arrives_def Let_def)
  also have "\<dots> = Some s4"
    using assms(10) s2(1) s4(1) by (auto simp: client_dispatch_def assms(11) s1_def s3_def Let_def)
  finally have "ClientRecvThread nt kafailed (arrives nt p) s = Some s4" .
  moreover have "same_run s s4" by (rule same_run_trans [OF same_run_trans [OF soft_same_run [OF so] s2(3)] soft_same_run [OF so4]])
  ultimately show ?thesis using soft_gathers [OF so4 s2(4)] by blast
qed


section \<open>The client asks\<close>

text \<open>A client that has not given up and may ask: it waits for its server for ever, and reads ahead.\<close>

definition alive :: "int \<Rightarrow> client \<Rightarrow> bool" where
  "alive ip b \<longleftrightarrow> \<not> child_error b \<and> main_phase b = Running \<and> (serverip b = 0 \<or> serverip b = ip) \<and> ChunkBuffer b \<noteq> [] \<and>
     servertimo b = 0 \<and> 0 < maxreadahead b \<and> 0 < maxinprogress b"

lemma same_run_alive: "same_run b b' \<Longrightarrow> alive ip b \<Longrightarrow> alive ip b'"
  by (auto simp: same_run_def alive_def)

lemma request_unfinished_asks:
  assumes "req_inv img s" and "nbufs = length (ChunkBuffer s)"
    and "\<exists>j. i \<le> j \<and> j < nbufs \<and> collecting (thischunk (ChunkBuffer s ! j)) (ChunkBuffer s ! j)"
    and "request_unfinished nt True stamp nbufs i eb fb s = Some (e, f, s')"
  shows "\<exists>j c. j < nbufs \<and> collecting c (ChunkBuffer s ! j) \<and>
    asks nt s s' c ({..<nat (csize img c)} - blocks (blockmap (ChunkBuffer s ! j)))"
  using assms
proof (induction "nbufs - i" arbitrary: i eb fb)
  case 0
  then show ?case by auto
next
  case (Suc n)
  note unf = request_unfinished.simps [of nt True stamp nbufs i eb fb s]
  obtain j where j: "i \<le> j" "j < nbufs" "collecting (thischunk (ChunkBuffer s ! j)) (ChunkBuffer s ! j)" using Suc(5) by blast
  show ?case
  proof (cases "state (ChunkBuffer s ! i) = CHUNK_EMPTY \<or> state (ChunkBuffer s ! i) = CHUNK_FULL")
    case True
    then have "j \<noteq> i" using j(3) by (auto simp: collecting_def)
    then have more: "\<exists>j. i + 1 \<le> j \<and> j < nbufs \<and> collecting (thischunk (ChunkBuffer s ! j)) (ChunkBuffer s ! j)"
      using j by (intro exI [of _ j]) simp
    have r: "request_unfinished nt True stamp nbufs (i + 1) (if state (ChunkBuffer s ! i) = CHUNK_EMPTY then eb + 1 else eb) fb s =
        Some (e, f, s')" using unf True Suc(6) j by (auto split: if_splits)
    have "n = nbufs - (i + 1)" using Suc(2) by simp
    then show ?thesis by (rule Suc(1) [OF _ assms(1,2) more r])
  next
    case False
    then have col: "collecting (thischunk (ChunkBuffer s ! i)) (ChunkBuffer s ! i)"
      by (cases "state (ChunkBuffer s ! i)") (simp_all add: collecting_def)
    have i: "i < length (ChunkBuffer s)" using j assms(2) by simp
    from request_buffer_soft [OF assms(1) i, of nt] False obtain s1 where
      s1: "request_buffer nt i s = Some s1" "soft img s s1"
      "asks nt s s1 (thischunk (ChunkBuffer s ! i))
        ({..<nat (csize img (thischunk (ChunkBuffer s ! i)))} - blocks (blockmap (ChunkBuffer s ! i)))" by blast
    have r: "request_unfinished nt True stamp nbufs (i + 1) eb (fb + 1) s1 = Some (e, f, s')"
      using unf False Suc(6) i assms(2) s1(1) by (auto simp: Let_def)
    have "soft img s1 s'"
      using request_unfinished_soft [OF soft_req_inv [OF s1(2) assms(1)], of nbufs nt True stamp "i + 1" eb "fb + 1"] r
        soft_length [OF s1(2)] assms(2) by auto
    then show ?thesis using asks_soft [OF s1(3)] col i assms(2) by blast
  qed
qed

lemma request_unfinished_empty:
  assumes "\<forall>j. i \<le> j \<and> j < nbufs \<longrightarrow> state (ChunkBuffer s ! j) = CHUNK_EMPTY" and "i \<le> nbufs"
  shows "request_unfinished nt True stamp nbufs i eb fb s = Some (eb + int (nbufs - i), fb, s)"
  using assms
proof (induction "nbufs - i" arbitrary: i eb)
  case 0
  then show ?case by (subst request_unfinished.simps) simp
next
  case (Suc n)
  then have i: "i < nbufs" "state (ChunkBuffer s ! i) = CHUNK_EMPTY" by auto
  have "request_unfinished nt True stamp nbufs (i + 1) (eb + 1) fb s = Some (eb + 1 + int (nbufs - (i + 1)), fb, s)"
    by (rule Suc(1)) (use Suc(2,3) i in auto)
  then show ?case using i by (simp add: request_unfinished.simps [of nt True stamp nbufs i eb fb s] of_nat_diff)
qed

lemma read_ahead_asks:
  assumes "req_inv img s" and "set cs \<subseteq> {0..<nchunks img}" and "c \<in> set cs" and "\<not> seen (chunk_at s c)" and "j < k"
    and "read_ahead nt True stamp k cs j s = Some s'"
  shows "\<exists>c'. 0 \<le> c' \<and> c' < nchunks img \<and> \<not> seen (chunk_at s c') \<and> asks nt s s' c' {..<nat (csize img c')}"
  using assms(2,3,6)
proof (induction cs)
  case Nil
  then show ?case by simp
next
  case (Cons x cs)
  have x: "0 \<le> x" "x < nchunks img" "set cs \<subseteq> {0..<nchunks img}" using Cons(2) by auto
  have cs: "ChunkSize (sizes_of s) x = Some (csize img x)" using assms(1) x ChunkSize_csize by (simp add: req_inv_def)
  show ?case
  proof (cases "seen (chunk_at s x)")
    case True
    then show ?thesis using Cons assms(4,5) by auto
  next
    case False
    from RequestRange_whole [OF assms(1) x(1,2), of nt] obtain s1 p where
      s1: "RequestRange nt x 0 (csize img x) s = Some s1" "soft img s s1" "outbox s1 = outbox s @ [p]"
      "hdr_srcip p = myipaddr nt" "asked p = {x} \<times> {..<nat (csize img x)}" by blast
    have r: "read_ahead nt True stamp k cs (j + 1) s1 = Some s'" using Cons(4) False assms(5) cs s1(1) by simp
    have "soft img s1 s'"
      using read_ahead_soft [OF soft_req_inv [OF s1(2) assms(1)] x(3), of nt True stamp k "j + 1"] r by auto
    moreover have "asks nt s s1 x {..<nat (csize img x)}" using s1(3-5) by (simp add: asks_def)
    ultimately show ?thesis using asks_soft x(1,2) False by blast
  qed
qed

lemma slot_states:
  assumes "b \<in> set (ChunkBuffer s)"
  shows "state b = CHUNK_FULL \<or> state b = CHUNK_EMPTY \<or> collecting (thischunk b) b"
  by (cases "state b") (simp_all add: collecting_def)

lemma unseen_chunk:
  assumes "client_inv img s" and "0 < chunkcount s" and "\<forall>b \<in> set (ChunkBuffer s). state b = CHUNK_EMPTY"
  shows "\<exists>c. 0 \<le> c \<and> c < nchunks img \<and> \<not> seen (chunk_at s c)"
proof -
  have "int (length (written s)) < nchunks img" using assms(1,2) by (simp add: client_inv_def)
  then have "card (fst ` set (written s)) < card {0..<nchunks img}"
    using card_image_le [of "set (written s)" fst] card_length [of "written s"] by simp
  then have "\<not> {0..<nchunks img} \<subseteq> fst ` set (written s)"
    using card_mono [of "fst ` set (written s)" "{0..<nchunks img}"] by auto
  then obtain c where "c \<in> {0..<nchunks img}" and out: "c \<notin> fst ` set (written s)" by blast
  then have c: "0 \<le> c" "c < nchunks img" by simp_all
  have none: "Open c \<notin> set (slots (abs_cache s))" "Full c \<notin> set (slots (abs_cache s))"
    using assms(3) by (auto simp: slot_of_def split: bufstate.splits)
  note d = cache_inv_D [OF client_invD(2) [OF assms(1)]]
  have "\<not> flag finished s c" using d(3) [of c] none(2) c out by simp
  then have "\<not> flag seen s c" using d(2) [of c] none(1) c by simp
  then show ?thesis using c in_range(2) [OF assms(1) c(1,2), of seen] by blast
qed

lemma RequestChunk_asks:
  assumes "client_inv img s" and "alive ip s" and "0 < chunkcount s" and "\<forall>b \<in> set (ChunkBuffer s). state b \<noteq> CHUNK_FULL"
    and "RequestChunk nt True s = Some s'"
  shows "\<exists>c A B. 0 \<le> c \<and> c < nchunks img \<and> \<not> flag finished s c \<and> asks nt s s' c A \<and> A \<union> B = {..<nat (csize img c)} \<and>
    (gathers c B s \<or> B = {} \<and> room_for c s)"
proof -
  note inv = client_invD(1) [OF assms(1)]
  let ?n = "length (ChunkBuffer s)"
  obtain e f s1 where u: "request_unfinished nt True 0 ?n 0 0 0 s = Some (e, f, s1)" "soft img s s1"
    using request_unfinished_soft [OF inv refl, of nt True 0 0 0 0] by blast
  have inv1: "req_inv img s1" by (rule soft_req_inv [OF u(2) inv])
  define k where "k = (if maxreadahead s1 > e then e else maxreadahead s1)"
  have r: "(if e = 0 \<or> maxinprogress s1 \<le> f then Some s1 else read_ahead nt True 0 k (ChunkRequestList s1) 0 s1) = Some s'"
    using assms(5) u(1) by (cases "e = 0 \<or> maxinprogress s1 \<le> f") (auto simp: RequestChunk_def k_def Let_def)
  have cs: "set (ChunkRequestList s1) = {0..<nchunks img}" using inv1 by (simp add: req_inv_def)
  have soft: "soft img s1 s'"
    using r read_ahead_soft [OF inv1, of "ChunkRequestList s1" nt True 0 k 0] cs by (auto split: if_splits)
  show ?thesis
  proof (cases "\<exists>b \<in> set (ChunkBuffer s). collecting (thischunk b) b")
    case True
    then have "\<exists>j. 0 \<le> j \<and> j < ?n \<and> collecting (thischunk (ChunkBuffer s ! j)) (ChunkBuffer s ! j)"
      by (auto simp: in_set_conv_nth)
    from request_unfinished_asks [OF inv refl this u(1)] obtain j c where
      j: "j < ?n" "collecting c (ChunkBuffer s ! j)"
      "asks nt s s1 c ({..<nat (csize img c)} - blocks (blockmap (ChunkBuffer s ! j)))" by blast
    note c = collecting_range [OF assms(1) j(1,2)]
    have "blocks (blockmap (ChunkBuffer s ! j)) \<subseteq> {..<nat (csize img c)}"
      using buf_okD [OF assms(1) j(1)] j(2) by (auto simp: buf_ok_def collecting_def)
    then have "{..<nat (csize img c)} - blocks (blockmap (ChunkBuffer s ! j)) \<union> blocks (blockmap (ChunkBuffer s ! j)) =
      {..<nat (csize img c)}" by blast
    moreover have "gathers c (blocks (blockmap (ChunkBuffer s ! j))) s" using j by (auto simp: gathers_def)
    moreover have "\<not> flag finished s c" using c in_range(2) [OF assms(1), of c finished] by simp
    ultimately show ?thesis using asks_soft [OF j(3) soft] c by blast
  next
    case False
    then have empty: "\<forall>b \<in> set (ChunkBuffer s). state b = CHUNK_EMPTY" using slot_states assms(4) by blast
    have s1: "e = int ?n" "f = 0" "s1 = s" using u(1) request_unfinished_empty [of 0 ?n s nt 0 0 0] empty by auto
    have pos: "0 < e" "0 < maxreadahead s" "0 < maxinprogress s" using assms(2) s1(1) by (simp_all add: alive_def)
    then have ra: "read_ahead nt True 0 k (ChunkRequestList s) 0 s = Some s'" "0 < k" using r s1 by (simp_all add: k_def)
    obtain c where c: "0 \<le> c" "c < nchunks img" "\<not> seen (chunk_at s c)" using unseen_chunk [OF assms(1,3) empty] by blast
    have "set (ChunkRequestList s) \<subseteq> {0..<nchunks img}" "c \<in> set (ChunkRequestList s)" using cs s1(3) c by simp_all
    from read_ahead_asks [OF inv this c(3) ra(2,1)] obtain c' where
      c': "0 \<le> c'" "c' < nchunks img" "asks nt s s' c' {..<nat (csize img c')}" "\<not> seen (chunk_at s c')" by blast
    have "\<not> flag finished s c'"
      using cache_inv_D(4) [OF client_invD(2) [OF assms(1)], of c'] in_range(2) [OF assms(1) c'(1,2), of seen] c' by auto
    moreover
    have "room_for c' s" using empty assms(2) unfolding room_for_def alive_def by (cases "ChunkBuffer s") auto
    ultimately show ?thesis using c' by (intro exI [of _ c'] exI [of _ "{..<nat (csize img c')}"] exI [of _ "{}"]) simp
  qed
qed

text \<open>Timeouts until the client asks.\<close>

primrec client_waits :: "net \<Rightarrow> nat \<Rightarrow> client \<Rightarrow> client option" where
  "client_waits nt 0 b = Some b"
| "client_waits nt (Suc n) b = do { b1 \<leftarrow> ClientRecvThread nt False RecvTimeout b; client_waits nt n b1 }"

definition timeouts :: "client \<Rightarrow> nat" where
  "timeouts b = max 1 (nat (IdleCounter b))"

lemma client_waits_request:
  assumes "alive ip b" and "0 < n" and "n = timeouts b"
  shows "\<exists>b0. soft img b b0 \<and> outbox b0 = outbox b \<and> client_waits nt n b = idle_request nt b0"
  using assms
proof (induction n arbitrary: b)
  case 0
  then show ?case by simp
next
  case (Suc n)
  define b2 where "b2 = tick_keepalive False b"
  define b3 where "b3 = b2\<lparr>IdleCounter := IdleCounter b2 - 1\<rparr>"
  have b2: "IdleCounter b2 = IdleCounter b" "outbox b2 = outbox b" by (simp_all add: b2_def tick_keepalive_def Let_def)
  have so: "soft img b b3"
    using soft_trans [OF tick_keepalive_soft [of img b False, folded b2_def], of b3] by (simp add: b3_def soft_def list_all2_refl)
  have turn: "ClientRecvThread nt False RecvTimeout b = (if IdleCounter b3 \<le> 0 then idle_request nt b3 else Some b3)"
    using Suc(2) by (simp add: ClientRecvThread_def client_timeout_def alive_def b3_def b2_def Let_def)
  have out: "outbox b3 = outbox b" using b2 by (simp add: b3_def)
  show ?case
  proof (cases "n = 0")
    case True
    then have "IdleCounter b3 \<le> 0" using Suc(4) b2 by (simp add: timeouts_def b3_def)
    then have "client_waits nt (Suc n) b = idle_request nt b3" using True turn by (cases "idle_request nt b3") simp_all
    then show ?thesis using so out by blast
  next
    case False
    then have "IdleCounter b = 1 + int n" using Suc(4) by (simp add: timeouts_def max_def split: if_splits)
    then have "0 < IdleCounter b3" "n = timeouts b3" using False b2 by (simp_all add: timeouts_def b3_def)
    with Suc(1) [OF same_run_alive [OF soft_same_run [OF so] Suc(2)]] False turn out soft_trans [OF so]
    show ?thesis by fastforce
  qed
qed

lemma client_waits_asks:
  assumes "client_inv img b" and "alive ip b"
  shows "\<exists>b'. client_waits nt (timeouts b) b = Some b' \<and> soft img b b' \<and>
    (0 < chunkcount b \<and> (\<forall>x \<in> set (ChunkBuffer b). state x \<noteq> CHUNK_FULL) \<longrightarrow>
      (\<exists>c A B. 0 \<le> c \<and> c < nchunks img \<and> \<not> flag finished b c \<and> asks nt b b' c A \<and> A \<union> B = {..<nat (csize img c)} \<and>
        (gathers c B b' \<or> B = {} \<and> room_for c b')))"
proof -
  have "0 < timeouts b" by (simp add: timeouts_def)
  from client_waits_request [OF assms(2) this refl, of img nt] obtain b0 where
    b0: "soft img b b0" "outbox b0 = outbox b" "client_waits nt (timeouts b) b = idle_request nt b0" by blast
  define b1 where "b1 = (if gotone b0 then b0\<lparr>cstats := (cstats b0)\<lparr>cs_recvidles := cs_recvidles (cstats b0) + 1\<rparr>\<rparr> else b0)"
  have b1: "soft img b b1" "outbox b1 = outbox b"
    using soft_trans [OF b0(1), of b1] b0(2) by (simp_all add: b1_def soft_def list_all2_refl)
  have inv: "client_inv img b1" by (rule soft_client_inv [OF b1(1) assms(1)])
  from RequestChunk_soft [OF client_invD(1) [OF inv], of nt True] obtain b2 where
    b2: "RequestChunk nt True b1 = Some b2" "soft img b1 b2" by blast
  have so: "soft img b1 (idle_backoff b2)" by (rule soft_trans [OF b2(2) idle_backoff_soft])
  have w: "client_waits nt (timeouts b) b = Some (idle_backoff b2)"
    unfolding b0(3) idle_request_def b1_def [symmetric] Let_def using b2(1) by simp
  have "\<exists>c A B. 0 \<le> c \<and> c < nchunks img \<and> \<not> flag finished b c \<and> asks nt b (idle_backoff b2) c A \<and> A \<union> B = {..<nat (csize img c)} \<and>
        (gathers c B (idle_backoff b2) \<or> B = {} \<and> room_for c (idle_backoff b2))"
    if "0 < chunkcount b" "\<forall>x \<in> set (ChunkBuffer b). state x \<noteq> CHUNK_FULL"
  proof -
    have "0 < chunkcount b1" using that(1) soft_same_run [OF b1(1)] by (simp add: same_run_def)
    moreover have "\<forall>x \<in> set (ChunkBuffer b1). state x \<noteq> CHUNK_FULL"
      by (rule list_all2_pred [of soft_buf "ChunkBuffer b"]) (use b1(1) that(2) in \<open>auto simp: soft_def soft_buf_def\<close>)
    ultimately obtain c A B where
      a: "0 \<le> c" "c < nchunks img" "asks nt b1 b2 c A" "A \<union> B = {..<nat (csize img c)}" "gathers c B b1 \<or> B = {} \<and> room_for c b1"
      "\<not> flag finished b1 c"
      using RequestChunk_asks [OF inv same_run_alive [OF soft_same_run [OF b1(1)] assms(2)] _ _ b2(1)] by blast
    have "gathers c B (idle_backoff b2) \<or> B = {} \<and> room_for c (idle_backoff b2)"
      using a(5) soft_gathers [OF so] soft_room [OF so] by blast
    moreover have "\<not> flag finished b c" using a(6) b1(1) soft_flag [of finished b1 b] by (simp add: soft_def)
    ultimately show ?thesis using a(1-4) asks_before [OF asks_soft [OF a(3) idle_backoff_soft] b1(2)] by blast
  qed
  then show ?thesis using w soft_trans [OF b1(1) so] by blast
qed

section \<open>The server works off its queue\<close>

primrec server_plays :: "net \<Rightarrow> sizes \<Rightarrow> file_info \<Rightarrow> byte list \<Rightarrow> nat \<Rightarrow> sender \<Rightarrow> sender option" where
  "server_plays nt sz fi img 0 h = Some h"
| "server_plays nt sz fi img (Suc n) h = do {
     (stop, h1) \<leftarrow> PlayFrisbee nt sz fi img False h;
     if stop then None else server_plays nt sz fi img n h1
   }"

definition idle_server :: "sender \<Rightarrow> bool" where
  "idle_server h \<longleftrightarrow> WorkQ (queue (srv h)) = [] \<and> WorkChunk (queue (srv h)) = - 1"

lemma idle_pending: "idle_server h \<Longrightarrow> pending (queue (srv h)) = {} \<and> backlog (queue (srv h)) = 0"
  by (simp add: idle_server_def pending_def backlog_def)

lemma server_plays_spec:
  assumes "size_ok (int (length img))" and "init_file_info (int (length img)) = Some (sz, fi)"
    and "sender_ok fi h" and "timeout h = 0" and "backlog (queue (srv h)) \<le> n"
  shows "\<exists>h' ps. server_plays nt sz fi img (Suc n) h = Some h' \<and> sender_ok fi h' \<and> timeout h' = 0 \<and> idle_server h' \<and>
    wire h' = wire h @ ps \<and> (\<forall>p \<in> set ps. genuine nt img p) \<and>
    (pending (queue (srv h)) \<subseteq> in_image img \<longrightarrow> carried ps = pending (queue (srv h)))"
  using assms(3-5)
proof (induction n arbitrary: h)
  case 0
  have nil: "WorkQ (queue (srv h)) = []"
  proof (cases "WorkQ (queue (srv h))")
    case (Cons e q)
    then show ?thesis using PlayFrisbee_job [OF assms(1,2) 0(1) Cons, of nt] 0(3) by auto
  qed
  from PlayFrisbee_idle [OF 0(1) this, of nt sz img] 0(2) obtain h1 where
    "PlayFrisbee nt sz fi img False h = Some (False, h1)" "sender_ok fi h1" "wire h1 = wire h" "timeout h1 = 0"
    "queue (srv h1) = (queue (srv h))\<lparr>WorkChunk := - 1\<rparr>" by auto
  then show ?case using nil by (intro exI [of _ h1] exI [of _ "[]"]) (simp add: idle_server_def pending_def)
next
  case (Suc n)
  show ?case
  proof (cases "WorkQ (queue (srv h))")
    case Nil
    from PlayFrisbee_idle [OF Suc(2) Nil, of nt sz img] Suc(3) obtain h1 where
      h1: "PlayFrisbee nt sz fi img False h = Some (False, h1)" "sender_ok fi h1" "wire h1 = wire h" "timeout h1 = 0"
      "queue (srv h1) = (queue (srv h))\<lparr>WorkChunk := - 1\<rparr>" by auto
    have "backlog (queue (srv h1)) \<le> n" "pending (queue (srv h1)) = pending (queue (srv h))"
      using h1(5) Nil by (simp_all add: backlog_def pending_def)
    with Suc(1) [OF h1(2,4)] h1(1,3) show ?thesis by auto
  next
    case (Cons e q)
    from PlayFrisbee_job [OF assms(1,2) Suc(2) Cons, of nt] obtain ps h1 where
      h1: "PlayFrisbee nt sz fi img False h = Some (False, h1)" "sender_ok fi h1" "wire h1 = wire h @ ps"
      "\<forall>p \<in> set ps. genuine nt img p" "timeout h1 = timeout h" "backlog (queue (srv h1)) < backlog (queue (srv h))"
      "pending (queue (srv h)) \<subseteq> in_image img \<longrightarrow> pending (queue (srv h)) = carried ps \<union> pending (queue (srv h1))" by blast
    with Suc(1) [of h1] Suc(3,4) obtain h' qs where
      h': "server_plays nt sz fi img (Suc n) h1 = Some h'" "sender_ok fi h'" "timeout h' = 0" "idle_server h'"
      "wire h' = wire h1 @ qs" "\<forall>p \<in> set qs. genuine nt img p"
      "pending (queue (srv h1)) \<subseteq> in_image img \<longrightarrow> carried qs = pending (queue (srv h1))" by auto
    have "server_plays nt sz fi img (Suc (Suc n)) h = Some h'" using h1(1) h'(1) by simp
    moreover have "wire h' = wire h @ (ps @ qs)" "\<forall>p \<in> set (ps @ qs). genuine nt img p" using h1 h' by auto
    moreover have "pending (queue (srv h)) \<subseteq> in_image img \<longrightarrow> carried (ps @ qs) = pending (queue (srv h))"
      using h1(7) h'(7) by auto
    ultimately show ?thesis using h'(2-4) by blast
  qed
qed

lemma server_plays_steps:
  assumes "server_plays nts sz fi img n (host s) = Some h"
  shows "(sys_step img sz fi nts ntc)\<^sup>*\<^sup>* s (s\<lparr>host := h\<rparr>)"
  using assms
proof (induction n arbitrary: s)
  case 0
  then have "h = host s" by simp
  then show ?case by simp
next
  case (Suc n)
  then obtain h1 where h1: "PlayFrisbee nts sz fi img False (host s) = Some (False, h1)" "server_plays nts sz fi img n h1 = Some h"
    by (auto split: bind_splits if_splits)
  have "sys_step img sz fi nts ntc s (s\<lparr>host := h1\<rparr>)" by (rule server_play [OF h1(1)])
  from converse_rtranclp_into_rtranclp [OF this Suc(1)] h1(2) show ?case by simp
qed

section \<open>The client hears the server\<close>

primrec client_hears :: "net \<Rightarrow> packet list \<Rightarrow> client \<Rightarrow> client option" where
  "client_hears nt [] b = Some b"
| "client_hears nt (p # ps) b = do { b1 \<leftarrow> ClientRecvThread nt False (arrives nt p) b; client_hears nt ps b1 }"

definition no_less :: "client \<Rightarrow> client \<Rightarrow> bool" where
  "no_less b b' \<longleftrightarrow> same_run b b' \<and> (\<forall>c. flag finished b c \<longrightarrow> flag finished b' c)"

lemma no_less_refl [simp]: "no_less b b"
  by (simp add: no_less_def)

lemma no_less_trans: "no_less a b \<Longrightarrow> no_less b c \<Longrightarrow> no_less a c"
  using same_run_trans [of a b c] by (simp add: no_less_def)

lemma soft_no_less: "soft img b b' \<Longrightarrow> no_less b b'"
  using soft_same_run [of img b b'] soft_flag [of finished b' b] by (simp add: no_less_def soft_def)

lemma cache_steps_complete: "(cache_step T)\<^sup>*\<^sup>* k k' \<Longrightarrow> complete k c \<Longrightarrow> complete k' c"
  by (induction rule: rtranclp_induct) (auto elim: cache_step.cases)

lemma genuine_fair_recv:
  assumes "genuine nts img p"
  shows "fair_recv (seen_image nd img) (arrives ntc p)" and "\<not> bad_request ntc b (arrives ntc p)"
proof -
  show "fair_recv (seen_image nd img) (arrives ntc p)"
    using genuine_fair [OF assms, of nd] by (auto simp: fair_recv_def arrives_def packet_typed_def split: msg.splits)
  show "\<not> bad_request ntc b (arrives ntc p)"
    using assms by (auto simp: bad_request_def arrives_def genuine_def split: msg.splits)
qed

lemma client_hears_one:
  assumes "client_inv (seen_image nd img) b" and "alive ip b" and "genuine nts img p"
  shows "\<exists>b'. ClientRecvThread ntc False (arrives ntc p) b = Some b' \<and> client_inv (seen_image nd img) b' \<and> no_less b b'"
proof -
  from recv_turn_spec [OF assms(1) genuine_fair_recv [OF assms(3)], of ntc False] obtain b' where
    b': "ClientRecvThread ntc False (arrives ntc p) b = Some b'" "client_inv (seen_image nd img) b'"
    "(cache_step (nchunks (seen_image nd img)))\<^sup>*\<^sup>* (abs_cache b) (abs_cache b')" "servertimo b = 0 \<longrightarrow> same_run b b'" by blast
  have "no_less b b'" using b'(4) cache_steps_complete [OF b'(3)] assms(2) by (simp add: no_less_def alive_def)
  then show ?thesis using b' by blast
qed

text \<open>Anything but a block is as good as nothing.\<close>

lemma client_hears_other:
  assumes "client_inv img b" and "alive ip b"
    and "case msg p of Block _ _ _ \<Rightarrow> False | Request _ _ _ \<Rightarrow> False | Prequest _ _ _ \<Rightarrow> False | _ \<Rightarrow> True"
  shows "\<exists>b'. ClientRecvThread ntc False (arrives ntc p) b = Some b' \<and> soft img b b'"
proof -
  obtain rc where rc: "PacketReceive ntc (arrives ntc p) = Some rc" using PacketReceive_returns [of "arrives ntc p"] by (auto simp: arrives_def)
  have live: "\<not> child_error b" "main_phase b = Running" "servertimo b = 0" using assms(2) by (simp_all add: alive_def)
  show ?thesis
  proof (cases "rc = 0")
    case True
    have "client_dispatch ntc p x = Some x" for x using assms(3) by (cases "msg p") (simp_all add: client_dispatch_def)
    then show ?thesis using True rc live by (simp add: ClientRecvThread_def arrives_def Let_def soft_def list_all2_refl)
  next
    case False
    then show ?thesis using client_timeout_spec [OF assms(1), of ntc False] rc live by (auto simp: ClientRecvThread_def)
  qed
qed

lemma client_hears_block:
  assumes "client_inv (seen_image nd img) b" and "alive (myipaddr nts) b" and "genuine nts img p" and "0 \<le> c" and "c < nchunks img"
    and "\<And>c' k buf. msg p = Block c' k buf \<Longrightarrow> c' = c" and "gathers c B b \<or> B = {} \<and> room_for c b"
    and "ClientRecvThread ntc False (arrives ntc p) b = Some b'"
  shows "gathers c (B \<union> {k. (c, k) \<in> carried [p]}) b' \<or> B \<union> {k. (c, k) \<in> carried [p]} = {} \<and> room_for c b'"
proof (cases "\<exists>c k buf. msg p = Block c k buf")
  case True
  then obtain k buf where k: "msg p = Block c k buf" using assms(6) by blast
  then have g: "0 \<le> k" "k < 1024" "(c * 1024 + k) * 1024 < int (length img)" "p = block_packet nts img c k"
    using assms(3) by (auto simp: genuine_def in_image_def)
  have lt: "k < csize img c" using g TotalBlocks_iff [of "c * 1024 + k" "int (length img)"] by (simp add: csize_def)
  have car: "carries (seen_image nd img) c k (image_block img c k)" using seen_carries [of c k img nd] assms(4) g by simp
  have live: "\<not> child_error b" "main_phase b = Running" "serverip b = 0 \<or> serverip b = myipaddr nts"
    using assms(2) by (simp_all add: alive_def)
  have "p = \<lparr>hdr_type = PKTTYPE_REQUEST, hdr_datalen = 8 + MAXBLOCKSIZE, hdr_srcip = myipaddr nts, msg = Block c k (image_block img c k)\<rparr>"
    using g(4) by (simp add: block_packet_def)
  from client_takes_block [OF assms(1,4) _ g(1) _ car assms(7) live this, of ntc False] assms(5,8) lt
  have "gathers c (insert (nat k) B) b'" by (simp add: seen_image_counts)
  moreover have "{k. (c, k) \<in> carried [p]} = {nat k}" using k by (auto simp: carried_def)
  ultimately show ?thesis by simp
next
  case False
  then have none: "case msg p of Block _ _ _ \<Rightarrow> False | Request _ _ _ \<Rightarrow> False | Prequest _ _ _ \<Rightarrow> False | _ \<Rightarrow> True"
    using assms(3) by (auto simp: genuine_def split: msg.splits)
  from client_hears_other [OF assms(1,2) none, of ntc] assms(8) have so: "soft (seen_image nd img) b b'" by auto
  have "carried [p] = {}" using False by (auto simp: carried_def)
  then show ?thesis using assms(7) soft_gathers [OF so] soft_room [OF so] by auto
qed

lemma client_hears_spec:
  assumes "client_inv (seen_image nd img) b" and "alive (myipaddr nts) b" and "\<forall>p \<in> set ps. genuine nts img p"
  shows "\<exists>b'. client_hears ntc ps b = Some b' \<and> client_inv (seen_image nd img) b' \<and> no_less b b' \<and>
    (\<forall>c B. 0 \<le> c \<and> c < nchunks img \<and> fst ` carried ps \<subseteq> {c} \<and> (gathers c B b \<or> B = {} \<and> room_for c b) \<longrightarrow>
      gathers c (B \<union> {k. (c, k) \<in> carried ps}) b' \<or> B \<union> {k. (c, k) \<in> carried ps} = {} \<and> room_for c b')"
  using assms
proof (induction ps arbitrary: b)
  case Nil
  then show ?case by simp
next
  case (Cons p ps)
  have p: "genuine nts img p" using Cons(4) by simp
  from client_hears_one [OF Cons(2,3) p, of ntc] obtain b1 where
    b1: "ClientRecvThread ntc False (arrives ntc p) b = Some b1" "client_inv (seen_image nd img) b1" "no_less b b1" by blast
  have "alive (myipaddr nts) b1" using b1(3) same_run_alive Cons(3) by (auto simp: no_less_def)
  from Cons(1) [OF b1(2) this] Cons(4) obtain b' where
    b': "client_hears ntc ps b1 = Some b'" "client_inv (seen_image nd img) b'" "no_less b1 b'"
    "\<And>c B. 0 \<le> c \<and> c < nchunks img \<and> fst ` carried ps \<subseteq> {c} \<and> (gathers c B b1 \<or> B = {} \<and> room_for c b1) \<Longrightarrow>
      gathers c (B \<union> {k. (c, k) \<in> carried ps}) b' \<or> B \<union> {k. (c, k) \<in> carried ps} = {} \<and> room_for c b'" by auto
  have car: "carried (p # ps) = carried [p] \<union> carried ps" using carried_simps(2) [of "[p]" ps] by simp
  have "gathers c (B \<union> {k. (c, k) \<in> carried (p # ps)}) b' \<or> B \<union> {k. (c, k) \<in> carried (p # ps)} = {} \<and> room_for c b'"
    if c: "0 \<le> c" "c < nchunks img" "fst ` carried (p # ps) \<subseteq> {c}" "gathers c B b \<or> B = {} \<and> room_for c b" for c B
  proof -
    have "c' = c" if "msg p = Block c' k buf" for c' k buf
    proof -
      have "(c', nat k) \<in> carried (p # ps)" using that by (auto simp: carried_def)
      then show ?thesis using c(3) by force
    qed
    from client_hears_block [OF Cons(2,3) p c(1,2) this c(4) b1(1)]
    have "gathers c (B \<union> {k. (c, k) \<in> carried [p]}) b1 \<or> B \<union> {k. (c, k) \<in> carried [p]} = {} \<and> room_for c b1" by simp
    with b'(4) [of c "B \<union> {k. (c, k) \<in> carried [p]}"] c(1-3)
    have "gathers c (B \<union> {k. (c, k) \<in> carried [p]} \<union> {k. (c, k) \<in> carried ps}) b' \<or>
      B \<union> {k. (c, k) \<in> carried [p]} \<union> {k. (c, k) \<in> carried ps} = {} \<and> room_for c b'" unfolding car by auto
    moreover have "B \<union> {k. (c, k) \<in> carried [p]} \<union> {k. (c, k) \<in> carried ps} = B \<union> {k. (c, k) \<in> carried (p # ps)}"
      unfolding car by auto
    ultimately show ?thesis by simp
  qed
  then show ?case using b1(1) b'(1,2) no_less_trans [OF b1(3) b'(3)] by auto
qed

lemma client_hears_steps:
  assumes "client_hears ntc ps (box s) = Some b" and "set ps \<subseteq> set (wire (host s))"
  shows "(sys_step img sz fi nts ntc)\<^sup>*\<^sup>* s (s\<lparr>box := b\<rparr>)"
  using assms
proof (induction ps arbitrary: s)
  case Nil
  then have "b = box s" by simp
  then show ?case by simp
next
  case (Cons p ps)
  then obtain b1 where b1: "ClientRecvThread ntc False (arrives ntc p) (box s) = Some b1" "client_hears ntc ps b1 = Some b"
    by (auto split: bind_splits)
  have "delivered (wire (host s)) (arrives ntc p)" using Cons(3) by (simp add: delivered_def arrives_def)
  then have "sys_step img sz fi nts ntc s (s\<lparr>box := b1\<rparr>)" by (rule client_recv [OF _ b1(1)])
  from converse_rtranclp_into_rtranclp [OF this Cons(1)] b1(2) Cons(3) show ?case by simp
qed

lemma gathered_complete:
  assumes "client_inv img s" and "gathers c {..<nat (csize img c)} s"
  shows "flag finished s c"
proof (rule ccontr)
  assume "\<not> flag finished s c"
  then obtain i where i: "i < length (ChunkBuffer s)" "collecting c (ChunkBuffer s ! i)"
    "{..<nat (csize img c)} \<subseteq> blocks (blockmap (ChunkBuffer s ! i))" using assms(2) by (auto simp: gathers_def)
  have b: "thischunk (ChunkBuffer s ! i) = c" "state (ChunkBuffer s ! i) \<noteq> CHUNK_EMPTY" "state (ChunkBuffer s ! i) \<noteq> CHUNK_FULL"
    using i(2) by (auto simp: collecting_def)
  note ok = buf_okD [OF assms(1) i(1)]
  have "blocks (blockmap (ChunkBuffer s ! i)) = {..<nat (csize img c)}" using ok b i(3) by (auto simp: buf_ok_def)
  moreover have "0 < csize img c" using csize_range [of c img] ok b by (auto simp: buf_ok_def)
  ultimately have "blockcount (ChunkBuffer s ! i) = 0" using ok b by (simp add: buf_ok_def)
  then show False using ok b by (auto simp: buf_ok_def)
qed

section \<open>A round\<close>

text \<open>The server works off its queue, and what it sends arrives.\<close>

definition answered :: "net \<Rightarrow> net \<Rightarrow> sizes \<Rightarrow> file_info \<Rightarrow> byte list \<Rightarrow> system \<Rightarrow> system option" where
  "answered nts ntc sz fi img s = do {
     h \<leftarrow> server_plays nts sz fi img (Suc (backlog (queue (srv (host s))))) (host s);
     b \<leftarrow> client_hears ntc (drop (length (wire (host s))) (wire h)) (box s);
     Some \<lparr>host = h, box = b\<rparr>
   }"

text \<open>The requests arrive at the server one after the other, and each is answered.\<close>

primrec requested :: "net \<Rightarrow> net \<Rightarrow> sizes \<Rightarrow> file_info \<Rightarrow> byte list \<Rightarrow> timeval \<Rightarrow> packet list \<Rightarrow> system \<Rightarrow> system option" where
  "requested nts ntc sz fi img now [] s = Some s"
| "requested nts ntc sz fi img now (p # ps) s = do {
     sv \<leftarrow> ServerRecvThread nts fi now False (arrives nts p) (srv (host s));
     s1 \<leftarrow> answered nts ntc sz fi img (s\<lparr>host := (host s)\<lparr>srv := sv\<rparr>\<rparr>);
     requested nts ntc sz fi img now ps s1
   }"

text \<open>Turns of the writing side.\<close>

primrec client_writes :: "nat \<Rightarrow> client \<Rightarrow> client option" where
  "client_writes 0 b = Some b"
| "client_writes (Suc n) b = do { b1 \<leftarrow> ChunkerStartup b; client_writes n b1 }"

text \<open>
  A round: the server works off what is left of the past; the client waits until it asks; everything that it has asked for in
  this round is answered; the writing side writes what is full.
\<close>

definition good_round :: "net \<Rightarrow> net \<Rightarrow> sizes \<Rightarrow> file_info \<Rightarrow> byte list \<Rightarrow> timeval \<Rightarrow> system \<Rightarrow> system option" where
  "good_round nts ntc sz fi img now s = do {
     s1 \<leftarrow> answered nts ntc sz fi img s;
     b \<leftarrow> client_waits ntc (timeouts (box s1)) (box s1);
     s2 \<leftarrow> requested nts ntc sz fi img now (drop (length (outbox (box s1))) (outbox b)) (s1\<lparr>box := b\<rparr>);
     b2 \<leftarrow> client_writes (length (ChunkBuffer (box s2))) (box s2);
     Some (s2\<lparr>box := b2\<rparr>)
   }"

text \<open>At most so many rounds, until the client's loop is over.\<close>

primrec good_rounds :: "net \<Rightarrow> net \<Rightarrow> sizes \<Rightarrow> file_info \<Rightarrow> byte list \<Rightarrow> timeval \<Rightarrow> nat \<Rightarrow> system \<Rightarrow> system option" where
  "good_rounds nts ntc sz fi img now 0 s = Some s"
| "good_rounds nts ntc sz fi img now (Suc n) s =
     (if main_phase (box s) = Completed then Some s
      else do {
        s1 \<leftarrow> good_round nts ntc sz fi img now s;
        good_rounds nts ntc sz fi img now n s1
      })"

text \<open>What a round relies on: neither side has given up, and the server does not stop when it is idle.\<close>

definition ready :: "bool \<Rightarrow> byte list \<Rightarrow> sizes \<Rightarrow> file_info \<Rightarrow> net \<Rightarrow> system \<Rightarrow> bool" where
  "ready nd img sz fi nts s \<longleftrightarrow> sys_inv nd img sz fi nts s \<and> timeout (host s) = 0 \<and> alive (myipaddr nts) (box s)"

lemma no_less_alive: "no_less b b' \<Longrightarrow> alive ip b \<Longrightarrow> alive ip b'"
  using same_run_alive by (auto simp: no_less_def)

lemma answered_spec:
  assumes "ready nd img sz fi nts s"
  shows "\<exists>s'. answered nts ntc sz fi img s = Some s' \<and> ready nd img sz fi nts s' \<and> idle_server (host s') \<and>
    no_less (box s) (box s') \<and> (sys_step img sz fi nts ntc)\<^sup>*\<^sup>* s s' \<and>
    (\<forall>c A B. 0 \<le> c \<and> c < nchunks img \<and> pending (queue (srv (host s))) = {c} \<times> A \<and> {c} \<times> A \<subseteq> in_image img \<and>
      (gathers c B (box s) \<or> B = {} \<and> room_for c (box s)) \<longrightarrow>
      gathers c (A \<union> B) (box s') \<or> A \<union> B = {} \<and> room_for c (box s'))"
proof -
  have inv: "size_ok (int (length img))" "init_file_info (int (length img)) = Some (sz, fi)" "sender_ok fi (host s)"
    "timeout (host s) = 0" "client_inv (seen_image nd img) (box s)" "alive (myipaddr nts) (box s)"
    "\<forall>p \<in> set (wire (host s)). genuine nts img p" using assms by (simp_all add: ready_def sys_inv_def)
  from server_plays_spec [OF inv(1-4) order_refl, of nts] obtain h ps where
    h: "server_plays nts sz fi img (Suc (backlog (queue (srv (host s))))) (host s) = Some h" "sender_ok fi h" "timeout h = 0"
    "idle_server h" "wire h = wire (host s) @ ps" "\<forall>p \<in> set ps. genuine nts img p"
    "pending (queue (srv (host s))) \<subseteq> in_image img \<longrightarrow> carried ps = pending (queue (srv (host s)))" by blast
  from client_hears_spec [OF inv(5,6) h(6), of ntc] obtain b where
    b: "client_hears ntc ps (box s) = Some b" "client_inv (seen_image nd img) b" "no_less (box s) b"
    "\<And>c B. 0 \<le> c \<and> c < nchunks img \<and> fst ` carried ps \<subseteq> {c} \<and> (gathers c B (box s) \<or> B = {} \<and> room_for c (box s)) \<Longrightarrow>
      gathers c (B \<union> {k. (c, k) \<in> carried ps}) b \<or> B \<union> {k. (c, k) \<in> carried ps} = {} \<and> room_for c b" by blast
  define s' where "s' = \<lparr>host = h, box = b\<rparr>"
  have "answered nts ntc sz fi img s = Some s'" using h(1,5) b(1) by (simp add: answered_def s'_def del: server_plays.simps)
  moreover have "ready nd img sz fi nts s'"
    using inv(1,2,7) h(2,3,5,6) b(2) no_less_alive [OF b(3) inv(6)] by (auto simp: ready_def sys_inv_def s'_def)
  moreover have "(sys_step img sz fi nts ntc)\<^sup>*\<^sup>* s s'"
  proof -
    let ?t = "s\<lparr>host := h\<rparr>"
    have "(sys_step img sz fi nts ntc)\<^sup>*\<^sup>* ?t (?t\<lparr>box := b\<rparr>)" by (rule client_hears_steps) (use b(1) h(5) in auto)
    moreover have "?t\<lparr>box := b\<rparr> = s'" by (simp add: s'_def)
    ultimately show ?thesis using rtranclp_trans [OF server_plays_steps [OF h(1)]] by metis
  qed
  moreover have "gathers c (A \<union> B) (box s') \<or> A \<union> B = {} \<and> room_for c (box s')"
    if "0 \<le> c" "c < nchunks img" "pending (queue (srv (host s))) = {c} \<times> A" "{c} \<times> A \<subseteq> in_image img"
      "gathers c B (box s) \<or> B = {} \<and> room_for c (box s)" for c A B
  proof -
    have car: "carried ps = {c} \<times> A" using h(7) that(3,4) by simp
    moreover have "B \<union> {k. (c, k) \<in> {c} \<times> A} = A \<union> B" by auto
    ultimately show ?thesis using b(4) [of c B] that by (auto simp: s'_def)
  qed
  ultimately show ?thesis using h(4) b(3) by (intro exI [of _ s']) (auto simp: s'_def)
qed

text \<open>A request of the client that arrives is what the server has to do.\<close>

lemma request_arrives:
  assumes "size_ok (int (length img))" and "init_file_info (int (length img)) = Some (sz, fi)"
    and "server_inv fi sv" and "WorkQ (queue sv) = []" and "WorkChunk (queue sv) = - 1" and "good_request (seen_image nd img) p"
  shows "\<exists>sv'. ServerRecvThread nt fi now False (arrives nt p) sv = Some sv' \<and> server_inv fi sv' \<and>
    pending (queue sv') = asked p \<and> asked p \<subseteq> in_image img"
proof -
  have T: "fi_chunks fi = nchunks img" using init_file_info_spec [OF assms(1,2)] by (simp add: nchunks_def)
  have len: "hdr_type p = PKTTYPE_REQUEST" "hdr_datalen p = sizeof_msg (msg p)" using assms(6) by (simp_all add: good_request_def)
  have inside: "{c} \<times> A \<subseteq> in_image img" if "0 \<le> c" "A \<subseteq> {..<nat (csize img c)}" for c A
    using that block_in_image [of c "int _" img] by (fastforce simp: in_image_def)
  have rng: "csize img c \<le> 1024" for c by (simp add: csize_def)
  have *: "received_packet (arrives nt p) = Some p" "packet_typed p" "PacketReceive nt (arrives nt p) = Some 0"
    "PacketValid p (fi_chunks fi)" "requested_pairs (queue sv) p = asked p" "asked p \<subseteq> in_image img"
  proof -
    show "received_packet (arrives nt p) = Some p" by (simp add: received_packet_def arrives_def)
    show "packet_typed p" using assms(6) by (auto simp: good_request_def packet_typed_def split: msg.splits)
    show "PacketReceive nt (arrives nt p) = Some 0"
      using assms(6) len by (cases "msg p") (auto simp: good_request_def arrives_def Let_def to_u64_def sizeof_hdr_def MAXCHUNKSIZE_def)
    have "msg_valid (msg p) (nchunks img)"
    proof (cases "msg p")
      case (Request c b n)
      then have "0 \<le> c" "c < nchunks img" "0 \<le> b" "b < 1024" "0 < n" "b + n \<le> 1024"
        using assms(6) by (auto simp: good_request_def in_chunk_def MAXCHUNKSIZE_def seen_image_counts)
      moreover have "to_i32 (b + n) = b + n" using calculation by (intro to_i32_id) simp_all
      ultimately show ?thesis using Request by (simp add: msg_valid_def MAXCHUNKSIZE_def)
    qed (use assms(6) in \<open>auto simp: good_request_def msg_valid_def seen_image_counts\<close>)
    then show "PacketValid p (fi_chunks fi)" using len by (simp add: PacketValid_def T)
    show "requested_pairs (queue sv) p = asked p"
      using assms(5,6) by (auto simp: requested_pairs_def asked_def added_pairs_def good_request_def split: msg.splits)
    show "asked p \<subseteq> in_image img"
    proof (cases "msg p")
      case (Request c b n)
      then have "0 \<le> c" "{nat b..<nat (b + n)} \<subseteq> {..<nat (csize img c)}"
        using assms(6) by (auto simp: good_request_def seen_image_counts)
      then show ?thesis using inside Request by (simp add: asked_def)
    next
      case (Prequest c r m)
      then have "0 \<le> c" "blocks m \<subseteq> {..<nat (csize img c)}" using assms(6) by (auto simp: good_request_def seen_image_counts)
      then show ?thesis using inside Prequest by (simp add: asked_def)
    qed (simp_all add: asked_def)
  qed
  have "pending (queue sv) = {}" using assms(4) by (simp add: pending_def)
  moreover have "turn_pairs nt fi (arrives nt p) (queue sv) = asked p" using * by (simp add: turn_pairs_def)
  ultimately show ?thesis
    using ServerRecvThread_spec [OF assms(3), of "arrives nt p" nt now False] * by (simp add: arrives_def)
qed

lemma requested_spec:
  assumes "ready nd img sz fi nts s" and "idle_server (host s)" and "list_all (good_request (seen_image nd img)) ps"
  shows "\<exists>s'. requested nts ntc sz fi img now ps s = Some s' \<and> ready nd img sz fi nts s' \<and> no_less (box s) (box s') \<and>
    (sys_step img sz fi nts ntc)\<^sup>*\<^sup>* s s' \<and>
    (\<forall>p qs c A B. ps = p # qs \<and> asked p = {c} \<times> A \<and> A \<union> B = {..<nat (csize img c)} \<and> 0 \<le> c \<and> c < nchunks img \<and>
      (gathers c B (box s) \<or> B = {} \<and> room_for c (box s)) \<longrightarrow> flag finished (box s') c)"
  using assms
proof (induction ps arbitrary: s)
  case Nil
  then show ?case by auto
next
  case (Cons p ps)
  have inv: "size_ok (int (length img))" "init_file_info (int (length img)) = Some (sz, fi)" "sender_ok fi (host s)"
    "server_inv fi (srv (host s))" using Cons(2) by (simp_all add: ready_def sys_inv_def sender_ok_def)
  have idle: "WorkQ (queue (srv (host s))) = []" "WorkChunk (queue (srv (host s))) = - 1"
    using Cons(3) by (simp_all add: idle_server_def)
  have p: "good_request (seen_image nd img) p" using Cons(4) by simp
  from request_arrives [OF inv(1,2,4) idle p, of nts now] obtain sv where
    sv: "ServerRecvThread nts fi now False (arrives nts p) (srv (host s)) = Some sv" "server_inv fi sv"
    "pending (queue sv) = asked p" "asked p \<subseteq> in_image img" by blast
  define t where "t = s\<lparr>host := (host s)\<lparr>srv := sv\<rparr>\<rparr>"
  have rt: "ready nd img sz fi nts t"
    using Cons(2) sv(2) by (simp add: t_def ready_def sys_inv_def sender_ok_def env_ok_def pacing_inv_def)
  have typed: "any_typed (arrives nts p)"
    using p by (auto simp: any_typed_def arrives_def packet_typed_def good_request_def split: msg.splits)
  have step: "sys_step img sz fi nts ntc s t" unfolding t_def by (rule server_recv [OF typed sv(1)])
  from answered_spec [OF rt, of ntc] obtain s1 where
    s1: "answered nts ntc sz fi img t = Some s1" "ready nd img sz fi nts s1" "idle_server (host s1)" "no_less (box t) (box s1)"
    "(sys_step img sz fi nts ntc)\<^sup>*\<^sup>* t s1"
    "\<And>c A B. 0 \<le> c \<and> c < nchunks img \<and> pending (queue (srv (host t))) = {c} \<times> A \<and> {c} \<times> A \<subseteq> in_image img \<and>
      (gathers c B (box t) \<or> B = {} \<and> room_for c (box t)) \<Longrightarrow>
      gathers c (A \<union> B) (box s1) \<or> A \<union> B = {} \<and> room_for c (box s1)" by blast
  from Cons(1) [OF s1(2,3)] Cons(4) obtain s' where
    s': "requested nts ntc sz fi img now ps s1 = Some s'" "ready nd img sz fi nts s'" "no_less (box s1) (box s')"
    "(sys_step img sz fi nts ntc)\<^sup>*\<^sup>* s1 s'" by auto
  have box: "box t = box s" "queue (srv (host t)) = queue sv" by (simp_all add: t_def)
  have "flag finished (box s') c"
    if "asked p = {c} \<times> A" "A \<union> B = {..<nat (csize img c)}" "0 \<le> c" "c < nchunks img"
      "gathers c B (box s) \<or> B = {} \<and> room_for c (box s)" for c A B
  proof -
    have "0 \<in> {..<nat (csize img c)}" using csize_range [OF that(4)] by simp
    then have ne: "A \<union> B \<noteq> {}" unfolding that(2) by blast
    have "gathers c {..<nat (csize img c)} (box s1)" using s1(6) [of c A B] sv(3,4) that ne unfolding box by simp
    then have "gathers c {..<nat (csize (seen_image nd img) c)} (box s1)" by (simp only: seen_image_counts)
    moreover have "client_inv (seen_image nd img) (box s1)" using s1(2) by (simp add: ready_def sys_inv_def)
    ultimately have "flag finished (box s1) c" by (rule gathered_complete [rotated])
    then show ?thesis using s'(3) by (simp add: no_less_def)
  qed
  moreover have "requested nts ntc sz fi img now (p # ps) s = Some s'" using sv(1) s1(1) s'(1) by (simp add: t_def)
  moreover have "(sys_step img sz fi nts ntc)\<^sup>*\<^sup>* s s'"
    using converse_rtranclp_into_rtranclp [OF step rtranclp_trans [OF s1(5) s'(4)]] .
  moreover have "no_less (box s) (box s')" using no_less_trans [OF s1(4) s'(3)] by (simp add: box)
  ultimately show ?case using s'(2) by (intro exI [of _ s']) blast
qed

lemma full_is_written:
  assumes "client_inv img s" and "main_phase s = Running" and "chunkcount s \<noteq> 0"
    and "b \<in> set (ChunkBuffer s)" and "state b = CHUNK_FULL"
  shows "\<exists>s'. ChunkerStartup s = Some s' \<and> chunkcount s' = chunkcount s - 1"
proof -
  from ChunkerStartup_spec [OF assms(1)] obtain s' where s': "ChunkerStartup s = Some s'" by blast
  let ?i = "length (takeWhile (\<lambda>b. state b \<noteq> CHUNK_FULL) (ChunkBuffer s))"
  have "?i \<noteq> length (ChunkBuffer s)"
  proof
    assume "?i = length (ChunkBuffer s)"
    then have "takeWhile (\<lambda>b. state b \<noteq> CHUNK_FULL) (ChunkBuffer s) = ChunkBuffer s"
      by (metis append_Nil2 append_eq_conv_conj takeWhile_eq_take)
    then show False using assms(4,5) by (metis (mono_tags, lifting) set_takeWhileD)
  qed
  then have "chunkcount s' = chunkcount s - 1"
    using s' assms(2,3) by (auto simp: ChunkerStartup_def Let_def set_buf_def split: bind_splits)
  then show ?thesis using s' by blast
qed

text \<open>A turn of the writing side: it goes on, or the loop is over.\<close>

lemma write_turn:
  assumes "client_inv img b" and "alive ip b"
  shows "\<exists>b'. ChunkerStartup b = Some b' \<and> client_inv img b' \<and> chunkcount b' \<le> chunkcount b \<and>
    (if chunkcount b = 0 then main_phase b' = Completed \<and> chunkcount b' = 0 else alive ip b')"
proof -
  from ChunkerStartup_spec [OF assms(1)] obtain b' where b': "ChunkerStartup b = Some b'" "client_inv img b'" by blast
  then show ?thesis using assms(2)
    by (auto simp: ChunkerStartup_def no_chunk_ready_def alive_def set_buf_def Let_def split: if_splits bind_splits)
qed

definition over :: "client \<Rightarrow> bool" where
  "over b \<longleftrightarrow> main_phase b = Completed \<and> chunkcount b = 0"

lemma over_turns: "over b \<Longrightarrow> ChunkerStartup b = Some b" "over b \<Longrightarrow> ClientRecvThread nt kafailed r b = Some b"
  by (simp_all add: over_def ChunkerStartup_def ClientRecvThread_def Let_def)

lemma client_writes_spec:
  assumes "client_inv img b" and "alive ip b \<or> over b"
  shows "\<exists>b'. client_writes n b = Some b' \<and> client_inv img b' \<and> (alive ip b' \<or> over b') \<and> chunkcount b' \<le> chunkcount b \<and>
    (0 < n \<and> chunkcount b = 0 \<longrightarrow> over b')"
  using assms
proof (induction n arbitrary: b)
  case 0
  then show ?case by simp
next
  case (Suc n)
  have "\<exists>b1. ChunkerStartup b = Some b1 \<and> client_inv img b1 \<and> chunkcount b1 \<le> chunkcount b \<and> (alive ip b1 \<or> over b1) \<and>
      (chunkcount b = 0 \<longrightarrow> over b1)"
  proof (cases "over b")
    case True
    then show ?thesis using over_turns(1) Suc(2) by simp
  next
    case False
    then show ?thesis using write_turn [OF Suc(2), of ip] Suc(3) by (auto simp: over_def split: if_splits)
  qed
  then obtain b1 where b1: "ChunkerStartup b = Some b1" "client_inv img b1" "chunkcount b1 \<le> chunkcount b" "alive ip b1 \<or> over b1"
    "chunkcount b = 0 \<longrightarrow> over b1" by blast
  have keep: "client_writes n b1 = Some b1" if "over b1" using over_turns(1) [OF that] by (induction n) simp_all
  from Suc(1) [OF b1(2,4)] obtain b' where
    b': "client_writes n b1 = Some b'" "client_inv img b'" "alive ip b' \<or> over b'" "chunkcount b' \<le> chunkcount b1" by blast
  have "over b'" if "chunkcount b = 0" using that b1(5) keep b'(1) by simp
  then show ?case using b1(1,3) b'(1-4) by auto
qed

lemma client_writes_steps:
  assumes "client_writes n (box s) = Some b"
  shows "(sys_step img sz fi nts ntc)\<^sup>*\<^sup>* s (s\<lparr>box := b\<rparr>)"
  using assms
proof (induction n arbitrary: s)
  case 0
  then have "b = box s" by simp
  then show ?case by simp
next
  case (Suc n)
  then obtain b1 where b1: "ChunkerStartup (box s) = Some b1" "client_writes n b1 = Some b" by (auto split: bind_splits)
  have "sys_step img sz fi nts ntc s (s\<lparr>box := b1\<rparr>)" by (rule client_write [OF b1(1)])
  from converse_rtranclp_into_rtranclp [OF this Suc(1)] b1(2) show ?case by simp
qed

lemma client_waits_steps:
  assumes "client_waits ntc n (box s) = Some b"
  shows "(sys_step img sz fi nts ntc)\<^sup>*\<^sup>* s (s\<lparr>box := b\<rparr>)"
  using assms
proof (induction n arbitrary: s)
  case 0
  then have "b = box s" by simp
  then show ?case by simp
next
  case (Suc n)
  then obtain b1 where b1: "ClientRecvThread ntc False RecvTimeout (box s) = Some b1" "client_waits ntc n b1 = Some b"
    by (auto split: bind_splits)
  have "delivered (wire (host s)) RecvTimeout" by (simp add: delivered_def)
  then have "sys_step img sz fi nts ntc s (s\<lparr>box := b1\<rparr>)" by (rule client_recv [OF _ b1(1)])
  from converse_rtranclp_into_rtranclp [OF this Suc(1)] b1(2) show ?case by simp
qed

text \<open>A round writes a chunk, or finds that all are written.\<close>

lemma finished_is_full:
  assumes "client_inv img b" and "flag finished b c" and "c \<notin> fst ` set (written b)"
  shows "\<exists>x \<in> set (ChunkBuffer b). state x = CHUNK_FULL"
proof -
  have "c < int (length (Chunks b))" "0 \<le> c" using assms(2) by (simp_all add: flag_def)
  then have "0 \<le> c \<and> c < nchunks img" using client_invD(1) [OF assms(1)] by (simp add: req_inv_def)
  then have "Full c \<in> slot_of ` set (ChunkBuffer b)"
    using cache_inv_D(3) [OF client_invD(2) [OF assms(1)], of c] assms(2,3) by auto
  then obtain x where "x \<in> set (ChunkBuffer b)" "Full c = slot_of x" by (rule imageE)
  then show ?thesis by (auto simp: slot_of_def split: bufstate.splits)
qed

lemma full_stays:
  assumes "client_inv img b" and "client_inv img b'" and "no_less b b'" and "x \<in> set (ChunkBuffer b)" and "state x = CHUNK_FULL"
  shows "\<exists>x \<in> set (ChunkBuffer b'). state x = CHUNK_FULL"
proof -
  let ?c = "thischunk x"
  have "Full ?c = slot_of x" using assms(5) by (simp add: slot_of_def)
  then have full: "Full ?c \<in> set (slots (abs_cache b))" unfolding abs_simps(1) set_map by (rule image_eqI [OF _ assms(4)])
  then have "flag finished b ?c" "?c \<notin> fst ` set (written b)"
    using cache_inv_D(3,6) [OF client_invD(2) [OF assms(1)], of ?c] by auto
  then show ?thesis using finished_is_full [OF assms(2), of ?c] assms(3) by (auto simp: no_less_def same_run_def)
qed

lemma chunkcount_facts:
  assumes "client_inv img b"
  shows "0 \<le> chunkcount b" and "chunkcount b = nchunks img - int (length (written b))"
proof -
  have "card (fst ` set (written b)) \<le> card {0..<nchunks img}" by (rule card_mono [OF _ written_facts(2) [OF assms]]) simp
  moreover have "card (fst ` set (written b)) = length (written b)" using distinct_card [OF written_facts(1) [OF assms]] by simp
  moreover have "0 \<le> nchunks img" using client_invD(1) [OF assms] by (simp add: req_inv_def) 
  ultimately show "0 \<le> chunkcount b" using assms by (simp add: client_inv_def)
  show "chunkcount b = nchunks img - int (length (written b))" using assms by (simp add: client_inv_def)
qed

lemma client_writes_full:
  assumes "client_inv img b" and "alive ip b" and "0 < chunkcount b" and "x \<in> set (ChunkBuffer b)" and "state x = CHUNK_FULL"
    and "0 < n" and "client_writes n b = Some b'"
  shows "chunkcount b' < chunkcount b"
proof -
  obtain m where n: "n = Suc m" using assms(6) by (cases n) auto
  from full_is_written [OF assms(1) _ _ assms(4,5)] assms(2,3) obtain b1 where
    b1: "ChunkerStartup b = Some b1" "chunkcount b1 = chunkcount b - 1" by (auto simp: alive_def)
  from write_turn [OF assms(1,2)] b1 assms(3) have "client_inv img b1" "alive ip b1" by (auto split: if_splits)
  with client_writes_spec [of img b1 ip m] assms(7) b1 n show ?thesis by auto
qed

lemma good_round_spec:
  assumes "ready nd img sz fi nts s"
  shows "\<exists>s'. good_round nts ntc sz fi img now s = Some s' \<and> sys_inv nd img sz fi nts s' \<and>
    (ready nd img sz fi nts s' \<or> over (box s')) \<and> (sys_step img sz fi nts ntc)\<^sup>*\<^sup>* s s' \<and>
    (if chunkcount (box s) = 0 then over (box s') else chunkcount (box s') < chunkcount (box s))"
proof -
  let ?img = "seen_image nd img"
  from answered_spec [OF assms, of ntc] obtain s1 where
    s1: "answered nts ntc sz fi img s = Some s1" "ready nd img sz fi nts s1" "idle_server (host s1)" "no_less (box s) (box s1)"
    "(sys_step img sz fi nts ntc)\<^sup>*\<^sup>* s s1" by blast
  have inv1: "client_inv ?img (box s1)" "alive (myipaddr nts) (box s1)" using s1(2) by (simp_all add: ready_def sys_inv_def)
  from client_waits_asks [OF inv1, of ntc] obtain b where
    b: "client_waits ntc (timeouts (box s1)) (box s1) = Some b" "soft ?img (box s1) b"
    "0 < chunkcount (box s1) \<and> (\<forall>x \<in> set (ChunkBuffer (box s1)). state x \<noteq> CHUNK_FULL) \<Longrightarrow>
      \<exists>c A B. 0 \<le> c \<and> c < nchunks ?img \<and> \<not> flag finished (box s1) c \<and> asks ntc (box s1) b c A \<and> A \<union> B = {..<nat (csize ?img c)} \<and>
        (gathers c B b \<or> B = {} \<and> room_for c b)" by blast
  define t where "t = s1\<lparr>box := b\<rparr>"
  define ps where "ps = drop (length (outbox (box s1))) (outbox b)"
  obtain qs where qs: "outbox b = outbox (box s1) @ qs" "list_all (good_request ?img) qs" using b(2) by (auto simp: soft_def)
  have ps: "ps = qs" by (simp add: ps_def qs(1))
  have rt: "ready nd img sz fi nts t"
    using s1(2) soft_client_inv [OF b(2)] same_run_alive [OF soft_same_run [OF b(2)]] by (simp add: t_def ready_def sys_inv_def)
  have idle: "idle_server (host t)" using s1(3) by (simp add: t_def)
  have st: "(sys_step img sz fi nts ntc)\<^sup>*\<^sup>* s1 t" unfolding t_def by (rule client_waits_steps [OF b(1)])
  from requested_spec [OF rt idle qs(2), of ntc now] obtain s2 where
    s2: "requested nts ntc sz fi img now qs t = Some s2" "ready nd img sz fi nts s2" "no_less (box t) (box s2)"
    "(sys_step img sz fi nts ntc)\<^sup>*\<^sup>* t s2"
    "\<And>p rs c A B. qs = p # rs \<and> asked p = {c} \<times> A \<and> A \<union> B = {..<nat (csize img c)} \<and> 0 \<le> c \<and> c < nchunks img \<and>
      (gathers c B (box t) \<or> B = {} \<and> room_for c (box t)) \<Longrightarrow> flag finished (box s2) c" by blast
  have inv2: "client_inv ?img (box s2)" "alive (myipaddr nts) (box s2)" using s2(2) by (simp_all add: ready_def sys_inv_def)
  have less: "no_less (box s) (box s2)" "no_less (box s1) (box s2)"
    using no_less_trans [OF s1(4)] no_less_trans [OF soft_no_less [OF b(2)]] s2(3) by (simp_all add: t_def)
  then have same: "chunkcount (box s2) = chunkcount (box s)" "chunkcount (box s1) = chunkcount (box s)"
    "written (box s2) = written (box s1)" using s1(4) by (simp_all add: no_less_def same_run_def)
  let ?n = "length (ChunkBuffer (box s2))"
  have n: "0 < ?n" using inv2(2) by (simp add: alive_def)
  from client_writes_spec [OF inv2(1), of "myipaddr nts" ?n] inv2(2) obtain b2 where
    b2: "client_writes ?n (box s2) = Some b2" "client_inv ?img b2" "alive (myipaddr nts) b2 \<or> over b2"
    "chunkcount (box s2) = 0 \<longrightarrow> over b2" using n by auto
  define s' where "s' = s2\<lparr>box := b2\<rparr>"
  have "chunkcount b2 < chunkcount (box s)" if "chunkcount (box s) \<noteq> 0"
  proof -
    have pos: "0 < chunkcount (box s2)" using chunkcount_facts(1) [OF inv2(1)] that same by simp
    have "\<exists>x \<in> set (ChunkBuffer (box s2)). state x = CHUNK_FULL"
    proof (cases "\<forall>x \<in> set (ChunkBuffer (box s1)). state x \<noteq> CHUNK_FULL")
      case True
      from b(3) True pos same obtain c A B where
        a: "0 \<le> c" "c < nchunks img" "asks ntc (box s1) b c A" "A \<union> B = {..<nat (csize img c)}"
        "gathers c B b \<or> B = {} \<and> room_for c b" "\<not> flag finished (box s1) c" by (auto simp: seen_image_counts)
      obtain p rs where p: "qs = p # rs" "asked p = {c} \<times> A" using a(3) qs(1) by (auto simp: asks_def)
      have "flag finished (box s2) c" by (rule s2(5) [of p rs c A B]) (use p a in \<open>simp add: t_def\<close>)
      moreover have "c \<notin> fst ` set (written (box s2))"
        using cache_inv_D(3) [OF client_invD(2) [OF inv1(1)], of c] a(1,2,6) same(3) by auto
      ultimately show ?thesis by (rule finished_is_full [OF inv2(1)])
    next
      case False
      then show ?thesis using full_stays [OF inv1(1) inv2(1) less(2)] by blast
    qed
    then obtain x where "x \<in> set (ChunkBuffer (box s2))" "state x = CHUNK_FULL" by blast
    from client_writes_full [OF inv2(1,2) pos this n b2(1)] show ?thesis using same by simp
  qed
  moreover have "good_round nts ntc sz fi img now s = Some s'"
    using s1(1) b(1) s2(1) b2(1) unfolding good_round_def ps_def [symmetric] by (simp add: ps [unfolded ps_def] t_def s'_def)
  moreover have "sys_inv nd img sz fi nts s'" using s2(2) b2(2) by (simp add: ready_def sys_inv_def s'_def)
  moreover have "ready nd img sz fi nts s' \<or> over (box s')" using s2(2) b2(2,3) by (auto simp: ready_def sys_inv_def s'_def)
  moreover have "(sys_step img sz fi nts ntc)\<^sup>*\<^sup>* s s'"
    using rtranclp_trans [OF s1(5) rtranclp_trans [OF st rtranclp_trans [OF s2(4) client_writes_steps [OF b2(1)]]]]
    by (simp add: s'_def)
  ultimately show ?thesis using b2(4) same by (intro exI [of _ s']) (simp add: s'_def)
qed

lemma good_rounds_spec:
  assumes "sys_inv nd img sz fi nts s" and "ready nd img sz fi nts s \<or> over (box s)"
  shows "\<exists>s'. good_rounds nts ntc sz fi img now (Suc (nat (chunkcount (box s)))) s = Some s' \<and> sys_inv nd img sz fi nts s' \<and>
    (sys_step img sz fi nts ntc)\<^sup>*\<^sup>* s s' \<and> over (box s')"
proof -
  have "\<exists>s'. good_rounds nts ntc sz fi img now (Suc n) s = Some s' \<and> sys_inv nd img sz fi nts s' \<and>
      (sys_step img sz fi nts ntc)\<^sup>*\<^sup>* s s' \<and> over (box s')" if "nat (chunkcount (box s)) \<le> n" for n
    using assms that
  proof (induction n arbitrary: s)
    case 0
    show ?case
    proof (cases "over (box s)")
      case True
      then show ?thesis using 0(1) by (auto simp: over_def)
    next
      case False
      then have r: "ready nd img sz fi nts s" using 0(2) by simp
      then have "chunkcount (box s) = 0" "main_phase (box s) \<noteq> Completed"
        using 0(3) chunkcount_facts(1) [of "seen_image nd img" "box s"] by (auto simp: ready_def sys_inv_def alive_def)
      then show ?thesis using good_round_spec [OF r, of ntc now] by auto
    qed
  next
    case (Suc n)
    show ?case
    proof (cases "over (box s)")
      case True
      then show ?thesis using Suc(2) by (auto simp: over_def)
    next
      case False
      then have r: "ready nd img sz fi nts s" using Suc(3) by simp
      then have run: "main_phase (box s) \<noteq> Completed" by (simp add: ready_def alive_def)
      from good_round_spec [OF r, of ntc now] obtain s1 where
        s1: "good_round nts ntc sz fi img now s = Some s1" "sys_inv nd img sz fi nts s1" "ready nd img sz fi nts s1 \<or> over (box s1)"
        "(sys_step img sz fi nts ntc)\<^sup>*\<^sup>* s s1"
        "if chunkcount (box s) = 0 then over (box s1) else chunkcount (box s1) < chunkcount (box s)" by blast
      have "nat (chunkcount (box s1)) \<le> n" using s1(5) Suc(4) by (auto simp: over_def split: if_splits)
      from Suc(1) [OF s1(2,3) this] obtain s' where
        "good_rounds nts ntc sz fi img now (Suc n) s1 = Some s'" "sys_inv nd img sz fi nts s'"
        "(sys_step img sz fi nts ntc)\<^sup>*\<^sup>* s1 s'" "over (box s')" by blast
      then show ?thesis using run s1(1) rtranclp_trans [OF s1(4)] by auto
    qed
  qed
  then show ?thesis by blast
qed

lemma can_finish:
  assumes "ready nd img sz fi nts s"
  shows "\<exists>s'. (sys_step img sz fi nts ntc)\<^sup>*\<^sup>* s s' \<and> sys_inv nd img sz fi nts s' \<and> main_phase (box s') = Completed \<and>
    chunkcount (box s') = 0"
proof -
  have "sys_inv nd img sz fi nts s" using assms by (simp add: ready_def)
  then show ?thesis using good_rounds_spec [of nd img sz fi nts s] assms unfolding over_def by blast
qed

lemma reach_rtranclp:
  assumes "step\<^sup>*\<^sup>* s s'" and "reach init step s"
  shows "reach init step s'"
  using assms by (induction rule: rtranclp_induct) (auto intro: reach_step)

text \<open>
  C5. A download gets to its end. Take any state that a server and a client reach on a network that loses, repeats, reorders and
  delays packets, whatever other hosts have sent but blocks, in which the client has not given up (its receive thread lives, its server is
  this one, it has a buffer, it waits for its server for ever and its limits on requests are not zero) and the server does not
  stop when it is idle. If from there the network delivers what the two sides send (rounds of the program's own turns, in which the
  server works off its queue, receive timeouts run until the client sends its requests, each of these arrives at
  the server, which answers it, the answers arrive at the client, and the writing side has its turns), every round that finds a chunk
  missing writes at least one, and after at most one round more than chunks are missing all are written and the loop of the
  client is completed. No turn of a round fails. The only packets that move are those that the two sides
  have sent: a client that did not ask for what it lacks, or a server that did not answer, would not get there.
\<close>

theorem download_can_finish:
  assumes "reach (sys_start nd img sz fi) (sys_step img sz fi nts ntc) s" and "\<not> child_error (box s)" and "main_phase (box s) = Running"
    and "serverip (box s) = 0 \<or> serverip (box s) = myipaddr nts" and "ChunkBuffer (box s) \<noteq> []" and "servertimo (box s) = 0"
    and "0 < maxreadahead (box s)" and "0 < maxinprogress (box s)" and "timeout (host s) = 0"
  shows "(\<exists>s'. good_round nts ntc sz fi img now s = Some s' \<and> (sys_step img sz fi nts ntc)\<^sup>*\<^sup>* s s' \<and>
      (chunkcount (box s) \<noteq> 0 \<longrightarrow> chunkcount (box s') < chunkcount (box s))) \<and>
    (\<exists>s'. good_rounds nts ntc sz fi img now (Suc (nat (chunkcount (box s)))) s = Some s' \<and>
      (sys_step img sz fi nts ntc)\<^sup>*\<^sup>* s s' \<and> main_phase (box s') = Completed \<and> chunkcount (box s') = 0 \<and>
      fst ` set (written (box s')) = {0..<nchunks img})"
proof -
  have inv: "sys_inv nd img sz fi nts s" by (rule sys.reach_inv [OF assms(1)])
  then have r: "ready nd img sz fi nts s" using assms(2-9) by (simp add: ready_def alive_def)
  from good_rounds_spec [OF inv, of ntc now] r obtain s' where
    s': "good_rounds nts ntc sz fi img now (Suc (nat (chunkcount (box s)))) s = Some s'" "sys_inv nd img sz fi nts s'"
    "(sys_step img sz fi nts ntc)\<^sup>*\<^sup>* s s'" "over (box s')" by blast
  have "client_inv (seen_image nd img) (box s')" using s'(2) by (simp add: sys_inv_def)
  from written_facts(4) [OF this] s'(4) have "fst ` set (written (box s')) = {0..<nchunks img}"
    by (simp add: over_def seen_image_counts)
  moreover have "\<exists>s'. good_round nts ntc sz fi img now s = Some s' \<and> (sys_step img sz fi nts ntc)\<^sup>*\<^sup>* s s' \<and>
      (chunkcount (box s) \<noteq> 0 \<longrightarrow> chunkcount (box s') < chunkcount (box s))"
    using good_round_spec [OF r, of ntc now] by auto
  ultimately show ?thesis using s'(1,3,4) unfolding over_def by blast
qed

theorem download_can_finish_witness:
  "\<exists>sz fi s s'. reach (sys_start True [7] sz fi) (sys_step [7] sz fi net_example net_example) s \<and> box s = client_example \<and>
    good_rounds net_example net_example sz fi [7] \<lparr>tv_sec = 0, tv_usec = 0\<rparr> 2 s = Some s' \<and>
    main_phase (box s') = Completed \<and> fst ` set (written (box s')) = {0}"
proof -
  obtain sz fi where i: "size_ok (int (length [7 :: byte]))" "init_file_info (int (length [7 :: byte])) = Some (sz, fi)"
    using byte_image by blast
  define s where "s = \<lparr>host = host_example, box = client_example\<rparr>"
  have "sys_start True [7] sz fi s"
    using i client_example_start by (simp add: sys_start_def s_def seen_image_def host_example_ok)
  then have r: "reach (sys_start True [7] sz fi) (sys_step [7] sz fi net_example net_example) s" by (rule reach_init)
  have box: "box s = client_example" "timeout (host s) = 0" by (simp_all add: s_def host_example_def)
  have n: "Suc (nat (chunkcount (box s))) = 2" by (simp add: box client_example_simps)
  have c: "{0..<nchunks [7]} = {0}" by (auto simp: client_example_simps)
  have "\<exists>s'. good_rounds net_example net_example sz fi [7] \<lparr>tv_sec = 0, tv_usec = 0\<rparr> 2 s = Some s' \<and>
      main_phase (box s') = Completed \<and> fst ` set (written (box s')) = {0}"
    using download_can_finish [OF r _ _ _ _ _ _ _ box(2), of "\<lparr>tv_sec = 0, tv_usec = 0\<rparr>"] unfolding n c
    by (auto simp: box(1) client_example_simps simp del: good_rounds.simps)
  then show ?thesis using r box(1) by blast
qed

end
