(* ===== verification/ImageRanges.thy ===== *)
theory ImageRanges
  imports Prelude "HOL-Library.Multiset"
begin

text \<open>
  How imagezip finds the sectors to save (clientside/os/imagezip/imagezip.c): the scanners of the file systems report free
  ranges with \<^verbatim>\<open>addskip\<close>; \<^verbatim>\<open>mergeskips\<close> sorts and merges them and drops the
  small ones; \<^verbatim>\<open>makeranges\<close> turns the rest into the ranges to save. A list of
  \<^verbatim>\<open>struct range\<close> is a HOL list. Sector numbers are unsigned 32-bit numbers. The counters
  \<^verbatim>\<open>numskips\<close> and \<^verbatim>\<open>numranges\<close>, which are only printed, and the messages are left out.
  Fixups are changes of the data that are made before it is compressed.
\<close>

section \<open>Definitions\<close>

record 'd izrange =
  ir_start :: int
  ir_size :: int
  ir_data :: 'd

text \<open>
  A fixup, with the data that is still to be copied, or the function to call with the bytes of the image and this data.
\<close>

record fixup =
  fx_offset :: int
  fx_poffset :: int
  fx_size :: int
  fx_reloctype :: int
  fx_data :: "byte list"
  fx_func :: "(byte list \<Rightarrow> byte list \<Rightarrow> byte list) option"

record blockreloc =
  rl_type :: int
  rl_sector :: int
  rl_sectoff :: int
  rl_size :: int

text \<open>The lists of imagezip. The data of a free or a saved range is never used.\<close>

record izlists =
  skips :: "unit izrange list"
  ranges :: "unit izrange list"
  fixups :: "fixup izrange list"
  Ofixups :: "fixup izrange list"
  relocs :: "blockreloc list"
  numregions :: int

definition izlists_init :: izlists where
  "izlists_init = \<lparr>skips = [], ranges = [], fixups = [], Ofixups = [], relocs = [], numregions = 0\<rparr>"

definition secsize :: int where "secsize = 512"

definition sectobytes :: "int \<Rightarrow> int" where
  "sectobytes s = s * secsize"

definition bytestosec :: "int \<Rightarrow> int" where
  "bytestosec b = to_u32 (b div secsize)"

definition RELOC_NONE :: int where "RELOC_NONE = 0"

definition addskip :: "int \<Rightarrow> int \<Rightarrow> izlists \<Rightarrow> izlists" where
  "addskip start sz z = z\<lparr>skips := \<lparr>ir_start = start, ir_size = sz, ir_data = ()\<rparr> # skips z\<rparr>"

definition addvalid :: "int \<Rightarrow> int \<Rightarrow> izlists \<Rightarrow> izlists" where
  "addvalid start sz z = z\<lparr>ranges := ranges z @ [\<lparr>ir_start = start, ir_size = sz, ir_data = ()\<rparr>]\<rparr>"

definition addfixupentry ::
  "int \<Rightarrow> int \<Rightarrow> int \<Rightarrow> byte list \<Rightarrow> int \<Rightarrow> (byte list \<Rightarrow> byte list \<Rightarrow> byte list) option \<Rightarrow> izlists \<Rightarrow> izlists" where
  "addfixupentry offset poffset sz data reloctype func z =
     z\<lparr>fixups := \<lparr>ir_start = bytestosec offset, ir_size = bytestosec (sz + secsize - 1),
          ir_data = \<lparr>fx_offset = offset, fx_poffset = poffset, fx_size = sz, fx_reloctype = reloctype, fx_data = data,
            fx_func = func\<rparr>\<rparr> # fixups z\<rparr>"

definition addfixup :: "int \<Rightarrow> int \<Rightarrow> int \<Rightarrow> byte list \<Rightarrow> int \<Rightarrow> izlists \<Rightarrow> izlists" where
  "addfixup offset poffset sz data reloctype = addfixupentry offset poffset sz data reloctype None"

definition addfixupfunc ::
  "(byte list \<Rightarrow> byte list \<Rightarrow> byte list) \<Rightarrow> int \<Rightarrow> int \<Rightarrow> int \<Rightarrow> byte list \<Rightarrow> int \<Rightarrow> izlists \<Rightarrow> izlists" where
  "addfixupfunc func offset poffset sz data reloctype = addfixupentry offset poffset sz data reloctype (Some func)"

definition zerofixup :: "byte list \<Rightarrow> byte list \<Rightarrow> byte list" where
  "zerofixup buf fdata = replicate (length buf) 0"

text \<open>
  The bubble sort swaps the contents of neighbours until a pass changes nothing. It ends for the orders that are used; with
  another comparison it may not, so it is a partial function.
\<close>

definition out_of_order :: "('d izrange \<Rightarrow> 'd izrange \<Rightarrow> bool) option \<Rightarrow> 'd izrange \<Rightarrow> 'd izrange \<Rightarrow> bool" where
  "out_of_order rangecmp x y \<longleftrightarrow> ir_start y < ir_start x \<or> (case rangecmp of None \<Rightarrow> False | Some f \<Rightarrow> f x y)"

fun bubble_pass :: "('a \<Rightarrow> 'a \<Rightarrow> bool) \<Rightarrow> 'a list \<Rightarrow> 'a list \<times> bool" where
  "bubble_pass gt (x # y # ys) =
     (if gt x y then (case bubble_pass gt (x # ys) of (zs, changed) \<Rightarrow> (y # zs, True))
      else (case bubble_pass gt (y # ys) of (zs, changed) \<Rightarrow> (x # zs, changed)))"
| "bubble_pass gt xs = (xs, False)"

partial_function (option) bubble_sort :: "('a \<Rightarrow> 'a \<Rightarrow> bool) \<Rightarrow> 'a list \<Rightarrow> 'a list option" where
  "bubble_sort gt xs = (case bubble_pass gt xs of (ys, changed) \<Rightarrow> if changed then bubble_sort gt ys else Some ys)"

text \<open>\<^verbatim>\<open>mergeranges\<close> joins neighbours that touch, and counts them.\<close>

fun mergeranges :: "'d izrange list \<Rightarrow> 'd izrange list \<times> nat" where
  "mergeranges (x # y # ys) =
     (if to_u32 (ir_start x + ir_size x) = ir_start y
      then (case mergeranges (x\<lparr>ir_size := to_u32 (ir_size x + ir_size y)\<rparr> # ys) of (zs, freed) \<Rightarrow> (zs, freed + 1))
      else (case mergeranges (y # ys) of (zs, freed) \<Rightarrow> (x # zs, freed)))"
| "mergeranges xs = (xs, 0)"

definition sortrange :: "'d izrange list \<Rightarrow> bool \<Rightarrow> ('d izrange \<Rightarrow> 'd izrange \<Rightarrow> bool) option \<Rightarrow> 'd izrange list option" where
  "sortrange head domerge rangecmp =
     (if head = [] then Some []
      else do {
        rs \<leftarrow> bubble_sort (out_of_order rangecmp) head;
        Some (if domerge then fst (mergeranges rs) else rs)
      })"

text \<open>Free ranges that are too small are saved after all; on request they are saved as zeros.\<close>

fun cull_skips :: "int \<Rightarrow> bool \<Rightarrow> unit izrange list \<Rightarrow> izlists \<Rightarrow> unit izrange list \<times> nat \<times> izlists" where
  "cull_skips frangesize zerofrange [] z = ([], 0, z)"
| "cull_skips frangesize zerofrange (r # rs) z =
     (if ir_size r < to_u32 frangesize then
        let z1 = (if zerofrange then addfixupfunc zerofixup (sectobytes (ir_start r)) 0 (sectobytes (ir_size r)) [] RELOC_NONE z else z);
            (kept, culled, z2) = cull_skips frangesize zerofrange rs z1 in (kept, culled + 1, z2)
      else let (kept, culled, z2) = cull_skips frangesize zerofrange rs z in (r # kept, culled, z2))"

definition mergeskips :: "int \<Rightarrow> bool \<Rightarrow> izlists \<Rightarrow> (nat \<times> izlists) option" where
  "mergeskips frangesize zerofrange z =
     do {
       sorted \<leftarrow> sortrange (skips z) False None;
       let (merged, freed) = mergeranges sorted in
       if frangesize \<noteq> 0 then
         let (kept, culled, z1) = cull_skips frangesize zerofrange merged z in Some (freed + culled, z1\<lparr>skips := kept\<rparr>)
       else Some (freed, z\<lparr>skips := merged\<rparr>)
     }"

fun makeranges_loop :: "unit izrange list \<Rightarrow> int \<Rightarrow> izlists \<Rightarrow> int \<times> izlists" where
  "makeranges_loop [] offset z = (offset, z)"
| "makeranges_loop (p # ps) offset z =
     (let gap = to_u32 (ir_start p - offset); z1 = (if gap > 0 then addvalid offset gap z else z) in
      makeranges_loop ps (to_u32 (ir_start p + ir_size p)) z1)"

definition makeranges :: "int \<Rightarrow> int \<Rightarrow> izlists \<Rightarrow> izlists option" where
  "makeranges inputminsec inputmaxsec z =
     (let (offset, z1) = makeranges_loop (skips z) (to_u32 inputminsec) z in
      if inputmaxsec = 0 \<or> to_u64 (inputmaxsec - offset) \<noteq> 0 then do {
        c_assert (inputmaxsec = 0 \<or> inputmaxsec > offset);
        Some (addvalid offset (if inputmaxsec \<noteq> 0 then to_u32 (inputmaxsec - offset) else 0) z1)
      } else Some z1)"

definition sectinranges :: "'d izrange list \<Rightarrow> int" where
  "sectinranges rs = foldl (\<lambda>total r. to_u32 (total + ir_size r)) 0 rs"


section \<open>Fixups and relocations\<close>

definition cmpfixups :: "fixup izrange \<Rightarrow> fixup izrange \<Rightarrow> bool" where
  "cmpfixups r1 r2 \<longleftrightarrow> ir_start r1 > ir_start r2 \<or>
     (ir_start r1 = ir_start r2 \<and> fx_offset (ir_data r1) > fx_offset (ir_data r2))"

fun hasfixup_loop :: "int \<Rightarrow> int \<Rightarrow> fixup izrange list \<Rightarrow> bool" where
  "hasfixup_loop offset eoffset [] = False"
| "hasfixup_loop offset eoffset (rp # rps) =
     (let fp = ir_data rp in
      if eoffset \<le> fx_offset fp then False
      else if offset \<ge> fx_offset fp + fx_size fp then hasfixup_loop offset eoffset rps
      else True)"

definition hasfixup :: "int \<Rightarrow> int \<Rightarrow> izlists \<Rightarrow> bool" where
  "hasfixup soffset ssize z = hasfixup_loop (sectobytes soffset) (sectobytes soffset + sectobytes ssize) (fixups z)"

definition savefixups :: "izlists \<Rightarrow> izlists option" where
  "savefixups z =
     (let z1 = z\<lparr>Ofixups := fixups z, fixups := []\<rparr>;
          z2 = foldl (\<lambda>y r. let fp = ir_data r in
                 addfixupentry (fx_offset fp) (fx_poffset fp) (fx_size fp) (fx_data fp) RELOC_NONE (fx_func fp) y) z1 (Ofixups z1) in
      do { fs \<leftarrow> sortrange (fixups z2) False (Some cmpfixups); Some (z2\<lparr>fixups := fs\<rparr>) })"

definition restorefixups :: "bool \<Rightarrow> izlists \<Rightarrow> izlists option" where
  "restorefixups isempty z = do { c_assert (isempty \<longrightarrow> fixups z = []); Some (z\<lparr>fixups := Ofixups z\<rparr>) }"

text \<open>The header of a chunk has room for its fields, 8 bytes for each region and 16 for each relocation.\<close>

definition DEFAULTREGIONSIZE :: int where "DEFAULTREGIONSIZE = 4096"

definition HDRUSED :: "int \<Rightarrow> int \<Rightarrow> int" where
  "HDRUSED reg rel = 344 + reg * 8 + rel * 16"

definition addreloc :: "int \<Rightarrow> int \<Rightarrow> int \<Rightarrow> izlists \<Rightarrow> izlists option" where
  "addreloc offset sz reloctype z =
     (if HDRUSED (numregions z) (int (length (relocs z)) + 1) > DEFAULTREGIONSIZE then None
      else Some (z\<lparr>relocs := relocs z @ [\<lparr>rl_type = reloctype, rl_sector = bytestosec offset,
        rl_sectoff = to_u32 (offset - sectobytes (bytestosec offset)), rl_size = to_u32 sz\<rparr>]\<rparr>))"

definition freerelocs :: "izlists \<Rightarrow> izlists" where
  "freerelocs z = z\<lparr>relocs := []\<rparr>"

text \<open>Overwriting a part of a buffer; what would lie behind its end is not seen by the caller.\<close>

definition patch :: "byte list \<Rightarrow> nat \<Rightarrow> byte list \<Rightarrow> byte list" where
  "patch buf i new = take (length buf) (take i buf @ new @ drop (i + length new) buf)"

fun apply_loop :: "int \<Rightarrow> int \<Rightarrow> fixup izrange list \<Rightarrow> byte list \<Rightarrow> izlists \<Rightarrow> (fixup izrange list \<times> byte list \<times> izlists) option" where
  "apply_loop offset sz [] data z = Some ([], data, z)"
| "apply_loop offset sz (e # es) data z =
     (let fp = ir_data e in do {
        c_assert (fx_offset fp \<ge> offset);
        if offset + sz \<le> fx_offset fp then Some (e # es, data, z)
        else do {
          let part = fx_offset fp + fx_size fp > offset + sz;
              coff = to_u32 (fx_offset fp - offset);
              clen = to_u32 (if part then offset + sz - fx_offset fp else fx_size fp);
              old = take (nat clen) (drop (nat coff) data);
              data1 = patch data (nat coff) (case fx_func fp of Some f \<Rightarrow> f old (fx_data fp) | None \<Rightarrow> take (nat clen) (fx_data fp));
              left = (case fx_func fp of Some f \<Rightarrow> fx_data fp | None \<Rightarrow> drop (nat clen) (fx_data fp)) in do {
            c_assert (part \<longrightarrow> fx_reloctype fp = RELOC_NONE);
            c_assert (offset + coff = fx_offset fp);
            c_assert (offset + coff + clen \<le> fx_offset fp + fx_size fp);
            z1 \<leftarrow> (if fx_reloctype fp \<noteq> RELOC_NONE then addreloc (fx_offset fp - fx_poffset fp) (fx_size fp) (fx_reloctype fp) z
                  else Some z);
            if fx_size fp - clen > 0 then do {
              (fs, data2, z2) \<leftarrow> apply_loop offset sz es data1 z1;
              Some (e\<lparr>ir_data := fp\<lparr>fx_offset := fx_offset fp + clen, fx_size := fx_size fp - clen, fx_data := left\<rparr>\<rparr> # fs, data2, z2)
            } else apply_loop offset sz es data1 z1
          }
        }
      })"

definition applyfixups :: "int \<Rightarrow> int \<Rightarrow> byte list \<Rightarrow> izlists \<Rightarrow> (byte list \<times> izlists) option" where
  "applyfixups offset sz data z =
     do { (fs, data1, z1) \<leftarrow> apply_loop offset sz (fixups z) data z; Some (data1, z1\<lparr>fixups := fs\<rparr>) }"


section \<open>Sorting\<close>

fun inversions :: "('a \<Rightarrow> 'a \<Rightarrow> bool) \<Rightarrow> 'a list \<Rightarrow> nat" where
  "inversions gt [] = 0"
| "inversions gt (x # xs) = length (filter (gt x) xs) + inversions gt xs"

lemma bubble_pass_mset [simp]: "mset (fst (bubble_pass gt xs)) = mset xs"
  by (induction gt xs rule: bubble_pass.induct) (auto split: prod.splits simp: ac_simps)

lemma bubble_pass_count: "length (filter P (fst (bubble_pass gt xs))) = length (filter P xs)"
  by (metis bubble_pass_mset mset_filter size_mset)

lemma bubble_pass_same: "\<not> snd (bubble_pass gt xs) \<Longrightarrow> fst (bubble_pass gt xs) = xs \<and> successively (\<lambda>x y. \<not> gt x y) xs"
  by (induction gt xs rule: bubble_pass.induct) (auto split: prod.splits if_splits)

text \<open>Every pass that changes something leaves fewer pairs in the wrong order.\<close>

lemma bubble_pass_inversions:
  assumes "asymp gt"
  shows "inversions gt (fst (bubble_pass gt xs)) + (if snd (bubble_pass gt xs) then 1 else 0) \<le> inversions gt xs"
  using assms
proof (induction gt xs rule: bubble_pass.induct)
  case (1 gt x y ys)
  show ?case
  proof (cases "gt x y")
    case True
    then have "\<not> gt y x" using "1.prems" by (rule asympD [rotated])
    then show ?thesis using 1(1) [OF True "1.prems"] True bubble_pass_count [of "gt y" gt "x # ys"]
      by (auto split: prod.splits if_splits)
  next
    case False
    then show ?thesis using 1(2) [OF False "1.prems"] False bubble_pass_count [of "gt x" gt "y # ys"] by (auto split: prod.splits if_splits)
  qed
qed auto

lemma bubble_sort_ends:
  assumes "asymp gt"
  shows "\<exists>ys. bubble_sort gt xs = Some ys \<and> mset ys = mset xs \<and> successively (\<lambda>x y. \<not> gt x y) ys"
proof (induction "inversions gt xs" arbitrary: xs rule: less_induct)
  case less
  obtain ys changed where p: "bubble_pass gt xs = (ys, changed)" by fastforce
  have m: "mset ys = mset xs" using bubble_pass_mset [of gt xs] p by simp
  show ?case
  proof (cases changed)
    case True
    then have "inversions gt ys < inversions gt xs" using bubble_pass_inversions [OF assms, of xs] p by simp
    from less [OF this] show ?thesis using p True m by (subst bubble_sort.simps) simp
  next
    case False
    then show ?thesis using bubble_pass_same [of gt xs] p m by (subst bubble_sort.simps) simp
  qed
qed


lemma sorted_wrt_perm:
  assumes "symp R" and "mset ys = mset xs" and "sorted_wrt R xs"
  shows "sorted_wrt R ys"
  using assms(2,3)
proof (induction ys arbitrary: xs)
  case (Cons y ys)
  then have "y \<in> set xs" by (metis list.set_intros(1) set_mset_mset)
  then obtain as bs where xs: "xs = as @ y # bs" by (auto simp: in_set_conv_decomp)
  then have m: "mset ys = mset (as @ bs)" using Cons.prems(1) by simp
  have "sorted_wrt R (as @ bs)" using Cons.prems(2) xs by (auto simp: sorted_wrt_append)
  moreover have "\<forall>x \<in> set (as @ bs). R y x" using Cons.prems(2) xs assms(1) by (auto simp: sorted_wrt_append dest: sympD)
  moreover have "set ys = set (as @ bs)" using m by (metis set_mset_mset)
  ultimately show ?case using Cons.IH [OF m] by auto
qed simp

section \<open>Ranges as sets of sectors\<close>

definition ir_end :: "'d izrange \<Rightarrow> int" where
  "ir_end r = ir_start r + ir_size r"

definition sects :: "'d izrange list \<Rightarrow> int set" where
  "sects rs = (\<Union>r \<in> set rs. {ir_start r..<ir_end r})"

definition within :: "int \<Rightarrow> int \<Rightarrow> 'd izrange list \<Rightarrow> bool" where
  "within lo hi rs \<longleftrightarrow> (\<forall>r \<in> set rs. lo \<le> ir_start r \<and> 0 < ir_size r \<and> ir_end r \<le> hi)"

definition ahead :: "'d izrange \<Rightarrow> 'd izrange \<Rightarrow> bool" where
  "ahead x y \<longleftrightarrow> ir_end x \<le> ir_start y"

definition apart :: "'d izrange \<Rightarrow> 'd izrange \<Rightarrow> bool" where
  "apart x y \<longleftrightarrow> ir_end x < ir_start y"

definition disjoint_ranges :: "'d izrange list \<Rightarrow> bool" where
  "disjoint_ranges rs \<longleftrightarrow> sorted_wrt (\<lambda>x y. {ir_start x..<ir_end x} \<inter> {ir_start y..<ir_end y} = {}) rs"

lemma sects_simps [simp]:
  "sects [] = {}" "sects (r # rs) = {ir_start r..<ir_end r} \<union> sects rs" "sects (xs @ ys) = sects xs \<union> sects ys"
  by (auto simp: sects_def)

lemma within_simps [simp]:
  "within lo hi []" "within lo hi (r # rs) \<longleftrightarrow> lo \<le> ir_start r \<and> 0 < ir_size r \<and> ir_end r \<le> hi \<and> within lo hi rs"
  "within lo hi (xs @ ys) \<longleftrightarrow> within lo hi xs \<and> within lo hi ys"
  by (auto simp: within_def)

lemma within_mono: "within lo hi rs \<Longrightarrow> lo' \<le> lo \<Longrightarrow> hi \<le> hi' \<Longrightarrow> within lo' hi' rs"
  by (fastforce simp: within_def)

lemma sects_within: "within lo hi rs \<Longrightarrow> sects rs \<subseteq> {lo..<hi}"
  by (fastforce simp: sects_def within_def)

lemma within_tail:
  assumes "within lo hi (r # rs)" and "sorted_wrt ahead (r # rs)"
  shows "within (ir_end r) hi rs"
  using assms by (auto simp: within_def ahead_def)

text \<open>Sorting disjoint ranges by their start puts them one behind the other.\<close>

lemma sort_disjoint:
  assumes "disjoint_ranges rs" and "within lo hi rs"
  shows "\<exists>ss. sortrange rs dm None = Some (if dm \<and> rs \<noteq> [] then fst (mergeranges ss) else ss) \<and> mset ss = mset rs \<and> sorted_wrt ahead ss"
proof (cases "rs = []")
  case False
  have "asymp (out_of_order (None :: ('a izrange \<Rightarrow> 'a izrange \<Rightarrow> bool) option))"
    by (auto simp: out_of_order_def intro: asympI)
  from bubble_sort_ends [OF this, of rs] obtain ss where ss: "bubble_sort (out_of_order None) rs = Some ss" "mset ss = mset rs"
    "successively (\<lambda>x y. ir_start x \<le> ir_start y) ss" by (auto simp: out_of_order_def not_less)
  have "transp (\<lambda>x y. ir_start x \<le> ir_start (y :: 'a izrange))" by (auto intro: transpI)
  then have sorted: "sorted_wrt (\<lambda>x y. ir_start x \<le> ir_start y) ss" using ss(3) successively_conv_sorted_wrt by blast
  have sym: "symp (\<lambda>x y :: 'a izrange. {ir_start x..<ir_end x} \<inter> {ir_start y..<ir_end y} = {})" by (auto intro: sympI)
  have dis: "sorted_wrt (\<lambda>x y. {ir_start x..<ir_end x} \<inter> {ir_start y..<ir_end y} = {}) ss"
    using sorted_wrt_perm [OF sym ss(2)] assms(1) by (simp add: disjoint_ranges_def)
  have sizes: "\<forall>r \<in> set ss. 0 < ir_size r" using assms(2) ss(2) by (metis mset_eq_setD within_def)
  have "sorted_wrt ahead ss"
    unfolding sorted_wrt_iff_nth_less
  proof (intro allI impI)
    fix i j
    assume ij: "i < j" "j < length ss"
    let ?x = "ss ! i" and ?y = "ss ! j"
    have le: "ir_start ?x \<le> ir_start ?y" using sorted ij by (auto simp: sorted_wrt_iff_nth_less)
    have no: "{ir_start ?x..<ir_end ?x} \<inter> {ir_start ?y..<ir_end ?y} = {}" using dis ij by (auto simp: sorted_wrt_iff_nth_less)
    have "0 < ir_size ?y" using sizes ij by simp
    then have "ir_start ?y \<notin> {ir_start ?x..<ir_end ?x}" using no by (auto simp: ir_end_def)
    then show "ahead ?x ?y" using le by (simp add: ahead_def)
  qed
  then show ?thesis using ss False by (intro exI [of _ ss]) (simp add: sortrange_def)
qed (simp add: sortrange_def)

text \<open>Merging leaves the same sectors in ranges that do not touch.\<close>

lemma merge_spec:
  assumes "sorted_wrt ahead rs" and "within lo hi rs" and "0 \<le> lo" and "hi < 2 ^ 32"
  shows "sorted_wrt apart (fst (mergeranges rs)) \<and> within lo hi (fst (mergeranges rs)) \<and> sects (fst (mergeranges rs)) = sects rs \<and>
    length (fst (mergeranges rs)) + snd (mergeranges rs) = length rs"
  using assms
proof (induction rs arbitrary: lo rule: mergeranges.induct)
  case (1 x y ys)
  obtain lt: "ir_start x < ir_end x" "ir_start y < ir_end y" "ir_end x \<le> ir_start y" "lo \<le> ir_start x" "ir_end y \<le> hi"
    using 1(3,4) by (auto simp: within_def ahead_def ir_end_def)
  have u: "to_u32 (ir_start x + ir_size x) = ir_end x"
    using to_u32_id [of "ir_end x"] lt 1(5,6) by (simp add: ir_end_def)
  show ?case
  proof (cases "ir_end x = ir_start y")
    case True
    let ?m = "x\<lparr>ir_size := to_u32 (ir_size x + ir_size y)\<rparr>"
    have sz: "to_u32 (ir_size x + ir_size y) = ir_size x + ir_size y" using True lt 1(5,6) by (intro to_u32_id) (auto simp: ir_end_def)
    then have m: "ir_start ?m = ir_start x" "ir_end ?m = ir_end y" "0 < ir_size ?m" using True lt by (auto simp: ir_end_def)
    have "\<forall>z \<in> set ys. ahead ?m z" using 1(3) m by (simp add: ahead_def)
    then have "sorted_wrt ahead (?m # ys)" "within lo hi (?m # ys)" using 1(3,4) m by simp_all
    with 1(1) [OF _ this(1) this(2)] True u 1(5,6) have
      "sorted_wrt apart (fst (mergeranges (?m # ys))) \<and> within lo hi (fst (mergeranges (?m # ys))) \<and>
        sects (fst (mergeranges (?m # ys))) = sects (?m # ys) \<and>
        length (fst (mergeranges (?m # ys))) + snd (mergeranges (?m # ys)) = length (?m # ys)" by simp
    moreover have "sects (?m # ys) = sects (x # y # ys)" using m True lt by auto
    ultimately show ?thesis using True u by (auto split: prod.splits)
  next
    case False
    have "within (ir_start y) hi (y # ys)" using within_tail [OF 1(4) 1(3)] 1(3,4) lt
      by (auto simp: ahead_def ir_end_def dest!: within_tail) (auto simp: within_def ahead_def ir_end_def)
    moreover have "sorted_wrt ahead (y # ys)" using 1(3) by simp
    ultimately have IH: "sorted_wrt apart (fst (mergeranges (y # ys))) \<and> within (ir_start y) hi (fst (mergeranges (y # ys))) \<and>
        sects (fst (mergeranges (y # ys))) = sects (y # ys) \<and>
        length (fst (mergeranges (y # ys))) + snd (mergeranges (y # ys)) = length (y # ys)"
      using 1(2) [where lo = "ir_start y"] False u lt 1(5,6) by simp
    have "ir_end x < ir_start y" using lt False by simp
    have wi: "within (ir_start y) hi (fst (mergeranges (y # ys)))" using IH by blast
    have ap: "\<forall>z \<in> set (fst (mergeranges (y # ys))). apart x z"
    proof
      fix z assume "z \<in> set (fst (mergeranges (y # ys)))"
      then have "ir_start y \<le> ir_start z" using wi by (simp add: within_def)
      then show "apart x z" using \<open>ir_end x < ir_start y\<close> by (simp add: apart_def)
    qed
    have "lo \<le> ir_start y" using lt by simp
    then have "within lo hi (fst (mergeranges (y # ys)))" by (rule within_mono [OF wi _ order_refl])
    moreover obtain zs k where "mergeranges (y # ys) = (zs, k)" by fastforce
    ultimately show ?thesis using IH ap False u 1(4) by simp
  qed
qed auto


lemma cull_spec:
  "cull_skips f zr rs z = (kept, n, z') \<Longrightarrow> kept = filter (\<lambda>r. to_u32 f \<le> ir_size r) rs \<and> n + length kept = length rs \<and>
    (\<exists>fs. z' = z\<lparr>fixups := fs\<rparr> \<and> (\<not> zr \<longrightarrow> fs = fixups z))"
proof (induction rs arbitrary: z kept n z')
  case Nil
  then show ?case by (auto intro: exI [of _ "fixups z"])
next
  case (Cons r rs)
  show ?case
  proof (cases "ir_size r < to_u32 f")
    case True
    define z1 where "z1 = (if zr then addfixupfunc zerofixup (sectobytes (ir_start r)) 0 (sectobytes (ir_size r)) [] RELOC_NONE z else z)"
    have z1: "\<exists>fs. z1 = z\<lparr>fixups := fs\<rparr> \<and> (\<not> zr \<longrightarrow> fs = fixups z)" by (auto simp: z1_def addfixupfunc_def addfixupentry_def intro: exI [of _ "fixups z"])
    obtain k1 n1 z2 where rec: "cull_skips f zr rs z1 = (k1, n1, z2)" by (cases "cull_skips f zr rs z1") auto
    then have "kept = k1" "n = n1 + 1" "z' = z2" using Cons.prems True by (auto simp: z1_def Let_def)
    then show ?thesis using Cons.IH [OF rec] z1 True by (auto intro: exI [of _ "fixups z2"])
  next
    case False
    obtain k1 n1 z2 where rec: "cull_skips f zr rs z = (k1, n1, z2)" by (cases "cull_skips f zr rs z") auto
    then have "kept = r # k1" "n = n1" "z' = z2" using Cons.prems False by (auto simp: Let_def)
    then show ?thesis using Cons.IH [OF rec] False by auto
  qed
qed

text \<open>An interval of sectors of ranges that do not touch lies in one of them.\<close>

lemma interval_in_range:
  assumes "sorted_wrt apart rs" and "{a..<b} \<subseteq> sects rs" and "a < b"
  shows "\<exists>r \<in> set rs. ir_start r \<le> a \<and> b \<le> ir_end r"
proof -
  have "a \<in> sects rs" using assms(2,3) by auto
  then obtain r where r: "r \<in> set rs" "ir_start r \<le> a" "a < ir_end r" by (auto simp: sects_def)
  have "b \<le> ir_end r"
  proof (rule ccontr)
    assume lt: "\<not> b \<le> ir_end r"
    then have "ir_end r \<in> sects rs" using assms(2) r by auto
    then obtain r' where r': "r' \<in> set rs" "ir_start r' \<le> ir_end r" "ir_end r < ir_end r'" by (auto simp: sects_def)
    then have "r \<noteq> r'" by auto
    then have "apart r r' \<or> apart r' r" using assms(1) r(1) r'(1)
      by (metis in_set_conv_nth linorder_neqE_nat sorted_wrt_nth_less)
    then show False using r r' by (auto simp: apart_def)
  qed
  then show ?thesis using r by blast
qed

definition big_free :: "int \<Rightarrow> int set \<Rightarrow> int set" where
  "big_free f S = {s. \<exists>a b. a \<le> s \<and> s < b \<and> f \<le> b - a \<and> {a..<b} \<subseteq> S}"

lemma big_free_filter:
  assumes "sorted_wrt apart rs"
  shows "sects (filter (\<lambda>r. f \<le> ir_size r) rs) = big_free f (sects rs)"
proof (intro set_eqI iffI)
  fix s
  assume "s \<in> sects (filter (\<lambda>r. f \<le> ir_size r) rs)"
  then obtain r where r: "r \<in> set rs" "f \<le> ir_size r" "ir_start r \<le> s" "s < ir_end r" by (auto simp: sects_def)
  then show "s \<in> big_free f (sects rs)"
    unfolding big_free_def by (intro CollectI exI [of _ "ir_start r"] exI [of _ "ir_end r"]) (auto simp: sects_def ir_end_def)
next
  fix s
  assume "s \<in> big_free f (sects rs)"
  then obtain a b where ab: "a \<le> s" "s < b" "f \<le> b - a" "{a..<b} \<subseteq> sects rs" by (auto simp: big_free_def)
  then obtain r where "r \<in> set rs" "ir_start r \<le> a" "b \<le> ir_end r" using interval_in_range [OF assms, of a b] by auto
  then show "s \<in> sects (filter (\<lambda>r. f \<le> ir_size r) rs)" using ab by (auto simp: sects_def ir_end_def intro!: bexI [of _ r])
qed

text \<open>The gaps between the free ranges.\<close>

lemma makeranges_loop_spec:
  assumes "sorted_wrt apart ps" and "within off hi ps" and "0 \<le> off" and "off \<le> hi" and "hi < 2 ^ 32"
  shows "\<exists>off' gs. makeranges_loop ps off z = (off', z\<lparr>ranges := ranges z @ gs\<rparr>) \<and> off \<le> off' \<and> off' \<le> hi \<and>
    sects ps \<subseteq> {off..<off'} \<and> sects gs = {off..<off'} - sects ps \<and> sorted_wrt apart gs \<and> within off off' gs \<and>
    (\<forall>g \<in> set gs. ir_end g < off')"
  using assms
proof (induction ps arbitrary: off z)
  case Nil
  have "z = z\<lparr>ranges := ranges z @ []\<rparr>" by simp
  then show ?case using Nil by (intro exI [of _ off] exI [of _ "[]"]) simp
next
  case (Cons p ps)
  have p: "off \<le> ir_start p" "ir_start p < ir_end p" "ir_end p \<le> hi" using Cons.prems(2) by (auto simp: ir_end_def)
  have u: "to_u32 (ir_start p - off) = ir_start p - off" "to_u32 (ir_start p + ir_size p) = ir_end p"
    using to_u32_id [of "ir_start p - off"] to_u32_id [of "ir_end p"] p Cons.prems(3,5) by (auto simp: ir_end_def)
  define g where "g = (if ir_start p - off > 0 then [\<lparr>ir_start = off, ir_size = ir_start p - off, ir_data = ()\<rparr>] else [])"
  define z1 where "z1 = z\<lparr>ranges := ranges z @ g\<rparr>"
  have z1: "(if ir_start p - off > 0 then addvalid off (ir_start p - off) z else z) = z1"
    by (simp add: z1_def g_def addvalid_def)
  have ps: "sorted_wrt apart ps" using Cons.prems(1) by simp
  have psw: "within (ir_end p) hi ps" using Cons.prems(1,2) by (auto simp: within_def apart_def)
  obtain off' gs where IH: "makeranges_loop ps (ir_end p) z1 = (off', z1\<lparr>ranges := ranges z1 @ gs\<rparr>)" "ir_end p \<le> off'" "off' \<le> hi"
    "sects ps \<subseteq> {ir_end p..<off'}" "sects gs = {ir_end p..<off'} - sects ps" "sorted_wrt apart gs" "within (ir_end p) off' gs"
    "\<forall>g \<in> set gs. ir_end g < off'"
    using Cons.IH [OF ps psw, of z1] p Cons.prems(3,5) by fastforce
  have g: "sects g = {off..<ir_start p}" "within off (ir_start p) g" "\<forall>x \<in> set g. ir_end x = ir_start p" "sorted_wrt apart g"
    using p by (auto simp: g_def ir_end_def)
  have run: "makeranges_loop (p # ps) off z = (off', z\<lparr>ranges := ranges z @ g @ gs\<rparr>)"
    using IH(1) z1 by (simp add: u Let_def z1_def)
  have eq: "sects (g @ gs) = {off..<off'} - sects (p # ps)" using IH(4,5) g(1) p IH(2) by auto
  have ap: "sorted_wrt apart (g @ gs)" using g(3,4) IH(6,7) p by (fastforce simp: sorted_wrt_append apart_def within_def)
  have wi: "within off off' (g @ gs)"
    using within_mono [OF g(2), of off off'] within_mono [OF IH(7), of off off'] p IH(2) by simp
  have sub: "sects (p # ps) \<subseteq> {off..<off'}" using IH(2,4) p by auto
  have ends: "\<forall>x \<in> set (g @ gs). ir_end x < off'" using g(3) IH(2,8) p by auto
  show ?case using run eq ap wi sub ends p IH(2,3) by (intro exI [of _ off'] exI [of _ "g @ gs"]) simp
qed


lemma mergeskips_spec:
  assumes "disjoint_ranges (skips z)" and "within lo hi (skips z)" and "0 \<le> lo" and "hi < 2 ^ 32" and "0 \<le> f" and "f < 2 ^ 31"
  shows "\<exists>n z1. mergeskips f zr z = Some (n, z1) \<and> sects (skips z1) = big_free f (sects (skips z)) \<and> sorted_wrt apart (skips z1) \<and>
    within lo hi (skips z1) \<and> n + length (skips z1) = length (skips z) \<and>
    (\<exists>fs. z1 = z\<lparr>skips := skips z1, fixups := fs\<rparr> \<and> (\<not> zr \<longrightarrow> fs = fixups z))"
proof -
  obtain ss where ss: "sortrange (skips z) False None = Some ss" "mset ss = mset (skips z)" "sorted_wrt ahead ss"
    using sort_disjoint [OF assms(1,2), of False] by auto
  have same: "set ss = set (skips z)" "length ss = length (skips z)" using ss(2) by (metis set_mset_mset, metis size_mset)
  have "within lo hi ss" using assms(2) same by (simp add: within_def)
  note merge = merge_spec [OF ss(3) this assms(3,4)]
  obtain ms freed where ms: "mergeranges ss = (ms, freed)" by fastforce
  have m: "sorted_wrt apart ms" "within lo hi ms" "sects ms = sects (skips z)" "length ms + freed = length (skips z)"
    using merge ms same by (simp_all add: sects_def)
  show ?thesis
  proof (cases "f = 0")
    case True
    have "filter (\<lambda>r. 0 \<le> ir_size r) ms = ms" using m(2) by (intro filter_True ballI) (auto simp: within_def)
    then have "sects ms = big_free 0 (sects (skips z))" using big_free_filter [OF m(1), of 0] m(3) by simp
    then show ?thesis using m ms ss(1) True by (auto simp: mergeskips_def intro: exI [of _ "fixups z"])
  next
    case False
    obtain kept n z1 where c: "cull_skips f zr ms z = (kept, n, z1)" by (cases "cull_skips f zr ms z") auto
    have f: "to_u32 f = f" using assms(5,6) by (intro to_u32_id) auto
    from cull_spec [OF c] f obtain fs where k: "kept = filter (\<lambda>r. f \<le> ir_size r) ms" "n + length kept = length ms" "z1 = z\<lparr>fixups := fs\<rparr>"
      "\<not> zr \<longrightarrow> fs = fixups z" by auto
    have run: "mergeskips f zr z = Some (freed + n, z\<lparr>skips := kept, fixups := fs\<rparr>)"
      using ss(1) ms c k(3) False by (simp add: mergeskips_def)
    have "sects kept = big_free f (sects (skips z))" using big_free_filter [OF m(1), of f] m(3) k(1) by simp
    moreover have "sorted_wrt apart kept" using m(1) k(1) by (simp add: sorted_wrt_filter)
    moreover have "within lo hi kept" using m(2) k(1) by (simp add: within_def)
    ultimately show ?thesis using run m(4) k(2,4) by (auto intro: exI [of _ fs])
  qed
qed

lemma makeranges_spec:
  assumes "sorted_wrt apart (skips z)" and "within lo hi (skips z)" and "0 \<le> lo" and "lo \<le> hi" and "hi < 2 ^ 32" and "0 < hi"
    and "ranges z = []"
  shows "\<exists>z2. makeranges lo hi z = Some z2 \<and> sects (ranges z2) = {lo..<hi} - sects (skips z) \<and> sorted_wrt apart (ranges z2) \<and>
    within lo hi (ranges z2) \<and> z2 = z\<lparr>ranges := ranges z2\<rparr>"
proof -
  obtain off gs where g: "makeranges_loop (skips z) lo z = (off, z\<lparr>ranges := gs\<rparr>)" "lo \<le> off" "off \<le> hi"
    "sects (skips z) \<subseteq> {lo..<off}" "sects gs = {lo..<off} - sects (skips z)" "sorted_wrt apart gs" "within lo off gs"
    "\<forall>g \<in> set gs. ir_end g < off"
    using makeranges_loop_spec [OF assms(1-5), of z] assms(7) by auto
  have lo: "to_u32 lo = lo" using assms(3-5) by (intro to_u32_id) auto
  show ?thesis
  proof (cases "off = hi")
    case True
    then have "makeranges lo hi z = Some (z\<lparr>ranges := gs\<rparr>)" using g(1) assms(6) lo by (simp add: makeranges_def to_u64_def)
    then show ?thesis using g True by simp
  next
    case False
    let ?r = "\<lparr>ir_start = off, ir_size = hi - off, ir_data = ()\<rparr>"
    have "to_u32 (hi - off) = hi - off" "to_u64 (hi - off) = hi - off"
      using g(2,3) assms(3,5) by (intro to_u32_id to_u64_id; simp)+
    then have "makeranges lo hi z = Some (z\<lparr>ranges := gs @ [?r]\<rparr>)"
      using g(1,3) assms(6) lo False by (simp add: makeranges_def addvalid_def)
    moreover have "sects (gs @ [?r]) = {lo..<hi} - sects (skips z)" using g(2-5) by (auto simp: ir_end_def)
    moreover have "sorted_wrt apart (gs @ [?r])" using g(6,8) by (simp add: sorted_wrt_append apart_def)
    moreover have "within lo hi (gs @ [?r])" using within_mono [OF g(7), of lo hi] g(2,3) False by (simp add: ir_end_def)
    ultimately show ?thesis by simp
  qed
qed

section \<open>Properties\<close>

text \<open>
  C21. What imagezip saves. When the free ranges that the scanners reported are disjoint, not empty and lie between the two
  limits, \<^const>\<open>mergeskips\<close> and \<^const>\<open>makeranges\<close> end without failing, and the sectors of the resulting ranges are
  exactly those between the limits that do not lie in a run of free sectors of at least the given size. The ranges
  are sorted, not empty, and no two of them overlap or touch.
\<close>

theorem imagezip_ranges:
  assumes "disjoint_ranges (skips z)" and "within minsec maxsec (skips z)" and "0 \<le> minsec" and "minsec \<le> maxsec" and "0 < maxsec"
    and "maxsec < 2 ^ 32" and "0 \<le> frangesize" and "frangesize < 2 ^ 31" and "ranges z = []"
  shows "\<exists>n z1 z2. mergeskips frangesize zerofrange z = Some (n, z1) \<and> makeranges minsec maxsec z1 = Some z2 \<and>
    sects (ranges z2) = {minsec..<maxsec} - big_free frangesize (sects (skips z)) \<and>
    sorted_wrt apart (ranges z2) \<and> within minsec maxsec (ranges z2) \<and> n + length (skips z1) = length (skips z)"
proof -
  obtain n z1 fs where z1: "mergeskips frangesize zerofrange z = Some (n, z1)" "sects (skips z1) = big_free frangesize (sects (skips z))"
    "sorted_wrt apart (skips z1)" "within minsec maxsec (skips z1)" "n + length (skips z1) = length (skips z)"
    "z1 = z\<lparr>skips := skips z1, fixups := fs\<rparr>"
    using mergeskips_spec [OF assms(1-3,6-8), of zerofrange] by blast
  have "ranges z1 = []" using assms(9) by (subst z1(6)) simp
  then show ?thesis using makeranges_spec [OF z1(3,4) assms(3,4,6,5)] z1 by auto
qed

definition skips_example :: izlists where
  "skips_example = addskip 150 100 (addskip 10 20 (addskip 100 50 izlists_init))"

theorem imagezip_ranges_witness:
  "\<exists>n z1 z2. mergeskips 64 False skips_example = Some (n, z1) \<and> makeranges 0 1000 z1 = Some z2 \<and>
    sects (ranges z2) = {0..<1000} - big_free 64 (sects (skips skips_example)) \<and> n + length (skips z1) = 3"
proof -
  have "disjoint_ranges (skips skips_example)" "within 0 1000 (skips skips_example)" "ranges skips_example = []"
    "length (skips skips_example) = 3"
    by (simp_all add: skips_example_def addskip_def izlists_init_def disjoint_ranges_def ir_end_def)
  then show ?thesis using imagezip_ranges [of skips_example 0 1000 64 False] by auto
qed

end
