(* ===== verification/ImageZip.thy ===== *)
theory ImageZip
  imports ImageRanges
begin

text \<open>
  How imagezip compresses the ranges of a disk into chunks (clientside/os/imagezip/imagezip.c, \<^verbatim>\<open>compress_chunk\<close>,
  \<^verbatim>\<open>compress_finish\<close> and \<^verbatim>\<open>compress_image\<close>, with the structures of imagehdr.h). A chunk is 1 MB: a
  header area of 4096 bytes with the fields of the header, the regions and the relocations, and the compressed data,
  padded with zeros. The header area is a record, the data a list of bytes. The compression library is a parameter.
  Modelled is the current format: the older formats, encryption, checksums, the identifier of the image and the signature
  files are left out. The input is a regular file or device whose contents are a list of bytes; a read error ends the
  process, with the exception that the program can be told to retry.
\<close>

section \<open>The compression library\<close>

datatype zerr = Z_OK | Z_STREAM_END | Z_FAILED

text \<open>
  A call of \<^verbatim>\<open>deflate\<close> gets the input, the room in the output buffer and whether this is the last call
  (\<^verbatim>\<open>Z_FINISH\<close>, otherwise \<^verbatim>\<open>Z_SYNC_FLUSH\<close>); it returns the new stream, the input not consumed and the
  output. \<^verbatim>\<open>deflateInit\<close> returns the stream, or nothing when it fails.
\<close>

record 'z deflater =
  deflateInit :: "'z option"
  deflate :: "'z \<Rightarrow> byte list \<Rightarrow> int \<Rightarrow> bool \<Rightarrow> zerr \<times> 'z \<times> byte list \<times> byte list"
  deflateEnd :: "'z \<Rightarrow> zerr"

section \<open>Definitions\<close>

definition CHUNKSIZE_BYTES :: int where "CHUNKSIZE_BYTES = 1024 * 1024"

definition CHUNKMAX :: int where "CHUNKMAX = CHUNKSIZE_BYTES - DEFAULTREGIONSIZE"

definition INBSIZE :: int where "INBSIZE = 128 * 1024"

definition SBTHRESHOLD :: int where "SBTHRESHOLD = 8 * 1024"

definition RELOC_SHORTSECTOR :: int where "RELOC_SHORTSECTOR = 6"

record region =
  rg_sect :: int
  rg_count :: int

record chunk =
  h_size :: int
  h_blockindex :: int
  h_firstsect :: int
  h_lastsect :: int
  h_regions :: "region list"
  h_relocs :: "blockreloc list"
  payload :: "byte list"

record izconfig =
  disk :: "byte list"
  incanseek :: bool
  filemode :: bool
  inputminsec :: int
  inputmaxsec :: int

text \<open>
  The state of the compression. The output buffer holds the bytes behind the header area: \<^verbatim>\<open>buffer_offset\<close> is
  4096 more than their number. The stream exists from the first piece of a chunk to its end.
\<close>

record 'z compressor =
  d_stream :: "'z option"
  outbuf :: "byte list"
  subblockleft :: int
  blksize :: int
  infpos :: int
  izl :: izlists
  regtab :: "region list"
  cursect :: int
  chunks :: "chunk list"

definition compress_finish :: "'z deflater \<Rightarrow> 'z compressor \<Rightarrow> 'z compressor option" where
  "compress_finish zl s =
     (if subblockleft s = CHUNKMAX then Some s
      else do {
        z \<leftarrow> d_stream s;
        let avail = CHUNKMAX - int (length (outbuf s)); (err, z1, rest, out) = deflate zl z [] avail True;
            left = subblockleft s - int (length out); buf = outbuf s @ out in do {
          c_assert (err = Z_STREAM_END \<or> err = Z_OK);
          c_assert (int (length out) < avail);
          c_assert (left \<ge> 0);
          c_assert (deflateEnd zl z1 = Z_OK);
          c_assert (int (length buf) + left \<le> CHUNKMAX);
          Some (s\<lparr>d_stream := None, outbuf := buf @ replicate (nat left) 0, blksize := CHUNKMAX - left,
            subblockleft := CHUNKMAX\<rparr>)
        }
      })"

text \<open>In file mode the last sector may be short; it is padded, and a relocation tells its length.\<close>

definition pad_sector :: "izconfig \<Rightarrow> int \<Rightarrow> byte list \<Rightarrow> izlists \<Rightarrow> (byte list \<times> izlists) option" where
  "pad_sector cfg pos buf z =
     (let cc = int (length buf); zoff = cc mod secsize in
      if filemode cfg \<and> zoff \<noteq> 0 then do {
        z1 \<leftarrow> addreloc (pos + (cc - zoff)) zoff RELOC_SHORTSECTOR z;
        Some (buf @ replicate (nat (secsize - zoff)) 0, z1)
      } else Some (buf, z))"

text \<open>
  The loop of \<^verbatim>\<open>compress_chunk\<close>. It returns the number of bytes compressed, whether the chunk is full, and
  whether it is to be finished.
\<close>

definition piece_size :: "int \<Rightarrow> int \<Rightarrow> int" where
  "piece_size sz left =
     (let cnt = (if sz > INBSIZE then INBSIZE else sz) in
      if cnt > left - 1024 then (left - 1024) div secsize * secsize else cnt)"

definition devread :: "izconfig \<Rightarrow> int \<Rightarrow> int \<Rightarrow> byte list" where
  "devread cfg pos cnt = take (nat cnt) (drop (nat pos) (disk cfg))"

definition deflate_piece :: "'z deflater \<Rightarrow> byte list \<Rightarrow> 'z compressor \<Rightarrow> 'z compressor option" where
  "deflate_piece zl buf s = do {
     z \<leftarrow> d_stream s;
     let outsize = CHUNKMAX - int (length (outbuf s)); (err, z1, rest, out) = deflate zl z buf outsize False;
         left = subblockleft s - int (length out) in do {
       c_assert (outsize > 0);
       c_assert (err = Z_OK);
       c_assert (rest = [] \<and> int (length out) \<noteq> outsize);
       c_assert (int (length (outbuf s @ out)) \<le> CHUNKMAX);
       c_assert (left \<ge> 0);
       Some (s\<lparr>d_stream := Some z1, outbuf := outbuf s @ out, subblockleft := left\<rparr>)
     }
   }"

partial_function (option) compress_loop ::
  "'z deflater \<Rightarrow> izconfig \<Rightarrow> bool \<Rightarrow> int \<Rightarrow> int \<Rightarrow> int \<Rightarrow> 'z compressor \<Rightarrow> (int \<times> bool \<times> bool \<times> 'z compressor) option" where
  "compress_loop zl cfg tileof off sz done_bytes s =
     (if sz > 0 then
        let cnt = piece_size sz (subblockleft s); rd = devread cfg (infpos s) cnt;
            s1 = s\<lparr>infpos := infpos s + int (length rd)\<rparr> in
        if rd = [] then Some (done_bytes, False, True, s)
        else Option.bind (pad_sector cfg (off + done_bytes) rd (izl s1)) (\<lambda>(buf, z).
          Option.bind (c_assert (int (length buf) = cnt \<or> tileof)) (\<lambda>_.
          Option.bind (if fixups z \<noteq> [] then applyfixups (off + done_bytes) cnt buf z else Some (buf, z)) (\<lambda>(buf1, z1).
          Option.bind (deflate_piece zl buf1 (s1\<lparr>izl := z1\<rparr>)) (\<lambda>s2.
          let sz1 = (if tileof then sz else sz - int (length buf)); done1 = done_bytes + int (length buf) in
          if subblockleft s2 < SBTHRESHOLD then Some (done1, True, True, s2)
          else compress_loop zl cfg tileof off sz1 done1 s2))))
      else Some (done_bytes, False, False, s))"

definition compress_chunk :: "'z deflater \<Rightarrow> izconfig \<Rightarrow> int \<Rightarrow> int \<Rightarrow> 'z compressor \<Rightarrow> (int \<times> bool \<times> 'z compressor) option" where
  "compress_chunk zl cfg off sz s = do {
     s1 \<leftarrow> (if subblockleft s = CHUNKMAX then (case deflateInit zl of None \<Rightarrow> None | Some z \<Rightarrow> Some (s\<lparr>d_stream := Some z\<rparr>)) else Some s);
     (done_bytes, full, finish, s2) \<leftarrow> compress_loop zl cfg (sz = 0) off (if sz = 0 then INBSIZE + 1 else sz) 0 s1;
     if finish then do { s3 \<leftarrow> compress_finish zl s2; Some (done_bytes, full, s3) }
     else Some (done_bytes, full, s2\<lparr>blksize := CHUNKMAX - subblockleft s2\<rparr>)
   }"

text \<open>The header is filled in, and the chunk is written.\<close>

definition region_end :: "region \<Rightarrow> int" where
  "region_end r = to_u32 (rg_sect r + rg_count r)"

definition write_chunk :: "int \<Rightarrow> 'z compressor \<Rightarrow> 'z compressor" where
  "write_chunk lastsect s =
     (let c = \<lparr>h_size = blksize s, h_blockindex = int (length (chunks s)), h_firstsect = cursect s, h_lastsect = lastsect,
              h_regions = regtab s, h_relocs = relocs (izl s), payload = outbuf s\<rparr> in
      s\<lparr>chunks := chunks s @ [c], izl := (freerelocs (izl s))\<lparr>numregions := 0\<rparr>, outbuf := [], regtab := [], cursect := lastsect\<rparr>)"

text \<open>Where a full chunk ends: it includes the free space behind a range that is complete.\<close>

definition end_sector :: "izconfig \<Rightarrow> bool \<Rightarrow> unit izrange list \<Rightarrow> 'z compressor \<Rightarrow> int" where
  "end_sector cfg whole rest s =
     (if whole then
        (case rest of
           r # rs \<Rightarrow> to_u32 (ir_start r - inputminsec cfg)
         | [] \<Rightarrow> if inputmaxsec cfg > 0 then to_u32 (inputmaxsec cfg - inputminsec cfg) else region_end (last (regtab s)))
      else region_end (last (regtab s)))"

definition finish_image :: "'z deflater \<Rightarrow> izconfig \<Rightarrow> 'z compressor \<Rightarrow> 'z compressor option" where
  "finish_image zl cfg s =
     (if regtab s = [] then Some s
      else do {
        s1 \<leftarrow> compress_finish zl s;
        c_assert (\<not> HDRUSED (int (length (regtab s1))) (int (length (relocs (izl s1)))) > DEFAULTREGIONSIZE);
        Some (write_chunk (if inputmaxsec cfg > 0 then to_u32 (inputmaxsec cfg - inputminsec cfg)
          else region_end (last (regtab s1))) s1)
      })"

text \<open>Is the table of the header area full after this region?\<close>

definition add_region :: "'z deflater \<Rightarrow> region \<Rightarrow> bool \<Rightarrow> 'z compressor \<Rightarrow> (bool \<times> 'z compressor) option" where
  "add_region zl r full s =
     (let s1 = s\<lparr>regtab := regtab s @ [r], izl := (izl s)\<lparr>numregions := numregions (izl s) + 1\<rparr>\<rparr>;
          nreg = numregions (izl s1); nrel = int (length (relocs (izl s1))) in
      if HDRUSED (nreg + 1) nrel > DEFAULTREGIONSIZE then do {
        c_assert (HDRUSED nreg nrel \<le> DEFAULTREGIONSIZE);
        if full then Some (True, s1) else do { s2 \<leftarrow> compress_finish zl s1; Some (True, s2) }
      } else Some (full, s1))"

partial_function (option) image_loop ::
  "'z deflater \<Rightarrow> izconfig \<Rightarrow> unit izrange list \<Rightarrow> 'z compressor \<Rightarrow> 'z compressor option" where
  "image_loop zl cfg rs s =
     (case rs of
        [] \<Rightarrow> finish_image zl cfg s
      | p # ps \<Rightarrow>
          let off = sectobytes (ir_start p); rangesize = sectobytes (ir_size p);
              s1 = (if incanseek cfg then s\<lparr>infpos := off\<rparr> else s) in
          Option.bind (compress_chunk zl cfg off rangesize s1) (\<lambda>(sz, full, s2).
          if sz = 0 then finish_image zl cfg s2
          else if sz mod secsize \<noteq> 0 then None
          else
            let reg = \<lparr>rg_sect = to_u32 (ir_start p - inputminsec cfg), rg_count = bytestosec sz\<rparr> in
            Option.bind (add_region zl reg full s2) (\<lambda>(full1, s3).
            if \<not> full1 then
              Option.bind (c_assert (rangesize = 0 \<or> sz = rangesize)) (\<lambda>_. image_loop zl cfg ps s3)
            else
              let s4 = write_chunk (end_sector cfg (sz = rangesize) ps s3) s3 in
              if sz = rangesize then image_loop zl cfg ps s4
              else
                let n = bytestosec sz;
                    p1 = p\<lparr>ir_start := to_u32 (ir_start p + n),
                           ir_size := if ir_size p \<noteq> 0 then to_u32 (ir_size p - n) else ir_size p\<rparr> in
                image_loop zl cfg (p1 # ps) s4)))"

definition compress_image :: "'z deflater \<Rightarrow> izconfig \<Rightarrow> izlists \<Rightarrow> chunk list option" where
  "compress_image zl cfg z =
     map_option chunks (image_loop zl cfg (ranges z) \<lparr>d_stream = None, outbuf = [], subblockleft = CHUNKMAX, blksize = 0, infpos = 0,
       izl = z\<lparr>numregions := 0\<rparr>, regtab = [], cursect = 0, chunks = []\<rparr>)"


section \<open>What is relied on of the library\<close>

text \<open>The streams that calls without \<^verbatim>\<open>Z_FINISH\<close> lead to, with all input and all output so far.\<close>

inductive deflating :: "'z deflater \<Rightarrow> 'z \<Rightarrow> byte list \<Rightarrow> byte list \<Rightarrow> bool" for zl where
  deflating_init: "deflateInit zl = Some z \<Longrightarrow> deflating zl z [] []"
| deflating_step: "deflating zl z d o' \<Longrightarrow> deflate zl z x n False = (Z_OK, z', [], out) \<Longrightarrow>
    deflating zl z' (d @ x) (o' @ out)"

text \<open>
  The library does not fail when there is enough room: a piece grows by less than 512 bytes, and after a flush the end of
  the stream needs less than 512 bytes. A flush after some input writes something.
\<close>

definition deflater_ok :: "'z deflater \<Rightarrow> bool" where
  "deflater_ok zl \<longleftrightarrow> deflateInit zl \<noteq> None \<and>
     (\<forall>z d o' x n. deflating zl z d o' \<and> x \<noteq> [] \<and> int (length x) \<le> INBSIZE \<and> int (length x) + 512 \<le> n \<longrightarrow>
       (\<exists>z' out. deflate zl z x n False = (Z_OK, z', [], out) \<and> out \<noteq> [] \<and> length out < length x + 512)) \<and>
     (\<forall>z d o' n. deflating zl z d o' \<and> 512 \<le> n \<longrightarrow>
       (\<exists>z' rest out. deflate zl z [] n True = (Z_STREAM_END, z', rest, out) \<and> length out < 512 \<and> deflateEnd zl z' = Z_OK))"

lemma deflater_okD:
  assumes "deflater_ok zl"
  shows "deflateInit zl \<noteq> None"
    and "deflating zl z d o' \<Longrightarrow> x \<noteq> [] \<Longrightarrow> int (length x) \<le> INBSIZE \<Longrightarrow> int (length x) + 512 \<le> n \<Longrightarrow>
      \<exists>z' out. deflate zl z x n False = (Z_OK, z', [], out) \<and> out \<noteq> [] \<and> length out < length x + 512"
    and "deflating zl z d o' \<Longrightarrow> 512 \<le> n \<Longrightarrow>
      \<exists>z' rest out. deflate zl z [] n True = (Z_STREAM_END, z', rest, out) \<and> length out < 512 \<and> deflateEnd zl z' = Z_OK"
  using assms unfolding deflater_ok_def by blast+

text \<open>What a finished stream contains.\<close>

definition deflated :: "'z deflater \<Rightarrow> byte list \<Rightarrow> byte list \<Rightarrow> bool" where
  "deflated zl d c \<longleftrightarrow> (\<exists>z o' n z' rest out. deflating zl z d o' \<and> deflate zl z [] n True = (Z_STREAM_END, z', rest, out) \<and> c = o' @ out)"

section \<open>Compressing one range\<close>

definition open_stream :: "'z deflater \<Rightarrow> 'z compressor \<Rightarrow> byte list \<Rightarrow> bool" where
  "open_stream zl s d \<longleftrightarrow> (\<exists>z. d_stream s = Some z \<and> deflating zl z d (outbuf s)) \<and>
     subblockleft s = CHUNKMAX - int (length (outbuf s))"

text \<open>What stays the same while a range is compressed.\<close>

definition same_chunk :: "'z compressor \<Rightarrow> 'z compressor \<Rightarrow> bool" where
  "same_chunk s t \<longleftrightarrow> izl t = izl s \<and> regtab t = regtab s \<and> cursect t = cursect s \<and> chunks t = chunks s"

lemma same_chunk_refl [simp]: "same_chunk s s"
  by (simp add: same_chunk_def)

lemma same_chunk_trans: "same_chunk s t \<Longrightarrow> same_chunk t u \<Longrightarrow> same_chunk s u"
  by (simp add: same_chunk_def)

lemma piece_size_ok:
  assumes "0 < sz" and "sz mod 512 = 0" and "SBTHRESHOLD \<le> left"
  shows "0 < piece_size sz left \<and> piece_size sz left \<le> sz \<and> piece_size sz left mod 512 = 0 \<and>
    piece_size sz left \<le> INBSIZE \<and> piece_size sz left \<le> left - 1024"
proof -
  define c where "c = (if sz > INBSIZE then INBSIZE else sz)"
  have c: "0 < c" "c \<le> sz" "c mod 512 = 0" "c \<le> INBSIZE" using assms(1,2) by (auto simp: c_def INBSIZE_def)
  define q where "q = (left - 1024) div 512 * 512"
  have q: "q \<le> left - 1024" "left - 1024 < q + 512" "q mod 512 = 0" by (simp_all add: q_def)
  have "left \<ge> 8192" using assms(3) by (simp add: SBTHRESHOLD_def)
  moreover have "piece_size sz left = (if c > left - 1024 then q else c)" by (simp add: piece_size_def c_def q_def secsize_def)
  ultimately show ?thesis using c q by auto
qed

lemma devread_length:
  assumes "0 \<le> pos" and "0 \<le> n" and "pos + n \<le> int (length (disk cfg))"
  shows "int (length (devread cfg pos n)) = n"
  using assms by (simp add: devread_def)

lemma devread_append:
  assumes "0 \<le> pos" and "0 \<le> n" and "0 \<le> k"
  shows "devread cfg pos n @ devread cfg (pos + n) k = devread cfg pos (n + k)"
proof -
  have "nat (pos + n) = nat n + nat pos" "nat (n + k) = nat n + nat k" using assms by auto
  then show ?thesis by (simp add: devread_def take_add)
qed

lemma deflate_piece_ok:
  assumes "deflater_ok zl" and "open_stream zl s d" and "x \<noteq> []" and "int (length x) \<le> INBSIZE"
    and "int (length x) \<le> subblockleft s - 1024"
  shows "\<exists>t. deflate_piece zl x s = Some t \<and> open_stream zl t (d @ x) \<and> same_chunk s t \<and> infpos t = infpos s \<and>
    512 \<le> subblockleft t \<and> outbuf t \<noteq> []"
proof -
  obtain z where z: "d_stream s = Some z" "deflating zl z d (outbuf s)" and left: "subblockleft s = CHUNKMAX - int (length (outbuf s))"
    using assms(2) by (auto simp: open_stream_def)
  obtain z' out where o: "deflate zl z x (subblockleft s) False = (Z_OK, z', [], out)" "out \<noteq> []" "length out < length x + 512"
    using deflater_okD(2) [OF assms(1) z(2) assms(3,4), of "subblockleft s"] assms(5) by auto
  have len: "int (length out) + 512 < subblockleft s" using o(3) assms(5) by simp
  have "deflate_piece zl x s = Some (s\<lparr>d_stream := Some z', outbuf := outbuf s @ out, subblockleft := subblockleft s - int (length out)\<rparr>)"
    using z(1) o(1) left len by (simp add: deflate_piece_def)
  moreover have "deflating zl z' (d @ x) (outbuf s @ out)" using deflating_step [OF z(2) o(1)] .
  ultimately show ?thesis using left len o(2) by (simp add: open_stream_def same_chunk_def)
qed


text \<open>The loop compresses the range from its start, up to the end or until the chunk is nearly full.\<close>

lemma compress_loop_ok:
  assumes "deflater_ok zl" and "\<not> filemode cfg" and "fixups (izl s) = []" and "open_stream zl s d"
    and "SBTHRESHOLD \<le> subblockleft s" and "0 \<le> sz" and "sz mod 512 = 0" and "infpos s = off + t0" and "0 \<le> off + t0"
    and "off + t0 + sz \<le> int (length (disk cfg))"
  shows "\<exists>t full u. compress_loop zl cfg False off sz t0 s = Some (t0 + t, full, full, u) \<and> 0 \<le> t \<and> t \<le> sz \<and> t mod 512 = 0 \<and>
    (0 < sz \<longrightarrow> 0 < t) \<and> (0 < sz \<or> outbuf s \<noteq> [] \<longrightarrow> outbuf u \<noteq> []) \<and> (\<not> full \<longrightarrow> t = sz \<and> SBTHRESHOLD \<le> subblockleft u) \<and> 512 \<le> subblockleft u \<and>
    open_stream zl u (d @ devread cfg (off + t0) t) \<and> same_chunk s u"
  using assms(3-10)
proof (induction "nat sz" arbitrary: sz t0 s d rule: less_induct)
  case less
  show ?case
  proof (cases "0 < sz")
    case False
    then have "compress_loop zl cfg False off sz t0 s = Some (t0, False, False, s)"
      by (subst compress_loop.simps) simp
    then show ?thesis using False less.prems by (intro exI [of _ 0] exI [of _ False] exI [of _ s]) (simp add: devread_def SBTHRESHOLD_def)
  next
    case True
    define c where "c = piece_size sz (subblockleft s)"
    have c: "0 < c" "c \<le> sz" "c mod 512 = 0" "c \<le> INBSIZE" "c \<le> subblockleft s - 1024"
      using piece_size_ok [OF True less.prems(5,3)] by (simp_all add: c_def)
    define x where "x = devread cfg (off + t0) c"
    have len: "int (length x) = c" using devread_length [of "off + t0" c cfg] less.prems(7,8) c by (simp add: x_def)
    then have x: "x \<noteq> []" using c(1) by auto
    define s1 where "s1 = s\<lparr>infpos := infpos s + c\<rparr>"
    have s1: "open_stream zl s1 d" "fixups (izl s1) = []" "subblockleft s1 = subblockleft s" "same_chunk s s1" "infpos s1 = off + (t0 + c)"
      using less.prems(1,2,6) by (simp_all add: s1_def open_stream_def same_chunk_def)
    obtain s2 where s2: "deflate_piece zl x s1 = Some s2" "open_stream zl s2 (d @ x)" "same_chunk s1 s2" "infpos s2 = infpos s1"
      "512 \<le> subblockleft s2" "outbuf s2 \<noteq> []"
      using deflate_piece_ok [OF assms(1) s1(1) x] len c(4,5) s1(3) by auto
    have same: "same_chunk s s2" using same_chunk_trans [OF s1(4) s2(3)] .
    have pad: "pad_sector cfg (off + t0) x (izl s1) = Some (x, izl s1)" using assms(2) by (simp add: pad_sector_def)
    have s1_eq: "s\<lparr>infpos := off + t0 + c\<rparr> = s1" using less.prems(6) by (simp add: s1_def)
    have run: "compress_loop zl cfg False off sz t0 s =
        (if subblockleft s2 < SBTHRESHOLD then Some (t0 + c, True, True, s2) else compress_loop zl cfg False off (sz - c) (t0 + c) s2)"
      using True less.prems(6) x s1(2) s2(1) pad len s1_eq
      by (subst compress_loop.simps) (simp add: c_def [symmetric] x_def [symmetric] Let_def)
    show ?thesis
    proof (cases "subblockleft s2 < SBTHRESHOLD")
      case full: True
      then show ?thesis using run c s2 same by (intro exI [of _ c] exI [of _ True] exI [of _ s2]) (simp add: x_def)
    next
      case room: False
      have smaller: "nat (sz - c) < nat sz" using c by simp
      have pr: "fixups (izl s2) = []" "SBTHRESHOLD \<le> subblockleft s2" "0 \<le> sz - c" "(sz - c) mod 512 = 0"
        "infpos s2 = off + (t0 + c)" "0 \<le> off + (t0 + c)" "off + (t0 + c) + (sz - c) \<le> int (length (disk cfg))"
        using s2(4) s1(5) room c(1-3) less.prems(1,5,7,8) same by (auto simp: same_chunk_def mod_diff_eq)
      from less.hyps [OF smaller pr(1) s2(2) pr(2-7)] obtain t full u where
        IH: "compress_loop zl cfg False off (sz - c) (t0 + c) s2 = Some (t0 + c + t, full, full, u)" "0 \<le> t" "t \<le> sz - c" "t mod 512 = 0"
          "outbuf s2 \<noteq> [] \<longrightarrow> outbuf u \<noteq> []" "\<not> full \<longrightarrow> t = sz - c \<and> SBTHRESHOLD \<le> subblockleft u" "512 \<le> subblockleft u"
          "open_stream zl u ((d @ x) @ devread cfg (off + (t0 + c)) t)" "same_chunk s2 u"
        by auto
      have "x @ devread cfg (off + (t0 + c)) t = devread cfg (off + t0) (c + t)"
        using devread_append [of "off + t0" c t cfg] less.prems(7) c(1) IH(2) by (simp add: x_def add.assoc)
      then have "open_stream zl u (d @ devread cfg (off + t0) (c + t))" using IH(8) by simp
      moreover have "(c + t) mod 512 = 0" using c(3) IH(4) mod_add_eq [of c 512 t] by simp
      ultimately show ?thesis
        using run room IH c s2(6) same_chunk_trans [OF same IH(9)]
        by (intro exI [of _ "c + t"] exI [of _ full] exI [of _ u]) (auto simp: add.assoc)
    qed
  qed
qed


definition closed_stream :: "'z deflater \<Rightarrow> 'z compressor \<Rightarrow> byte list \<Rightarrow> bool" where
  "closed_stream zl s d \<longleftrightarrow> subblockleft s = CHUNKMAX \<and> int (length (outbuf s)) = CHUNKMAX \<and> 0 < blksize s \<and> blksize s \<le> CHUNKMAX \<and>
     deflated zl d (take (nat (blksize s)) (outbuf s))"

lemma compress_finish_ok:
  assumes "deflater_ok zl" and "open_stream zl s d" and "512 \<le> subblockleft s" and "outbuf s \<noteq> []"
  shows "\<exists>u. compress_finish zl s = Some u \<and> closed_stream zl u d \<and> same_chunk s u"
proof -
  obtain z where z: "d_stream s = Some z" "deflating zl z d (outbuf s)" and left: "subblockleft s = CHUNKMAX - int (length (outbuf s))"
    using assms(2) by (auto simp: open_stream_def)
  obtain z' rest out where o: "deflate zl z [] (subblockleft s) True = (Z_STREAM_END, z', rest, out)" "length out < 512"
    "deflateEnd zl z' = Z_OK" using deflater_okD(3) [OF assms(1) z(2) assms(3)] by blast
  define l where "l = subblockleft s - int (length out)"
  have l: "0 < l" "CHUNKMAX - l = int (length (outbuf s @ out))" using o(2) assms(3) left by (simp_all add: l_def)
  have open': "subblockleft s \<noteq> CHUNKMAX" using assms(4) left by simp
  let ?u = "s\<lparr>d_stream := None, outbuf := (outbuf s @ out) @ replicate (nat l) 0, blksize := CHUNKMAX - l, subblockleft := CHUNKMAX\<rparr>"
  have "compress_finish zl s = Some ?u"
    using z(1) o left l open' unfolding compress_finish_def by (simp add: l_def [symmetric])
  moreover have "deflated zl d (outbuf s @ out)" using z(2) o(1) unfolding deflated_def by blast
  moreover have "take (nat (CHUNKMAX - l)) ((outbuf s @ out) @ replicate (nat l) 0) = outbuf s @ out" unfolding l(2) by simp
  moreover have "0 < CHUNKMAX - l" unfolding l(2) using assms(4) by (cases "outbuf s") simp_all
  moreover have "int (length ((outbuf s @ out) @ replicate (nat l) 0)) = CHUNKMAX" using l by simp
  ultimately show ?thesis using l(1) by (intro exI [of _ ?u]) (simp add: closed_stream_def same_chunk_def)
qed

definition ready_stream :: "'z deflater \<Rightarrow> 'z compressor \<Rightarrow> byte list \<Rightarrow> bool" where
  "ready_stream zl s d \<longleftrightarrow> open_stream zl s d \<and> SBTHRESHOLD \<le> subblockleft s \<and> outbuf s \<noteq> []"

definition fresh_stream :: "'z compressor \<Rightarrow> bool" where
  "fresh_stream s \<longleftrightarrow> outbuf s = [] \<and> subblockleft s = CHUNKMAX"

lemma compress_chunk_ok:
  assumes "deflater_ok zl" and "\<not> filemode cfg" and "fixups (izl s) = []" and "ready_stream zl s d \<or> fresh_stream s \<and> d = []"
    and "0 < sz" and "sz mod 512 = 0" and "infpos s = off" and "0 \<le> off" and "off + sz \<le> int (length (disk cfg))"
  shows "\<exists>t full u. compress_chunk zl cfg off sz s = Some (t, full, u) \<and> 0 < t \<and> t \<le> sz \<and> t mod 512 = 0 \<and> same_chunk s u \<and>
    (full \<longrightarrow> closed_stream zl u (d @ devread cfg off t)) \<and> (\<not> full \<longrightarrow> t = sz \<and> ready_stream zl u (d @ devread cfg off t))"
proof -
  define s1 where "s1 = (if subblockleft s = CHUNKMAX then s\<lparr>d_stream := deflateInit zl\<rparr> else s)"
  obtain z0 where z0: "deflateInit zl = Some z0" using deflater_okD(1) [OF assms(1)] by blast
  have s1: "open_stream zl s1 d" "SBTHRESHOLD \<le> subblockleft s1" "fixups (izl s1) = []" "infpos s1 = off" "same_chunk s s1"
  proof -
    show "open_stream zl s1 d" using assms(4)
    proof
      assume r: "ready_stream zl s d"
      then have "subblockleft s \<noteq> CHUNKMAX" by (auto simp: ready_stream_def open_stream_def)
      then show ?thesis using r by (simp add: s1_def ready_stream_def)
    next
      assume "fresh_stream s \<and> d = []"
      then show ?thesis using z0 by (auto simp: s1_def fresh_stream_def open_stream_def intro: deflating_init)
    qed
    show "SBTHRESHOLD \<le> subblockleft s1" using assms(4)
      by (auto simp: s1_def ready_stream_def fresh_stream_def SBTHRESHOLD_def CHUNKMAX_def CHUNKSIZE_BYTES_def DEFAULTREGIONSIZE_def)
    show "fixups (izl s1) = []" "infpos s1 = off" "same_chunk s s1" using assms(3,7) by (simp_all add: s1_def same_chunk_def)
  qed
  have init: "(if subblockleft s = CHUNKMAX then (case deflateInit zl of None \<Rightarrow> None | Some z \<Rightarrow> Some (s\<lparr>d_stream := Some z\<rparr>)) else Some s) = Some s1"
    using z0 by (simp add: s1_def)
  obtain t full u where u: "compress_loop zl cfg False off sz 0 s1 = Some (t, full, full, u)" "0 < t" "t \<le> sz" "t mod 512 = 0"
    "outbuf u \<noteq> []" "\<not> full \<longrightarrow> t = sz \<and> SBTHRESHOLD \<le> subblockleft u" "512 \<le> subblockleft u" "open_stream zl u (d @ devread cfg off t)"
    "same_chunk s1 u"
    using compress_loop_ok [OF assms(1,2) s1(3,1,2), of sz off 0] assms(5,6,8,9) s1(4) by auto
  have same: "same_chunk s u" by (rule same_chunk_trans [OF s1(5) u(9)])
  show ?thesis
  proof (cases full)
    case True
    obtain v where v: "compress_finish zl u = Some v" "closed_stream zl v (d @ devread cfg off t)" "same_chunk u v"
      using compress_finish_ok [OF assms(1) u(8,7,5)] by blast
    have "compress_chunk zl cfg off sz s = Some (t, True, v)"
      unfolding compress_chunk_def init using u(1) v(1) True assms(5) by simp
    then show ?thesis using u(2-4) v same_chunk_trans [OF same v(3)]
      by (intro exI [of _ t] exI [of _ True] exI [of _ v]) simp
  next
    case False
    let ?v = "u\<lparr>blksize := CHUNKMAX - subblockleft u\<rparr>"
    have "compress_chunk zl cfg off sz s = Some (t, False, ?v)"
      unfolding compress_chunk_def init using u(1) False assms(5) by simp
    moreover have "ready_stream zl ?v (d @ devread cfg off t)" using u False by (simp add: ready_stream_def open_stream_def)
    moreover have "same_chunk s ?v" using same by (simp add: same_chunk_def)
    ultimately show ?thesis using u False by (intro exI [of _ t] exI [of _ False] exI [of _ ?v]) simp
  qed
qed


section \<open>Compressing all ranges\<close>

definition region_bytes :: "izconfig \<Rightarrow> region \<Rightarrow> byte list" where
  "region_bytes cfg r = devread cfg ((inputminsec cfg + rg_sect r) * 512) (rg_count r * 512)"

definition regions_bytes :: "izconfig \<Rightarrow> region list \<Rightarrow> byte list" where
  "regions_bytes cfg rs = concat (map (region_bytes cfg) rs)"

text \<open>The sectors of regions, in the numbering of the image, and the regions that may stand in one chunk.\<close>

definition rsects :: "region list \<Rightarrow> int set" where
  "rsects rs = (\<Union>r \<in> set rs. {rg_sect r..<rg_sect r + rg_count r})"

definition regions_ok :: "int \<Rightarrow> int \<Rightarrow> region list \<Rightarrow> bool" where
  "regions_ok lo hi rs \<longleftrightarrow> sorted_wrt (\<lambda>r r'. rg_sect r + rg_count r < rg_sect r') rs \<and>
     (\<forall>r \<in> set rs. lo \<le> rg_sect r \<and> 0 < rg_count r \<and> rg_sect r + rg_count r \<le> hi)"

lemma rsects_simps [simp]: "rsects [] = {}" "rsects (rs @ rs') = rsects rs \<union> rsects rs'"
  "rsects (r # rs) = {rg_sect r..<rg_sect r + rg_count r} \<union> rsects rs"
  by (auto simp: rsects_def)

definition chunk_ok :: "'z deflater \<Rightarrow> izconfig \<Rightarrow> chunk \<Rightarrow> bool" where
  "chunk_ok zl cfg c \<longleftrightarrow> h_regions c \<noteq> [] \<and> h_relocs c = [] \<and> regions_ok (h_firstsect c) (h_lastsect c) (h_regions c) \<and>
     int (length (payload c)) = CHUNKMAX \<and> 0 < h_size c \<and> h_size c \<le> CHUNKMAX \<and>
     deflated zl (regions_bytes cfg (h_regions c)) (take (nat (h_size c)) (payload c)) \<and>
     HDRUSED (int (length (h_regions c))) (int (length (h_relocs c))) \<le> DEFAULTREGIONSIZE"

text \<open>The chunks cover the disk from one sector to another without a gap.\<close>

fun tiles :: "int \<Rightarrow> chunk list \<Rightarrow> int \<Rightarrow> bool" where
  "tiles lo [] hi \<longleftrightarrow> lo = hi"
| "tiles lo (c # cs) hi \<longleftrightarrow> h_firstsect c = lo \<and> tiles (h_lastsect c) cs hi"

lemma tiles_append: "tiles lo (cs @ [c]) hi \<longleftrightarrow> tiles lo cs (h_firstsect c) \<and> h_lastsect c = hi"
  by (induction cs arbitrary: lo) auto

definition chunks_sects :: "chunk list \<Rightarrow> int set" where
  "chunks_sects cs = (\<Union>c \<in> set cs. rsects (h_regions c))"

definition image_frame :: "izconfig \<Rightarrow> bool" where
  "image_frame cfg \<longleftrightarrow> incanseek cfg \<and> \<not> filemode cfg \<and> 0 \<le> inputminsec cfg \<and> inputminsec cfg \<le> inputmaxsec cfg \<and>
     0 < inputmaxsec cfg \<and> inputmaxsec cfg < 2 ^ 32 \<and> inputmaxsec cfg * 512 \<le> int (length (disk cfg))"

definition done_sects :: "izconfig \<Rightarrow> unit izrange list \<Rightarrow> 'z compressor \<Rightarrow> int set" where
  "done_sects cfg rs s = chunks_sects (chunks s) \<union> rsects (regtab s) \<union> {x. x + inputminsec cfg \<in> sects rs}"

text \<open>The invariant of the loop: the chunks written, the open chunk and the ranges to come, in this order on the disk.\<close>

definition image_inv :: "'z deflater \<Rightarrow> izconfig \<Rightarrow> unit izrange list \<Rightarrow> 'z compressor \<Rightarrow> bool" where
  "image_inv zl cfg rs s \<longleftrightarrow>
     fixups (izl s) = [] \<and> relocs (izl s) = [] \<and> numregions (izl s) = int (length (regtab s)) \<and>
     HDRUSED (int (length (regtab s)) + 1) 0 \<le> DEFAULTREGIONSIZE \<and>
     (if regtab s = [] then fresh_stream s else ready_stream zl s (regions_bytes cfg (regtab s))) \<and>
     regions_ok (cursect s) (inputmaxsec cfg - inputminsec cfg) (regtab s) \<and>
     (\<forall>p \<in> set rs. \<forall>r \<in> set (regtab s). rg_sect r + rg_count r + inputminsec cfg < ir_start p) \<and>
     sorted_wrt apart rs \<and> within (inputminsec cfg + cursect s) (inputmaxsec cfg) rs \<and>
     (\<forall>c \<in> set (chunks s). chunk_ok zl cfg c) \<and> tiles 0 (chunks s) (cursect s) \<and>
     0 \<le> cursect s \<and> (rs = [] \<and> regtab s = [] \<longrightarrow> cursect s = inputmaxsec cfg - inputminsec cfg)"

text \<open>What a closed chunk adds.\<close>

lemma write_chunk_ok:
  assumes "closed_stream zl s (regions_bytes cfg (regtab s))" and "regtab s \<noteq> []" and "relocs (izl s) = []"
    and "regions_ok (cursect s) lst (regtab s)" and "HDRUSED (int (length (regtab s))) 0 \<le> DEFAULTREGIONSIZE"
    and "\<forall>c \<in> set (chunks s). chunk_ok zl cfg c" and "tiles 0 (chunks s) (cursect s)"
  shows "(\<forall>c \<in> set (chunks (write_chunk lst s)). chunk_ok zl cfg c) \<and> tiles 0 (chunks (write_chunk lst s)) lst \<and>
    chunks_sects (chunks (write_chunk lst s)) = chunks_sects (chunks s) \<union> rsects (regtab s) \<and>
    fresh_stream (write_chunk lst s)"
  using assms by (auto simp: write_chunk_def Let_def chunk_ok_def tiles_append chunks_sects_def closed_stream_def fresh_stream_def)


lemma regions_bytes_append [simp]: "regions_bytes cfg (rs @ [r]) = regions_bytes cfg rs @ region_bytes cfg r"
  by (simp add: regions_bytes_def)

lemma add_region_ok:
  assumes "deflater_ok zl" and "numregions (izl s) = int (length (regtab s))" and "relocs (izl s) = []"
    and "HDRUSED (int (length (regtab s)) + 1) 0 \<le> DEFAULTREGIONSIZE"
    and "full \<longrightarrow> closed_stream zl s d" and "\<not> full \<longrightarrow> ready_stream zl s d"
  shows "\<exists>full1 u. add_region zl r full s = Some (full1, u) \<and> regtab u = regtab s @ [r] \<and> cursect u = cursect s \<and> chunks u = chunks s \<and>
    izl u = (izl s)\<lparr>numregions := int (length (regtab u))\<rparr> \<and> (full \<longrightarrow> full1) \<and> (full1 \<longrightarrow> closed_stream zl u d) \<and>
    (\<not> full1 \<longrightarrow> ready_stream zl u d \<and> HDRUSED (int (length (regtab u)) + 1) 0 \<le> DEFAULTREGIONSIZE)"
proof -
  define s1 where "s1 = s\<lparr>regtab := regtab s @ [r], izl := (izl s)\<lparr>numregions := numregions (izl s) + 1\<rparr>\<rparr>"
  have s1: "regtab s1 = regtab s @ [r]" "cursect s1 = cursect s" "chunks s1 = chunks s"
    "izl s1 = (izl s)\<lparr>numregions := int (length (regtab s1))\<rparr>" "full \<longrightarrow> closed_stream zl s1 d" "\<not> full \<longrightarrow> ready_stream zl s1 d"
    using assms(2,5,6) by (auto simp: s1_def closed_stream_def ready_stream_def open_stream_def)
  have fits: "HDRUSED (int (length (regtab s1))) 0 \<le> DEFAULTREGIONSIZE" using assms(4) s1(1) by (simp add: add.commute)
  note unf = add_region_def [of zl r full s, folded s1_def, unfolded Let_def]
  show ?thesis
  proof (cases "HDRUSED (int (length (regtab s1)) + 1) 0 > DEFAULTREGIONSIZE \<and> \<not> full")
    case True
    then have r: "ready_stream zl s1 d" using s1(6) by simp
    have "512 \<le> subblockleft s1" using r by (simp add: ready_stream_def SBTHRESHOLD_def)
    then obtain u where u: "compress_finish zl s1 = Some u" "closed_stream zl u d" "same_chunk s1 u"
      using compress_finish_ok [OF assms(1)] r unfolding ready_stream_def by blast
    have "add_region zl r full s = Some (True, u)"
      unfolding unf using u(1) True fits s1(4) assms(3) by simp
    then show ?thesis using u s1 by (intro exI [of _ True] exI [of _ u]) (simp add: same_chunk_def)
  next
    case False
    have "add_region zl r full s = Some (full, s1)"
      unfolding unf using False fits s1(4) assms(3) by (cases full) simp_all
    then show ?thesis using s1 False by (intro exI [of _ full] exI [of _ s1]) auto
  qed
qed


definition rest_size :: "unit izrange list \<Rightarrow> int" where
  "rest_size rs = sum_list (map ir_size rs)"

text \<open>One turn of the loop, in its three cases.\<close>

lemma image_loop_unfold:
  assumes "incanseek cfg" and "compress_chunk zl cfg (sectobytes (ir_start p)) (sectobytes (ir_size p)) (s\<lparr>infpos := sectobytes (ir_start p)\<rparr>) =
      Some (t, full, s2)"
    and "t \<noteq> 0" and "t mod secsize = 0" and "bytestosec t = n" and "ir_size p \<noteq> 0"
    and "add_region zl \<lparr>rg_sect = to_u32 (ir_start p - inputminsec cfg), rg_count = n\<rparr> full s2 = Some (full1, u)"
    and "\<not> full1 \<longrightarrow> t = sectobytes (ir_size p)"
  shows "image_loop zl cfg (p # ps) s =
      (if \<not> full1 then image_loop zl cfg ps u
       else let v = write_chunk (end_sector cfg (t = sectobytes (ir_size p)) ps u) u in
         if t = sectobytes (ir_size p) then image_loop zl cfg ps v
         else image_loop zl cfg (p\<lparr>ir_start := to_u32 (ir_start p + n), ir_size := to_u32 (ir_size p - n)\<rparr> # ps) v)"
  using assms(8) by (subst image_loop.simps) (simp add: Let_def assms(1-7))

lemma image_step:
  assumes "deflater_ok zl" and "image_frame cfg" and "image_inv zl cfg (p # ps) s"
  shows "\<exists>rs u. image_loop zl cfg (p # ps) s = image_loop zl cfg rs u \<and> image_inv zl cfg rs u \<and>
    done_sects cfg rs u = done_sects cfg (p # ps) s \<and> rest_size rs < rest_size (p # ps)"
proof -
  let ?min = "inputminsec cfg" and ?max = "inputmaxsec cfg"
  define s0 where "s0 = s\<lparr>infpos := sectobytes (ir_start p)\<rparr>"
  define D where "D = regions_bytes cfg (regtab s)"
  have fr: "incanseek cfg" "\<not> filemode cfg" "0 \<le> ?min" "?min \<le> ?max" "0 < ?max" "?max < 2 ^ 32" "?max * 512 \<le> int (length (disk cfg))"
    using assms(2) by (simp_all add: image_frame_def)
  have inv: "fixups (izl s) = []" "relocs (izl s) = []" "numregions (izl s) = int (length (regtab s))"
    "HDRUSED (int (length (regtab s)) + 1) 0 \<le> DEFAULTREGIONSIZE"
    "regions_ok (cursect s) (?max - ?min) (regtab s)"
    "\<forall>q \<in> set (p # ps). \<forall>r \<in> set (regtab s). rg_sect r + rg_count r + ?min < ir_start q"
    "sorted_wrt apart (p # ps)" "within (?min + cursect s) ?max (p # ps)" "\<forall>c \<in> set (chunks s). chunk_ok zl cfg c"
    "tiles 0 (chunks s) (cursect s)" "0 \<le> cursect s"
    using assms(3) unfolding image_inv_def by (simp_all split del: if_split)
  have stream: "ready_stream zl s D \<or> fresh_stream s \<and> D = []"
    using assms(3) by (auto simp: image_inv_def D_def regions_bytes_def split: if_splits)
  have p: "?min + cursect s \<le> ir_start p" "0 < ir_size p" "ir_start p + ir_size p \<le> ?max"
    using inv(8) by (simp_all add: ir_end_def)
  have strm0: "ready_stream zl s0 D \<or> fresh_stream s0 \<and> D = []"
    using stream by (simp add: s0_def ready_stream_def fresh_stream_def open_stream_def)
  have sz: "0 < sectobytes (ir_size p)" "sectobytes (ir_size p) mod 512 = 0" "infpos s0 = sectobytes (ir_start p)"
    "0 \<le> sectobytes (ir_start p)" "sectobytes (ir_start p) + sectobytes (ir_size p) \<le> int (length (disk cfg))"
    "fixups (izl s0) = []"
    using p fr inv(1,11) by (simp_all add: sectobytes_def secsize_def s0_def)
  from compress_chunk_ok [OF assms(1) fr(2) sz(6) strm0 sz(1-5)]
  obtain t full s2 where s2: "compress_chunk zl cfg (sectobytes (ir_start p)) (sectobytes (ir_size p)) s0 = Some (t, full, s2)"
    "0 < t" "t \<le> sectobytes (ir_size p)" "t mod 512 = 0" "same_chunk s0 s2"
    "full \<longrightarrow> closed_stream zl s2 (D @ devread cfg (sectobytes (ir_start p)) t)"
    "\<not> full \<longrightarrow> t = sectobytes (ir_size p) \<and> ready_stream zl s2 (D @ devread cfg (sectobytes (ir_start p)) t)"
    by (elim exE conjE)
  define n where "n = t div 512"
  have tn: "t = n * 512" using s2(4) div_mult_mod_eq [of t 512] by (simp add: n_def)
  have n: "0 < n" "n \<le> ir_size p" "bytestosec t = n"
    using s2(2,3) tn to_u32_id [of n] p fr inv(11) by (simp_all add: sectobytes_def secsize_def bytestosec_def)
  define r where "r = \<lparr>rg_sect = ir_start p - ?min, rg_count = n\<rparr>"
  have reg: "\<lparr>rg_sect = to_u32 (ir_start p - ?min), rg_count = bytestosec t\<rparr> = r"
    using to_u32_id [of "ir_start p - ?min"] p fr inv(11) n by (simp add: r_def)
  have bytes: "D @ devread cfg (sectobytes (ir_start p)) t = regions_bytes cfg (regtab s @ [r])"
    by (simp add: D_def region_bytes_def r_def tn sectobytes_def secsize_def)
  have s2f: "regtab s2 = regtab s" "cursect s2 = cursect s" "chunks s2 = chunks s" "izl s2 = izl s"
    using s2(5) by (simp_all add: same_chunk_def s0_def)
  obtain full1 u where u: "add_region zl r full s2 = Some (full1, u)" "regtab u = regtab s @ [r]" "cursect u = cursect s" "chunks u = chunks s"
    "izl u = (izl s)\<lparr>numregions := int (length (regtab u))\<rparr>" "full \<longrightarrow> full1"
    "full1 \<longrightarrow> closed_stream zl u (regions_bytes cfg (regtab u))"
    "\<not> full1 \<longrightarrow> ready_stream zl u (regions_bytes cfg (regtab u)) \<and> HDRUSED (int (length (regtab u)) + 1) 0 \<le> DEFAULTREGIONSIZE"
    using add_region_ok [OF assms(1), of s2 full "regions_bytes cfg (regtab s @ [r])" r] s2(6,7) s2f inv(2,3,4) bytes by auto
  have regs: "regions_ok (cursect s) hi (regtab u)" if hi: "ir_start p - ?min + n \<le> hi" for hi
    unfolding regions_ok_def u(2)
  proof (intro conjI ballI)
    have before: "rg_sect r' + rg_count r' < rg_sect r" if "r' \<in> set (regtab s)" for r'
      using inv(6) that by (auto simp: r_def)
    show "sorted_wrt (\<lambda>r r'. rg_sect r + rg_count r < rg_sect r') (regtab s @ [r])"
      using inv(5) before by (simp add: regions_ok_def sorted_wrt_append)
    fix r' assume "r' \<in> set (regtab s @ [r])"
    then consider "r' \<in> set (regtab s)" | "r' = r" by auto
    then show "cursect s \<le> rg_sect r'" "0 < rg_count r'" "rg_sect r' + rg_count r' \<le> hi"
      using inv(5) before [of r'] p n hi by (cases; simp add: regions_ok_def r_def)+
  qed
  have pbig: "sects (p # ps) = {ir_start p..<ir_start p + n} \<union> {ir_start p + n..<ir_end p} \<union> sects ps"
    using n by (auto simp: ir_end_def)
  have rdone: "done_sects cfg (p # ps) s = chunks_sects (chunks u) \<union> rsects (regtab u) \<union>
      {x. x + ?min \<in> {ir_start p + n..<ir_end p} \<union> sects ps}"
    unfolding done_sects_def pbig u(2,4) by (auto simp: r_def)
  have ulists: "fixups (izl u) = []" "relocs (izl u) = []" "numregions (izl u) = int (length (regtab u))"
    using u(5) inv(1,2) by simp_all
  have full_cond: "full1 \<or> (\<not> full \<and> t = sectobytes (ir_size p))" using u(6) s2(7) by blast
  have nf: "\<not> full1 \<longrightarrow> t = sectobytes (ir_size p)" using full_cond by blast
  have step: "image_loop zl cfg (p # ps) s =
      (if \<not> full1 then image_loop zl cfg ps u
       else let v = write_chunk (end_sector cfg (t = sectobytes (ir_size p)) ps u) u in
         if t = sectobytes (ir_size p) then image_loop zl cfg ps v
         else image_loop zl cfg (p\<lparr>ir_start := to_u32 (ir_start p + n), ir_size := to_u32 (ir_size p - n)\<rparr> # ps) v)"
    using s2(1,2,4) p(2) u(1) fr(1) nf n(3) reg
    by (intro image_loop_unfold [of cfg zl p s t full s2]) (simp_all add: s0_def secsize_def)
  show ?thesis
  proof (cases full1)
    case False
    then have t: "t = sectobytes (ir_size p)" using full_cond by simp
    then have nsz: "n = ir_size p" using tn by (simp add: sectobytes_def secsize_def)
    have "image_inv zl cfg ps u"
      unfolding image_inv_def
    proof (intro conjI ballI)
      show "if regtab u = [] then fresh_stream u else ready_stream zl u (regions_bytes cfg (regtab u))"
        using u(2,8) False by simp
      show "regions_ok (cursect u) (?max - ?min) (regtab u)" using regs [of "?max - ?min"] p n u(3) by simp
      show "within (?min + cursect u) ?max ps" using inv(8) u(3) by simp
      show "rg_sect r' + rg_count r' + ?min < ir_start q" if "q \<in> set ps" "r' \<in> set (regtab u)" for q r'
        using that inv(6,7) u(2) nsz by (auto simp: r_def apart_def ir_end_def)
    qed (use u False ulists inv in auto)
    moreover have "done_sects cfg ps u = done_sects cfg (p # ps) s"
      unfolding rdone using nsz by (auto simp: done_sects_def ir_end_def)
    moreover have "rest_size ps < rest_size (p # ps)" using p(2) by (simp add: rest_size_def)
    ultimately show ?thesis using step False by (intro exI [of _ ps] exI [of _ u]) simp
  next
    case True
    define L where "L = end_sector cfg (t = sectobytes (ir_size p)) ps u"
    define v where "v = write_chunk L u"
    define ps' where "ps' = (if t = sectobytes (ir_size p) then ps
      else p\<lparr>ir_start := ir_start p + n, ir_size := ir_size p - n\<rparr> # ps)"
    have u32: "to_u32 x = x" if "0 \<le> x" "x \<le> ?max" for x using that fr(6) by (intro to_u32_id) auto
    have p': "0 \<le> ir_start p - ?min" "ir_start p + n \<le> ?max" using p n inv(11) by simp_all
    have nsz: "n = ir_size p \<longleftrightarrow> t = sectobytes (ir_size p)" using tn by (simp add: sectobytes_def secsize_def)
    have L: "ir_start p - ?min + n \<le> L \<and> L \<le> ?max - ?min \<and> within (?min + L) ?max ps' \<and> (ps' = [] \<longrightarrow> L = ?max - ?min)"
    proof (cases "t = sectobytes (ir_size p)")
      case whole: True
      show ?thesis
      proof (cases ps)
        case Nil
        then have "L = ?max - ?min" using whole fr u32 [of "?max - ?min"] by (simp add: L_def end_sector_def)
        then show ?thesis using Nil whole p' by (simp add: ps'_def)
      next
        case (Cons q qs)
        have q: "ir_end p < ir_start q" "ir_start q \<le> ?max" "0 \<le> ir_start q" "within ?min ?max ps"
          using inv(7,8,11) Cons fr(3) within_mono [of "?min + cursect s" ?max ps ?min ?max] by (auto simp: apart_def ir_end_def)
        then have "L = ir_start q - ?min" using whole Cons fr u32 [of "ir_start q - ?min"] p nsz p' by (simp add: L_def end_sector_def ir_end_def)
        moreover have "within (ir_start q) ?max ps"
          using inv(7,8) Cons by (auto simp: within_def apart_def ir_end_def) 
        ultimately show ?thesis using q whole nsz Cons by (simp add: ps'_def ir_end_def)
      qed
    next
      case part: False
      have "last (regtab u) = r" using u(2) by simp
      then have L: "L = ir_start p - ?min + n"
        using part p' n(1) fr(3) u32 [of "ir_start p - ?min + n"] by (simp add: L_def end_sector_def region_end_def r_def)
      have "within (ir_start p + n) ?max ps" using inv(7,8) n by (auto simp: within_def apart_def ir_end_def)
      then show ?thesis using L part p' n nsz p(3) by (simp add: ps'_def ir_end_def)
    qed
    have wc: "(\<forall>c \<in> set (chunks v). chunk_ok zl cfg c) \<and> tiles 0 (chunks v) L \<and>
        chunks_sects (chunks v) = chunks_sects (chunks u) \<union> rsects (regtab u) \<and> fresh_stream v"
      unfolding v_def
    proof (rule write_chunk_ok)
      show "HDRUSED (int (length (regtab u))) 0 \<le> DEFAULTREGIONSIZE" using inv(4) u(2) by (simp add: add.commute)
      show "regions_ok (cursect u) L (regtab u)" using regs [of L] L u(3) by simp
    qed (use u True ulists inv in simp_all)
    have vf: "regtab v = []" "cursect v = L" "fixups (izl v) = []" "relocs (izl v) = []" "numregions (izl v) = 0"
      using ulists by (simp_all add: v_def write_chunk_def freerelocs_def Let_def)
    have "image_inv zl cfg ps' v"
      unfolding image_inv_def
    proof (intro conjI)
      show "sorted_wrt apart ps'" using inv(7) by (auto simp: ps'_def apart_def ir_end_def)
      show "0 \<le> cursect v" using vf L p' n by simp
    qed (use wc vf L in \<open>simp_all add: regions_ok_def HDRUSED_def DEFAULTREGIONSIZE_def\<close>)
    moreover have "done_sects cfg ps' v = done_sects cfg (p # ps) s"
      unfolding rdone using wc vf(1) nsz by (auto simp: done_sects_def ps'_def ir_end_def)
    moreover have "rest_size ps' < rest_size (p # ps)" using p(2) n(1) by (simp add: rest_size_def ps'_def)
    moreover have "image_loop zl cfg (p # ps) s = image_loop zl cfg ps' v"
      using step True u32 [of "ir_start p + n"] u32 [of "ir_size p - n"] p' p n fr(3) inv(11)
      by (simp add: v_def L_def ps'_def Let_def)
    ultimately show ?thesis by blast
  qed
qed

lemma image_finish:
  assumes "deflater_ok zl" and "image_frame cfg" and "image_inv zl cfg [] s"
  shows "\<exists>u. image_loop zl cfg [] s = Some u \<and> (\<forall>c \<in> set (chunks u). chunk_ok zl cfg c) \<and>
    tiles 0 (chunks u) (inputmaxsec cfg - inputminsec cfg) \<and> chunks_sects (chunks u) = done_sects cfg [] s"
proof -
  define L where "L = inputmaxsec cfg - inputminsec cfg"
  have L: "0 < inputmaxsec cfg" "to_u32 L = L" using assms(2) to_u32_id [of L] by (simp_all add: image_frame_def L_def)
  have inv: "relocs (izl s) = []" "HDRUSED (int (length (regtab s)) + 1) 0 \<le> DEFAULTREGIONSIZE"
    "regtab s \<noteq> [] \<longrightarrow> ready_stream zl s (regions_bytes cfg (regtab s))" "regions_ok (cursect s) L (regtab s)"
    "\<forall>c \<in> set (chunks s). chunk_ok zl cfg c" "tiles 0 (chunks s) (cursect s)" "regtab s = [] \<longrightarrow> cursect s = L"
    using assms(3) by (simp_all add: image_inv_def L_def)
  have loop: "image_loop zl cfg [] s = finish_image zl cfg s" by (subst image_loop.simps) simp
  have goal: "done_sects cfg [] s = chunks_sects (chunks s) \<union> rsects (regtab s)" by (simp add: done_sects_def)
  show ?thesis
  proof (cases "regtab s = []")
    case True
    then show ?thesis unfolding loop goal L_def [symmetric] using inv by (simp add: finish_image_def)
  next
    case False
    have ready: "open_stream zl s (regions_bytes cfg (regtab s))" "512 \<le> subblockleft s" "outbuf s \<noteq> []"
      using inv(3) False by (simp_all add: ready_stream_def SBTHRESHOLD_def)
    obtain u where u: "compress_finish zl s = Some u" "closed_stream zl u (regions_bytes cfg (regtab s))" "same_chunk s u"
      using compress_finish_ok [OF assms(1) ready] by blast
    have uf: "regtab u = regtab s" "cursect u = cursect s" "chunks u = chunks s" "izl u = izl s" using u(3) by (simp_all add: same_chunk_def)
    have fits: "HDRUSED (int (length (regtab u))) 0 \<le> DEFAULTREGIONSIZE" using inv(2) uf(1) by (simp add: HDRUSED_def)
    have "finish_image zl cfg s = Some (write_chunk L u)"
      using False u(1) fits inv(1) uf L by (simp add: finish_image_def L_def)
    moreover note write_chunk_ok [of zl u cfg L]
    ultimately show ?thesis unfolding loop goal L_def [symmetric] using u(2) False inv fits uf
      by (intro exI [of _ "write_chunk L u"]) simp
  qed
qed

lemma image_loop_ok:
  assumes "deflater_ok zl" and "image_frame cfg" and "image_inv zl cfg rs s"
  shows "\<exists>u. image_loop zl cfg rs s = Some u \<and> (\<forall>c \<in> set (chunks u). chunk_ok zl cfg c) \<and>
    tiles 0 (chunks u) (inputmaxsec cfg - inputminsec cfg) \<and> chunks_sects (chunks u) = done_sects cfg rs s"
  using assms(3)
proof (induction "nat (rest_size rs)" arbitrary: rs s rule: less_induct)
  case less
  show ?case
  proof (cases rs)
    case Nil
    then show ?thesis using image_finish [OF assms(1,2)] less.prems by simp
  next
    case (Cons p ps)
    have pos: "0 \<le> rest_size rs" if "image_inv zl cfg rs s" for rs s
    proof -
      have "\<forall>q \<in> set rs. 0 \<le> ir_size q" using that by (auto simp: image_inv_def within_def)
      then show ?thesis unfolding rest_size_def by (intro sum_list_nonneg) auto
    qed
    from image_step [OF assms(1,2) less.prems [unfolded Cons]]
    obtain rs' u where u: "image_loop zl cfg (p # ps) s = image_loop zl cfg rs' u" "image_inv zl cfg rs' u"
      "done_sects cfg rs' u = done_sects cfg (p # ps) s" "rest_size rs' < rest_size (p # ps)"
      by (elim exE conjE)
    have "nat (rest_size rs') < nat (rest_size rs)" using u(4) pos [OF u(2)] Cons by simp
    from less.hyps [OF this u(2)] show ?thesis using u(1,3) Cons by simp
  qed
qed

section \<open>The header area\<close>

text \<open>
  Whatever the fixups and the compression library, a chunk that is written has room for its regions and relocations:
  \<^verbatim>\<open>addreloc\<close> ends the process when there is no room for another relocation, and the loop closes the chunk when there is
  none for another region.
\<close>

definition same_table :: "'z compressor \<Rightarrow> 'z compressor \<Rightarrow> bool" where
  "same_table s t \<longleftrightarrow> numregions (izl t) = numregions (izl s) \<and> regtab t = regtab s \<and> chunks t = chunks s"

lemma same_table_trans: "same_table s t \<Longrightarrow> same_table t u \<Longrightarrow> same_table s u"
  by (simp add: same_table_def)

lemma addreloc_numregions: "addreloc off sz t z = Some z' \<Longrightarrow> numregions z' = numregions z"
  by (auto simp: addreloc_def split: if_splits)

lemma apply_loop_numregions: "apply_loop off sz fs data z = Some (fs', data', z') \<Longrightarrow> numregions z' = numregions z"
proof (induction fs arbitrary: data z fs' data' z')
  case (Cons e es)
  have IH: "\<And>d y a b y'. apply_loop off sz es d y = Some (a, b, y') \<Longrightarrow> numregions y' = numregions y" using Cons.IH by blast
  show ?case using Cons.prems
    by (auto simp: Let_def c_assert_def split: bind_splits if_splits dest!: IH addreloc_numregions)
qed simp

lemma applyfixups_numregions: "applyfixups off sz data z = Some (data', z') \<Longrightarrow> numregions z' = numregions z"
  by (auto simp: applyfixups_def dest: apply_loop_numregions split: bind_splits)

lemma pad_sector_numregions: "pad_sector cfg pos buf z = Some (buf', z') \<Longrightarrow> numregions z' = numregions z"
  by (auto simp: pad_sector_def Let_def dest: addreloc_numregions split: bind_splits if_splits)

lemma compress_finish_table: "compress_finish zl s = Some t \<Longrightarrow> izl t = izl s \<and> regtab t = regtab s \<and> chunks t = chunks s"
  by (auto simp: compress_finish_def Let_def c_assert_def split: bind_splits if_splits prod.splits)

lemma deflate_piece_table: "deflate_piece zl buf s = Some t \<Longrightarrow> izl t = izl s \<and> regtab t = regtab s \<and> chunks t = chunks s"
  by (auto simp: deflate_piece_def Let_def c_assert_def split: bind_splits if_splits prod.splits)

lemma compress_loop_table:
  assumes "compress_loop zl cfg tileof off sz d s = Some (d', full, fin, t)"
  shows "same_table s t"
proof -
  have "same_table s (snd (snd (snd r)))" if "compress_loop zl cfg tileof off sz d s = Some r" for r
    using that
  proof (induction rule: compress_loop.raw_induct [rotated 1, consumes 1, case_names step])
    case (step f zl cfg tileof off sz d s r)
    define cnt where "cnt = piece_size sz (subblockleft s)"
    define rd where "rd = devread cfg (infpos s) cnt"
    define s1 where "s1 = s\<lparr>infpos := infpos s + int (length rd)\<rparr>"
    show ?case
    proof (cases "0 < sz \<and> rd \<noteq> []")
      case False
      then show ?thesis using step(2) by (auto simp: same_table_def cnt_def rd_def Let_def split: if_splits)
    next
      case True
      define amend where "amend = (\<lambda>(buf, z). if fixups z \<noteq> [] then applyfixups (off + d) cnt buf z else Some (buf, z))"
      have eq: "Option.bind (pad_sector cfg (off + d) rd (izl s1)) (\<lambda>(buf, z).
          Option.bind (c_assert (int (length buf) = cnt \<or> tileof)) (\<lambda>_. Option.bind (amend (buf, z)) (\<lambda>(buf1, z1).
          Option.bind (deflate_piece zl buf1 (s1\<lparr>izl := z1\<rparr>)) (\<lambda>s2.
          let sz1 = (if tileof then sz else sz - int (length buf)); done1 = d + int (length buf) in
          if subblockleft s2 < SBTHRESHOLD then Some (done1, True, True, s2) else f zl cfg tileof off sz1 done1 s2)))) = Some r"
        using step(2) True unfolding cnt_def rd_def s1_def amend_def Let_def by simp
      then obtain buf z where p1: "pad_sector cfg (off + d) rd (izl s1) = Some (buf, z)" by (auto split: Option.bind_splits)
      with eq obtain buf1 z1 where p2: "amend (buf, z) = Some (buf1, z1)" by (auto split: Option.bind_splits)
      with eq p1 obtain s2 where p3: "deflate_piece zl buf1 (s1\<lparr>izl := z1\<rparr>) = Some s2" by (auto split: Option.bind_splits)
      note p = p1 p2 [unfolded amend_def prod.case] p3
      have r: "r = (d + int (length buf), True, True, s2) \<or> (\<exists>sz1. f zl cfg tileof off sz1 (d + int (length buf)) s2 = Some r)"
        using eq p1 p2 p3 by (auto simp: Let_def split: Option.bind_splits if_splits)
      have "numregions z1 = numregions (izl s)"
        using pad_sector_numregions [OF p(1)] p(2) applyfixups_numregions by (auto simp: s1_def split: if_splits)
      then have "same_table s s2" using deflate_piece_table [OF p(3)] by (simp add: same_table_def s1_def)
      then show ?thesis using r step(1) same_table_trans by fastforce
    qed
  qed
  from this [OF assms] show ?thesis by simp
qed

lemma compress_chunk_table:
  assumes "compress_chunk zl cfg off sz s = Some (d, full, t)"
  shows "same_table s t"
proof -
  define init where "init = (if subblockleft s = CHUNKMAX then (case deflateInit zl of None \<Rightarrow> None | Some z \<Rightarrow> Some (s\<lparr>d_stream := Some z\<rparr>)) else Some s)"
  note eq = assms [unfolded compress_chunk_def, folded init_def]
  obtain s1 where i: "init = Some s1" using eq by (cases init) auto
  have s1: "same_table s s1" using i by (auto simp: init_def same_table_def split: if_splits option.splits)
  let ?l = "compress_loop zl cfg (sz = 0) off (if sz = 0 then INBSIZE + 1 else sz) 0 s1"
  obtain d2 full2 fin s2 where l2: "?l = Some (d2, full2, fin, s2)" using eq i by (cases ?l) auto
  have l: "?l = Some (d, full, fin, s2)" and t: "if fin then compress_finish zl s2 = Some t else t = s2\<lparr>blksize := CHUNKMAX - subblockleft s2\<rparr>"
    using eq i l2 by (auto split: Option.bind_splits if_splits)
  have "same_table s2 t" using t compress_finish_table [of zl s2 t] by (auto simp: same_table_def split: if_splits)
  then show ?thesis using same_table_trans [OF s1 same_table_trans [OF compress_loop_table [OF l]]] by blast
qed

definition area_ok :: "chunk \<Rightarrow> bool" where
  "area_ok c \<longleftrightarrow> HDRUSED (int (length (h_regions c))) (int (length (h_relocs c))) \<le> DEFAULTREGIONSIZE"

definition tables_ok :: "'z compressor \<Rightarrow> bool" where
  "tables_ok s \<longleftrightarrow> numregions (izl s) = int (length (regtab s)) \<and> (\<forall>c \<in> set (chunks s). area_ok c)"

lemma add_region_table:
  assumes "tables_ok s" and "add_region zl r full s = Some (full1, t)"
  shows "tables_ok t \<and> (full1 \<longrightarrow> HDRUSED (int (length (regtab t))) (int (length (relocs (izl t)))) \<le> DEFAULTREGIONSIZE)"
proof -
  define s1 where "s1 = s\<lparr>regtab := regtab s @ [r], izl := (izl s)\<lparr>numregions := numregions (izl s) + 1\<rparr>\<rparr>"
  have s1: "tables_ok s1" "numregions (izl s1) = int (length (regtab s1))" using assms(1) by (simp_all add: tables_ok_def s1_def)
  have t: "izl t = izl s1 \<and> regtab t = regtab s1 \<and> chunks t = chunks s1"
    using assms(2) compress_finish_table [of zl s1 t] unfolding add_region_def s1_def [symmetric] Let_def
    by (auto split: bind_splits if_splits)
  have "HDRUSED (int (length (regtab s1))) (int (length (relocs (izl s1)))) \<le> DEFAULTREGIONSIZE" if "full1"
    using assms(2) s1(2) that unfolding add_region_def s1_def [symmetric] Let_def
    by (auto simp: c_assert_def HDRUSED_def split: bind_splits if_splits)
  then show ?thesis using t s1 by (simp add: tables_ok_def)
qed

lemma write_chunk_table:
  assumes "tables_ok s" and "HDRUSED (int (length (regtab s))) (int (length (relocs (izl s)))) \<le> DEFAULTREGIONSIZE"
  shows "tables_ok (write_chunk lst s)"
  using assms by (auto simp: tables_ok_def write_chunk_def area_ok_def freerelocs_def Let_def)

lemma same_table_ok: "same_table s t \<Longrightarrow> tables_ok s \<Longrightarrow> tables_ok t"
  by (simp add: same_table_def tables_ok_def)

lemma finish_image_table:
  assumes "tables_ok s" and "finish_image zl cfg s = Some t"
  shows "tables_ok t"
proof (cases "regtab s = []")
  case True
  then show ?thesis using assms by (simp add: finish_image_def)
next
  case False
  then obtain s1 where s1: "compress_finish zl s = Some s1" "HDRUSED (int (length (regtab s1))) (int (length (relocs (izl s1)))) \<le> DEFAULTREGIONSIZE"
    "t = write_chunk (if inputmaxsec cfg > 0 then to_u32 (inputmaxsec cfg - inputminsec cfg) else region_end (last (regtab s1))) s1"
    using assms(2) compress_finish_table by (fastforce simp: finish_image_def c_assert_def split: bind_splits if_splits)
  have "tables_ok s1" using assms(1) compress_finish_table [OF s1(1)] by (simp add: tables_ok_def)
  then show ?thesis using write_chunk_table s1(2,3) by blast
qed

lemma image_loop_table:
  assumes "image_loop zl cfg rs s = Some t" and "tables_ok s"
  shows "tables_ok t"
  using assms
proof (induction rule: image_loop.raw_induct [rotated 1, consumes 1, case_names step])
  case (step f zl cfg rs s t)
  show ?case
  proof (cases rs)
    case Nil
    then show ?thesis using step(2,3) finish_image_table by auto
  next
    case (Cons p ps)
    define s1 where "s1 = (if incanseek cfg then s\<lparr>infpos := sectobytes (ir_start p)\<rparr> else s)"
    have s1: "tables_ok s1" using step(3) by (simp add: s1_def tables_ok_def)
    have IH: "f zl cfg rs' u = Some t \<Longrightarrow> tables_ok u \<Longrightarrow> tables_ok t" for rs' u using step(1) by blast
    obtain sz full s2 where c: "compress_chunk zl cfg (sectobytes (ir_start p)) (sectobytes (ir_size p)) s1 = Some (sz, full, s2)"
      using step(2) Cons by (auto simp: s1_def [symmetric] Let_def split: Option.bind_splits)
    have s2: "tables_ok s2" by (rule same_table_ok [OF compress_chunk_table [OF c] s1])
    show ?thesis
    proof (cases "sz = 0")
      case True
      then show ?thesis using step(2) Cons c finish_image_table [OF s2] by (simp add: s1_def [symmetric] Let_def)
    next
      case False
      obtain r full1 s3 where a: "add_region zl r full s2 = Some (full1, s3)"
        and rest: "(\<exists>rs'. f zl cfg rs' s3 = Some t) \<or> full1 \<and> (\<exists>rs' lst. f zl cfg rs' (write_chunk lst s3) = Some t)"
        using step(2) Cons c False
        by (simp add: s1_def [symmetric] Let_def split: if_splits Option.bind_splits prod.splits) blast+
      show ?thesis using rest add_region_table [OF s2 a] write_chunk_table [of s3] IH by blast
    qed
  qed
qed

lemma compress_image_area:
  assumes "compress_image zl cfg z = Some cs"
  shows "\<forall>c \<in> set cs. area_ok c"
proof -
  obtain t where t: "image_loop zl cfg (ranges z) \<lparr>d_stream = None, outbuf = [], subblockleft = CHUNKMAX, blksize = 0, infpos = 0,
       izl = z\<lparr>numregions := 0\<rparr>, regtab = [], cursect = 0, chunks = []\<rparr> = Some t" "cs = chunks t"
    using assms by (auto simp: compress_image_def)
  have "tables_ok t" by (rule image_loop_table [OF t(1)]) (simp add: tables_ok_def)
  then show ?thesis using t(2) by (simp add: tables_ok_def)
qed

section \<open>The whole run\<close>

lemma image_written_ok:
  assumes "deflater_ok zl" and "image_frame cfg" and "fixups z = []" and "relocs z = []" and "ranges z \<noteq> []"
    and "sorted_wrt apart (ranges z)" and "within (inputminsec cfg) (inputmaxsec cfg) (ranges z)"
  shows "\<exists>cs. compress_image zl cfg z = Some cs \<and> (\<forall>c \<in> set cs. chunk_ok zl cfg c) \<and>
    tiles 0 cs (inputmaxsec cfg - inputminsec cfg) \<and> chunks_sects cs = {x. x + inputminsec cfg \<in> sects (ranges z)}"
proof -
  define s where "s = (\<lparr>d_stream = None, outbuf = [], subblockleft = CHUNKMAX, blksize = 0, infpos = 0,
       izl = z\<lparr>numregions := 0\<rparr>, regtab = [], cursect = 0, chunks = []\<rparr> :: 'a compressor)"
  have "image_inv zl cfg (ranges z) s"
    using assms(3-7) by (simp add: image_inv_def s_def fresh_stream_def regions_ok_def HDRUSED_def DEFAULTREGIONSIZE_def)
  from image_loop_ok [OF assms(1,2) this] show ?thesis
    by (auto simp: compress_image_def s_def done_sects_def chunks_sects_def)
qed

text \<open>
  C20. With the ranges that \<^verbatim>\<open>makeranges\<close> leaves, no fixups and no relocations, and a compression library that keeps its
  promises, the image is written to the end: its chunks follow one another from the first sector of the disk to the last, every chunk is full,
  holds in its compressed data the contents of its regions, in order, which lie inside the chunk and apart from each
  other, and together the regions are exactly the ranges.
\<close>

theorem image_written:
  assumes "deflater_ok zl" and "image_frame cfg" and "fixups z = []" and "relocs z = []" and "ranges z \<noteq> []"
    and "sorted_wrt apart (ranges z)" and "within (inputminsec cfg) (inputmaxsec cfg) (ranges z)"
  shows "\<exists>cs. compress_image zl cfg z = Some cs \<and> (\<forall>c \<in> set cs. chunk_ok zl cfg c) \<and>
    tiles 0 cs (inputmaxsec cfg - inputminsec cfg) \<and> chunks_sects cs = {x. x + inputminsec cfg \<in> sects (ranges z)}"
  by (rule image_written_ok [OF assms])

text \<open>A codec for examples: it copies, and ends the compressed data with one byte.\<close>

definition copy_deflater :: "unit deflater" where
  "copy_deflater = \<lparr>deflateInit = Some (), deflate = (\<lambda>z x n fin. if fin then (Z_STREAM_END, z, x, [0]) else (Z_OK, z, [], x)),
     deflateEnd = (\<lambda>z. Z_OK)\<rparr>"

lemma copy_deflating: "deflating copy_deflater z d o' \<Longrightarrow> o' = d"
  by (induction rule: deflating.induct) (auto simp: copy_deflater_def)

lemma copy_deflater_ok: "deflater_ok copy_deflater"
  by (simp add: deflater_ok_def copy_deflater_def)

lemma copy_deflated: "deflated copy_deflater d c \<Longrightarrow> c = d @ [0]"
  using copy_deflating by (fastforce simp: deflated_def copy_deflater_def)

text \<open>A disk of four sectors with the number of the sector in every byte.\<close>

definition disk_example :: izconfig where
  "disk_example = \<lparr>disk = replicate 512 0 @ replicate 512 1 @ replicate 512 2 @ replicate 512 3, incanseek = True, filemode = False,
     inputminsec = 0, inputmaxsec = 4\<rparr>"

definition ranges_example :: izlists where
  "ranges_example = addvalid 3 1 (addvalid 0 1 izlists_init)"

theorem image_written_witness:
  "\<exists>cs. compress_image copy_deflater disk_example ranges_example = Some cs \<and> (\<forall>c \<in> set cs. chunk_ok copy_deflater disk_example c) \<and>
    tiles 0 cs 4 \<and> chunks_sects cs = {0, 3}"
proof -
  have r: "ranges ranges_example = [\<lparr>ir_start = 0, ir_size = 1, ir_data = ()\<rparr>, \<lparr>ir_start = 3, ir_size = 1, ir_data = ()\<rparr>]"
    "fixups ranges_example = []" "relocs ranges_example = []"
    by (simp_all add: ranges_example_def addvalid_def izlists_init_def)
  have d: "image_frame disk_example" "inputminsec disk_example = 0" "inputmaxsec disk_example = 4"
    by (simp_all add: image_frame_def disk_example_def)
  have "{x. x + 0 \<in> sects (ranges ranges_example)} = {0, 3}" by (auto simp: r ir_end_def)
  then show ?thesis
    using image_written [OF copy_deflater_ok d(1) r(2,3)] by (simp add: r d apart_def ir_end_def)
qed

end
