(* ===== verification/Relocs.thy ===== *)
theory Relocs
  imports ImageZip
begin

text \<open>
  Relocations: absolute sector numbers in an image, which are made relative to the partition when it is saved and absolute
  again when it is restored to a partition that starts elsewhere. There are two kinds: the sector addresses of LILO boot
  blocks and map files (clientside/os/imagezip/extfs/lilo.h and reloc_lilo.c, and \<^verbatim>\<open>reloc_lilo\<close> and
  \<^verbatim>\<open>reloc_lilocksum\<close> of imageunzip.c), and the partition table of BSD disk labels (ffs/disklabel.h, ffs/ffs.c and
  \<^verbatim>\<open>reloc_bsdlabel\<close> of imageunzip.c). The structures are byte lists with the layout of the structures of the code on
  the little-endian machines it runs on. An access that leaves the buffer is a failure.
\<close>

section \<open>Bytes\<close>

definition get16 :: "byte list \<Rightarrow> nat \<Rightarrow> int" where
  "get16 b i = uint (b ! i) + 256 * uint (b ! (i + 1))"

definition put16 :: "byte list \<Rightarrow> nat \<Rightarrow> int \<Rightarrow> byte list" where
  "put16 b i v = b[i := word_of_int v, i + 1 := word_of_int (v div 256)]"

definition get32 :: "byte list \<Rightarrow> nat \<Rightarrow> int" where
  "get32 b i = get16 b i + 65536 * get16 b (i + 2)"

definition put32 :: "byte list \<Rightarrow> nat \<Rightarrow> int \<Rightarrow> byte list" where
  "put32 b i v = put16 (put16 b i v) (i + 2) (v div 65536)"

text \<open>The checksums of both structures are the exclusive or of all 16-bit words.\<close>

fun xor16 :: "byte list \<Rightarrow> 16 word \<Rightarrow> 16 word" where
  "xor16 (lo # hi # bs) acc = xor16 bs (acc XOR (ucast lo OR push_bit 8 (ucast hi)))"
| "xor16 bs acc = acc"

section \<open>LILO sector addresses\<close>

definition LILO_CKSUM :: "16 word" where "LILO_CKSUM = 0xabcd"
definition MAX_BOOT2_SECT :: nat where "MAX_BOOT2_SECT = 10"
definition MAX_IMAGE_DESC :: nat where "MAX_IMAGE_DESC = 19"
definition MAX_MAP_SECT :: nat where "MAX_MAP_SECT = 101"
definition SADDR_S_SIZE :: nat where "SADDR_S_SIZE = 5"
definition IMAGE_S_SIZE :: nat where "IMAGE_S_SIZE = 52"
definition IDTAB_S_SIZE :: nat where "IDTAB_S_SIZE = 990"
definition IDESC_S_SIZE :: nat where "IDESC_S_SIZE = 1024"

definition HARD_DISK :: byte where "HARD_DISK = 0x80"
definition LINEAR_ADDR :: byte where "LINEAR_ADDR = 0x40"
definition LBA32_NOCOUNT :: byte where "LBA32_NOCOUNT = 0x10"
definition DEVFLAGS :: byte where "DEVFLAGS = 0xF0"

record sectaddr =
  sa_sector :: byte
  sa_track :: byte
  sa_device :: byte
  sa_head :: byte
  sa_nsect :: byte

definition devflags :: "byte \<Rightarrow> byte" where
  "devflags device = (device AND DEVFLAGS) AND NOT HARD_DISK"

definition getsector :: "sectaddr \<Rightarrow> 32 word" where
  "getsector sa =
     (let flags = devflags (sa_device sa);
          low = push_bit 16 (ucast (sa_head sa)) OR push_bit 8 (ucast (sa_track sa)) OR ucast (sa_sector sa) in
      if sa_device sa = 0 \<and> sa_nsect sa = 0 \<and> sa_head sa = 0 \<and> sa_track sa = 0 \<and> sa_sector sa = 0 then 0
      else if flags = 0 then 0
      else if flags AND LINEAR_ADDR \<noteq> 0 then low
      else (if flags AND LBA32_NOCOUNT \<noteq> 0 then push_bit 24 (ucast (sa_nsect sa)) else 0) OR low)"

definition putsector :: "32 word \<Rightarrow> byte \<Rightarrow> byte \<Rightarrow> sectaddr" where
  "putsector sector device nsect =
     (let flags = devflags device in
      \<lparr>sa_sector = ucast sector, sa_track = ucast (drop_bit 8 sector), sa_device = device, sa_head = ucast (drop_bit 16 sector),
       sa_nsect = (if flags AND LINEAR_ADDR = 0 \<and> flags AND LBA32_NOCOUNT \<noteq> 0 then ucast (drop_bit 24 sector) else nsect)\<rparr>)"

text \<open>The five bytes of an address in memory, and the address at an offset of a buffer.\<close>

definition sa_bytes :: "sectaddr \<Rightarrow> byte list" where
  "sa_bytes sa = [sa_sector sa, sa_track sa, sa_device sa, sa_head sa, sa_nsect sa]"

definition sa_at :: "byte list \<Rightarrow> nat \<Rightarrow> sectaddr" where
  "sa_at b i = \<lparr>sa_sector = b ! i, sa_track = b ! (i + 1), sa_device = b ! (i + 2), sa_head = b ! (i + 3), sa_nsect = b ! (i + 4)\<rparr>"

definition lilocksum :: "byte list \<Rightarrow> 16 word \<Rightarrow> 16 word" where
  "lilocksum idp acc = xor16 (take IDESC_S_SIZE idp) acc"

section \<open>Saving a LILO partition\<close>

definition RELOC_FBSDDISKLABEL :: int where "RELOC_FBSDDISKLABEL = 1"
definition RELOC_OBSDDISKLABEL :: int where "RELOC_OBSDDISKLABEL = 2"
definition RELOC_LILOSADDR :: int where "RELOC_LILOSADDR = 3"
definition RELOC_LILOMAPSECT :: int where "RELOC_LILOMAPSECT = 4"
definition RELOC_LILOCKSUM :: int where "RELOC_LILOCKSUM = 5"

text \<open>\<^verbatim>\<open>partoff\<close> and \<^verbatim>\<open>partsize\<close> are arguments. A read that is too short returns nothing.\<close>

definition readatsector :: "izconfig \<Rightarrow> int \<Rightarrow> int \<Rightarrow> int \<Rightarrow> int \<Rightarrow> byte list option option" where
  "readatsector cfg partoff partsize sect sz = do {
     c_assert (sect \<ge> partoff);
     c_assert (to_u32 (sect + bytestosec sz) \<le> to_u32 (partoff + partsize));
     let b = devread cfg (sectobytes sect) sz in Some (if int (length b) = sz then Some b else None)
   }"

definition fixup_sector :: "int \<Rightarrow> int \<Rightarrow> int \<Rightarrow> sectaddr \<Rightarrow> izlists \<Rightarrow> izlists option" where
  "fixup_sector partoff partsize poff sect z =
     (let sector = getsector sect in
      if sector = 0 then Some z
      else do {
        c_assert (uint sector \<ge> partoff);
        c_assert (uint sector < to_u32 (partoff + partsize));
        let nsect = putsector (sector - word_of_int partoff) (sa_device sect) (sa_nsect sect); boff = sectobytes partoff in
        Some (addfixup (boff + poff) boff (int SADDR_S_SIZE) (sa_bytes nsect) RELOC_LILOSADDR z)
      })"

text \<open>The addresses of a map sector up to the first that is zero; the address at which the loop stopped.\<close>

fun map_addrs :: "int \<Rightarrow> nat \<Rightarrow> nat \<Rightarrow> 32 word \<Rightarrow> byte list \<Rightarrow> byte list \<times> 32 word" where
  "map_addrs partoff i 0 addr m = (m, addr)"
| "map_addrs partoff i (Suc n) addr m =
     (let sa = sa_at m (i * SADDR_S_SIZE); addr = getsector sa in
      if addr = 0 then (m, addr)
      else map_addrs partoff (Suc i) n addr
        (patch m (i * SADDR_S_SIZE) (sa_bytes (putsector (addr - word_of_int partoff) (sa_device sa) (sa_nsect sa)))))"

text \<open>The map may be circular, so the walk over it may not end.\<close>

partial_function (option) fixup_map :: "izconfig \<Rightarrow> int \<Rightarrow> int \<Rightarrow> 32 word \<Rightarrow> izlists \<Rightarrow> izlists option" where
  "fixup_map cfg partoff partsize startsect z =
     (if startsect = 0 then Some z
      else Option.bind (readatsector cfg partoff partsize (uint startsect) 512) (\<lambda>r.
        case r of None \<Rightarrow> None
        | Some mapsect \<Rightarrow>
            let boff = sectobytes partoff;
                poff = to_u32 (sectobytes (to_u32 (uint startsect - partoff)));
                (m, addr) = map_addrs partoff 0 (MAX_MAP_SECT + 1) 0 mapsect in
            fixup_map cfg partoff partsize addr (addfixup (boff + poff) boff 512 m RELOC_LILOMAPSECT z)))"

text \<open>The boot block: offsets of the fields of \<^verbatim>\<open>struct bb1\<close>, and of \<^verbatim>\<open>struct image\<close> in the descriptor table.\<close>

definition bb1_idesc :: "nat \<Rightarrow> nat" where "bb1_idesc i = 24 + 5 * i"
definition bb1_cmdline :: nat where "bb1_cmdline = 34"
definition bb1_msglen :: nat where "bb1_msglen = 40"
definition bb1_msg :: nat where "bb1_msg = 42"
definition bb1_keytab :: nat where "bb1_keytab = 47"
definition bb1_boot2 :: "nat \<Rightarrow> nat" where "bb1_boot2 i = 52 + 5 * i"
definition idtab_image :: "nat \<Rightarrow> nat" where "idtab_image i = 2 + IMAGE_S_SIZE * i"
definition image_rdsize :: nat where "image_rdsize = 32"
definition image_initrd :: nat where "image_initrd = 36"
definition image_start :: nat where "image_start = 41"

definition fixup_field :: "int \<Rightarrow> int \<Rightarrow> int \<Rightarrow> byte list \<Rightarrow> nat \<Rightarrow> izlists \<Rightarrow> izlists option" where
  "fixup_field partoff partsize poff b off z = fixup_sector partoff partsize (to_u32 (poff + int off)) (sa_at b off) z"

fun fixup_fields :: "int \<Rightarrow> int \<Rightarrow> int \<Rightarrow> byte list \<Rightarrow> nat list \<Rightarrow> izlists \<Rightarrow> izlists option" where
  "fixup_fields partoff partsize poff b [] z = Some z"
| "fixup_fields partoff partsize poff b (off # offs) z =
     do { z1 \<leftarrow> fixup_field partoff partsize poff b off z; fixup_fields partoff partsize poff b offs z1 }"

definition boot_fields :: "byte list \<Rightarrow> nat list" where
  "boot_fields bb = [bb1_idesc 0, bb1_idesc 1, bb1_cmdline, bb1_keytab] @ (if get16 bb bb1_msglen > 0 then [bb1_msg] else []) @
     map bb1_boot2 [0..<MAX_BOOT2_SECT + 1]"

definition image_sector :: "byte list \<Rightarrow> nat \<Rightarrow> nat \<Rightarrow> 32 word" where
  "image_sector dtab i field = getsector (sa_at dtab (idtab_image i + field))"

text \<open>One image descriptor; the map of an alias of an earlier image is not relocated again.\<close>

definition fixup_image :: "izconfig \<Rightarrow> int \<Rightarrow> int \<Rightarrow> int \<Rightarrow> byte list \<Rightarrow> nat \<Rightarrow> izlists \<Rightarrow> izlists option" where
  "fixup_image cfg partoff partsize poff dtab i z =
     (let s0 = image_sector dtab i image_start;
          alias = (\<exists>a \<in> set [0..<i]. image_sector dtab a image_start = s0) in do {
        z1 \<leftarrow> (if get32 dtab (idtab_image i + image_rdsize) \<noteq> 0 then do {
                let rds = image_sector dtab i image_initrd in do {
                  z0 \<leftarrow> fixup_field partoff partsize poff dtab (idtab_image i + image_initrd) z;
                  fixup_map cfg partoff partsize rds z0
                }
              } else Some z);
        z2 \<leftarrow> fixup_field partoff partsize poff dtab (idtab_image i + image_start) z1;
        if alias then Some z2 else fixup_map cfg partoff partsize s0 z2
      })"

fun fixup_images :: "izconfig \<Rightarrow> int \<Rightarrow> int \<Rightarrow> int \<Rightarrow> byte list \<Rightarrow> nat \<Rightarrow> nat \<Rightarrow> izlists \<Rightarrow> izlists option" where
  "fixup_images cfg partoff partsize poff dtab i 0 z = Some z"
| "fixup_images cfg partoff partsize poff dtab i (Suc n) z =
     (if dtab ! idtab_image i = 0 then Some z
      else do { z1 \<leftarrow> fixup_image cfg partoff partsize poff dtab i z; fixup_images cfg partoff partsize poff dtab (Suc i) n z1 })"

text \<open>The result, whether LILO was found (not set when the boot block cannot be read), and the new lists.\<close>

definition lilo_sig :: "byte list" where "lilo_sig = [0x4C, 0x49, 0x4C, 0x4F]"

definition fixup_lilo :: "izconfig \<Rightarrow> int \<Rightarrow> int \<Rightarrow> izlists \<Rightarrow> (int \<times> bool option \<times> izlists) option" where
  "fixup_lilo cfg start sz z =
     (let bb = devread cfg (sectobytes start) 512 in
      if length bb \<noteq> 512 then Some (1, None, z)
      else if take 4 (drop 6 bb) \<noteq> lilo_sig then Some (0, Some False, z)
      else if get16 bb 10 \<noteq> 1 then Some (0, Some True, z)
      else
        let s0 = getsector (sa_at bb bb1_cmdline); s1 = getsector (sa_at bb (bb1_idesc 0));
            s2 = getsector (sa_at bb (bb1_idesc 1)); s4 = getsector (sa_at bb bb1_keytab) in
        if s1 \<noteq> s0 + 1 \<or> s2 \<noteq> s0 + 2 \<or> s4 \<noteq> s0 + 4 then Some (0, Some True, z)
        else Option.bind (readatsector cfg start sz (uint s1) (int IDESC_S_SIZE)) (\<lambda>r.
          case r of None \<Rightarrow> Some (1, Some True, z)
          | Some dtab \<Rightarrow>
              if lilocksum dtab LILO_CKSUM \<noteq> 0 then Some (0, Some True, z)
              else do {
                z1 \<leftarrow> fixup_fields start sz 0 bb (boot_fields bb) z;
                let poff = to_u32 (sectobytes (to_u32 (uint s1 - start))) in do {
                  z2 \<leftarrow> fixup_images cfg start sz poff dtab 0 MAX_IMAGE_DESC z1;
                  let poff1 = to_u32 (poff + int IDTAB_S_SIZE) in
                  Some (0, Some True, addfixup (sectobytes start + poff1) (sectobytes start) 2
                    (take 2 (drop IDTAB_S_SIZE dtab)) RELOC_LILOCKSUM z2)
                }
              }))"

section \<open>Restoring a LILO partition\<close>

record slice_bounds =
  slice :: int
  outputminsec :: int
  outputmaxsec :: int
  outputmaxsize :: int

fun reloc_addrs :: "'x slice_bounds_scheme \<Rightarrow> nat \<Rightarrow> nat \<Rightarrow> byte list \<Rightarrow> byte list option" where
  "reloc_addrs sb i 0 b = Some b"
| "reloc_addrs sb i (Suc n) b =
     (let sa = sa_at b (i * SADDR_S_SIZE); sector = getsector sa in
      if sector = 0 then Some b
      else let sector1 = sector + word_of_int (outputminsec sb) in do {
        c_assert (outputmaxsec sb = 0 \<or> uint sector1 \<le> outputmaxsec sb);
        reloc_addrs sb (Suc i) n (patch b (i * SADDR_S_SIZE) (sa_bytes (putsector sector1 (sa_device sa) (sa_nsect sa))))
      })"

definition reloc_lilo :: "'x slice_bounds_scheme \<Rightarrow> int \<Rightarrow> int \<Rightarrow> byte list \<Rightarrow> byte list option" where
  "reloc_lilo sb reloctype sz b =
     (if reloctype = RELOC_LILOSADDR then do { c_assert (sz = 5); reloc_addrs sb 0 1 b }
      else if reloctype = RELOC_LILOMAPSECT then do { c_assert (sz = 512); reloc_addrs sb 0 (MAX_MAP_SECT + 1) b }
      else Some b)"

text \<open>
  The entry points behind the descriptor table. The table and the rest of its two sectors are summed; the sum lies in the
  first two bytes.
\<close>

definition reloc_lilocksum :: "byte list \<Rightarrow> nat \<Rightarrow> int \<Rightarrow> byte list option" where
  "reloc_lilocksum b off sz = do {
     c_assert (sz = 2);
     c_assert (IDTAB_S_SIZE \<le> off);
     let i = off - IDTAB_S_SIZE in do {
       c_assert (i + IDESC_S_SIZE \<le> length b);
       let b1 = put16 b i 0 in Some (put16 b1 i (uint (lilocksum (drop i b1) LILO_CKSUM)))
     }
   }"

section \<open>BSD disk labels\<close>

definition DISKMAGIC :: int where "DISKMAGIC = 0x82564557"
definition RAW_PART :: nat where "RAW_PART = 2"
definition LABELSECTOR :: int where "LABELSECTOR = 1"
definition sizeof_disklabel :: nat where "sizeof_disklabel = 276"

text \<open>Offsets of the fields of \<^verbatim>\<open>struct disklabel\<close>.\<close>

definition d_magic :: nat where "d_magic = 0"
definition d_magic2 :: nat where "d_magic2 = 132"
definition d_checksum :: nat where "d_checksum = 136"
definition d_npartitions :: nat where "d_npartitions = 138"
definition p_size :: "nat \<Rightarrow> nat" where "p_size i = 148 + 16 * i"
definition p_offset :: "nat \<Rightarrow> nat" where "p_offset i = 152 + 16 * i"

definition dkcksum :: "byte list \<Rightarrow> 16 word" where
  "dkcksum lab = xor16 (take (148 + 16 * nat (get16 lab d_npartitions)) lab) 0"

definition set_checksum :: "byte list \<Rightarrow> byte list" where
  "set_checksum lab = (let lab1 = put16 lab d_checksum 0 in put16 lab1 d_checksum (uint (dkcksum lab1)))"

text \<open>What \<^verbatim>\<open>read_bsdslice\<close> does to the label when it is saved, from the label it has read and made absolute.\<close>

definition skipped_part :: "bool \<Rightarrow> nat \<Rightarrow> byte list \<Rightarrow> bool" where
  "skipped_part openbsd i lab \<longleftrightarrow> get32 lab (p_size i) = 0 \<or> openbsd \<and> (i = 2 \<or> 8 \<le> i \<and> i < 16)"

fun unlabel_parts :: "int \<Rightarrow> bool \<Rightarrow> nat \<Rightarrow> nat \<Rightarrow> byte list \<Rightarrow> byte list option" where
  "unlabel_parts start openbsd i 0 lab = Some lab"
| "unlabel_parts start openbsd i (Suc n) lab =
     (if skipped_part openbsd i lab then unlabel_parts start openbsd (Suc i) n lab
      else do {
        c_assert (get32 lab (p_offset i) \<ge> start);
        unlabel_parts start openbsd (Suc i) n (put32 lab (p_offset i) (to_u32 (get32 lab (p_offset i) - start)))
      })"

definition fixup_label :: "bool \<Rightarrow> bool \<Rightarrow> int \<Rightarrow> bool \<Rightarrow> byte list \<Rightarrow> izlists \<Rightarrow> izlists option" where
  "fixup_label dorelocs forcerelocs start openbsd lab z =
     (if dorelocs \<and> (start > 0 \<or> forcerelocs) \<and> get32 lab (p_offset 0) = start then do {
        l1 \<leftarrow> unlabel_parts start openbsd 0 (nat (get16 lab d_npartitions)) lab;
        let l2 = set_checksum l1 in
        Some (addfixup (sectobytes (to_u32 (start + LABELSECTOR))) (sectobytes start) (int sizeof_disklabel) (take sizeof_disklabel l2)
          (if openbsd then RELOC_OBSDDISKLABEL else RELOC_FBSDDISKLABEL) z)
      } else Some z)"

text \<open>What \<^verbatim>\<open>reloc_bsdlabel\<close> does to it when it is restored.\<close>

definition relabel_part :: "'x slice_bounds_scheme \<Rightarrow> nat \<Rightarrow> byte list \<Rightarrow> byte list option" where
  "relabel_part sb i lab =
     (let l1 = put32 lab (p_offset i) (to_u32 (get32 lab (p_offset i) + outputminsec sb));
          poffset = get32 l1 (p_offset i); psize = get32 l1 (p_size i);
          slicesize = bytestosec (outputmaxsize sb) in
      if to_u32 (poffset + psize) > outputmaxsec sb then Some (put32 l1 (p_size i) (to_u32 (outputmaxsec sb - poffset)))
      else if i = RAW_PART \<and> psize \<noteq> slicesize then do {
        c_assert (poffset = outputminsec sb);
        Some (put32 l1 (p_size i) slicesize)
      } else Some l1)"

fun relabel_parts :: "'x slice_bounds_scheme \<Rightarrow> bool \<Rightarrow> nat \<Rightarrow> nat \<Rightarrow> byte list \<Rightarrow> byte list option" where
  "relabel_parts sb openbsd i 0 lab = Some lab"
| "relabel_parts sb openbsd i (Suc n) lab =
     (if skipped_part openbsd i lab then relabel_parts sb openbsd (Suc i) n lab
      else do { l1 \<leftarrow> relabel_part sb i lab; relabel_parts sb openbsd (Suc i) n l1 })"

definition reloc_bsdlabel :: "'x slice_bounds_scheme \<Rightarrow> int \<Rightarrow> byte list \<Rightarrow> byte list option" where
  "reloc_bsdlabel sb reloctype lab =
     (if slice sb = 0 then Some lab
      else do {
        c_assert (get32 lab d_magic = DISKMAGIC \<and> get32 lab d_magic2 = DISKMAGIC);
        c_assert (outputmaxsize sb > 0);
        let npart = nat (get16 lab d_npartitions) in do {
          c_assert (148 + 16 * npart \<le> length lab);
          l1 \<leftarrow> relabel_parts sb (reloctype = RELOC_OBSDDISKLABEL) 0 npart lab;
          Some (set_checksum l1)
        }
      })"

section \<open>Bytes and words\<close>

lemma put16_length [simp]: "length (put16 b i v) = length b"
  by (simp add: put16_def)

lemma put32_length [simp]: "length (put32 b i v) = length b"
  by (simp add: put32_def)

lemma split_mod: "0 \<le> n \<Longrightarrow> v mod m + m * (v div m mod n) = v mod (m * n)" for v m n :: int
  using zmod_zmult2_eq [of n v m] by simp

lemma get16_put16:
  assumes "i + 1 < length b"
  shows "get16 (put16 b i v) i = v mod 65536"
proof -
  have "v mod 256 + 256 * (v div 256 mod 256) = v mod (256 * 256)" by (rule split_mod) simp
  then show ?thesis using assms by (simp add: get16_def put16_def uint_word_of_int take_bit_eq_mod)
qed

lemma get16_put16_other:
  assumes "i + 1 < j \<or> j + 1 < i"
  shows "get16 (put16 b i v) j = get16 b j"
  using assms by (auto simp: get16_def put16_def nth_list_update)

lemma get32_put32:
  assumes "i + 3 < length b"
  shows "get32 (put32 b i v) i = to_u32 v"
proof -
  have "v mod 65536 + 65536 * (v div 65536 mod 65536) = v mod (65536 * 65536)" by (rule split_mod) simp
  then show ?thesis using assms
    by (simp add: get32_def put32_def get16_put16 get16_put16_other to_u32_def)
qed

lemma get32_put32_other:
  assumes "i + 3 < j \<or> j + 3 < i"
  shows "get32 (put32 b i v) j = get32 b j"
  using assms by (auto simp: get32_def put32_def get16_put16_other)

lemma get16_put32_other:
  assumes "i + 3 < j \<or> j + 1 < i"
  shows "get16 (put32 b i v) j = get16 b j"
  using assms by (auto simp: put32_def get16_put16_other)

lemma get16_range: "0 \<le> get16 b i \<and> get16 b i < 65536"
  using uint_lt2p [of "b ! i"] uint_lt2p [of "b ! (i + 1)"] by (simp add: get16_def)

lemma get32_range: "0 \<le> get32 b i \<and> get32 b i < 2 ^ 32"
  using get16_range [of b i] get16_range [of b "i + 2"] by (simp add: get32_def)

section \<open>Checksums\<close>

definition word16 :: "byte \<Rightarrow> byte \<Rightarrow> 16 word" where
  "word16 lo hi = ucast lo OR push_bit 8 (ucast hi)"

lemma xor16_word16: "xor16 (lo # hi # bs) acc = xor16 bs (acc XOR word16 lo hi)"
  by (simp add: word16_def)

lemma xor16_acc: "xor16 b (acc XOR w) = xor16 b acc XOR w"
proof (induction b acc arbitrary: w rule: xor16.induct)
  case (1 lo hi bs acc)
  show ?case using 1 [of w] by (simp add: xor.assoc xor.commute xor.left_commute)
qed simp_all

lemma xor16_update:
  assumes "2 * k + 1 < length b"
  shows "xor16 (b[2 * k := lo, 2 * k + 1 := hi]) acc = xor16 b acc XOR word16 (b ! (2 * k)) (b ! (2 * k + 1)) XOR word16 lo hi"
  using assms
proof (induction b acc arbitrary: k rule: xor16.induct)
  case (1 x y bs acc)
  show ?case
  proof (cases k)
    case 0
    have "xor16 bs (acc XOR word16 lo hi) = xor16 bs (acc XOR word16 x y) XOR word16 x y XOR word16 lo hi"
      by (simp add: xor16_acc xor.assoc)
    then show ?thesis using 0 by (simp add: word16_def)
  next
    case (Suc k')
    then show ?thesis using 1 by simp
  qed
qed simp_all

lemma word16_bytes: "word16 (word_of_int (uint w)) (word_of_int (uint w div 256)) = w" for w :: "16 word"
proof (rule bit_word_eqI)
  fix n assume n: "n < LENGTH(16)"
  have e: "word_of_int (uint w div 256) = (ucast (drop_bit 8 w) :: byte)"
    by (simp add: drop_bit_eq_div ucast_eq uint_div)
  show "bit (word16 (word_of_int (uint w)) (word_of_int (uint w div 256))) n = bit w n"
    unfolding e word16_def using n by (auto simp: bit_simps)
qed

text \<open>Storing the sum of a block whose sum field is zero makes the block sum to zero.\<close>

lemma put16_bytes: "put16 b (2 * k) v = b[2 * k := word_of_int v, 2 * k + 1 := word_of_int (v div 256)]"
  by (simp add: put16_def)

lemma xor16_stored:
  assumes "2 * k + 1 < length b" and "b ! (2 * k) = 0" and "b ! (2 * k + 1) = 0"
  shows "xor16 (put16 b (2 * k) (uint (xor16 b acc))) acc = 0"
proof -
  have "xor16 (put16 b (2 * k) (uint (xor16 b acc))) acc = xor16 b acc XOR word16 0 0 XOR xor16 b acc"
    unfolding put16_bytes using xor16_update [OF assms(1), of "word_of_int (uint (xor16 b acc))" _ acc] assms(2,3)
    by (simp only: word16_bytes)
  then show ?thesis by (simp add: word16_def xor.commute)
qed

lemma put16_take: "i + 1 < n \<Longrightarrow> take n (put16 b i v) = put16 (take n b) i v"
  by (simp add: put16_def take_update_swap)

lemma put16_drop: "drop i (put16 b i v) = put16 (drop i b) 0 v"
  by (simp add: put16_def drop_update_swap)

lemma put16_zero: "i + 1 < length b \<Longrightarrow> put16 b i 0 ! i = 0 \<and> put16 b i 0 ! (i + 1) = 0"
  by (simp add: put16_def)

lemma set_checksum_ok:
  assumes "140 \<le> length lab"
  shows "dkcksum (set_checksum lab) = 0 \<and> length (set_checksum lab) = length lab \<and>
    (\<forall>i. 139 < i \<longrightarrow> get16 (set_checksum lab) i = get16 lab i) \<and> (\<forall>i. 139 < i \<longrightarrow> get32 (set_checksum lab) i = get32 lab i)"
proof -
  define l1 where "l1 = put16 lab d_checksum 0"
  define n where "n = 148 + 16 * nat (get16 lab d_npartitions)"
  define l2 where "l2 = put16 l1 d_checksum (uint (dkcksum l1))"
  have np: "get16 (put16 l d_checksum v) d_npartitions = get16 l d_npartitions" for l v
    by (simp add: get16_put16_other d_checksum_def d_npartitions_def)
  have sums: "dkcksum l1 = xor16 (take n l1) 0" "dkcksum l2 = xor16 (take n l2) 0"
    by (simp_all add: dkcksum_def l2_def l1_def np n_def)
  have n: "148 \<le> n" by (simp add: n_def)
  have t: "take n l2 = put16 (take n l1) (2 * 68) (uint (xor16 (take n l1) 0))"
    unfolding l2_def sums(1) using n by (simp add: put16_take d_checksum_def)
  have len: "length l1 = length lab" by (simp add: l1_def)
  have "take n l1 ! (2 * 68) = 0" "take n l1 ! (2 * 68 + 1) = 0"
    using put16_zero [of 136 lab] assms n len by (simp_all add: l1_def d_checksum_def)
  then have "dkcksum l2 = 0"
    unfolding sums(2) t using n assms len by (intro xor16_stored) simp_all
  moreover have "set_checksum lab = l2" by (simp add: set_checksum_def l2_def l1_def Let_def)
  ultimately show ?thesis
    by (simp add: l2_def l1_def d_checksum_def get16_put16_other get32_def)
qed

lemma reloc_lilocksum_ok:
  assumes "reloc_lilocksum b off sz = Some b1"
  shows "lilocksum (drop (off - IDTAB_S_SIZE) b1) LILO_CKSUM = 0 \<and> length b1 = length b \<and>
    (\<forall>i. i \<noteq> off - IDTAB_S_SIZE \<and> i \<noteq> off - IDTAB_S_SIZE + 1 \<longrightarrow> b1 ! i = b ! i)"
proof -
  define i where "i = off - IDTAB_S_SIZE"
  define b0 where "b0 = put16 b i 0"
  have room: "i + IDESC_S_SIZE \<le> length b" and b1: "b1 = put16 b0 i (uint (lilocksum (drop i b0) LILO_CKSUM))"
    using assms by (auto simp: reloc_lilocksum_def i_def b0_def Let_def split: if_splits)
  define t where "t = take IDESC_S_SIZE (drop i b0)"
  have t: "2 * 0 + 1 < length t" "t ! (2 * 0) = 0" "t ! (2 * 0 + 1) = 0"
    using room put16_zero [of i b] by (simp_all add: t_def b0_def IDESC_S_SIZE_def)
  have "take IDESC_S_SIZE (drop i b1) = put16 t (2 * 0) (uint (xor16 t LILO_CKSUM))"
    unfolding b1 put16_drop t_def lilocksum_def by (simp add: put16_take IDESC_S_SIZE_def)
  then have "lilocksum (drop i b1) LILO_CKSUM = 0" using xor16_stored [OF t, of LILO_CKSUM] by (simp add: lilocksum_def)
  then show ?thesis by (simp add: i_def [symmetric] b1 b0_def put16_def)
qed

section \<open>Sector addresses\<close>

text \<open>The sectors that the addressing mode of a device byte can express.\<close>

definition addressable :: "byte \<Rightarrow> 32 word \<Rightarrow> bool" where
  "addressable device w \<longleftrightarrow> devflags device \<noteq> 0 \<and>
     (devflags device AND LINEAR_ADDR = 0 \<and> devflags device AND LBA32_NOCOUNT \<noteq> 0 \<or> drop_bit 24 w = 0)"

lemma low_bytes:
  "push_bit 16 (ucast (ucast (drop_bit 16 w) :: byte)) OR push_bit 8 (ucast (ucast (drop_bit 8 w) :: byte)) OR ucast (ucast w :: byte) =
    take_bit 24 (w :: 32 word)"
proof (rule bit_word_eqI)
  fix n assume n: "n < LENGTH(32)"
  consider "n < 8" | "8 \<le> n \<and> n < 16" | "16 \<le> n \<and> n < 24" | "24 \<le> n" by linarith
  then show "bit (push_bit 16 (ucast (ucast (drop_bit 16 w) :: byte)) OR push_bit 8 (ucast (ucast (drop_bit 8 w) :: byte)) OR
      ucast (ucast w :: byte) :: 32 word) n = bit (take_bit 24 w) n"
    using n by cases (auto simp: bit_simps)
qed

lemma all_bytes: "push_bit 24 (ucast (ucast (drop_bit 24 w) :: byte)) OR take_bit 24 w = (w :: 32 word)"
proof (rule bit_word_eqI)
  fix n assume n: "n < LENGTH(32)"
  then show "bit (push_bit 24 (ucast (ucast (drop_bit 24 w) :: byte)) OR take_bit 24 w :: 32 word) n = bit w n"
    by (cases "n < 24") (auto simp: bit_simps)
qed

lemma take_all_bits: "drop_bit 24 w = 0 \<Longrightarrow> take_bit 24 w = (w :: 32 word)"
  using bits_ident [of 24 w] by simp

lemma getsector_putsector:
  assumes "addressable device w"
  shows "getsector (putsector w device nsect) = w \<and> sa_device (putsector w device nsect) = device"
proof -
  have dev: "device \<noteq> 0" "devflags device \<noteq> 0" using assms by (auto simp: addressable_def devflags_def)
  show ?thesis
  proof (cases "devflags device AND LINEAR_ADDR = 0 \<and> devflags device AND LBA32_NOCOUNT \<noteq> 0")
    case True
    then show ?thesis using dev by (simp add: getsector_def putsector_def Let_def low_bytes all_bytes)
  next
    case False
    then have "drop_bit 24 w = 0" using assms by (auto simp: addressable_def)
    then show ?thesis using dev False by (auto simp: getsector_def putsector_def Let_def low_bytes take_all_bits)
  qed
qed

section \<open>Tables of sector addresses\<close>

lemma patch_nth:
  assumes "i + length new \<le> length b" and "k < length b"
  shows "length (patch b i new) = length b \<and> patch b i new ! k = (if i \<le> k \<and> k < i + length new then new ! (k - i) else b ! k)"
  using assms by (auto simp: patch_def nth_append min_def)

lemma sa_at_patch:
  assumes "i * 5 + 5 \<le> length b" and "j * 5 + 5 \<le> length b"
  shows "sa_at (patch b (i * 5) (sa_bytes sa)) (j * 5) = (if i = j then sa else sa_at b (j * 5))"
proof -
  have len: "length (sa_bytes sa) = 5" by (simp add: sa_bytes_def)
  have nth: "patch b (i * 5) (sa_bytes sa) ! (j * 5 + d) = (if i = j then sa_bytes sa ! d else b ! (j * 5 + d))" if "d < 5" for d
  proof -
    have "i * 5 \<le> j * 5 + d \<and> j * 5 + d < i * 5 + 5 \<longleftrightarrow> i = j" using that by auto
    then show ?thesis using patch_nth [of "i * 5" "sa_bytes sa" b "j * 5 + d"] assms that len by auto
  qed
  show ?thesis
    using nth [of 0] nth [of 1] nth [of 2] nth [of 3] nth [of 4] by (auto simp: sa_at_def sa_bytes_def)
qed

lemma patch_len: "i * 5 + 5 \<le> length b \<Longrightarrow> length (patch b (i * 5) (sa_bytes sa)) = length b"
  by (simp add: patch_def sa_bytes_def)

text \<open>An address moved by a number of sectors, and the entries of a table before the first that is zero.\<close>

definition moved :: "32 word \<Rightarrow> sectaddr \<Rightarrow> sectaddr" where
  "moved d sa = putsector (getsector sa + d) (sa_device sa) (sa_nsect sa)"

definition live :: "nat \<Rightarrow> byte list \<Rightarrow> nat \<Rightarrow> bool" where
  "live i m j \<longleftrightarrow> i \<le> j \<and> (\<forall>k \<in> {i..j}. getsector (sa_at m (k * 5)) \<noteq> 0)"

lemma live_step:
  assumes "getsector (sa_at m (i * 5)) \<noteq> 0"
  shows "live i m j \<longleftrightarrow> j = i \<or> live (Suc i) m j"
proof -
  have "{i..j} = insert i {Suc i..j}" if "i \<le> j" using that by auto
  then show ?thesis using assms by (auto simp: live_def)
qed

lemma live_patch:
  assumes "(i * 5) + 5 \<le> length m" and "j * 5 + 5 \<le> length m"
  shows "live (Suc i) (patch m (i * 5) (sa_bytes sa)) j \<longleftrightarrow> live (Suc i) m j"
proof -
  have "sa_at (patch m (i * 5) (sa_bytes sa)) (k * 5) = sa_at m (k * 5)" if "k \<in> {Suc i..j}" for k
    using sa_at_patch [of i m k sa] assms that by auto
  then show ?thesis by (auto simp: live_def)
qed

lemma map_addrs_at:
  assumes "(i + n) * 5 \<le> length m"
  shows "length (fst (map_addrs p i n a m)) = length m \<and>
    (\<forall>j. j * 5 + 5 \<le> length m \<longrightarrow>
      sa_at (fst (map_addrs p i n a m)) (j * 5) = (if live i m j \<and> j < i + n then moved (- word_of_int p) (sa_at m (j * 5)) else sa_at m (j * 5)))"
  using assms
proof (induction n arbitrary: i a m)
  case (Suc n)
  define sa where "sa = sa_at m (i * 5)"
  define m1 where "m1 = patch m (i * 5) (sa_bytes (putsector (getsector sa - word_of_int p) (sa_device sa) (sa_nsect sa)))"
  show ?case
  proof (cases "getsector sa = 0")
    case True
    then have "\<not> live i m j" for j by (auto simp: live_def sa_def)
    then show ?thesis using True by (simp add: SADDR_S_SIZE_def sa_def [symmetric] Let_def)
  next
    case False
    have run: "map_addrs p i (Suc n) a m = map_addrs p (Suc i) n (getsector sa) m1"
      using False by (simp add: SADDR_S_SIZE_def sa_def [symmetric] m1_def Let_def)
    have room: "i * 5 + 5 \<le> length m" "length m1 = length m" "(Suc i + n) * 5 \<le> length m1"
      using Suc.prems(1) patch_len [of i m] by (simp_all add: m1_def)
    have IH: "length (fst (map_addrs p (Suc i) n (getsector sa) m1)) = length m1"
      "\<And>j. j * 5 + 5 \<le> length m1 \<Longrightarrow> sa_at (fst (map_addrs p (Suc i) n (getsector sa) m1)) (j * 5) =
        (if live (Suc i) m1 j \<and> j < Suc i + n then moved (- word_of_int p) (sa_at m1 (j * 5)) else sa_at m1 (j * 5))"
      using Suc.IH [OF room(3)] by blast+
    have at: "sa_at m1 (j * 5) = (if i = j then moved (- word_of_int p) sa else sa_at m (j * 5))" if "j * 5 + 5 \<le> length m" for j
      using sa_at_patch [OF room(1) that] by (simp add: m1_def moved_def)
    have lv: "live (Suc i) m1 j \<longleftrightarrow> live (Suc i) m j" if "j * 5 + 5 \<le> length m" for j
      using live_patch [OF room(1) that] by (simp add: m1_def)
    have "\<not> live (Suc i) m i" by (simp add: live_def)
    then show ?thesis unfolding run
      using IH at lv live_step [of m i] False room(2) by (auto simp: sa_def [symmetric])
  qed
qed (auto simp: live_def)

lemma reloc_addrs_at:
  assumes "(i + n) * 5 \<le> length m"
    and "\<forall>j. live i m j \<and> j < i + n \<longrightarrow> outputmaxsec sb = 0 \<or> uint (getsector (sa_at m (j * 5)) + word_of_int (outputminsec sb)) \<le> outputmaxsec sb"
  shows "\<exists>m2. reloc_addrs sb i n m = Some m2 \<and> length m2 = length m \<and>
    (\<forall>j. j * 5 + 5 \<le> length m \<longrightarrow>
      sa_at m2 (j * 5) = (if live i m j \<and> j < i + n then moved (word_of_int (outputminsec sb)) (sa_at m (j * 5)) else sa_at m (j * 5)))"
  using assms
proof (induction n arbitrary: i m)
  case (Suc n)
  define sa where "sa = sa_at m (i * 5)"
  define m1 where "m1 = patch m (i * 5) (sa_bytes (moved (word_of_int (outputminsec sb)) sa))"
  show ?case
  proof (cases "getsector sa = 0")
    case True
    then have "\<not> live i m j" for j by (auto simp: live_def sa_def)
    then show ?thesis using True by (simp add: SADDR_S_SIZE_def sa_def [symmetric] Let_def)
  next
    case False
    have room: "i * 5 + 5 \<le> length m" "length m1 = length m" "(Suc i + n) * 5 \<le> length m1"
      using Suc.prems(1) patch_len [of i m] by (simp_all add: m1_def)
    have at: "sa_at m1 (j * 5) = (if i = j then moved (word_of_int (outputminsec sb)) sa else sa_at m (j * 5))" if "j * 5 + 5 \<le> length m" for j
      using sa_at_patch [OF room(1) that] by (simp add: m1_def)
    have lv: "live (Suc i) m1 j \<longleftrightarrow> live (Suc i) m j" if "j * 5 + 5 \<le> length m" for j
      using live_patch [OF room(1) that] by (simp add: m1_def)
    have self: "live i m i" using False by (simp add: live_def sa_def)
    then have "outputmaxsec sb = 0 \<or> uint (getsector sa + word_of_int (outputminsec sb)) \<le> outputmaxsec sb"
      using Suc.prems(2) by (auto simp: sa_def)
    then have run: "reloc_addrs sb i (Suc n) m = reloc_addrs sb (Suc i) n m1"
      using False by (auto simp: SADDR_S_SIZE_def sa_def [symmetric] m1_def moved_def Let_def)
    have "\<forall>j. live (Suc i) m1 j \<and> j < Suc i + n \<longrightarrow>
        outputmaxsec sb = 0 \<or> uint (getsector (sa_at m1 (j * 5)) + word_of_int (outputminsec sb)) \<le> outputmaxsec sb"
    proof (intro allI impI)
      fix j assume j: "live (Suc i) m1 j \<and> j < Suc i + n"
      then have "j * 5 + 5 \<le> length m" "i \<noteq> j" using room(2,3) by (auto simp: live_def)
      then show "outputmaxsec sb = 0 \<or> uint (getsector (sa_at m1 (j * 5)) + word_of_int (outputminsec sb)) \<le> outputmaxsec sb"
        using Suc.prems(2) j lv [of j] at [of j] live_step [of m i j] False by (auto simp: sa_def)
    qed
    from Suc.IH [OF room(3) this] obtain m2 where IH: "reloc_addrs sb (Suc i) n m1 = Some m2" "length m2 = length m1"
      "\<And>j. j * 5 + 5 \<le> length m1 \<Longrightarrow> sa_at m2 (j * 5) =
        (if live (Suc i) m1 j \<and> j < Suc i + n then moved (word_of_int (outputminsec sb)) (sa_at m1 (j * 5)) else sa_at m1 (j * 5))"
      by blast
    have "\<not> live (Suc i) m i" by (simp add: live_def)
    then show ?thesis unfolding run
      using IH at lv live_step [of m i] False room(2) by (auto simp: sa_def [symmetric])
  qed
qed (auto simp: live_def)

section \<open>Partition tables\<close>

text \<open>What becomes of the place and the size of a partition that is relocated.\<close>

definition new_offset :: "'x slice_bounds_scheme \<Rightarrow> nat \<Rightarrow> byte list \<Rightarrow> int" where
  "new_offset sb i lab = to_u32 (get32 lab (p_offset i) + outputminsec sb)"

definition new_size :: "'x slice_bounds_scheme \<Rightarrow> nat \<Rightarrow> byte list \<Rightarrow> int" where
  "new_size sb i lab =
     (let off = new_offset sb i lab; sz = get32 lab (p_size i) in
      if to_u32 (off + sz) > outputmaxsec sb then to_u32 (outputmaxsec sb - off)
      else if i = RAW_PART then bytestosec (outputmaxsize sb) else sz)"

definition same_part :: "nat \<Rightarrow> byte list \<Rightarrow> byte list \<Rightarrow> bool" where
  "same_part j lab lab' \<longleftrightarrow> get32 lab' (p_offset j) = get32 lab (p_offset j) \<and> get32 lab' (p_size j) = get32 lab (p_size j)"

lemma put_offset:
  assumes "p_offset i + 3 < length lab"
  shows "get32 (put32 lab (p_offset i) v) (p_offset i) = to_u32 v" "get32 (put32 lab (p_offset i) v) (p_size j) = get32 lab (p_size j)"
    "j \<noteq> i \<Longrightarrow> get32 (put32 lab (p_offset i) v) (p_offset j) = get32 lab (p_offset j)"
    "get16 (put32 lab (p_offset i) v) d_npartitions = get16 lab d_npartitions"
proof -
  have "p_offset i + 3 < p_size j \<or> p_size j + 3 < p_offset i" by (simp add: p_offset_def p_size_def, presburger)
  then show "get32 (put32 lab (p_offset i) v) (p_size j) = get32 lab (p_size j)" by (rule get32_put32_other)
qed (use assms in \<open>auto intro!: get32_put32 get32_put32_other get16_put32_other simp: p_offset_def p_size_def d_npartitions_def\<close>)

lemma put_size:
  assumes "p_size i + 3 < length lab"
  shows "get32 (put32 lab (p_size i) v) (p_size i) = to_u32 v" "get32 (put32 lab (p_size i) v) (p_offset j) = get32 lab (p_offset j)"
    "j \<noteq> i \<Longrightarrow> get32 (put32 lab (p_size i) v) (p_size j) = get32 lab (p_size j)"
    "get16 (put32 lab (p_size i) v) d_npartitions = get16 lab d_npartitions"
proof -
  have "p_size i + 3 < p_offset j \<or> p_offset j + 3 < p_size i" by (simp add: p_offset_def p_size_def, presburger)
  then show "get32 (put32 lab (p_size i) v) (p_offset j) = get32 lab (p_offset j)" by (rule get32_put32_other)
qed (use assms in \<open>auto intro!: get32_put32 get32_put32_other get16_put32_other simp: p_offset_def p_size_def d_npartitions_def\<close>)

lemma to_u32_idem [simp]: "to_u32 (to_u32 x) = to_u32 x"
  by (simp add: to_u32_def)

lemma relabel_part_ok:
  assumes "p_offset i + 3 < length lab" and "i = RAW_PART \<longrightarrow> get32 lab (p_offset i) = 0" and "0 \<le> outputminsec sb" and "outputminsec sb < 2 ^ 32"
  shows "\<exists>l. relabel_part sb i lab = Some l \<and> length l = length lab \<and> get16 l d_npartitions = get16 lab d_npartitions \<and>
    get32 l (p_offset i) = new_offset sb i lab \<and> get32 l (p_size i) = new_size sb i lab \<and> (\<forall>j. j \<noteq> i \<longrightarrow> same_part j lab l)"
proof -
  define l1 where "l1 = put32 lab (p_offset i) (to_u32 (get32 lab (p_offset i) + outputminsec sb))"
  have l1: "get32 l1 (p_offset i) = new_offset sb i lab" "get32 l1 (p_size i) = get32 lab (p_size i)" "length l1 = length lab"
    "get16 l1 d_npartitions = get16 lab d_npartitions" "\<forall>j. j \<noteq> i \<longrightarrow> same_part j lab l1"
    using put_offset [OF assms(1)] by (simp_all add: l1_def new_offset_def same_part_def)
  have room: "p_size i + 3 < length l1" using assms(1) l1(3) by (simp add: p_offset_def p_size_def)
  have sized: "length (put32 l1 (p_size i) v) = length lab \<and> get16 (put32 l1 (p_size i) v) d_npartitions = get16 lab d_npartitions \<and>
      get32 (put32 l1 (p_size i) v) (p_offset i) = new_offset sb i lab \<and> get32 (put32 l1 (p_size i) v) (p_size i) = to_u32 v \<and>
      (\<forall>j. j \<noteq> i \<longrightarrow> same_part j lab (put32 l1 (p_size i) v))" for v
    using put_size [OF room] l1 by (simp add: same_part_def)
  have start: "i = RAW_PART \<longrightarrow> new_offset sb i lab = outputminsec sb"
    using assms(2-4) by (simp add: new_offset_def to_u32_id)
  have b: "to_u32 (bytestosec x) = bytestosec x" for x by (simp add: bytestosec_def)
  have run: "relabel_part sb i lab =
      (if to_u32 (new_offset sb i lab + get32 lab (p_size i)) > outputmaxsec sb
       then Some (put32 l1 (p_size i) (to_u32 (outputmaxsec sb - new_offset sb i lab)))
       else if i = RAW_PART \<and> get32 lab (p_size i) \<noteq> bytestosec (outputmaxsize sb)
       then Option.bind (c_assert (new_offset sb i lab = outputminsec sb)) (\<lambda>_. Some (put32 l1 (p_size i) (bytestosec (outputmaxsize sb))))
       else Some l1)"
    by (simp only: relabel_part_def Let_def l1_def [symmetric] l1(1,2))
  note defs = run new_size_def Let_def
  consider (cut) "to_u32 (new_offset sb i lab + get32 lab (p_size i)) > outputmaxsec sb"
    | (raw) "\<not> to_u32 (new_offset sb i lab + get32 lab (p_size i)) > outputmaxsec sb" "i = RAW_PART" "get32 lab (p_size i) \<noteq> bytestosec (outputmaxsize sb)"
    | (keep) "\<not> to_u32 (new_offset sb i lab + get32 lab (p_size i)) > outputmaxsec sb" "i = RAW_PART \<longrightarrow> get32 lab (p_size i) = bytestosec (outputmaxsize sb)"
    by blast
  then show ?thesis
  proof cases
    case cut
    then show ?thesis using sized [of "to_u32 (outputmaxsec sb - new_offset sb i lab)"]
      by (intro exI [of _ "put32 l1 (p_size i) (to_u32 (outputmaxsec sb - new_offset sb i lab))"]) (simp add: defs)
  next
    case raw
    have "relabel_part sb i lab = Some (put32 l1 (p_size i) (bytestosec (outputmaxsize sb)))" unfolding run using raw start by auto
    moreover have "new_size sb i lab = bytestosec (outputmaxsize sb)" using raw by (simp add: new_size_def Let_def)
    ultimately show ?thesis using sized [of "bytestosec (outputmaxsize sb)"] b by auto
  next
    case keep
    then show ?thesis using l1 by (intro exI [of _ l1]) (auto simp: defs)
  qed
qed

definition moved_part :: "'x slice_bounds_scheme \<Rightarrow> bool \<Rightarrow> nat \<Rightarrow> byte list \<Rightarrow> byte list \<Rightarrow> bool" where
  "moved_part sb openbsd i lab lab' \<longleftrightarrow>
     (if skipped_part openbsd i lab then same_part i lab lab'
      else get32 lab' (p_offset i) = new_offset sb i lab \<and> get32 lab' (p_size i) = new_size sb i lab)"

lemma same_part_values:
  assumes "same_part j lab lab1"
  shows "skipped_part ob j lab1 = skipped_part ob j lab" "new_offset sb j lab1 = new_offset sb j lab" "new_size sb j lab1 = new_size sb j lab"
    "same_part j lab1 l = same_part j lab l" "moved_part sb ob j lab1 l = moved_part sb ob j lab l"
  using assms by (simp_all add: same_part_def skipped_part_def new_offset_def new_size_def moved_part_def Let_def cong: if_cong)

lemma relabel_parts_ok:
  assumes "148 + 16 * (i + n) \<le> length lab" and "RAW_PART < i + n \<longrightarrow> skipped_part ob RAW_PART lab \<or> get32 lab (p_offset RAW_PART) = 0 \<or> RAW_PART < i"
    and "0 \<le> outputminsec sb" and "outputminsec sb < 2 ^ 32"
  shows "\<exists>l. relabel_parts sb ob i n lab = Some l \<and> length l = length lab \<and> get16 l d_npartitions = get16 lab d_npartitions \<and>
    (\<forall>j. if i \<le> j \<and> j < i + n then moved_part sb ob j lab l else same_part j lab l)"
  using assms(1,2)
proof (induction n arbitrary: i lab)
  case (Suc n)
  show ?case
  proof (cases "skipped_part ob i lab")
    case True
    from Suc.IH [of "Suc i" lab] Suc.prems True
    obtain l where l: "relabel_parts sb ob (Suc i) n lab = Some l" "length l = length lab" "get16 l d_npartitions = get16 lab d_npartitions"
      "\<And>j. if Suc i \<le> j \<and> j < Suc i + n then moved_part sb ob j lab l else same_part j lab l" by (auto simp: less_Suc_eq)
    have "moved_part sb ob i lab l" using l(4) [of i] True by (simp add: moved_part_def)
    then have "if i \<le> j \<and> j < i + Suc n then moved_part sb ob j lab l else same_part j lab l" for j
      using l(4) [of j] by (cases "j = i") (auto simp: Suc_le_eq split: if_splits)
    then show ?thesis using l(1-3) True by simp
  next
    case False
    have "p_offset i + 3 < length lab" using Suc.prems(1) by (simp add: p_offset_def)
    moreover have "i = RAW_PART \<longrightarrow> get32 lab (p_offset i) = 0" using Suc.prems(2) False by auto
    ultimately obtain l1 where l1: "relabel_part sb i lab = Some l1" "length l1 = length lab" "get16 l1 d_npartitions = get16 lab d_npartitions"
      "get32 l1 (p_offset i) = new_offset sb i lab" "get32 l1 (p_size i) = new_size sb i lab" "\<And>j. j \<noteq> i \<Longrightarrow> same_part j lab l1"
      using relabel_part_ok [of i lab sb] assms(3,4) by blast
    have "RAW_PART < Suc i + n \<longrightarrow> skipped_part ob RAW_PART l1 \<or> get32 l1 (p_offset RAW_PART) = 0 \<or> RAW_PART < Suc i"
      using Suc.prems(2) l1(6) [of RAW_PART] same_part_values(1) [of RAW_PART lab l1 ob] False by (auto simp: same_part_def)
    from Suc.IH [OF _ this] Suc.prems(1) l1(2)
    obtain l where l: "relabel_parts sb ob (Suc i) n l1 = Some l" "length l = length l1" "get16 l d_npartitions = get16 l1 d_npartitions"
      "\<And>j. if Suc i \<le> j \<and> j < Suc i + n then moved_part sb ob j l1 l else same_part j l1 l" by auto
    have "if i \<le> j \<and> j < i + Suc n then moved_part sb ob j lab l else same_part j lab l" for j
    proof (cases "j = i")
      case True
      then show ?thesis using l(4) [of i] l1(4,5) False by (simp add: moved_part_def same_part_def)
    next
      case False
      then show ?thesis using l(4) [of j] same_part_values(4) [OF l1(6) [OF False]] same_part_values(5) [OF l1(6) [OF False], of sb]
        by (auto simp: Suc_le_eq split: if_splits)
    qed
    then show ?thesis using l(1-3) l1(1-3) False by simp
  qed
qed (auto simp: same_part_def)

section \<open>Properties\<close>

text \<open>
  C25. The addresses of a LILO map sector, saved from a partition and restored to another. An entry before the end of the
  table comes back as the same sector of the new partition, for every addressing mode in which both the relative
  and the new number fit. But an entry that points at the first sector of its partition is saved as zero, which the
  restoring side takes for the end of the table: it and all entries behind it keep their relative numbers.
\<close>

theorem lilo_map_relocated:
  assumes "length m = 512" and "d = word_of_int (outputminsec sb)" and "p = word_of_int partoff"
    and "\<forall>j \<le> MAX_MAP_SECT. live 0 m j \<longrightarrow> addressable (sa_device (sa_at m (j * 5))) (getsector (sa_at m (j * 5)) - p) \<and>
      addressable (sa_device (sa_at m (j * 5))) (getsector (sa_at m (j * 5)) - p + d) \<and>
      (outputmaxsec sb = 0 \<or> uint (getsector (sa_at m (j * 5)) - p + d) \<le> outputmaxsec sb)"
  shows "\<exists>m2. reloc_lilo sb RELOC_LILOMAPSECT 512 (fst (map_addrs partoff 0 (MAX_MAP_SECT + 1) 0 m)) = Some m2 \<and> length m2 = 512 \<and>
    (\<forall>j \<le> MAX_MAP_SECT. sa_device (sa_at m2 (j * 5)) = sa_device (sa_at m (j * 5)) \<and>
      getsector (sa_at m2 (j * 5)) =
        (if \<not> live 0 m j then getsector (sa_at m (j * 5))
         else if \<forall>k \<le> j. getsector (sa_at m (k * 5)) \<noteq> p then getsector (sa_at m (j * 5)) - p + d
         else getsector (sa_at m (j * 5)) - p))"
proof -
  define m1 where "m1 = fst (map_addrs partoff 0 (MAX_MAP_SECT + 1) 0 m)"
  have m1: "length m1 = 512" "\<And>j. j \<le> MAX_MAP_SECT \<Longrightarrow>
      sa_at m1 (j * 5) = (if live 0 m j then moved (- p) (sa_at m (j * 5)) else sa_at m (j * 5))"
    using map_addrs_at [of 0 "MAX_MAP_SECT + 1" m partoff 0] assms(1) by (simp_all add: m1_def MAX_MAP_SECT_def assms(3))
  have put: "getsector (moved (- p) (sa_at m (j * 5))) = getsector (sa_at m (j * 5)) - p \<and>
      sa_device (moved (- p) (sa_at m (j * 5))) = sa_device (sa_at m (j * 5))" if "j \<le> MAX_MAP_SECT" "live 0 m j" for j
    using assms(4) that getsector_putsector by (simp add: moved_def)
  have sub: "live 0 m k" if "live 0 m j" "k \<le> j" for j k using that by (auto simp: live_def)
  have lv: "live 0 m1 j \<longleftrightarrow> live 0 m j \<and> (\<forall>k \<le> j. getsector (sa_at m (k * 5)) \<noteq> p)" if j: "j \<le> MAX_MAP_SECT" for j
  proof -
    have one: "getsector (sa_at m1 (k * 5)) \<noteq> 0 \<longleftrightarrow> getsector (sa_at m (k * 5)) \<noteq> 0 \<and> (live 0 m k \<longrightarrow> getsector (sa_at m (k * 5)) \<noteq> p)"
      if "k \<le> j" for k
      using m1(2) [of k] put [of k] that j by (auto simp: live_def)
    show ?thesis
    proof
      assume l: "live 0 m1 j"
      then have "live 0 m j" using one by (auto simp: live_def)
      then show "live 0 m j \<and> (\<forall>k \<le> j. getsector (sa_at m (k * 5)) \<noteq> p)" using l one sub by (auto simp: live_def)
    next
      assume "live 0 m j \<and> (\<forall>k \<le> j. getsector (sa_at m (k * 5)) \<noteq> p)"
      then show "live 0 m1 j" using one by (auto simp: live_def)
    qed
  qed
  have "\<forall>j. live 0 m1 j \<and> j < 0 + (MAX_MAP_SECT + 1) \<longrightarrow>
      outputmaxsec sb = 0 \<or> uint (getsector (sa_at m1 (j * 5)) + word_of_int (outputminsec sb)) \<le> outputmaxsec sb"
    using assms(4) lv m1(2) put by (auto simp: assms(2) [symmetric])
  from reloc_addrs_at [OF _ this] m1(1)
  obtain m2 where m2: "reloc_addrs sb 0 (MAX_MAP_SECT + 1) m1 = Some m2" "length m2 = 512"
    "\<And>j. j \<le> MAX_MAP_SECT \<Longrightarrow> sa_at m2 (j * 5) = (if live 0 m1 j then moved d (sa_at m1 (j * 5)) else sa_at m1 (j * 5))"
    by (auto simp: MAX_MAP_SECT_def assms(2))
  have "reloc_lilo sb RELOC_LILOMAPSECT 512 m1 = Some m2"
    using m2(1) by (simp add: reloc_lilo_def RELOC_LILOSADDR_def RELOC_LILOMAPSECT_def)
  moreover have "sa_device (sa_at m2 (j * 5)) = sa_device (sa_at m (j * 5)) \<and>
      getsector (sa_at m2 (j * 5)) =
        (if \<not> live 0 m j then getsector (sa_at m (j * 5))
         else if \<forall>k \<le> j. getsector (sa_at m (k * 5)) \<noteq> p then getsector (sa_at m (j * 5)) - p + d
         else getsector (sa_at m (j * 5)) - p)" if j: "j \<le> MAX_MAP_SECT" for j
  proof (cases "live 0 m1 j")
    case True
    then have l: "live 0 m j" "\<forall>k \<le> j. getsector (sa_at m (k * 5)) \<noteq> p" using lv [OF j] by simp_all
    have "addressable (sa_device (sa_at m (j * 5))) (getsector (sa_at m (j * 5)) - p + d)" using assms(4) j l(1) by simp
    then show ?thesis using True l m2(3) [OF j] m1(2) [OF j] put [OF j l(1)] getsector_putsector by (simp add: moved_def [of d])
  next
    case False
    then show ?thesis using m2(3) [OF j] m1(2) [OF j] put [OF j] lv [OF j] by auto
  qed
  ultimately show ?thesis using m2(2) unfolding m1_def by blast
qed

text \<open>
  C24. A BSD label that is restored to a slice. When the magic numbers are right, the partition table lies in the buffer and
  the partition that stands for the whole slice starts at its beginning, the relocation returns; the checksum of
  the new label is right, every partition that is not left alone starts at its old place in the new slice, its size is
  cut when it reaches behind the end of the slice, and the others are as before.
\<close>

theorem bsdlabel_relocated:
  assumes "slice sb \<noteq> 0" and "get32 lab d_magic = DISKMAGIC" and "get32 lab d_magic2 = DISKMAGIC" and "0 < outputmaxsize sb"
    and "npart = nat (get16 lab d_npartitions)" and "148 + 16 * npart \<le> length lab" and "0 \<le> outputminsec sb" and "outputminsec sb < 2 ^ 32"
    and "ob = (reloctype = RELOC_OBSDDISKLABEL)"
    and "RAW_PART < npart \<longrightarrow> skipped_part ob RAW_PART lab \<or> get32 lab (p_offset RAW_PART) = 0"
  shows "\<exists>l. reloc_bsdlabel sb reloctype lab = Some l \<and> dkcksum l = 0 \<and> length l = length lab \<and>
    (\<forall>j. if j < npart then moved_part sb ob j lab l else same_part j lab l)"
proof -
  obtain l1 where l1: "relabel_parts sb ob 0 npart lab = Some l1" "length l1 = length lab"
    "\<And>j. if j < npart then moved_part sb ob j lab l1 else same_part j lab l1"
    using relabel_parts_ok [of 0 npart lab ob sb] assms(6-8,10) by auto
  have "140 \<le> length l1" using assms(6) l1(2) by simp
  note cs = set_checksum_ok [OF this]
  then have same: "same_part j l1 (set_checksum l1)" for j by (simp add: same_part_def p_offset_def p_size_def)
  have "reloc_bsdlabel sb reloctype lab = Some (set_checksum l1)"
    using assms(1-4,6) l1(1) by (simp add: reloc_bsdlabel_def Let_def assms(5,9) [symmetric])
  moreover have "if j < npart then moved_part sb ob j lab (set_checksum l1) else same_part j lab (set_checksum l1)" for j
    using l1(3) [of j] same [of j] by (auto simp: moved_part_def same_part_def split: if_splits)
  ultimately show ?thesis using cs l1(2) by (intro exI [of _ "set_checksum l1"]) simp
qed

text \<open>
  The size that the relocation gives to a partition. One that starts inside the slice ends inside it. One that starts
  behind its end, as when the slice is smaller than the one that was saved, gets the difference as an unsigned number: a
  size near 2 to the power of 32.
\<close>

theorem bsdlabel_size:
  assumes "0 \<le> outputmaxsec sb" and "outputmaxsec sb < 2 ^ 32" and "new_offset sb j lab + get32 lab (p_size j) < 2 ^ 32" and "j \<noteq> RAW_PART"
    and "0 < get32 lab (p_size j)"
  shows "if new_offset sb j lab \<le> outputmaxsec sb
    then new_offset sb j lab + new_size sb j lab = min (new_offset sb j lab + get32 lab (p_size j)) (outputmaxsec sb)
    else new_size sb j lab = 2 ^ 32 - (new_offset sb j lab - outputmaxsec sb)"
proof -
  define off where "off = new_offset sb j lab"
  define sz where "sz = get32 lab (p_size j)"
  have r: "0 \<le> off" "0 < sz" "off + sz < 2 ^ 32"
    using assms(3,5) by (simp_all add: off_def sz_def new_offset_def to_u32_def)
  have size: "new_size sb j lab = (if off + sz > outputmaxsec sb then to_u32 (outputmaxsec sb - off) else sz)"
    using assms(4) r to_u32_id [of "off + sz"] by (simp add: new_size_def off_def [symmetric] sz_def [symmetric] Let_def)
  show ?thesis
  proof (cases "off \<le> outputmaxsec sb")
    case True
    then have "to_u32 (outputmaxsec sb - off) = outputmaxsec sb - off" using r(1) assms(2) by (intro to_u32_id) auto
    then show ?thesis using True size by (simp add: off_def [symmetric] sz_def [symmetric])
  next
    case False
    have "to_u32 (outputmaxsec sb - off) = (outputmaxsec sb - off + 2 ^ 32) mod 2 ^ 32" by (simp add: to_u32_def)
    also have "\<dots> = outputmaxsec sb - off + 2 ^ 32" using False r assms(1) by (intro mod_pos_pos_trivial) auto
    finally show ?thesis using False size r(2) by (simp add: off_def [symmetric])
  qed
qed

definition bounds_example :: slice_bounds where
  "bounds_example = \<lparr>slice = 1, outputminsec = 5000, outputmaxsec = 9000, outputmaxsize = 4000 * 512\<rparr>"

text \<open>A map sector with the sectors 2000, 1000 and 2001, from a partition that starts at 1000.\<close>

definition map_example :: "byte list" where
  "map_example = [0xD0, 0x07, 0xA0, 0, 1, 0xE8, 0x03, 0xA0, 0, 1, 0xD1, 0x07, 0xA0, 0, 1] @ replicate 497 0"

lemma map_example_sectors:
  "getsector (sa_at map_example 0) = 2000" "getsector (sa_at map_example 5) = 1000" "getsector (sa_at map_example 10) = 2001"
  "getsector (sa_at map_example 15) = 0" "sa_device (sa_at map_example 0) = 0xA0" "sa_device (sa_at map_example 5) = 0xA0"
  "sa_device (sa_at map_example 10) = 0xA0" "length map_example = 512"
  by (simp_all add: map_example_def sa_at_def getsector_def devflags_def DEVFLAGS_def HARD_DISK_def LINEAR_ADDR_def LBA32_NOCOUNT_def
      push_bit_eq_mult Let_def nth_append)

lemma map_example_live: "live 0 map_example j \<longleftrightarrow> j < 3"
proof
  assume "live 0 map_example j"
  then have l: "\<forall>k \<in> {0..j}. getsector (sa_at map_example (k * 5)) \<noteq> 0" by (simp add: live_def)
  show "j < 3"
  proof (rule ccontr)
    assume "\<not> j < 3"
    then have "3 \<in> {0..j}" by simp
    from bspec [OF l this] show False using map_example_sectors(4) by simp
  qed
next
  assume j: "j < 3"
  have "k = 0 \<or> k = 1 \<or> k = 2" if "k \<le> j" for k using j that by auto
  then have "getsector (sa_at map_example (k * 5)) \<noteq> 0" if "k \<le> j" for k
    using that map_example_sectors(1-3) by fastforce
  then show "live 0 map_example j" by (simp add: live_def)
qed

lemma adr:
  assumes "uint w < 2 ^ 24"
  shows "addressable 0xA0 w"
proof -
  have "devflags 0xA0 = 0x20" by (simp add: devflags_def DEVFLAGS_def HARD_DISK_def)
  moreover have "drop_bit 24 w = 0"
    unfolding drop_bit_eq_div using assms by (intro div_word_less) (simp add: word_less_def)
  ultimately show ?thesis by (simp add: addressable_def)
qed

theorem lilo_map_relocated_witness:
  "\<exists>m2. reloc_lilo bounds_example RELOC_LILOMAPSECT 512 (fst (map_addrs 1000 0 (MAX_MAP_SECT + 1) 0 map_example)) = Some m2 \<and>
    getsector (sa_at m2 0) = 6000 \<and> getsector (sa_at m2 5) = 0 \<and> getsector (sa_at m2 10) = 1001"
proof -
  have three: "j = 0 \<or> j = 1 \<or> j = 2" if "live 0 map_example j" for j using that map_example_live [of j] by auto
  have addr: "addressable 0xA0 1000" "addressable 0xA0 6000" "addressable 0xA0 0" "addressable 0xA0 5000" "addressable 0xA0 1001" "addressable 0xA0 6001"
    by (rule adr; simp)+
  have hyp: "\<forall>j \<le> MAX_MAP_SECT. live 0 map_example j \<longrightarrow>
      addressable (sa_device (sa_at map_example (j * 5))) (getsector (sa_at map_example (j * 5)) - 1000) \<and>
      addressable (sa_device (sa_at map_example (j * 5))) (getsector (sa_at map_example (j * 5)) - 1000 + 5000) \<and>
      (outputmaxsec bounds_example = 0 \<or> uint (getsector (sa_at map_example (j * 5)) - 1000 + 5000) \<le> outputmaxsec bounds_example)"
  proof (intro allI impI)
    fix j assume "live 0 map_example j"
    then consider "j = 0" | "j = 1" | "j = 2" using three by blast
    then show "addressable (sa_device (sa_at map_example (j * 5))) (getsector (sa_at map_example (j * 5)) - 1000) \<and>
      addressable (sa_device (sa_at map_example (j * 5))) (getsector (sa_at map_example (j * 5)) - 1000 + 5000) \<and>
      (outputmaxsec bounds_example = 0 \<or> uint (getsector (sa_at map_example (j * 5)) - 1000 + 5000) \<le> outputmaxsec bounds_example)"
      using map_example_sectors addr by cases (simp_all add: bounds_example_def)
  qed
  have "(5000 :: 32 word) = word_of_int (outputminsec bounds_example)" "(1000 :: 32 word) = word_of_int 1000" by (simp_all add: bounds_example_def)
  from lilo_map_relocated [OF map_example_sectors(8) this hyp]
  obtain m2 where m2: "reloc_lilo bounds_example RELOC_LILOMAPSECT 512 (fst (map_addrs 1000 0 (MAX_MAP_SECT + 1) 0 map_example)) = Some m2"
    "\<And>j. j \<le> MAX_MAP_SECT \<Longrightarrow> getsector (sa_at m2 (j * 5)) =
        (if \<not> live 0 map_example j then getsector (sa_at map_example (j * 5))
         else if \<forall>k \<le> j. getsector (sa_at map_example (k * 5)) \<noteq> 1000 then getsector (sa_at map_example (j * 5)) - 1000 + 5000
         else getsector (sa_at map_example (j * 5)) - 1000)"
    by blast
  have "getsector (sa_at m2 0) = 6000" using m2(2) [of 0] map_example_live [of 0] map_example_sectors by simp
  moreover have "getsector (sa_at m2 5) = 0"
    using m2(2) [of 1] map_example_live [of 1] map_example_sectors by (auto simp: MAX_MAP_SECT_def)
  moreover have "\<not> (\<forall>k \<le> 2. getsector (sa_at map_example (k * 5)) \<noteq> 1000)"
    using map_example_sectors(2) by (intro notI) (drule spec [of _ 1], simp)
  then have "getsector (sa_at m2 10) = 1001"
    using m2(2) [of 2] map_example_live [of 2] map_example_sectors by (simp add: MAX_MAP_SECT_def)
  ultimately show ?thesis using m2(1) by blast
qed

text \<open>A label with two partitions, one of which starts behind the end of the new slice.\<close>

definition label_example :: "byte list" where
  "label_example = put32 (put32 (put32 (put16 (put32 (put32 (replicate 512 0) d_magic DISKMAGIC) d_magic2 DISKMAGIC) d_npartitions 2)
     (p_size 0) 100) (p_size 1) 100) (p_offset 1) 5000"

lemma get32_put16_other: "i + 1 < j \<or> j + 3 < i \<Longrightarrow> get32 (put16 b i v) j = get32 b j"
  by (auto simp: get32_def get16_put16_other)

lemma get32_replicate: "i + 3 < n \<Longrightarrow> get32 (replicate n 0) i = 0"
  by (simp add: get32_def get16_def)

lemma label_example_fields:
  "get32 label_example d_magic = DISKMAGIC" "get32 label_example d_magic2 = DISKMAGIC" "get16 label_example d_npartitions = 2"
  "get32 label_example (p_size 0) = 100" "get32 label_example (p_size 1) = 100" "get32 label_example (p_offset 1) = 5000"
  "get32 label_example (p_offset 0) = 0" "length label_example = 512"
  by (simp_all add: label_example_def d_magic_def d_magic2_def d_npartitions_def p_size_def p_offset_def get32_put32 get32_put32_other get16_put32_other get16_put16 get32_replicate get32_put16_other get16_put16_other DISKMAGIC_def to_u32_def)

theorem bsdlabel_relocated_witness:
  "\<exists>l. reloc_bsdlabel bounds_example RELOC_FBSDDISKLABEL label_example = Some l \<and> dkcksum l = 0 \<and>
    get32 l (p_offset 0) = 5000 \<and> get32 l (p_size 0) = 100 \<and> get32 l (p_offset 1) = 10000 \<and> get32 l (p_size 1) = 2 ^ 32 - 1000"
proof -
  have "(2 :: nat) = nat (get16 label_example d_npartitions)" "148 + 16 * 2 \<le> length label_example" by (simp_all add: label_example_fields)
  from bsdlabel_relocated [of bounds_example label_example 2 False RELOC_FBSDDISKLABEL, OF _ label_example_fields(1,2) _ this]
  obtain l where l: "reloc_bsdlabel bounds_example RELOC_FBSDDISKLABEL label_example = Some l" "dkcksum l = 0"
    "\<And>j. if j < 2 then moved_part bounds_example False j label_example l else same_part j label_example l"
    by (auto simp: bounds_example_def RELOC_FBSDDISKLABEL_def RELOC_OBSDDISKLABEL_def RAW_PART_def)
  show ?thesis using l(1,2) l(3) [of 0] l(3) [of 1]
    by (simp add: moved_part_def skipped_part_def label_example_fields new_offset_def new_size_def bounds_example_def to_u32_def RAW_PART_def Let_def
        del: One_nat_def)
qed

theorem bsdlabel_size_witness:
  "new_size bounds_example 1 label_example = 2 ^ 32 - 1000"
  using bsdlabel_size [of bounds_example 1 label_example]
  by (simp add: label_example_fields new_offset_def to_u32_def RAW_PART_def bounds_example_def del: One_nat_def)

end
