(* ===== verification/ImageUnzip.thy ===== *)
theory ImageUnzip
  imports Relocs
begin

text \<open>
  How imageunzip and the frisbee client decompress a chunk and write it to the target disk
  (clientside/os/imagezip/imageunzip.c): \<^verbatim>\<open>inflate_subblock\<close>, the write requests with their queue and the thread
  that serves it, relocations, and the zeroing of the rest of the disk. The target is a function from offsets to bytes;
  a write that the system refuses ends the process and is not modelled. The decompression library is a parameter. Chunks are
  of the current format, their identifier is the expected one, and they are neither encrypted nor signed. The memory
  accounting of the write buffers and the progress output are left out.
\<close>

section \<open>The decompression library\<close>

text \<open>A call of \<^verbatim>\<open>inflate\<close> gets the stream, the input and the room for the output.\<close>

record 'd inflater =
  inflateInit :: "'d option"
  inflate :: "'d \<Rightarrow> byte list \<Rightarrow> int \<Rightarrow> zerr \<times> 'd \<times> byte list \<times> byte list"
  inflateEnd :: "'d \<Rightarrow> zerr"

section \<open>State\<close>

definition OUTSIZE :: int where "OUTSIZE = 256 * 1024"

record uzconfig = slice_bounds +
  dofill :: bool
  nothreads :: bool
  seekable :: bool
  ignoreskips :: bool
  directio :: bool

text \<open>A request without data asks for zeros.\<close>

record writebuf =
  wb_offset :: int
  wb_size :: int
  wb_data :: "byte list option"

record unzip =
  target :: "int \<Rightarrow> byte"
  position :: int
  writequeue :: "writebuf list"
  nextwriteoffset :: int
  maxwrittenoffset :: int
  imagetoobigwarned :: bool
  reloctable :: "blockreloc list"
  totalddata :: int
  totaledata :: int
  totalrdata :: int
  totalzdata :: int
  donechunks :: int

section \<open>Writing\<close>

definition put_bytes :: "(int \<Rightarrow> byte) \<Rightarrow> int \<Rightarrow> byte list \<Rightarrow> int \<Rightarrow> byte" where
  "put_bytes t off bs = (\<lambda>x. if off \<le> x \<and> x < off + int (length bs) then bs ! nat (x - off) else t x)"

text \<open>\<^verbatim>\<open>write\<close> and \<^verbatim>\<open>pwrite\<close>.\<close>

definition write_fd :: "byte list \<Rightarrow> unzip \<Rightarrow> unzip" where
  "write_fd bs s = s\<lparr>target := put_bytes (target s) (position s) bs, position := position s + int (length bs)\<rparr>"

definition pwrite_fd :: "byte list \<Rightarrow> int \<Rightarrow> unzip \<Rightarrow> unzip" where
  "pwrite_fd bs off s = s\<lparr>target := put_bytes (target s) off bs\<rparr>"

function zero_loop :: "int \<Rightarrow> unzip \<Rightarrow> unzip" where
  "zero_loop zcount s =
     (if zcount \<le> 0 then s
      else let zcc = (if zcount \<le> OUTSIZE then zcount else OUTSIZE); s1 = write_fd (replicate (nat zcc) 0) s in
        zero_loop (zcount - zcc) (s1\<lparr>totalrdata := totalrdata s + zcc, totalzdata := totalzdata s + zcc,
          nextwriteoffset := nextwriteoffset s + zcc\<rparr>))"
  by pat_completeness auto
termination by (relation "measure (\<lambda>(zcount, s). nat zcount)") (auto simp: OUTSIZE_def)

definition note_max :: "unzip \<Rightarrow> unzip" where
  "note_max s = (if nextwriteoffset s > maxwrittenoffset s then s\<lparr>maxwrittenoffset := nextwriteoffset s\<rparr> else s)"

definition writezeros :: "'x uzconfig_scheme \<Rightarrow> int \<Rightarrow> int \<Rightarrow> unzip \<Rightarrow> unzip option" where
  "writezeros cfg offset zcount s = do {
     c_assert (offset mod 512 = 0);
     s1 \<leftarrow> (if seekable cfg then Some (s\<lparr>position := offset, nextwriteoffset := offset\<rparr>)
           else if offset \<noteq> nextwriteoffset s then None else Some s);
     Some (note_max (zero_loop zcount s1))
   }"

definition writedata :: "'x uzconfig_scheme \<Rightarrow> int \<Rightarrow> byte list \<Rightarrow> unzip \<Rightarrow> unzip option" where
  "writedata cfg offset buf s = do {
     c_assert (int (length buf) mod 512 = 0 \<or> \<not> directio cfg);
     s1 \<leftarrow> (if seekable cfg then Some (pwrite_fd buf offset s)
           else if offset = nextwriteoffset s \<or> ignoreskips cfg then Some (write_fd buf s)
           else None);
     let s2 = note_max (s1\<lparr>nextwriteoffset := offset + int (length buf)\<rparr>) in
     Some (s2\<lparr>totalrdata := totalrdata s2 + int (length buf)\<rparr>)
   }"

section \<open>Relocations\<close>

text \<open>The result is the number of bytes to write, which a short last sector makes smaller, and the new contents.\<close>

definition behind :: "nat \<Rightarrow> (byte list \<Rightarrow> byte list option) \<Rightarrow> byte list \<Rightarrow> byte list option" where
  "behind i f b = do { b1 \<leftarrow> f (drop i b); Some (take i b @ b1) }"

definition apply_reloc :: "'x uzconfig_scheme \<Rightarrow> int \<Rightarrow> int \<Rightarrow> blockreloc \<Rightarrow> int \<Rightarrow> byte list \<Rightarrow> (int \<times> byte list) option" where
  "apply_reloc cfg offset sz reloc nsize buf =
     (let roffset = sectobytes (rl_sector reloc) + rl_sectoff reloc; rsize = rl_size reloc; ty = rl_type reloc in
      if offset < roffset + rsize \<and> offset + sz > roffset then do {
        c_assert (offset \<le> roffset);
        c_assert (roffset + rsize \<le> offset + sz);
        let coff = nat (to_u32 (roffset - offset)) in
        if ty = RELOC_NONE then Some (nsize, buf)
        else if ty = RELOC_FBSDDISKLABEL \<or> ty = RELOC_OBSDDISKLABEL then do {
          c_assert (rsize \<ge> int sizeof_disklabel);
          b \<leftarrow> behind coff (reloc_bsdlabel cfg ty) buf;
          Some (nsize, b)
        } else if ty = RELOC_LILOSADDR \<or> ty = RELOC_LILOMAPSECT then do {
          b \<leftarrow> behind coff (reloc_lilo cfg ty rsize) buf;
          Some (nsize, b)
        } else if ty = RELOC_LILOCKSUM then do {
          b \<leftarrow> reloc_lilocksum buf coff rsize;
          Some (nsize, b)
        } else if ty = RELOC_SHORTSECTOR then do {
          c_assert (rl_sectoff reloc = 0);
          c_assert (rsize < 512);
          c_assert (roffset + 512 = offset + sz);
          Some (if directio cfg then nsize else nsize - (512 - rsize), buf)
        } else Some (nsize, buf)
      } else Some (nsize, buf))"

fun apply_relocs :: "'x uzconfig_scheme \<Rightarrow> int \<Rightarrow> int \<Rightarrow> blockreloc list \<Rightarrow> int \<Rightarrow> byte list \<Rightarrow> (int \<times> byte list) option" where
  "apply_relocs cfg offset sz [] nsize buf = Some (nsize, buf)"
| "apply_relocs cfg offset sz (r # rs) nsize buf =
     do { (nsize1, buf1) \<leftarrow> apply_reloc cfg offset sz r nsize buf; apply_relocs cfg offset sz rs nsize1 buf1 }"

definition applyrelocs :: "'x uzconfig_scheme \<Rightarrow> int \<Rightarrow> byte list \<Rightarrow> unzip \<Rightarrow> byte list option" where
  "applyrelocs cfg offset buf s =
     (let sz = int (length buf) in do {
        (nsize, buf1) \<leftarrow> apply_relocs cfg (offset - sectobytes (outputminsec cfg)) sz (reloctable s) sz buf;
        Some (take (nat nsize) buf1)
      })"

section \<open>Requests\<close>

text \<open>
  A request is moved to the slice and cut at its end. What is left of it is written at once, or it is queued with its
  relocations applied.
\<close>

definition write_request :: "'x uzconfig_scheme \<Rightarrow> writebuf \<Rightarrow> unzip \<Rightarrow> unzip option" where
  "write_request cfg w s =
     (case wb_data w of
        None \<Rightarrow> writezeros cfg (wb_offset w) (wb_size w) s
      | Some d \<Rightarrow> do { c_assert (wb_size w \<le> OUTSIZE); writedata cfg (wb_offset w) d s })"

definition clip_request :: "'x uzconfig_scheme \<Rightarrow> writebuf \<Rightarrow> unzip \<Rightarrow> writebuf option \<times> unzip" where
  "clip_request cfg w s =
     (let limit = sectobytes (outputmaxsec cfg); offset = wb_offset w + sectobytes (outputminsec cfg) in
      if outputmaxsec cfg > 0 \<and> offset + wb_size w > limit then
        (if offset \<ge> limit then None
         else Some (w\<lparr>wb_offset := offset, wb_size := limit - offset, wb_data := map_option (take (nat (limit - offset))) (wb_data w)\<rparr>),
         s\<lparr>imagetoobigwarned := True\<rparr>)
      else (Some (w\<lparr>wb_offset := offset\<rparr>), s))"

definition relocate_request :: "'x uzconfig_scheme \<Rightarrow> writebuf \<Rightarrow> unzip \<Rightarrow> writebuf option" where
  "relocate_request cfg w s =
     (case wb_data w of
        None \<Rightarrow> Some w
      | Some d \<Rightarrow> do {
          c_assert (wb_size w \<le> OUTSIZE);
          d1 \<leftarrow> applyrelocs cfg (wb_offset w) d s;
          Some (w\<lparr>wb_size := int (length d1), wb_data := Some d1\<rparr>)
        })"

definition dowrite_request :: "'x uzconfig_scheme \<Rightarrow> writebuf \<Rightarrow> unzip \<Rightarrow> unzip option" where
  "dowrite_request cfg w s = do {
     c_assert (wb_offset w \<ge> 0);
     c_assert (wb_size w > 0);
     c_assert ((wb_offset w + sectobytes (outputminsec cfg)) mod 512 = 0);
     case clip_request cfg w s of
       (None, s1) \<Rightarrow> Some s1
     | (Some w1, s1) \<Rightarrow>
         let s2 = s1\<lparr>totaledata := totaledata s1 + wb_size w1\<rparr> in
         if wb_data w1 = None \<and> \<not> dofill cfg then Some s2
         else do {
           w2 \<leftarrow> relocate_request cfg w1 s2;
           if nothreads cfg then write_request cfg w2 s2 else Some (s2\<lparr>writequeue := writequeue s2 @ [w2]\<rparr>)
         }
   }"

text \<open>The thread that writes takes the first request of the queue; it waits while there is none.\<close>

definition DiskWriter :: "'x uzconfig_scheme \<Rightarrow> unzip \<Rightarrow> unzip option" where
  "DiskWriter cfg s = (case writequeue s of [] \<Rightarrow> Some s | w # ws \<Rightarrow> write_request cfg w (s\<lparr>writequeue := ws\<rparr>))"

text \<open>\<^verbatim>\<open>threadwait\<close> lets the thread run until the queue is empty.\<close>

fun write_all :: "'x uzconfig_scheme \<Rightarrow> writebuf list \<Rightarrow> unzip \<Rightarrow> unzip option" where
  "write_all cfg [] s = Some s"
| "write_all cfg (w # ws) s = do { s1 \<leftarrow> write_request cfg w s; write_all cfg ws s1 }"

definition threadwait :: "'x uzconfig_scheme \<Rightarrow> unzip \<Rightarrow> unzip option" where
  "threadwait cfg s = write_all cfg (writequeue s) (s\<lparr>writequeue := []\<rparr>)"

section \<open>Decompressing a chunk\<close>

definition alloc_writebuf :: "int \<Rightarrow> int \<Rightarrow> byte list option \<Rightarrow> writebuf" where
  "alloc_writebuf offset sz buf = \<lparr>wb_offset = offset, wb_size = sz, wb_data = buf\<rparr>"

definition fill_gap :: "'x uzconfig_scheme \<Rightarrow> int \<Rightarrow> int \<Rightarrow> unzip \<Rightarrow> unzip option" where
  "fill_gap cfg offset sz s =
     (if dofill cfg then dowrite_request cfg (alloc_writebuf offset sz None) s else Some (s\<lparr>totaledata := totaledata s + sz\<rparr>))"

definition next_region :: "'x uzconfig_scheme \<Rightarrow> region \<Rightarrow> int \<Rightarrow> unzip \<Rightarrow> (int \<times> int \<times> unzip) option" where
  "next_region cfg r offset s =
     (let newoffset = sectobytes (rg_sect r); sz = sectobytes (rg_count r) in do {
        c_assert (sz \<noteq> 0);
        c_assert (newoffset - offset > 0);
        s1 \<leftarrow> fill_gap cfg offset (newoffset - offset) s;
        Some (newoffset, sz, s1)
      })"

text \<open>
  The decompressed bytes are laid out on the regions; more bytes than the regions hold are a failure. The result is the
  offset, what is missing of the current region, the regions after it, and the new state.
\<close>

fun lay_out :: "'x uzconfig_scheme \<Rightarrow> byte list \<Rightarrow> int \<Rightarrow> int \<Rightarrow> region list \<Rightarrow> unzip \<Rightarrow> (int \<times> int \<times> region list \<times> unzip) option" where
  "lay_out cfg buf offset sz [] s =
     (let cnt = int (length buf) in
      if cnt \<le> sz then do { s1 \<leftarrow> dowrite_request cfg (alloc_writebuf offset cnt (Some buf)) s; Some (offset + cnt, sz - cnt, [], s1) }
      else None)"
| "lay_out cfg buf offset sz (r # rs) s =
     (let cnt = int (length buf) in
      if cnt < sz then do { s1 \<leftarrow> dowrite_request cfg (alloc_writebuf offset cnt (Some buf)) s; Some (offset + cnt, sz - cnt, r # rs, s1) }
      else do {
        s1 \<leftarrow> dowrite_request cfg (alloc_writebuf offset sz (Some (take (nat sz) buf))) s;
        (offset1, sz1, s2) \<leftarrow> next_region cfg r (offset + sz) s1;
        if cnt = sz then Some (offset1, sz1, rs, s2) else lay_out cfg (drop (nat sz) buf) offset1 sz1 rs s2
      })"

text \<open>The loop over the compressed data keeps the bytes that do not fill a sector for the next turn.\<close>

partial_function (option) inflate_loop ::
  "'d inflater \<Rightarrow> 'x uzconfig_scheme \<Rightarrow> zerr \<Rightarrow> 'd \<Rightarrow> byte list \<Rightarrow> byte list \<Rightarrow> int \<Rightarrow> int \<Rightarrow> region list \<Rightarrow> unzip \<Rightarrow>
   (zerr \<times> 'd \<times> int \<times> int \<times> region list \<times> unzip) option" where
  "inflate_loop zl cfg err d input resid offset sz rs s =
     (if input = [] then Some (err, d, offset, sz, rs, s)
      else
        let (err1, d1, rest, out) = inflate zl d input (OUTSIZE - int (length resid)); buf = resid @ out;
            cnt = length buf div 512 * 512 in
        if err1 \<noteq> Z_OK \<and> err1 \<noteq> Z_STREAM_END then None
        else if cnt = 0 then None
        else Option.bind (lay_out cfg (take cnt buf) offset sz rs s) (\<lambda>(offset1, sz1, rs1, s1).
          inflate_loop zl cfg err1 d1 rest (drop cnt buf) offset1 sz1 rs1 (s1\<lparr>totalddata := totalddata s1 + int (length buf)\<rparr>)))"

text \<open>The header area holds the regions and the relocations, so its fields do not reach behind the chunk.\<close>

definition inflate_subblock :: "'d inflater \<Rightarrow> 'x uzconfig_scheme \<Rightarrow> chunk \<Rightarrow> unzip \<Rightarrow> unzip option" where
  "inflate_subblock zl cfg c s = do {
     d \<leftarrow> inflateInit zl;
     case h_regions c of
       [] \<Rightarrow> None
     | r # rs \<Rightarrow> do {
         let s0 = s\<lparr>reloctable := h_relocs c\<rparr>;
             offset = sectobytes (rg_sect r); sz = sectobytes (rg_count r); lst = last (r # rs) in do {
           s1 \<leftarrow> (if rg_sect r > h_firstsect c
                 then fill_gap cfg (sectobytes (h_firstsect c)) (sectobytes (to_u32 (rg_sect r - h_firstsect c))) s0 else Some s0);
           c_assert (sz > 0);
           c_assert (h_size c > 0 \<and> h_size c \<le> int (length (payload c)));
           (err, d1, offset1, sz1, rs1, s2) \<leftarrow> inflate_loop zl cfg Z_OK d (take (nat (h_size c)) (payload c)) [] offset sz rs s1;
           c_assert (err = Z_STREAM_END);
           c_assert (inflateEnd zl d1 = Z_OK);
           c_assert (rs1 = []);
           c_assert (sz1 = 0);
           s3 \<leftarrow> (if region_end lst < h_lastsect c
                 then fill_gap cfg (sectobytes (region_end lst)) (sectobytes (to_u32 (h_lastsect c - region_end lst))) s2 else Some s2);
           Some (s3\<lparr>donechunks := donechunks s3 + 1\<rparr>)
         }
       }
   }"

text \<open>Writing a chunk without decompressing it.\<close>

fun raw_loop :: "'x uzconfig_scheme \<Rightarrow> nat \<Rightarrow> int \<Rightarrow> byte list \<Rightarrow> unzip \<Rightarrow> unzip option" where
  "raw_loop cfg 0 offset buf s = Some s"
| "raw_loop cfg (Suc n) offset buf s =
     (if buf = [] then Some s
      else let piece = take (nat OUTSIZE) buf in do {
        s1 \<leftarrow> dowrite_request cfg (alloc_writebuf offset (int (length piece)) (Some piece)) s;
        raw_loop cfg n (offset + int (length piece)) (drop (nat OUTSIZE) buf) s1
      })"

definition write_subblock :: "'x uzconfig_scheme \<Rightarrow> int \<Rightarrow> byte list \<Rightarrow> unzip \<Rightarrow> unzip option" where
  "write_subblock cfg chunkno buf s = do {
     s1 \<leftarrow> raw_loop cfg (length buf) (chunkno * CHUNKSIZE_BYTES) buf s;
     Some (s1\<lparr>donechunks := donechunks s1 + 1\<rparr>)
   }"

section \<open>The rest of the disk\<close>

definition zero_remainder :: "'x uzconfig_scheme \<Rightarrow> int \<Rightarrow> unzip \<Rightarrow> unzip option" where
  "zero_remainder cfg getdisksize s =
     (if \<not> dofill cfg \<or> slice cfg \<noteq> 0 then Some s
      else
        let maxsec = (if outputmaxsec cfg = 0 then getdisksize else outputmaxsec cfg); disksize = sectobytes maxsec in do {
          s1 \<leftarrow> threadwait cfg s;
          if disksize > maxwrittenoffset s1
          then dowrite_request (cfg\<lparr>outputmaxsec := maxsec\<rparr>)
            (alloc_writebuf (maxwrittenoffset s1) (disksize - maxwrittenoffset s1) None) s1
          else Some s1
        })"

definition ImageUnzipFlush :: "'x uzconfig_scheme \<Rightarrow> int \<Rightarrow> unzip \<Rightarrow> unzip option" where
  "ImageUnzipFlush cfg getdisksize s = do { s1 \<leftarrow> zero_remainder cfg getdisksize s; threadwait cfg s1 }"

end
