(* ===== verification/ImageRestore.thy ===== *)
theory ImageRestore
  imports ImageUnzip
begin

text \<open>
  What restoring a chunk does to the target disk, and that saving a disk and restoring its chunks, in any order and with or
  without the writer thread, gives back every sector that was saved.
\<close>

section \<open>Requests and the queue\<close>

lemma put_bytes_Nil [simp]: "put_bytes t off [] = t"
  by (rule ext) (auto simp: put_bytes_def)

lemma put_bytes_append: "put_bytes (put_bytes t off a) (off + int (length a)) b = put_bytes t off (a @ b)"
proof
  fix x
  have "nat (x - off) - length a = nat (x - (off + int (length a)))" by simp
  then show "put_bytes (put_bytes t off a) (off + int (length a)) b x = put_bytes t off (a @ b) x"
    by (auto simp: put_bytes_def nth_append)
qed

lemma zero_loop_ok:
  "target (zero_loop z s) = put_bytes (target s) (position s) (replicate (nat z) 0) \<and> writequeue (zero_loop z s) = writequeue s \<and>
   reloctable (zero_loop z s) = reloctable s"
proof (induction z s rule: zero_loop.induct)
  case (1 z s)
  show ?case
  proof (cases "z \<le> 0")
    case True
    then show ?thesis by (subst (1 2 3) zero_loop.simps) simp
  next
    case False
    define c where "c = (if z \<le> OUTSIZE then z else OUTSIZE)"
    have c: "0 < c" "c \<le> z" using False by (auto simp: c_def OUTSIZE_def)
    define s1 where "s1 = (write_fd (replicate (nat c) 0) s)\<lparr>totalrdata := totalrdata s + c, totalzdata := totalzdata s + c,
      nextwriteoffset := nextwriteoffset s + c\<rparr>"
    have step: "zero_loop z s = zero_loop (z - c) s1" using False by (subst zero_loop.simps) (simp add: c_def s1_def Let_def)
    have s1: "target s1 = put_bytes (target s) (position s) (replicate (nat c) 0)" "position s1 = position s + int (nat c)"
      "writequeue s1 = writequeue s" "reloctable s1 = reloctable s" by (simp_all add: s1_def write_fd_def)
    have "nat z = nat c + nat (z - c)" using c by simp
    then have len: "replicate (nat c) 0 @ replicate (nat (z - c)) 0 = (replicate (nat z) 0 :: byte list)"
      by (simp add: replicate_add)
    have "put_bytes (target s1) (position s1) (replicate (nat (z - c)) 0) = put_bytes (target s) (position s) (replicate (nat z) 0)"
      unfolding s1 using put_bytes_append [of "target s" "position s" "replicate (nat c) 0" "replicate (nat (z - c)) 0"] len by simp
    then show ?thesis using 1 False step s1 by (simp add: c_def s1_def Let_def)
  qed
qed

definition wb_bytes :: "writebuf \<Rightarrow> byte list" where
  "wb_bytes w = (case wb_data w of None \<Rightarrow> replicate (nat (wb_size w)) 0 | Some d \<Rightarrow> d)"

definition sound_request :: "writebuf \<Rightarrow> bool" where
  "sound_request w \<longleftrightarrow> wb_offset w mod 512 = 0 \<and>
     (case wb_data w of None \<Rightarrow> True
      | Some d \<Rightarrow> wb_size w = int (length d) \<and> int (length d) \<le> OUTSIZE \<and> int (length d) mod 512 = 0)"

lemma write_request_ok:
  assumes "seekable cfg" and "sound_request w"
  shows "\<exists>u. write_request cfg w s = Some u \<and> target u = put_bytes (target s) (wb_offset w) (wb_bytes w) \<and>
    writequeue u = writequeue s \<and> reloctable u = reloctable s"
proof (cases "wb_data w")
  case None
  then show ?thesis using assms zero_loop_ok [of "wb_size w" "s\<lparr>position := wb_offset w, nextwriteoffset := wb_offset w\<rparr>"]
    by (simp add: write_request_def writezeros_def sound_request_def wb_bytes_def note_max_def)
next
  case (Some d)
  then show ?thesis using assms
    by (simp add: write_request_def writedata_def sound_request_def wb_bytes_def note_max_def pwrite_fd_def Let_def)
qed

text \<open>The target as it will be when the writer has served the queue.\<close>

definition served :: "writebuf list \<Rightarrow> (int \<Rightarrow> byte) \<Rightarrow> int \<Rightarrow> byte" where
  "served ws t = foldl (\<lambda>t w. put_bytes t (wb_offset w) (wb_bytes w)) t ws"

definition view :: "unzip \<Rightarrow> int \<Rightarrow> byte" where
  "view s = served (writequeue s) (target s)"

definition restore_ok :: "'x uzconfig_scheme \<Rightarrow> unzip \<Rightarrow> bool" where
  "restore_ok cfg s \<longleftrightarrow> seekable cfg \<and> 0 \<le> outputminsec cfg \<and> reloctable s = [] \<and> (nothreads cfg \<longrightarrow> writequeue s = []) \<and>
     (\<forall>w \<in> set (writequeue s). sound_request w)"

lemma write_all_ok:
  assumes "seekable cfg" and "\<forall>w \<in> set ws. sound_request w"
  shows "\<exists>u. write_all cfg ws s = Some u \<and> target u = served ws (target s) \<and> writequeue u = writequeue s \<and> reloctable u = reloctable s"
  using assms(2)
proof (induction ws arbitrary: s)
  case (Cons w ws)
  then obtain u where u: "write_request cfg w s = Some u" "target u = put_bytes (target s) (wb_offset w) (wb_bytes w)"
    "writequeue u = writequeue s" "reloctable u = reloctable s"
    using write_request_ok [OF assms(1), of w s] by auto
  obtain v where v: "write_all cfg ws u = Some v" "target v = served ws (target u)" "writequeue v = writequeue u" "reloctable v = reloctable u"
    using Cons.IH [of u] Cons.prems by auto
  show ?case using u v by (simp add: served_def)
qed (simp add: served_def)

lemma threadwait_ok:
  assumes "restore_ok cfg s"
  shows "\<exists>u. threadwait cfg s = Some u \<and> target u = view s \<and> writequeue u = [] \<and> restore_ok cfg u"
proof -
  obtain u where "write_all cfg (writequeue s) (s\<lparr>writequeue := []\<rparr>) = Some u" "target u = served (writequeue s) (target s)"
    "writequeue u = []" "reloctable u = reloctable s"
    using write_all_ok [of cfg "writequeue s" "s\<lparr>writequeue := []\<rparr>"] assms by (auto simp: restore_ok_def)
  then show ?thesis using assms by (auto simp: threadwait_def view_def restore_ok_def)
qed

lemma DiskWriter_ok:
  assumes "restore_ok cfg s"
  shows "\<exists>u. DiskWriter cfg s = Some u \<and> view u = view s \<and> restore_ok cfg u \<and> writequeue u = tl (writequeue s)"
proof (cases "writequeue s")
  case (Cons w ws)
  then obtain u where "write_request cfg w (s\<lparr>writequeue := ws\<rparr>) = Some u" "target u = put_bytes (target s) (wb_offset w) (wb_bytes w)"
    "writequeue u = ws" "reloctable u = reloctable s"
    using write_request_ok [of cfg w "s\<lparr>writequeue := ws\<rparr>"] assms by (auto simp: restore_ok_def)
  then show ?thesis using assms Cons by (auto simp: DiskWriter_def view_def restore_ok_def served_def)
qed (use assms in \<open>simp add: DiskWriter_def\<close>)

text \<open>A request writes the bytes that lie before the end of the slice.\<close>

definition in_limit :: "'x uzconfig_scheme \<Rightarrow> int \<Rightarrow> bool" where
  "in_limit cfg x \<longleftrightarrow> outputmaxsec cfg > 0 \<longrightarrow> x < sectobytes (outputmaxsec cfg)"

definition paint :: "'x uzconfig_scheme \<Rightarrow> (int \<Rightarrow> byte) \<Rightarrow> int \<Rightarrow> byte list \<Rightarrow> int \<Rightarrow> byte" where
  "paint cfg t off bs = (\<lambda>x. if in_limit cfg x then put_bytes t (off + sectobytes (outputminsec cfg)) bs x else t x)"

lemma paint_append: "paint cfg (paint cfg t off a) (off + int (length a)) b = paint cfg t off (a @ b)"
proof
  fix x
  have e: "off + int (length a) + sectobytes (outputminsec cfg) = off + sectobytes (outputminsec cfg) + int (length a)" by simp
  show "paint cfg (paint cfg t off a) (off + int (length a)) b x = paint cfg t off (a @ b) x"
    unfolding paint_def e put_bytes_append [symmetric] by (simp add: put_bytes_def)
qed

lemma clip_request_ok:
  assumes "sound_request w" and "0 \<le> outputminsec cfg" and "0 < wb_size w" and "0 \<le> wb_offset w"
  shows "\<exists>w1 u. clip_request cfg w s = (w1, u) \<and> target u = target s \<and> writequeue u = writequeue s \<and> reloctable u = reloctable s \<and>
    (case w1 of None \<Rightarrow> \<forall>x. in_limit cfg x \<longrightarrow> x < wb_offset w + sectobytes (outputminsec cfg)
     | Some w' \<Rightarrow> sound_request w' \<and> (\<forall>t. put_bytes t (wb_offset w') (wb_bytes w') = paint cfg t (wb_offset w) (wb_bytes w)) \<and>
         (wb_data w' = None \<longleftrightarrow> wb_data w = None))"
proof -
  define off where "off = wb_offset w + sectobytes (outputminsec cfg)"
  define lim where "lim = sectobytes (outputmaxsec cfg)"
  have off: "off mod 512 = 0" using assms(1) by (simp add: off_def sound_request_def sectobytes_def secsize_def)
  have lim: "lim mod 512 = 0" by (simp add: lim_def sectobytes_def secsize_def)
  have inl: "in_limit cfg x \<longleftrightarrow> (outputmaxsec cfg > 0 \<longrightarrow> x < lim)" for x by (simp add: in_limit_def lim_def)
  have paint: "paint cfg t (wb_offset w) bs = (\<lambda>x. if in_limit cfg x then put_bytes t off bs x else t x)" for t bs
    unfolding paint_def off_def ..
  have len: "int (length (wb_bytes w)) = wb_size w"
    using assms(1,3) by (auto simp: sound_request_def wb_bytes_def split: option.splits)
  consider "outputmaxsec cfg > 0 \<and> off + wb_size w > lim" "off \<ge> lim" | "outputmaxsec cfg > 0 \<and> off + wb_size w > lim" "off < lim"
    | "\<not> (outputmaxsec cfg > 0 \<and> off + wb_size w > lim)" by linarith
  then show ?thesis
  proof cases
    case 1
    then show ?thesis by (simp add: clip_request_def off_def [symmetric] lim_def [symmetric] inl Let_def)
  next
    case 2
    define n where "n = lim - off"
    have n: "0 < n" "n < wb_size w" "n mod 512 = 0" using 2 off lim by (simp_all add: n_def mod_diff_eq [of lim 512 off, symmetric])
    define w' where "w' = w\<lparr>wb_offset := off, wb_size := n, wb_data := map_option (take (nat n)) (wb_data w)\<rparr>"
    have bytes: "wb_bytes w' = take (nat n) (wb_bytes w)" using n by (auto simp: w'_def wb_bytes_def min_def split: option.splits)
    have "sound_request w'" using assms(1) n off by (auto simp: w'_def sound_request_def min_def split: option.splits)
    moreover have "put_bytes t off (take (nat n) (wb_bytes w)) = paint cfg t (wb_offset w) (wb_bytes w)" for t
      unfolding paint using 2 n len by (auto simp: put_bytes_def inl n_def fun_eq_iff)
    moreover have "clip_request cfg w s = (Some w', s\<lparr>imagetoobigwarned := True\<rparr>)"
      using 2 by (simp add: clip_request_def off_def lim_def n_def w'_def Let_def)
    ultimately show ?thesis using bytes by (intro exI [of _ "Some w'"] exI [of _ "s\<lparr>imagetoobigwarned := True\<rparr>"]) (simp add: w'_def)
  next
    case 3
    have "put_bytes t off (wb_bytes w) = paint cfg t (wb_offset w) (wb_bytes w)" for t
      unfolding paint using 3 len by (auto simp: put_bytes_def inl fun_eq_iff)
    moreover have "clip_request cfg w s = (Some (w\<lparr>wb_offset := off\<rparr>), s)"
      unfolding clip_request_def Let_def using 3 unfolding off_def lim_def by (subst if_not_P) simp_all
    moreover have "sound_request (w\<lparr>wb_offset := off\<rparr>)" "wb_bytes (w\<lparr>wb_offset := off\<rparr>) = wb_bytes w"
      using assms(1) off by (auto simp: sound_request_def wb_bytes_def split: option.splits)
    ultimately show ?thesis by (intro exI [of _ "Some (w\<lparr>wb_offset := off\<rparr>)"] exI [of _ s]) simp
  qed
qed


lemma dowrite_ok:
  assumes "restore_ok cfg s" and "sound_request w" and "0 < wb_size w" and "0 \<le> wb_offset w" and "wb_data w = None \<longrightarrow> dofill cfg"
  shows "\<exists>u. dowrite_request cfg w s = Some u \<and> restore_ok cfg u \<and> view u = paint cfg (view s) (wb_offset w) (wb_bytes w)"
proof -
  have ok: "seekable cfg" "0 \<le> outputminsec cfg" "reloctable s = []" "nothreads cfg \<longrightarrow> writequeue s = []"
    "\<forall>w \<in> set (writequeue s). sound_request w"
    using assms(1) by (simp_all add: restore_ok_def)
  obtain w1 s1 where c: "clip_request cfg w s = (w1, s1)" "target s1 = target s" "writequeue s1 = writequeue s" "reloctable s1 = reloctable s"
    "case w1 of None \<Rightarrow> \<forall>x. in_limit cfg x \<longrightarrow> x < wb_offset w + sectobytes (outputminsec cfg)
     | Some w' \<Rightarrow> sound_request w' \<and> (\<forall>t. put_bytes t (wb_offset w') (wb_bytes w') = paint cfg t (wb_offset w) (wb_bytes w)) \<and>
         (wb_data w' = None \<longleftrightarrow> wb_data w = None)"
    using clip_request_ok [OF assms(2) ok(2) assms(3,4), of s] by blast
  have al: "(wb_offset w + sectobytes (outputminsec cfg)) mod 512 = 0"
    using assms(2) by (simp add: sound_request_def sectobytes_def secsize_def)
  show ?thesis
  proof (cases w1)
    case None
    then have "paint cfg (view s) (wb_offset w) (wb_bytes w) = view s"
      using c(5) by (auto simp: paint_def put_bytes_def fun_eq_iff)
    moreover have "view s1 = view s" using c by (simp add: view_def)
    ultimately show ?thesis using None c al assms(3,4) ok by (simp add: dowrite_request_def restore_ok_def)
  next
    case (Some w')
    define s2 where "s2 = s1\<lparr>totaledata := totaledata s1 + wb_size w'\<rparr>"
    have w': "sound_request w'" "put_bytes t (wb_offset w') (wb_bytes w') = paint cfg t (wb_offset w) (wb_bytes w)"
      "wb_data w' = None \<longrightarrow> dofill cfg" for t
      using c(5) Some assms(5) by simp_all
    have s2: "target s2 = target s" "writequeue s2 = writequeue s" "reloctable s2 = []" using c ok by (simp_all add: s2_def)
    have reloc: "relocate_request cfg w' s2 = Some w'"
      using w'(1) s2(3) by (auto simp: relocate_request_def applyrelocs_def sound_request_def split: option.splits)
    have step: "dowrite_request cfg w s =
        (if nothreads cfg then write_request cfg w' s2 else Some (s2\<lparr>writequeue := writequeue s2 @ [w']\<rparr>))"
      using c(1) Some al assms(3,4) w'(3) reloc by (auto simp: dowrite_request_def s2_def Let_def)
    show ?thesis
    proof (cases "nothreads cfg")
      case True
      obtain u where "write_request cfg w' s2 = Some u" "target u = put_bytes (target s2) (wb_offset w') (wb_bytes w')"
        "writequeue u = writequeue s2" "reloctable u = reloctable s2"
        using write_request_ok [OF ok(1) w'(1)] by blast
      then show ?thesis using True step s2 ok w'(2) by (simp add: view_def served_def restore_ok_def)
    next
      case False
      then show ?thesis using step s2 ok w' by (simp add: view_def served_def restore_ok_def)
    qed
  qed
qed

section \<open>Laying out the data\<close>

text \<open>What is still to be done to the disk, from a place in the regions and with the data to come.\<close>

fun to_come :: "'x uzconfig_scheme \<Rightarrow> (int \<Rightarrow> byte) \<Rightarrow> int \<Rightarrow> int \<Rightarrow> region list \<Rightarrow> byte list \<Rightarrow> int \<Rightarrow> byte" where
  "to_come cfg t offset sz [] d = paint cfg t offset (take (nat sz) d)"
| "to_come cfg t offset sz (r # rs) d =
     to_come cfg (let t1 = paint cfg t offset (take (nat sz) d); gap = sectobytes (rg_sect r) - (offset + sz) in
         if dofill cfg then paint cfg t1 (offset + sz) (replicate (nat gap) 0) else t1)
       (sectobytes (rg_sect r)) (sectobytes (rg_count r)) rs (drop (nat sz) d)"

lemma fill_gap_ok:
  assumes "restore_ok cfg s" and "0 \<le> offset" and "offset mod 512 = 0" and "0 < sz"
  shows "\<exists>u. fill_gap cfg offset sz s = Some u \<and> restore_ok cfg u \<and>
    view u = (if dofill cfg then paint cfg (view s) offset (replicate (nat sz) 0) else view s)"
proof (cases "dofill cfg")
  case True
  then show ?thesis using assms dowrite_ok [of cfg s "alloc_writebuf offset sz None"]
    by (simp add: fill_gap_def alloc_writebuf_def sound_request_def wb_bytes_def)
next
  case False
  then show ?thesis using assms by (simp add: fill_gap_def restore_ok_def view_def)
qed

text \<open>The regions that may follow a place on the disk.\<close>

fun regions_from :: "int \<Rightarrow> region list \<Rightarrow> bool" where
  "regions_from o' [] = True"
| "regions_from o' (r # rs) \<longleftrightarrow> o' < sectobytes (rg_sect r) \<and> 0 < rg_count r \<and>
     regions_from (sectobytes (rg_sect r) + sectobytes (rg_count r)) rs"

definition total_size :: "int \<Rightarrow> region list \<Rightarrow> int" where
  "total_size sz rs = sz + sum_list (map (\<lambda>r. sectobytes (rg_count r)) rs)"

lemma data_write_ok:
  assumes "restore_ok cfg s" and "0 \<le> offset" and "offset mod 512 = 0" and "buf \<noteq> []" and "int (length buf) \<le> OUTSIZE"
    and "int (length buf) mod 512 = 0"
  shows "\<exists>u. dowrite_request cfg (alloc_writebuf offset (int (length buf)) (Some buf)) s = Some u \<and> restore_ok cfg u \<and>
    view u = paint cfg (view s) offset buf"
  using assms dowrite_ok [of cfg s "alloc_writebuf offset (int (length buf)) (Some buf)"]
  by (simp add: alloc_writebuf_def sound_request_def wb_bytes_def)

lemma paint_take:
  assumes "0 \<le> sz" and "int (length a) \<le> sz"
  shows "paint cfg (paint cfg t offset a) (offset + int (length a)) (take (nat (sz - int (length a))) b) =
    paint cfg t offset (take (nat sz) (a @ b))"
  using assms by (simp add: paint_append nat_diff_distrib)

lemma mod512:
  assumes "a mod 512 = 0" and "b mod 512 = (0 :: int)"
  shows "(a + b) mod 512 = 0" "(a - b) mod 512 = 0"
  using mod_add_eq [of a 512 b] mod_diff_eq [of a 512 b] assms by simp_all

text \<open>A piece of the data moves the place on and leaves the same to be done.\<close>

lemma lay_out_ok:
  assumes "restore_ok cfg s" and "0 \<le> offset" and "offset mod 512 = 0" and "0 < sz" and "sz mod 512 = 0"
    and "regions_from (offset + sz) rs" and "buf \<noteq> []" and "int (length buf) \<le> OUTSIZE" and "int (length buf) mod 512 = 0"
    and "int (length (buf @ d)) = total_size sz rs"
  shows "\<exists>o' z' rs' u. lay_out cfg buf offset sz rs s = Some (o', z', rs', u) \<and> restore_ok cfg u \<and> 0 \<le> o' \<and> o' mod 512 = 0 \<and>
    (d \<noteq> [] \<longrightarrow> 0 < z') \<and> 0 \<le> z' \<and> z' mod 512 = 0 \<and> regions_from (o' + z') rs' \<and> int (length d) = total_size z' rs' \<and>
    to_come cfg (view u) o' z' rs' d = to_come cfg (view s) offset sz rs (buf @ d)"
  using assms
proof (induction rs arbitrary: buf offset sz s)
  case Nil
  obtain u where u: "dowrite_request cfg (alloc_writebuf offset (int (length buf)) (Some buf)) s = Some u" "restore_ok cfg u"
    "view u = paint cfg (view s) offset buf" using data_write_ok [OF Nil.prems(1,2,3,7,8,9)] by blast
  have len: "int (length buf) + int (length d) = sz" using Nil.prems(10) by (simp add: total_size_def)
  then have "lay_out cfg buf offset sz [] s = Some (offset + int (length buf), sz - int (length buf), [], u)"
    using u(1) by (simp add: Let_def)
  moreover have "to_come cfg (view u) (offset + int (length buf)) (sz - int (length buf)) [] d = to_come cfg (view s) offset sz [] (buf @ d)"
    using paint_take [of sz buf cfg "view s" offset d] u(3) len Nil.prems(4) by simp
  moreover have "d \<noteq> [] \<longrightarrow> int (length buf) < sz" using len by auto
  ultimately show ?case
    using u(2) len mod512(1) [OF Nil.prems(3,9)] mod512(2) [OF Nil.prems(5,9)] Nil.prems(2)
    by (intro exI [of _ "offset + int (length buf)"] exI [of _ "sz - int (length buf)"] exI [of _ "[]"] exI [of _ u])
      (simp add: total_size_def del: to_come.simps lay_out.simps)
next
  case (Cons r rs)
  show ?case
  proof (cases "int (length buf) < sz")
    case True
    obtain u where u: "dowrite_request cfg (alloc_writebuf offset (int (length buf)) (Some buf)) s = Some u" "restore_ok cfg u"
      "view u = paint cfg (view s) offset buf" using data_write_ok [OF Cons.prems(1,2,3,7,8,9)] by blast
    have tc: "to_come cfg (view u) (offset + int (length buf)) (sz - int (length buf)) (r # rs) d = to_come cfg (view s) offset sz (r # rs) (buf @ d)"
      using paint_take [of sz buf cfg "view s" offset d] u(3) True Cons.prems(4)
      by (simp add: nat_diff_distrib Let_def cong: if_cong)
    have "lay_out cfg buf offset sz (r # rs) s = Some (offset + int (length buf), sz - int (length buf), r # rs, u)"
      using u(1) True by (simp add: Let_def)
    moreover have "int (length d) = total_size (sz - int (length buf)) (r # rs)" using Cons.prems(10) by (simp add: total_size_def)
    ultimately show ?thesis
      using tc u(2) True mod512(1) [OF Cons.prems(3,9)] mod512(2) [OF Cons.prems(5,9)] Cons.prems(2,6)
      by (intro exI [of _ "offset + int (length buf)"] exI [of _ "sz - int (length buf)"] exI [of _ "r # rs"] exI [of _ u])
        (simp del: to_come.simps lay_out.simps)
  next
    case False
    let ?a = "take (nat sz) buf" and ?b = "drop (nat sz) buf"
    have sz: "nat sz \<le> length buf" "int (length ?a) = sz" "?a \<noteq> []" using False Cons.prems(4) by auto
    obtain s1 where s1: "dowrite_request cfg (alloc_writebuf offset sz (Some ?a)) s = Some s1" "restore_ok cfg s1"
      "view s1 = paint cfg (view s) offset ?a"
      using data_write_ok [OF Cons.prems(1,2,3) sz(3)] sz(2) False Cons.prems(5,8) by auto
    let ?o = "sectobytes (rg_sect r)" and ?z = "sectobytes (rg_count r)"
    have r: "offset + sz < ?o" "0 < ?z" "regions_from (?o + ?z) rs" "?z mod 512 = 0" "?o mod 512 = 0"
      using Cons.prems(6) by (simp_all add: sectobytes_def secsize_def)
    have os: "(offset + sz) mod 512 = 0" by (rule mod512(1) [OF Cons.prems(3,5)])
    obtain s2 where s2: "fill_gap cfg (offset + sz) (?o - (offset + sz)) s1 = Some s2" "restore_ok cfg s2"
      "view s2 = (if dofill cfg then paint cfg (view s1) (offset + sz) (replicate (nat (?o - (offset + sz))) 0) else view s1)"
      using fill_gap_ok [OF s1(2), of "offset + sz" "?o - (offset + sz)"] r os Cons.prems(2,4) by auto
    have nr: "next_region cfg r (offset + sz) s1 = Some (?o, ?z, s2)" using r s2(1) by (simp add: next_region_def Let_def)
    have rest: "to_come cfg (view s2) ?o ?z rs (?b @ d) = to_come cfg (view s) offset sz (r # rs) (buf @ d)"
      using s1(3) s2(3) sz(1) by (simp add: Let_def)
    have len: "int (length (?b @ d)) = total_size ?z rs" using Cons.prems(10) sz by (simp add: total_size_def)
    show ?thesis
    proof (cases "int (length buf) = sz")
      case eq: True
      then have "?b = []" by simp
      then have "lay_out cfg buf offset sz (r # rs) s = Some (?o, ?z, rs, s2)" using s1(1) nr eq by (simp add: Let_def)
      then show ?thesis using r s2(2) rest len \<open>?b = []\<close> Cons.prems(2,4)
        by (intro exI [of _ ?o] exI [of _ ?z] exI [of _ rs] exI [of _ s2]) (simp del: to_come.simps lay_out.simps)
    next
      case more: False
      have "?b \<noteq> []" "int (length ?b) \<le> OUTSIZE" "int (length ?b) mod 512 = 0"
        using False more mod512(2) [OF Cons.prems(9,5)] Cons.prems(4,8) by (auto simp: of_nat_diff)
      note IH = Cons.IH [OF s2(2) _ r(5) r(2) r(4) r(3) this len]
      have "0 \<le> ?o" using r(1) Cons.prems(2,4) by simp
      moreover have "lay_out cfg buf offset sz (r # rs) s = lay_out cfg ?b ?o ?z rs s2" using s1(1) nr False more by (simp add: Let_def)
      ultimately show ?thesis using IH rest by (simp del: to_come.simps lay_out.simps)
    qed
  qed
qed

section \<open>Decompression\<close>

text \<open>
  What is relied on of the library: with compressed data that stand for some contents, a call writes as much as there is
  room for. As long as there is more to write, there is input left; the call that writes the last byte also reads the end
  of the compressed data and reports it.
\<close>

inductive inflates :: "'d inflater \<Rightarrow> 'd \<Rightarrow> byte list \<Rightarrow> byte list \<Rightarrow> bool" for ul where
  inflates_call: "input \<noteq> [] \<Longrightarrow>
    (\<And>n. 0 < n \<Longrightarrow> int (length data) \<le> n \<Longrightarrow>
      \<exists>z. inflate ul d input n = (Z_STREAM_END, z, [], data) \<and> inflateEnd ul z = Z_OK) \<Longrightarrow>
    (\<And>n. 0 < n \<Longrightarrow> n < int (length data) \<Longrightarrow>
      \<exists>z rest. inflate ul d input n = (Z_OK, z, rest, take (nat n) data) \<and> rest \<noteq> [] \<and> inflates ul z rest (drop (nat n) data)) \<Longrightarrow>
    inflates ul d input data"

inductive_cases inflates_elim: "inflates ul d input data"

lemma inflates_input: "inflates ul d input data \<Longrightarrow> input \<noteq> []"
  by (elim inflates_elim)

lemma inflates_last: "inflates ul d input data \<Longrightarrow> 0 < n \<Longrightarrow> int (length data) \<le> n \<Longrightarrow>
    \<exists>z. inflate ul d input n = (Z_STREAM_END, z, [], data) \<and> inflateEnd ul z = Z_OK"
  by (elim inflates_elim) blast

lemma inflates_more: "inflates ul d input data \<Longrightarrow> 0 < n \<Longrightarrow> n < int (length data) \<Longrightarrow>
    \<exists>z rest. inflate ul d input n = (Z_OK, z, rest, take (nat n) data) \<and> inflates ul z rest (drop (nat n) data)"
  by (elim inflates_elim) blast

lemma paint_Nil [simp]: "paint cfg t off [] = t"
  by (auto simp: paint_def)

lemma all_laid_out:
  assumes "total_size sz rs = 0" and "0 \<le> sz" and "regions_from o' rs"
  shows "sz = 0 \<and> rs = []"
proof -
  have pos: "0 \<le> sum_list (map (\<lambda>r. sectobytes (rg_count r)) rs)" if "regions_from o' rs" for o' rs
    using that by (induction rs arbitrary: o') (auto simp: sectobytes_def secsize_def)
  show ?thesis
  proof (cases rs)
    case (Cons r rs')
    then have "0 < sectobytes (rg_count r)" "regions_from (sectobytes (rg_sect r) + sectobytes (rg_count r)) rs'"
      using assms(3) by (simp_all add: sectobytes_def secsize_def)
    then show ?thesis using pos assms(1,2) Cons by (fastforce simp: total_size_def)
  qed (use assms in \<open>simp add: total_size_def\<close>)
qed

lemma inflate_loop_ok:
  assumes "restore_ok cfg s" and "inflates ul d input data" and "data \<noteq> []" and "int (length data) mod 512 = 0"
    and "int (length data) = total_size sz rs" and "0 \<le> offset" and "offset mod 512 = 0" and "0 < sz" and "sz mod 512 = 0"
    and "regions_from (offset + sz) rs"
  shows "\<exists>d1 o1 u. inflate_loop ul cfg err d input [] offset sz rs s = Some (Z_STREAM_END, d1, o1, 0, [], u) \<and> inflateEnd ul d1 = Z_OK \<and>
    restore_ok cfg u \<and> view u = to_come cfg (view s) offset sz rs data"
  using assms
proof (induction "length data" arbitrary: data d input err offset sz rs s rule: less_induct)
  case less
  define n where "n = (if OUTSIZE \<le> int (length data) then OUTSIZE else int (length data))"
  define buf where "buf = take (nat n) data"
  define left where "left = drop (nat n) data"
  have pos: "0 < int (length data)" using less.prems(3) by simp
  have big: "0 < OUTSIZE" "OUTSIZE mod 512 = 0" by (simp_all add: OUTSIZE_def)
  have n: "0 < n" "n \<le> OUTSIZE" "n mod 512 = 0" using less.prems(4) pos big by (auto simp: n_def)
  have buf: "buf \<noteq> []" "int (length buf) = n" "data = buf @ left"
    using n(1) big(1) less.prems(3) by (simp_all add: buf_def left_def) (simp add: n_def)
  have full: "length buf div 512 * 512 = length buf"
  proof -
    have "int (length buf) mod 512 = int (length buf mod 512)" by (simp add: zmod_int)
    then show ?thesis using n(3) buf(2) by (simp add: mod_eq_0_iff_dvd)
  qed
  obtain o1 z1 rs1 u where lay: "lay_out cfg buf offset sz rs s = Some (o1, z1, rs1, u)" "restore_ok cfg u" "0 \<le> o1" "o1 mod 512 = 0"
    "left \<noteq> [] \<longrightarrow> 0 < z1" "0 \<le> z1" "z1 mod 512 = 0" "regions_from (o1 + z1) rs1" "int (length left) = total_size z1 rs1"
    "to_come cfg (view u) o1 z1 rs1 left = to_come cfg (view s) offset sz rs data"
    using lay_out_ok [OF less.prems(1,6,7,8,9,10) buf(1), of left] buf n less.prems(5) by auto
  define u1 where "u1 = u\<lparr>totalddata := totalddata u + int (length buf)\<rparr>"
  have u1: "restore_ok cfg u1" "view u1 = view u" using lay(2) by (simp_all add: u1_def restore_ok_def view_def)
  have input: "input \<noteq> []" by (rule inflates_input [OF less.prems(2)])
  have step: "inflate_loop ul cfg err d input [] offset sz rs s = inflate_loop ul cfg err1 d1 rest [] o1 z1 rs1 u1"
    if "inflate ul d input OUTSIZE = (err1, d1, rest, buf)" "err1 = Z_OK \<or> err1 = Z_STREAM_END" for err1 d1 rest
    using input that full buf(1) lay(1) by (subst inflate_loop.simps) (auto simp: u1_def)
  show ?case
  proof (cases "int (length data) \<le> OUTSIZE")
    case True
    then have "n = int (length data)" by (simp add: n_def)
    then have whole: "left = []" "buf = data" by (simp_all add: left_def buf_def)
    obtain d1 where d1: "inflate ul d input OUTSIZE = (Z_STREAM_END, d1, [], buf)" "inflateEnd ul d1 = Z_OK"
      using inflates_last [OF less.prems(2) big(1) True] whole by auto
    have fin: "z1 = 0" "rs1 = []" using all_laid_out [of z1 rs1] lay(6,8,9) whole by auto
    have "inflate_loop ul cfg err d input [] offset sz rs s = Some (Z_STREAM_END, d1, o1, 0, [], u1)"
      using step [OF d1(1)] fin inflate_loop.simps [of ul cfg Z_STREAM_END d1 "[]" "[]" o1 z1 rs1 u1] by simp
    then show ?thesis using d1(2) u1 lay(10) fin whole by simp
  next
    case False
    then obtain d1 rest where d1: "inflate ul d input OUTSIZE = (Z_OK, d1, rest, buf)" "inflates ul d1 rest left"
      using inflates_more [OF less.prems(2) big(1)] by (auto simp: buf_def left_def n_def)
    have left: "left \<noteq> []" "length left < length data" using False pos n by (auto simp: left_def n_def)
    have "int (length left) mod 512 = 0"
      using mod512(2) [OF less.prems(4) n(3)] buf(2,3) by simp
    from less.hyps [OF left(2) u1(1) d1(2) left(1) this lay(9) lay(3,4) _ lay(7,8)] lay(5) left(1)
    obtain d2 o2 v where "inflate_loop ul cfg Z_OK d1 rest [] o1 z1 rs1 u1 = Some (Z_STREAM_END, d2, o2, 0, [], v)"
      "inflateEnd ul d2 = Z_OK" "restore_ok cfg v" "view v = to_come cfg (view u1) o1 z1 rs1 left" by blast
    then show ?thesis using step [OF d1(1)] u1(2) lay(10) by simp
  qed
qed

section \<open>One chunk\<close>

text \<open>The byte of the saved disk at an offset of the image, and what restoring a chunk makes of the target.\<close>

definition saved_byte :: "izconfig \<Rightarrow> int \<Rightarrow> byte" where
  "saved_byte z y = disk z ! nat (inputminsec z * 512 + y)"

definition restored :: "'x uzconfig_scheme \<Rightarrow> izconfig \<Rightarrow> int set \<Rightarrow> int set \<Rightarrow> (int \<Rightarrow> byte) \<Rightarrow> int \<Rightarrow> byte" where
  "restored cfg z data space t x =
     (let y = x - sectobytes (outputminsec cfg) in
      if \<not> in_limit cfg x then t x
      else if y div 512 \<in> data then saved_byte z y
      else if dofill cfg \<and> y div 512 \<in> space then 0 else t x)"

fun regs_end :: "int \<Rightarrow> region list \<Rightarrow> int" where
  "regs_end e [] = e"
| "regs_end e (r # rs) = regs_end (rg_sect r + rg_count r) rs"

lemma regs_end_last: "rs \<noteq> [] \<Longrightarrow> regs_end e rs = rg_sect (last rs) + rg_count (last rs)"
  by (induction rs arbitrary: e) auto

lemma regions_from_sects:
  assumes "regions_from (e * 512) rs"
  shows "e \<le> regs_end e rs \<and> rsects rs \<subseteq> {e<..<regs_end e rs}"
  using assms
proof (induction rs arbitrary: e)
  case (Cons r rs)
  have r: "e < rg_sect r" "0 < rg_count r" "regions_from ((rg_sect r + rg_count r) * 512) rs"
    using Cons.prems by (simp_all add: sectobytes_def secsize_def distrib_right)
  show ?case using Cons.IH [OF r(3)] r(1,2) by auto
qed simp

lemma in_sectors: "a * 512 \<le> y \<and> y < a * 512 + n * 512 \<longleftrightarrow> y div 512 \<in> {a..<a + n}" for a n y :: int
proof -
  have "a * 512 \<le> y \<longleftrightarrow> a \<le> y div 512" "y < a * 512 + n * 512 \<longleftrightarrow> y div 512 < a + n" by linarith+
  then show ?thesis by simp
qed

lemma paint_sectors:
  assumes "int (length bs) = n * 512"
  shows "paint cfg t (a * 512) bs x =
    (let y = x - sectobytes (outputminsec cfg) in
     if in_limit cfg x \<and> y div 512 \<in> {a..<a + n} then bs ! nat (y - a * 512) else t x)"
proof -
  define y where "y = x - sectobytes (outputminsec cfg)"
  have inside: "a * 512 + sectobytes (outputminsec cfg) \<le> x \<and> x < a * 512 + sectobytes (outputminsec cfg) + int (length bs) \<longleftrightarrow>
      y div 512 \<in> {a..<a + n}"
    using in_sectors [of a y n] assms by (auto simp: y_def)
  have index: "x - (a * 512 + sectobytes (outputminsec cfg)) = y - a * 512" by (simp add: y_def)
  show ?thesis unfolding paint_def put_bytes_def inside index Let_def y_def [symmetric] by simp
qed

lemma paint_zeros:
  "paint cfg t (a * 512) (replicate (nat ((b - a) * 512)) 0) x =
    (let y = x - sectobytes (outputminsec cfg) in if in_limit cfg x \<and> y div 512 \<in> {a..<b} then 0 else t x)"
proof (cases "a \<le> b")
  case True
  define y where "y = x - sectobytes (outputminsec cfg)"
  have "nat (y - a * 512) < nat ((b - a) * 512)" if "y div 512 \<in> {a..<b}"
    using in_sectors [of a y "b - a"] that by simp
  then show ?thesis using paint_sectors [of "replicate (nat ((b - a) * 512)) 0" "b - a" cfg t a x] True
    by (simp add: Let_def y_def)
qed simp

lemma saved_sectors:
  assumes "0 \<le> inputminsec z" and "0 \<le> a" and "y div 512 \<in> {a..<a + n}"
    and "(inputminsec z + (a + n)) * 512 \<le> int (length (disk z))"
  shows "devread z ((inputminsec z + a) * 512) (n * 512) ! nat (y - a * 512) = saved_byte z y"
proof -
  have y: "a * 512 \<le> y" "y < a * 512 + n * 512" using in_sectors [of a y n] assms(3) by auto
  have "nat ((inputminsec z + a) * 512) + nat (y - a * 512) = nat (inputminsec z * 512 + y)"
    using assms(1,2) y(1) by (simp add: nat_add_distrib [symmetric] distrib_right)
  then show ?thesis using assms y by (simp add: devread_def saved_byte_def)
qed

lemma to_come_value:
  assumes "0 \<le> inputminsec z" and "inputmaxsec z * 512 \<le> int (length (disk z))" and "0 \<le> a" and "0 < n"
    and "regions_from ((a + n) * 512) rs" and "regs_end (a + n) rs \<le> inputmaxsec z - inputminsec z"
  shows "to_come cfg t (a * 512) (n * 512) rs (devread z ((inputminsec z + a) * 512) (n * 512) @ regions_bytes z rs) =
    restored cfg z ({a..<a + n} \<union> rsects rs) {a..<regs_end (a + n) rs} t"
  using assms(3-6)
proof (induction rs arbitrary: a n t)
  case Nil
  have room: "(inputminsec z + (a + n)) * 512 \<le> int (length (disk z))" using assms(2) Nil.prems(4) by simp
  have len: "int (length (devread z ((inputminsec z + a) * 512) (n * 512))) = n * 512"
    using devread_length [of "(inputminsec z + a) * 512" "n * 512" z] assms(1) Nil.prems(1,2) room by (simp add: distrib_right)
  note saved = saved_sectors [OF assms(1) Nil.prems(1) _ room]
  define d where "d = devread z ((inputminsec z + a) * 512) (n * 512)"
  have "take (nat (n * 512)) d = d" using len by (simp add: d_def)
  then have "to_come cfg t (a * 512) (n * 512) [] (d @ regions_bytes z []) = paint cfg t (a * 512) d" by (simp add: regions_bytes_def)
  also have "\<dots> = restored cfg z ({a..<a + n} \<union> rsects []) {a..<regs_end (a + n) []} t"
    using paint_sectors [OF len [folded d_def], of cfg t a] saved [folded d_def] by (auto simp: fun_eq_iff restored_def Let_def)
  finally show ?case unfolding d_def .
next
  case (Cons r rs)
  have r: "a + n < rg_sect r" "0 < rg_count r" "regions_from ((rg_sect r + rg_count r) * 512) rs"
    using Cons.prems(3) by (simp_all add: sectobytes_def secsize_def distrib_right)
  have ends: "rg_sect r + rg_count r \<le> regs_end (rg_sect r + rg_count r) rs"
    "rsects rs \<subseteq> {rg_sect r + rg_count r<..<regs_end (rg_sect r + rg_count r) rs}"
    using regions_from_sects [OF r(3)] by simp_all
  define d where "d = devread z ((inputminsec z + a) * 512) (n * 512)"
  have room: "(inputminsec z + (a + n)) * 512 \<le> int (length (disk z))" using assms(2) Cons.prems(4) r ends by simp
  have len: "int (length d) = n * 512"
    using devread_length [of "(inputminsec z + a) * 512" "n * 512" z] assms(1) Cons.prems(1,2) room by (simp add: d_def distrib_right)
  note saved = saved_sectors [OF assms(1) Cons.prems(1) _ room, folded d_def]
  define t1 where "t1 = (let t1 = paint cfg t (a * 512) d; gap = sectobytes (rg_sect r) - (a * 512 + n * 512) in
         if dofill cfg then paint cfg t1 (a * 512 + n * 512) (replicate (nat gap) 0) else t1)"
  have gap: "a * 512 + n * 512 = (a + n) * 512" "sectobytes (rg_sect r) - (a + n) * 512 = (rg_sect r - (a + n)) * 512"
    by (simp_all add: sectobytes_def secsize_def algebra_simps)
  define p where "p = paint cfg t (a * 512) d"
  define q where "q = paint cfg p ((a + n) * 512) (replicate (nat ((rg_sect r - (a + n)) * 512)) 0)"
  have t1_eq: "t1 = (if dofill cfg then q else p)" unfolding t1_def gap p_def q_def Let_def ..
  note pq = paint_sectors [OF len, of cfg t a, folded p_def] paint_zeros [of cfg p "a + n" "rg_sect r", folded q_def]
  have t1: "t1 x = restored cfg z {a..<a + n} {a..<rg_sect r} t x" for x
    using pq [of x] r(1) Cons.prems(2) saved [of "x - sectobytes (outputminsec cfg)"]
    unfolding t1_eq by (auto simp: restored_def Let_def)
  have "to_come cfg t (a * 512) (n * 512) (r # rs) (d @ regions_bytes z (r # rs)) =
      to_come cfg t1 (rg_sect r * 512) (rg_count r * 512) rs (regions_bytes z (r # rs))"
    using len by (simp add: t1_def sectobytes_def secsize_def)
  also have "\<dots> = restored cfg z ({rg_sect r..<rg_sect r + rg_count r} \<union> rsects rs) {rg_sect r..<regs_end (rg_sect r + rg_count r) rs} t1"
    using Cons.IH [of "rg_sect r" "rg_count r" t1] r Cons.prems by (simp add: regions_bytes_def region_bytes_def)
  also have "\<dots> = restored cfg z ({a..<a + n} \<union> rsects (r # rs)) {a..<regs_end (a + n) (r # rs)} t"
  proof
    fix x
    show "restored cfg z ({rg_sect r..<rg_sect r + rg_count r} \<union> rsects rs) {rg_sect r..<regs_end (rg_sect r + rg_count r) rs} t1 x =
      restored cfg z ({a..<a + n} \<union> rsects (r # rs)) {a..<regs_end (a + n) (r # rs)} t x"
      using t1 [of x] r(1,2) ends Cons.prems(2) by (auto simp: restored_def Let_def)
  qed
  finally show ?case unfolding d_def .
qed

definition codec_ok :: "'z deflater \<Rightarrow> 'd inflater \<Rightarrow> bool" where
  "codec_ok zl ul \<longleftrightarrow> (\<exists>z. inflateInit ul = Some z \<and> (\<forall>d c. deflated zl d c \<and> d \<noteq> [] \<longrightarrow> inflates ul z c d))"

definition chunk_space :: "chunk \<Rightarrow> int set" where
  "chunk_space c = {h_firstsect c..<h_lastsect c}"

lemma regions_ok_from:
  assumes "regions_ok lo hi (r # rs)"
  shows "regions_from ((rg_sect r + rg_count r) * 512) rs \<and> regs_end (rg_sect r + rg_count r) rs \<le> hi \<and> lo \<le> rg_sect r \<and> 0 < rg_count r \<and>
    rg_sect r + rg_count r \<le> regs_end (rg_sect r + rg_count r) rs"
  using assms
proof (induction rs arbitrary: r)
  case (Cons r' rs)
  have "regions_ok lo hi (r' # rs)" "rg_sect r + rg_count r < rg_sect r'" "lo \<le> rg_sect r" "0 < rg_count r"
    using Cons.prems by (auto simp: regions_ok_def)
  then show ?case using Cons.IH [of r'] by (simp add: sectobytes_def secsize_def distrib_right)
qed (simp add: regions_ok_def)

lemma regions_bytes_length:
  assumes "regions_ok lo hi rs" and "0 \<le> inputminsec z" and "0 \<le> lo" and "hi \<le> inputmaxsec z - inputminsec z"
    and "inputmaxsec z * 512 \<le> int (length (disk z))"
  shows "int (length (regions_bytes z rs)) = total_size 0 rs"
  using assms(1)
proof (induction rs)
  case (Cons r rs)
  have r: "lo \<le> rg_sect r" "0 < rg_count r" "rg_sect r + rg_count r \<le> hi" "regions_ok lo hi rs"
    using Cons.prems by (simp_all add: regions_ok_def)
  have "int (length (region_bytes z r)) = rg_count r * 512"
    unfolding region_bytes_def using r assms(2-5) by (intro devread_length) auto
  then show ?case using Cons.IH [OF r(4)] by (simp add: regions_bytes_def total_size_def sectobytes_def secsize_def)
qed (simp add: regions_bytes_def total_size_def)

lemma total_size_mod: "total_size sz rs mod 512 = sz mod 512"
proof -
  have "sum_list (map (\<lambda>r. sectobytes (rg_count r)) rs) = sum_list (map rg_count rs) * 512"
    by (induction rs) (simp_all add: sectobytes_def secsize_def distrib_right)
  then show ?thesis by (simp add: total_size_def)
qed

lemma restored_none [simp]: "restored cfg z {} {} t = t"
  by (rule ext) (simp add: restored_def Let_def)

lemma restored_more:
  assumes "\<forall>y \<in> D. y \<in> S \<longrightarrow> y \<in> D'" 
  shows "restored cfg z D' S (restored cfg z D S' t) = restored cfg z (D \<union> D') (S' \<union> S) t"
  using assms by (auto simp: restored_def Let_def fun_eq_iff)

lemma fill_gap_restored:
  assumes "restore_ok cfg s" and "0 \<le> a" and "a < b"
  shows "\<exists>u. fill_gap cfg (a * 512) ((b - a) * 512) s = Some u \<and> restore_ok cfg u \<and> view u = restored cfg z {} {a..<b} (view s)"
proof -
  have "0 < (b - a) * 512" using assms(3) by simp
  then obtain u where u: "fill_gap cfg (a * 512) ((b - a) * 512) s = Some u" "restore_ok cfg u"
    "view u = (if dofill cfg then paint cfg (view s) (a * 512) (replicate (nat ((b - a) * 512)) 0) else view s)"
    using fill_gap_ok [OF assms(1), of "a * 512" "(b - a) * 512"] assms(2) by auto
  have "view u = restored cfg z {} {a..<b} (view s)"
    using paint_zeros [of cfg "view s" a b] unfolding u(3) by (auto simp: restored_def Let_def fun_eq_iff)
  then show ?thesis using u by blast
qed

lemma inflate_subblock_unfold:
  assumes "inflateInit ul = Some d0" and "h_regions c = r # rs"
    and "(if rg_sect r > h_firstsect c
          then fill_gap cfg (sectobytes (h_firstsect c)) (sectobytes (to_u32 (rg_sect r - h_firstsect c))) (s\<lparr>reloctable := h_relocs c\<rparr>)
          else Some (s\<lparr>reloctable := h_relocs c\<rparr>)) = Some s1"
    and "(sectobytes (rg_count r) > 0) = True" and "(h_size c > 0 \<and> h_size c \<le> int (length (payload c))) = True"
    and "inflate_loop ul cfg Z_OK d0 (take (nat (h_size c)) (payload c)) [] (sectobytes (rg_sect r)) (sectobytes (rg_count r)) rs s1 =
      Some (Z_STREAM_END, d1, o1, 0, [], s2)"
    and "inflateEnd ul d1 = Z_OK"
    and "(if region_end (last (r # rs)) < h_lastsect c
          then fill_gap cfg (sectobytes (region_end (last (r # rs)))) (sectobytes (to_u32 (h_lastsect c - region_end (last (r # rs))))) s2
          else Some s2) = Some s3"
  shows "inflate_subblock ul cfg c s = Some (s3\<lparr>donechunks := donechunks s3 + 1\<rparr>)"
  unfolding inflate_subblock_def by (simp only: assms Let_def list.case Option.bind.simps c_assert_bind if_True prod.case simp_thms)

lemma inflate_subblock_ok:
  assumes "codec_ok zl ul" and "image_frame z" and "chunk_ok zl z c" and "0 \<le> h_firstsect c" and "h_lastsect c \<le> inputmaxsec z - inputminsec z"
    and "restore_ok cfg s"
  shows "\<exists>u. inflate_subblock ul cfg c s = Some u \<and> restore_ok cfg u \<and>
    view u = restored cfg z (rsects (h_regions c)) (chunk_space c) (view s)"
proof -
  have fr: "0 \<le> inputminsec z" "inputmaxsec z * 512 \<le> int (length (disk z))" "inputmaxsec z < 2 ^ 32"
    using assms(2) by (simp_all add: image_frame_def)
  have c: "h_relocs c = []" "regions_ok (h_firstsect c) (h_lastsect c) (h_regions c)" "0 < h_size c" "h_size c \<le> int (length (payload c))"
    "deflated zl (regions_bytes z (h_regions c)) (take (nat (h_size c)) (payload c))"
    using assms(3) by (simp_all add: chunk_ok_def)
  obtain r rs where regs: "h_regions c = r # rs" using assms(3) by (cases "h_regions c") (auto simp: chunk_ok_def)
  define a where "a = rg_sect r"
  define n where "n = rg_count r"
  define e where "e = regs_end (a + n) rs"
  have r: "regions_from ((a + n) * 512) rs" "e \<le> h_lastsect c" "h_firstsect c \<le> a" "0 < n" "a + n \<le> e"
    using regions_ok_from [OF c(2) [unfolded regs]] by (simp_all add: a_def n_def e_def)
  have inside: "rsects rs \<subseteq> {a + n<..<e}" using regions_from_sects [OF r(1)] by (simp add: e_def)
  have bytes: "sectobytes (rg_sect r) = a * 512" "sectobytes (rg_count r) = n * 512" by (simp_all add: a_def n_def sectobytes_def secsize_def)
  define data where "data = regions_bytes z (h_regions c)"
  have data: "data = devread z ((inputminsec z + a) * 512) (n * 512) @ regions_bytes z rs"
    by (simp add: data_def regs regions_bytes_def region_bytes_def a_def n_def)
  have len: "int (length data) = total_size (n * 512) rs" 
    using regions_bytes_length [OF c(2) fr(1) assms(4,5) fr(2)] by (simp add: data_def regs total_size_def bytes)
  obtain d0 where d0: "inflateInit ul = Some d0" "data \<noteq> [] \<longrightarrow> inflates ul d0 (take (nat (h_size c)) (payload c)) data"
    using assms(1) c(5) by (auto simp: codec_ok_def data_def)
  have d: "data \<noteq> []" "int (length data) mod 512 = 0"
  proof -
    have "int (length (devread z ((inputminsec z + a) * 512) (n * 512))) = n * 512"
      using r fr assms(4,5) by (intro devread_length) auto
    then show "data \<noteq> []" using data r(4) by auto
    show "int (length data) mod 512 = 0" using len total_size_mod [of "n * 512" rs] by simp
  qed
  have u32: "to_u32 k = k" if "0 \<le> k" "k \<le> h_lastsect c" for k
    using that assms(5) fr by (intro to_u32_id) auto
  define s0 where "s0 = s\<lparr>reloctable := h_relocs c\<rparr>"
  have s0: "restore_ok cfg s0" "view s0 = view s" using assms(6) c(1) by (simp_all add: s0_def restore_ok_def view_def)
  define lead where "lead = (if a > h_firstsect c then fill_gap cfg (sectobytes (h_firstsect c)) (sectobytes (to_u32 (a - h_firstsect c))) s0 else Some s0)"
  obtain s1 where s1: "lead = Some s1" "restore_ok cfg s1" "view s1 = restored cfg z {} {h_firstsect c..<a} (view s)"
  proof (cases "a > h_firstsect c")
    case True
    then have "sectobytes (h_firstsect c) = h_firstsect c * 512" "sectobytes (to_u32 (a - h_firstsect c)) = (a - h_firstsect c) * 512"
      using u32 [of "a - h_firstsect c"] r assms(4) by (simp_all add: sectobytes_def secsize_def)
    then show ?thesis using fill_gap_restored [OF s0(1) assms(4) True, of z] that True s0(2) by (auto simp: lead_def)
  next
    case False
    then show ?thesis using that [of s0] s0 by (simp add: lead_def)
  qed
  obtain d1 o1 s2 where s2: "inflate_loop ul cfg Z_OK d0 (take (nat (h_size c)) (payload c)) [] (a * 512) (n * 512) rs s1 =
      Some (Z_STREAM_END, d1, o1, 0, [], s2)" "inflateEnd ul d1 = Z_OK" "restore_ok cfg s2"
    "view s2 = to_come cfg (view s1) (a * 512) (n * 512) rs data"
    using inflate_loop_ok [OF s1(2) _ d len, of ul d0 "take (nat (h_size c)) (payload c)" "a * 512" Z_OK] d0(2) d(1) r(1,3,4) assms(4)
    by (auto simp: distrib_right)
  have v2: "view s2 = restored cfg z ({a..<a + n} \<union> rsects rs) {a..<e} (view s1)"
    using to_come_value [OF fr(1,2) _ r(4) r(1), of cfg "view s1"] r assms(4,5) s2(4) by (simp add: data e_def)
  have lst: "region_end (last (r # rs)) = e"
    using regs_end_last [of "r # rs" 0] u32 [of e] r assms(4) by (simp add: region_end_def e_def a_def n_def)
  define trail where "trail = (if e < h_lastsect c then fill_gap cfg (sectobytes e) (sectobytes (to_u32 (h_lastsect c - e))) s2 else Some s2)"
  obtain s3 where s3: "trail = Some s3" "restore_ok cfg s3" "view s3 = restored cfg z {} {e..<h_lastsect c} (view s2)"
  proof (cases "e < h_lastsect c")
    case True
    then have "sectobytes e = e * 512" "sectobytes (to_u32 (h_lastsect c - e)) = (h_lastsect c - e) * 512"
      using u32 [of "h_lastsect c - e"] r assms(4) by (simp_all add: sectobytes_def secsize_def)
    then show ?thesis using fill_gap_restored [OF s2(3) _ True, of z] that True r assms(4) by (auto simp: trail_def)
  next
    case False
    then show ?thesis using that [of s2] s2(3) by (simp add: trail_def)
  qed
  have "inflate_subblock ul cfg c s = Some (s3\<lparr>donechunks := donechunks s3 + 1\<rparr>)"
    using inflate_subblock_unfold [OF d0(1) regs, of cfg s s1 d1 o1 s2 s3] s1(1) s2(1,2) s3(1) c(3,4) r(4)
    unfolding lead_def trail_def s0_def lst bytes a_def by (simp add: n_def)
  moreover have "view s3 = restored cfg z (rsects (h_regions c)) (chunk_space c) (view s)"
    unfolding s3(3) v2 s1(3) using r inside
    by (auto simp: restored_def Let_def fun_eq_iff regs chunk_space_def a_def [symmetric] n_def [symmetric])
  ultimately show ?thesis using s3(2) by (auto simp: restore_ok_def view_def)
qed

section \<open>All chunks\<close>

text \<open>
  Restoring an image: chunks are decompressed in any order, possibly more than once, and the writer thread takes requests
  from the queue at any time in between.
\<close>

datatype restore_event = Unzip chunk | Writer

fun restore_run :: "'d inflater \<Rightarrow> 'x uzconfig_scheme \<Rightarrow> restore_event list \<Rightarrow> unzip \<Rightarrow> unzip option" where
  "restore_run ul cfg [] s = Some s"
| "restore_run ul cfg (Unzip c # es) s = do { s1 \<leftarrow> inflate_subblock ul cfg c s; restore_run ul cfg es s1 }"
| "restore_run ul cfg (Writer # es) s = do { s1 \<leftarrow> DiskWriter cfg s; restore_run ul cfg es s1 }"

fun unzipped :: "restore_event list \<Rightarrow> chunk set" where
  "unzipped [] = {}"
| "unzipped (Unzip c # es) = insert c (unzipped es)"
| "unzipped (Writer # es) = unzipped es"

definition space_of :: "chunk set \<Rightarrow> int set" where
  "space_of cs = (\<Union>c \<in> cs. chunk_space c)"

definition data_of :: "chunk set \<Rightarrow> int set" where
  "data_of cs = (\<Union>c \<in> cs. rsects (h_regions c))"

lemma chunk_data_inside:
  assumes "chunk_ok zl z c"
  shows "rsects (h_regions c) \<subseteq> chunk_space c \<and> h_firstsect c < h_lastsect c"
proof -
  obtain r rs where r: "h_regions c = r # rs" using assms by (cases "h_regions c") (auto simp: chunk_ok_def)
  have ok: "regions_ok (h_firstsect c) (h_lastsect c) (h_regions c)" using assms by (simp add: chunk_ok_def)
  then have "rsects (h_regions c) \<subseteq> chunk_space c" by (auto simp: rsects_def regions_ok_def chunk_space_def)
  moreover have "h_firstsect c < h_lastsect c" using ok r by (auto simp: regions_ok_def)
  ultimately show ?thesis by simp
qed

text \<open>Chunks that follow one another fill the disk, and the data of one do not lie in another.\<close>

lemma tiles_space:
  assumes "tiles lo cs hi" and "\<forall>c \<in> set cs. chunk_ok zl z c"
  shows "lo \<le> hi \<and> space_of (set cs) = {lo..<hi} \<and> (\<forall>c \<in> set cs. lo \<le> h_firstsect c \<and> h_lastsect c \<le> hi) \<and>
    (\<forall>c \<in> set cs. \<forall>c' \<in> set cs. rsects (h_regions c') \<inter> chunk_space c \<subseteq> rsects (h_regions c))"
  using assms
proof (induction cs arbitrary: lo)
  case (Cons c cs)
  have c: "h_firstsect c = lo" "tiles (h_lastsect c) cs hi" "lo < h_lastsect c" "rsects (h_regions c) \<subseteq> chunk_space c"
    using Cons.prems chunk_data_inside [of zl z c] by auto
  have IH: "h_lastsect c \<le> hi" "space_of (set cs) = {h_lastsect c..<hi}"
    "\<forall>c' \<in> set cs. h_lastsect c \<le> h_firstsect c' \<and> h_lastsect c' \<le> hi"
    "\<forall>c \<in> set cs. \<forall>c' \<in> set cs. rsects (h_regions c') \<inter> chunk_space c \<subseteq> rsects (h_regions c)"
    using Cons.IH [OF c(2)] Cons.prems(2) by simp_all
  have space: "chunk_space c = {lo..<h_lastsect c}" using c(1) by (simp add: chunk_space_def)
  have later: "chunk_space c' \<inter> chunk_space c = {}" "rsects (h_regions c') \<subseteq> chunk_space c'" if "c' \<in> set cs" for c'
    using that IH(3) Cons.prems(2) chunk_data_inside [of zl z c'] space by (auto simp: chunk_space_def)
  have "space_of (set (c # cs)) = {lo..<hi}" using IH(1,2) c(3) space by (auto simp: space_of_def)
  moreover have "\<forall>c1 \<in> set (c # cs). lo \<le> h_firstsect c1 \<and> h_lastsect c1 \<le> hi" using IH(1,3) c(1,3) by auto
  moreover have "rsects (h_regions c2) \<inter> chunk_space c1 \<subseteq> rsects (h_regions c1)" if "c1 \<in> set (c # cs)" "c2 \<in> set (c # cs)" for c1 c2
  proof (cases "c1 \<in> set cs"; cases "c2 \<in> set cs")
    assume "c1 \<in> set cs" "c2 \<notin> set cs"
    then show ?thesis using that later [of c1] c(4) by auto
  next
    assume "c1 \<notin> set cs" "c2 \<in> set cs"
    then show ?thesis using that later [of c2] by auto
  qed (use that IH(4) in auto)
  ultimately show ?case using IH(1) c(3) by auto
qed (simp add: space_of_def)

text \<open>One more chunk on a disk to which some have been restored.\<close>

lemma restored_step:
  assumes "data_of P \<inter> chunk_space c \<subseteq> rsects (h_regions c)" 
  shows "restored cfg z (rsects (h_regions c)) (chunk_space c) (restored cfg z (data_of P) (space_of P) t) =
    restored cfg z (data_of (insert c P)) (space_of (insert c P)) t"
proof
  fix x
  show "restored cfg z (rsects (h_regions c)) (chunk_space c) (restored cfg z (data_of P) (space_of P) t) x =
    restored cfg z (data_of (insert c P)) (space_of (insert c P)) t x"
    using assms by (auto simp: restored_def Let_def data_of_def space_of_def)
qed

lemma restore_run_ok:
  assumes "codec_ok zl ul" and "image_frame z" and "\<forall>c \<in> set cs. chunk_ok zl z c" and "tiles 0 cs (inputmaxsec z - inputminsec z)"
    and "restore_ok cfg s" and "unzipped es \<subseteq> set cs" and "P \<subseteq> set cs" and "view s = restored cfg z (data_of P) (space_of P) t"
  shows "\<exists>u. restore_run ul cfg es s = Some u \<and> restore_ok cfg u \<and>
    view u = restored cfg z (data_of (P \<union> unzipped es)) (space_of (P \<union> unzipped es)) t"
  using assms(5-8)
proof (induction es arbitrary: s P rule: unzipped.induct)
  case 1
  then show ?case by simp
next
  case (2 c es)
  note sp = tiles_space [OF assms(4,3)]
  have c: "c \<in> set cs" "chunk_ok zl z c" using 2 assms(3) by simp_all
  obtain u where u: "inflate_subblock ul cfg c s = Some u" "restore_ok cfg u"
    "view u = restored cfg z (rsects (h_regions c)) (chunk_space c) (view s)"
    using inflate_subblock_ok [OF assms(1,2) c(2) _ _ 2(2)] sp c(1) by auto
  have "data_of P \<inter> chunk_space c \<subseteq> rsects (h_regions c)" using sp c(1) 2(4) unfolding data_of_def by blast
  then have "view u = restored cfg z (data_of (insert c P)) (space_of (insert c P)) t"
    using u(3) 2(5) restored_step [of P c cfg z t] by simp
  from 2(1) [OF u(2) _ _ this] show ?case using u(1) 2(3,4) c(1) by simp
next
  case (3 es)
  obtain u where u: "DiskWriter cfg s = Some u" "view u = view s" "restore_ok cfg u" using DiskWriter_ok [OF 3(2)] by blast
  from 3(1) [OF u(3) _ 3(4)] show ?case using u(1,2) 3(3,5) by simp
qed

section \<open>The property\<close>

definition saved_sects :: "izconfig \<Rightarrow> int \<Rightarrow> izlists \<Rightarrow> int set" where
  "saved_sects cfg frangesize z =
     {y. y + inputminsec cfg \<in> {inputminsec cfg..<inputmaxsec cfg} - big_free frangesize (sects (skips z))}"

lemma all_restored:
  assumes "codec_ok zl ul" and "image_frame z" and "\<forall>c \<in> set cs. chunk_ok zl z c" and "tiles 0 cs (inputmaxsec z - inputminsec z)"
    and "restore_ok cfg s" and "unzipped es = set cs"
  shows "\<exists>u v. restore_run ul cfg es s = Some u \<and> threadwait cfg u = Some v \<and> writequeue v = [] \<and>
    target v = restored cfg z (chunks_sects cs) {0..<inputmaxsec z - inputminsec z} (view s)"
proof -
  have "view s = restored cfg z (data_of {}) (space_of {}) (view s)" by (simp add: data_of_def space_of_def)
  from restore_run_ok [OF assms(1-5) _ _ this, of es] assms(6)
  obtain u where u: "restore_run ul cfg es s = Some u" "restore_ok cfg u"
    "view u = restored cfg z (data_of (set cs)) (space_of (set cs)) (view s)" by auto
  obtain v where v: "threadwait cfg u = Some v" "target v = view u" "writequeue v = []" using threadwait_ok [OF u(2)] by blast
  have "space_of (set cs) = {0..<inputmaxsec z - inputminsec z}" "data_of (set cs) = chunks_sects cs"
    using tiles_space [OF assms(4,3)] by (simp_all add: data_of_def chunks_sects_def)
  then show ?thesis using u v by auto
qed

text \<open>What imagezip saves.\<close>

lemma image_saved:
  assumes "deflater_ok zl" and "image_frame zcfg"
    and "disjoint_ranges (skips z)" and "within (inputminsec zcfg) (inputmaxsec zcfg) (skips z)"
    and "0 \<le> frangesize" and "frangesize < 2 ^ 31" and "ranges z = []" and "fixups z = []" and "relocs z = []"
    and "saved_sects zcfg frangesize z \<noteq> {}"
  shows "\<exists>n z1 z2 cs. mergeskips frangesize False z = Some (n, z1) \<and> makeranges (inputminsec zcfg) (inputmaxsec zcfg) z1 = Some z2 \<and>
    compress_image zl zcfg z2 = Some cs \<and> (\<forall>c \<in> set cs. chunk_ok zl zcfg c) \<and>
    tiles 0 cs (inputmaxsec zcfg - inputminsec zcfg) \<and> chunks_sects cs = saved_sects zcfg frangesize z"
proof -
  have fr: "0 \<le> inputminsec zcfg" "inputminsec zcfg \<le> inputmaxsec zcfg" "0 < inputmaxsec zcfg" "inputmaxsec zcfg < 2 ^ 32"
    using assms(2) by (simp_all add: image_frame_def)
  obtain n z1 fs where z1: "mergeskips frangesize False z = Some (n, z1)" "sects (skips z1) = big_free frangesize (sects (skips z))"
    "sorted_wrt apart (skips z1)" "within (inputminsec zcfg) (inputmaxsec zcfg) (skips z1)"
    "z1 = z\<lparr>skips := skips z1, fixups := fs\<rparr>" "fs = fixups z"
    using mergeskips_spec [OF assms(3,4) fr(1,4) assms(5,6), of False] by auto
  have lists1: "ranges z1 = []" "fixups z1 = []" "relocs z1 = []" using assms(7-9) z1(6) by (subst z1(5); simp)+
  obtain z2 where z2: "makeranges (inputminsec zcfg) (inputmaxsec zcfg) z1 = Some z2"
    "sects (ranges z2) = {inputminsec zcfg..<inputmaxsec zcfg} - sects (skips z1)"
    "sorted_wrt apart (ranges z2)" "within (inputminsec zcfg) (inputmaxsec zcfg) (ranges z2)" "z2 = z1\<lparr>ranges := ranges z2\<rparr>"
    using makeranges_spec [OF z1(3,4) fr(1,2,4,3) lists1(1)] by blast
  have lists2: "fixups z2 = []" "relocs z2 = []" using lists1 by (subst z2(5); simp)+
  have saved: "{x. x + inputminsec zcfg \<in> sects (ranges z2)} = saved_sects zcfg frangesize z"
    using z1(2) z2(2) by (auto simp: saved_sects_def)
  have "ranges z2 \<noteq> []" using saved assms(10) by auto
  from image_written_ok [OF assms(1,2) lists2 this z2(3,4)] show ?thesis using z1(1) z2(1) saved by auto
qed

text \<open>
  C3. Saving a disk and restoring it. When the free ranges that were found are disjoint, not empty and lie in the part of
  the disk that is saved, there are no fixups and relocations, and the compression library keeps its promises, imagezip writes an image. Restoring its
  chunks, in any order, also repeatedly, with the writer thread taking turns at any time, ends without an error, and when
  the queue has been written every sector of the target inside the slice holds what the saved disk held, with the
  exception of those in a run of free sectors of at least the given size: these are zero when zeros are asked for, and
  unchanged otherwise. Nothing behind the end of the slice is written.
\<close>

theorem image_roundtrip:
  assumes "deflater_ok zl" and "codec_ok zl ul" and "image_frame zcfg"
    and "disjoint_ranges (skips z)" and "within (inputminsec zcfg) (inputmaxsec zcfg) (skips z)"
    and "0 \<le> frangesize" and "frangesize < 2 ^ 31" and "ranges z = []" and "fixups z = []" and "relocs z = []"
    and "saved_sects zcfg frangesize z \<noteq> {}" and "restore_ok cfg s"
  shows "\<exists>n z1 z2 cs. mergeskips frangesize False z = Some (n, z1) \<and> makeranges (inputminsec zcfg) (inputmaxsec zcfg) z1 = Some z2 \<and>
    compress_image zl zcfg z2 = Some cs \<and>
    (\<forall>es. unzipped es = set cs \<longrightarrow>
      (\<exists>u v. restore_run ul cfg es s = Some u \<and> threadwait cfg u = Some v \<and> writequeue v = [] \<and>
        target v = restored cfg zcfg (saved_sects zcfg frangesize z) {0..<inputmaxsec zcfg - inputminsec zcfg} (view s)))"
proof -
  obtain n z1 z2 cs where saved: "mergeskips frangesize False z = Some (n, z1)"
    "makeranges (inputminsec zcfg) (inputmaxsec zcfg) z1 = Some z2" "compress_image zl zcfg z2 = Some cs"
    and cs: "\<forall>c \<in> set cs. chunk_ok zl zcfg c" "tiles 0 cs (inputmaxsec zcfg - inputminsec zcfg)"
    "chunks_sects cs = saved_sects zcfg frangesize z"
    using image_saved [OF assms(1,3-11)] by blast
  have "\<exists>u v. restore_run ul cfg es s = Some u \<and> threadwait cfg u = Some v \<and> writequeue v = [] \<and>
      target v = restored cfg zcfg (saved_sects zcfg frangesize z) {0..<inputmaxsec zcfg - inputminsec zcfg} (view s)"
    if es: "unzipped es = set cs" for es
    using all_restored [OF assms(2,3) cs(1,2) assms(12) es] cs(3) by simp
  then show ?thesis using saved by blast
qed

definition copy_inflater :: "unit inflater" where
  "copy_inflater = \<lparr>inflateInit = Some (), inflate = (\<lambda>z x n. if int (length x) - 1 \<le> n then (Z_STREAM_END, z, [], butlast x)
     else (Z_OK, z, drop (nat n) x, take (nat n) x)), inflateEnd = (\<lambda>z. Z_OK)\<rparr>"

lemma copy_inflates: "inflates copy_inflater () (d @ [0]) d"
proof (induction "length d" arbitrary: d rule: less_induct)
  case less
  show ?case
  proof (rule inflates_call)
    fix n :: int
    assume n: "0 < n" "n < int (length d)"
    then have "inflates copy_inflater () (drop (nat n) d @ [0]) (drop (nat n) d)" by (intro less) auto
    then show "\<exists>z rest. inflate copy_inflater () (d @ [0]) n = (Z_OK, z, rest, take (nat n) d) \<and> rest \<noteq> [] \<and>
        inflates copy_inflater z rest (drop (nat n) d)"
      using n by (simp add: copy_inflater_def)
  qed (simp_all add: copy_inflater_def)
qed

lemma copy_codec_ok: "codec_ok copy_deflater copy_inflater"
  using copy_inflates copy_deflated by (fastforce simp: codec_ok_def copy_inflater_def)

text \<open>The sectors 1 and 2 of the example are free.\<close>

definition free_example :: izlists where
  "free_example = addskip 1 2 izlists_init"

definition uzconfig_example :: uzconfig where
  "uzconfig_example = \<lparr>slice = 0, outputminsec = 0, outputmaxsec = 0, outputmaxsize = 0, dofill = False, nothreads = False,
     seekable = True, ignoreskips = False, directio = False\<rparr>"

definition unzip_static :: unzip where
  "unzip_static = \<lparr>target = (\<lambda>x. 9), position = 0, writequeue = [], nextwriteoffset = 0, maxwrittenoffset = 0, imagetoobigwarned = False,
     reloctable = [], totalddata = 0, totaledata = 0, totalrdata = 0, totalzdata = 0, donechunks = 0\<rparr>"

lemma examples_ok:
  "image_frame disk_example" "disjoint_ranges (skips free_example)" "within 0 4 (skips free_example)" "ranges free_example = []"
  "fixups free_example = []" "relocs free_example = []" "restore_ok uzconfig_example unzip_static" "view unzip_static = (\<lambda>x. 9)"
  "inputminsec disk_example = 0" "inputmaxsec disk_example = 4"
  by (simp_all add: image_frame_def disk_example_def free_example_def addskip_def izlists_init_def disjoint_ranges_def ir_end_def
      restore_ok_def uzconfig_example_def unzip_static_def view_def served_def)

lemma saved_example: "saved_sects disk_example 2 free_example = {0, 3}"
proof -
  have free: "sects (skips free_example) = {1..<3}" by (simp add: free_example_def addskip_def izlists_init_def ir_end_def)
  have "big_free 2 {1..<3} = {1..<3}"
  proof
    show "big_free 2 {1..<3} \<subseteq> {1..<3}" by (auto simp: big_free_def)
    show "{1..<3} \<subseteq> big_free 2 {1..<3}"
    proof
      fix x :: int
      assume "x \<in> {1..<3}"
      then have "1 \<le> x \<and> x < 3 \<and> 2 \<le> (3 :: int) - 1 \<and> {1..<3} \<subseteq> {1..<3 :: int}" by simp
      then show "x \<in> big_free 2 {1..<3}" unfolding big_free_def by blast
    qed
  qed
  then show ?thesis by (auto simp: saved_sects_def free examples_ok)
qed

theorem image_roundtrip_witness:
  "\<exists>n z1 z2 cs. mergeskips 2 False free_example = Some (n, z1) \<and> makeranges 0 4 z1 = Some z2 \<and>
    compress_image copy_deflater disk_example z2 = Some cs \<and>
    (\<forall>es. unzipped es = set cs \<longrightarrow>
      (\<exists>u v. restore_run copy_inflater uzconfig_example es unzip_static = Some u \<and> threadwait uzconfig_example u = Some v \<and>
        target v 5 = 0 \<and> target v 512 = 9 \<and> target v 1536 = 3))"
proof -
  have vals: "restored uzconfig_example disk_example {0, 3} {0..<4} (\<lambda>x. 9) 5 = 0"
    "restored uzconfig_example disk_example {0, 3} {0..<4} (\<lambda>x. 9) 512 = 9"
    "restored uzconfig_example disk_example {0, 3} {0..<4} (\<lambda>x. 9) 1536 = 3"
    by (simp_all add: restored_def in_limit_def uzconfig_example_def sectobytes_def saved_byte_def disk_example_def nth_append)
  have "saved_sects disk_example 2 free_example \<noteq> {}" by (simp add: saved_example)
  note rt = image_roundtrip [OF copy_deflater_ok copy_codec_ok examples_ok(1), of free_example 2 uzconfig_example unzip_static,
    unfolded examples_ok(8,9,10) saved_example]
  then show ?thesis using examples_ok vals by simp metis
qed

end
