(* ===== verification/ChunkFormat.thy ===== *)
theory ChunkFormat
  imports ImageRestore
begin

text \<open>
  The bytes of a chunk (clientside/os/imagezip/imagehdr.h): the header \<^verbatim>\<open>struct blockhdr_V4\<close>, the regions and the
  relocations in an area of 4096 bytes, and the compressed data. \<^verbatim>\<open>chunk_bytes\<close> is what \<^verbatim>\<open>compress_image\<close>
  writes, \<^verbatim>\<open>read_chunk\<close> what \<^verbatim>\<open>inflate_subblock\<close> and \<^verbatim>\<open>getrelocinfo\<close> read of it. Numbers are
  little-endian. A chunk whose counts reach behind the header area is a failure here; the code does not look.
\<close>

definition COMPRESSED_V4 :: int where "COMPRESSED_V4 = 0x69696969 + 3"

definition sizeof_blockhdr :: nat where "sizeof_blockhdr = 344"

definition le16 :: "int \<Rightarrow> byte list" where
  "le16 v = [word_of_int v, word_of_int (v div 256)]"

definition le32 :: "int \<Rightarrow> byte list" where
  "le32 v = le16 v @ le16 (v div 65536)"

definition region_words :: "region \<Rightarrow> byte list" where
  "region_words r = le32 (rg_sect r) @ le32 (rg_count r)"

definition reloc_words :: "blockreloc \<Rightarrow> byte list" where
  "reloc_words r = le32 (rl_type r) @ le32 (rl_sector r) @ le32 (rl_sectoff r) @ le32 (rl_size r)"

text \<open>Cipher, checksum type, initialization vector and checksum are zero in a chunk that is neither encrypted nor signed.\<close>

definition header_bytes :: "byte list \<Rightarrow> chunk \<Rightarrow> byte list" where
  "header_bytes imageid c =
     le32 COMPRESSED_V4 @ le32 (h_size c) @ le32 (h_blockindex c) @ le32 0 @ le32 DEFAULTREGIONSIZE @
     le32 (int (length (h_regions c))) @ le32 (h_firstsect c) @ le32 (h_lastsect c) @ le32 (int (length (h_relocs c))) @
     replicate 292 0 @ imageid"

definition header_area :: "byte list \<Rightarrow> chunk \<Rightarrow> byte list" where
  "header_area imageid c = header_bytes imageid c @ concat (map region_words (h_regions c)) @ concat (map reloc_words (h_relocs c))"

definition chunk_bytes :: "byte list \<Rightarrow> chunk \<Rightarrow> byte list" where
  "chunk_bytes imageid c =
     (let h = header_area imageid c in h @ replicate (nat DEFAULTREGIONSIZE - length h) 0 @ payload c)"

fun read_regions :: "nat \<Rightarrow> byte list \<Rightarrow> region list" where
  "read_regions 0 b = []"
| "read_regions (Suc n) b = \<lparr>rg_sect = get32 b 0, rg_count = get32 b 4\<rparr> # read_regions n (drop 8 b)"

fun read_relocs :: "nat \<Rightarrow> byte list \<Rightarrow> blockreloc list" where
  "read_relocs 0 b = []"
| "read_relocs (Suc n) b =
     \<lparr>rl_type = get32 b 0, rl_sector = get32 b 4, rl_sectoff = get32 b 8, rl_size = get32 b 12\<rparr> # read_relocs n (drop 16 b)"

definition getrelocinfo :: "byte list \<Rightarrow> blockreloc list" where
  "getrelocinfo b = read_relocs (nat (get32 b 32)) (drop (sizeof_blockhdr + 8 * nat (get32 b 20)) b)"

definition read_chunk :: "byte list \<Rightarrow> chunk option" where
  "read_chunk b = do {
     c_assert (get32 b 0 = COMPRESSED_V4);
     let nreg = get32 b 20; nrel = get32 b 32 in do {
       c_assert (HDRUSED nreg nrel \<le> DEFAULTREGIONSIZE);
       Some \<lparr>h_size = get32 b 4, h_blockindex = to_i32 (get32 b 8), h_firstsect = get32 b 24, h_lastsect = get32 b 28,
         h_regions = read_regions (nat nreg) (drop sizeof_blockhdr b), h_relocs = getrelocinfo b,
         payload = drop (nat DEFAULTREGIONSIZE) b\<rparr>
     }
   }"

text \<open>
  The identifier of the first chunk is remembered, and chunks with another are refused. A chunk is refused when it is
  not whole.
\<close>

definition check_imageid :: "byte list option \<Rightarrow> byte list \<Rightarrow> byte list option" where
  "check_imageid uuid b =
     (let imageid = take 16 (drop 328 b) in
      case uuid of None \<Rightarrow> Some imageid | Some u \<Rightarrow> if u = imageid then Some u else None)"

definition ImageUnzipChunk :: "'d inflater \<Rightarrow> 'x uzconfig_scheme \<Rightarrow> byte list \<Rightarrow> byte list option \<times> unzip \<Rightarrow> (byte list option \<times> unzip) option" where
  "ImageUnzipChunk ul cfg b us = do {
     c_assert (int (length b) = CHUNKSIZE_BYTES);
     c \<leftarrow> read_chunk b;
     u \<leftarrow> check_imageid (fst us) b;
     s \<leftarrow> inflate_subblock ul cfg c (snd us);
     Some (Some u, s)
   }"

section \<open>Reading back what was written\<close>

lemma le32_length [simp]: "length (le32 v) = 4"
  by (simp add: le32_def le16_def)

lemma get32_here [simp]: "get32 (le32 v @ xs) 0 = to_u32 v"
proof -
  have "get32 (le32 v @ xs) 0 = get32 (put32 (replicate 4 0) 0 v @ xs) 0"
    by (simp add: le32_def le16_def put32_def put16_def numeral_eq_Suc)
  also have "\<dots> = get32 (put32 (replicate 4 0) 0 v) 0" by (simp add: get32_def get16_def nth_append)
  also have "\<dots> = to_u32 v" by (rule get32_put32) simp
  finally show ?thesis .
qed

lemma get32_skip: "length xs \<le> i \<Longrightarrow> get32 (xs @ ys) i = get32 ys (i - length xs)"
proof -
  assume i: "length xs \<le> i"
  have "(xs @ ys) ! (i + d) = ys ! (i - length xs + d)" for d using i by (simp add: nth_append)
  from this [of 0] this [of 1] this [of 2] this [of "Suc (Suc (Suc 0))"] show ?thesis by (simp add: get32_def get16_def)
qed

lemma get32_le32 [simp]: "4 \<le> i \<Longrightarrow> get32 (le32 v @ xs) i = get32 xs (i - 4)"
  using get32_skip [of "le32 v" i xs] by simp

lemma region_words_length [simp]: "length (region_words r) = 8"
  by (simp add: region_words_def)

lemma reloc_words_length [simp]: "length (reloc_words r) = 16"
  by (simp add: reloc_words_def)

definition u32 :: "int \<Rightarrow> bool" where
  "u32 v \<longleftrightarrow> 0 \<le> v \<and> v < 2 ^ 32"

lemma u32_id [simp]: "u32 v \<Longrightarrow> to_u32 v = v"
  by (simp add: u32_def to_u32_id)

lemma read_regions_words:
  assumes "\<forall>r \<in> set rs. u32 (rg_sect r) \<and> u32 (rg_count r)"
  shows "read_regions (length rs) (concat (map region_words rs) @ xs) = rs"
  using assms by (induction rs) (simp_all add: region_words_def)

lemma read_relocs_words:
  assumes "\<forall>r \<in> set rs. u32 (rl_type r) \<and> u32 (rl_sector r) \<and> u32 (rl_sectoff r) \<and> u32 (rl_size r)"
  shows "read_relocs (length rs) (concat (map reloc_words rs) @ xs) = rs"
  using assms by (induction rs) (simp_all add: reloc_words_def)

text \<open>The numbers of a chunk that fit into their fields.\<close>

definition chunk_fits :: "chunk \<Rightarrow> bool" where
  "chunk_fits c \<longleftrightarrow> u32 (h_size c) \<and> u32 (h_firstsect c) \<and> u32 (h_lastsect c) \<and>
     (\<forall>r \<in> set (h_regions c). u32 (rg_sect r) \<and> u32 (rg_count r)) \<and>
     (\<forall>r \<in> set (h_relocs c). u32 (rl_type r) \<and> u32 (rl_sector r) \<and> u32 (rl_sectoff r) \<and> u32 (rl_size r)) \<and>
     HDRUSED (int (length (h_regions c))) (int (length (h_relocs c))) \<le> DEFAULTREGIONSIZE \<and>
     int (length (payload c)) = CHUNKMAX"

lemma header_bytes_length: "length imageid = 16 \<Longrightarrow> length (header_bytes imageid c) = 344"
  by (simp add: header_bytes_def)

lemma header_area_length:
  assumes "length imageid = 16"
  shows "int (length (header_area imageid c)) = HDRUSED (int (length (h_regions c))) (int (length (h_relocs c)))"
proof -
  have "length (concat (map region_words rs)) = length rs * 8" for rs by (induction rs) simp_all
  moreover have "length (concat (map reloc_words rs)) = length rs * 16" for rs by (induction rs) simp_all
  ultimately show ?thesis using header_bytes_length [OF assms] by (simp add: header_area_def HDRUSED_def)
qed

lemma chunk_bytes_length:
  assumes "chunk_fits c" and "length imageid = 16"
  shows "int (length (chunk_bytes imageid c)) = CHUNKSIZE_BYTES"
  using header_area_length [OF assms(2), of c] assms(1)
  by (simp add: chunk_bytes_def chunk_fits_def Let_def CHUNKMAX_def CHUNKSIZE_BYTES_def DEFAULTREGIONSIZE_def)

text \<open>The header, with what follows it.\<close>

lemma header_fields:
  assumes "length imageid = 16"
  shows "get32 (header_bytes imageid c @ xs) 0 = COMPRESSED_V4" "get32 (header_bytes imageid c @ xs) 4 = to_u32 (h_size c)"
    "get32 (header_bytes imageid c @ xs) 8 = to_u32 (h_blockindex c)"
    "get32 (header_bytes imageid c @ xs) 20 = to_u32 (int (length (h_regions c)))"
    "get32 (header_bytes imageid c @ xs) 24 = to_u32 (h_firstsect c)" "get32 (header_bytes imageid c @ xs) 28 = to_u32 (h_lastsect c)"
    "get32 (header_bytes imageid c @ xs) 32 = to_u32 (int (length (h_relocs c)))"
    "take 16 (drop 328 (header_bytes imageid c @ xs)) = imageid"
  using assms by (simp_all add: header_bytes_def) (simp add: COMPRESSED_V4_def to_u32_def)

definition renumber :: "chunk \<Rightarrow> chunk" where
  "renumber c = c\<lparr>h_blockindex := to_i32 (to_u32 (h_blockindex c))\<rparr>"

lemma read_chunk_bytes:
  assumes "chunk_fits c" and "length imageid = 16"
  shows "read_chunk (chunk_bytes imageid c) = Some (renumber c) \<and> take 16 (drop 328 (chunk_bytes imageid c)) = imageid"
proof -
  define pad where "pad = replicate (nat DEFAULTREGIONSIZE - length (header_area imageid c)) (0 :: byte) @ payload c"
  define regs where "regs = concat (map region_words (h_regions c))"
  define rels where "rels = concat (map reloc_words (h_relocs c))"
  have b: "chunk_bytes imageid c = header_bytes imageid c @ regs @ rels @ pad"
    by (simp add: chunk_bytes_def header_area_def regs_def rels_def pad_def Let_def)
  have fits: "HDRUSED (int (length (h_regions c))) (int (length (h_relocs c))) \<le> DEFAULTREGIONSIZE"
    "\<forall>r \<in> set (h_regions c). u32 (rg_sect r) \<and> u32 (rg_count r)"
    "\<forall>r \<in> set (h_relocs c). u32 (rl_type r) \<and> u32 (rl_sector r) \<and> u32 (rl_sectoff r) \<and> u32 (rl_size r)"
    "u32 (h_size c)" "u32 (h_firstsect c)" "u32 (h_lastsect c)"
    using assms(1) by (simp_all add: chunk_fits_def)
  have counts: "u32 (int (length (h_regions c)))" "u32 (int (length (h_relocs c)))"
    using fits(1) by (simp_all add: u32_def HDRUSED_def DEFAULTREGIONSIZE_def)
  have hdr: "length (header_bytes imageid c) = 344" by (rule header_bytes_length [OF assms(2)])
  have len: "length regs = 8 * length (h_regions c)"
  proof -
    have "length (concat (map region_words rs)) = 8 * length rs" for rs by (induction rs) simp_all
    then show ?thesis by (simp add: regs_def)
  qed
  have "drop sizeof_blockhdr (chunk_bytes imageid c) = regs @ rels @ pad" by (simp add: b hdr sizeof_blockhdr_def)
  then have rg: "read_regions (length (h_regions c)) (drop sizeof_blockhdr (chunk_bytes imageid c)) = h_regions c"
    using read_regions_words [OF fits(2)] by (simp add: regs_def)
  have "drop (sizeof_blockhdr + 8 * length (h_regions c)) (chunk_bytes imageid c) = rels @ pad"
    using len by (simp add: b hdr sizeof_blockhdr_def)
  then have rl: "read_relocs (length (h_relocs c)) (drop (sizeof_blockhdr + 8 * length (h_regions c)) (chunk_bytes imageid c)) = h_relocs c"
    using read_relocs_words [OF fits(3)] by (simp add: rels_def)
  have area: "length (header_area imageid c) \<le> nat DEFAULTREGIONSIZE"
    using header_area_length [OF assms(2), of c] fits(1) by simp
  have pl: "drop (nat DEFAULTREGIONSIZE) (chunk_bytes imageid c) = payload c"
    using area by (simp add: chunk_bytes_def Let_def)
  note hf = header_fields [OF assms(2), of c "regs @ rels @ pad", folded b]
  have "read_chunk (chunk_bytes imageid c) = Some (renumber c)"
    using fits(1,4-6) counts rg rl pl
    by (simp add: read_chunk_def hf getrelocinfo_def renumber_def)
  then show ?thesis using hf(8) by simp
qed

end
