(* ===== verification/Deploy.thy ===== *)
theory Deploy
  imports Progress ChunkFormat
begin

text \<open>
  From the disk that is saved to the disk that is restored: the image file that imagezip writes, served by frisbeed to a client on
  an unreliable network, whose main thread hands every complete chunk to \<^verbatim>\<open>ImageUnzipChunk\<close> while the writer
  thread serves the queue (clientside/os/frisbee.redux/client.c with clientside/os/imagezip/imageunzip.c linked in).
\<close>

section \<open>Chunks on their way\<close>

definition image_file :: "byte list \<Rightarrow> chunk list \<Rightarrow> byte list" where
  "image_file imageid cs = concat (map (chunk_bytes imageid) cs)"

text \<open>
  The client's side of a restore: chunks in the order in which the main thread passes them on, and turns of the writer
  thread (\<^verbatim>\<open>None\<close>) in between.
\<close>

fun client_restore :: "'d inflater \<Rightarrow> 'x uzconfig_scheme \<Rightarrow> byte list option list \<Rightarrow> byte list option \<times> unzip \<Rightarrow>
    (byte list option \<times> unzip) option" where
  "client_restore ul cfg [] us = Some us"
| "client_restore ul cfg (Some b # es) us = do { us1 \<leftarrow> ImageUnzipChunk ul cfg b us; client_restore ul cfg es us1 }"
| "client_restore ul cfg (None # es) us = do { s1 \<leftarrow> DiskWriter cfg (snd us); client_restore ul cfg es (fst us, s1) }"

fun passed_on :: "'a option list \<Rightarrow> 'a list" where
  "passed_on [] = []"
| "passed_on (Some b # es) = b # passed_on es"
| "passed_on (None # es) = passed_on es"

fun as_event :: "byte list option \<Rightarrow> restore_event" where
  "as_event None = Writer"
| "as_event (Some b) = Unzip (the (read_chunk b))"

lemma unzipped_as_events: "unzipped (map as_event es) = (the \<circ> read_chunk) ` set (passed_on es)"
  by (induction es rule: passed_on.induct) auto

lemma client_restore_run:
  assumes "restore_run ul cfg (map as_event es) s = Some u"
    and "\<forall>b \<in> set (passed_on es). int (length b) = CHUNKSIZE_BYTES \<and> read_chunk b \<noteq> None \<and> take 16 (drop 328 b) = imageid"
    and "uuid = None \<or> uuid = Some imageid"
  shows "\<exists>w. client_restore ul cfg es (uuid, s) = Some (w, u)"
  using assms
proof (induction es arbitrary: s uuid rule: passed_on.induct)
  case (2 b es)
  then obtain c where c: "read_chunk b = Some c" by auto
  then obtain s1 where s1: "inflate_subblock ul cfg c s = Some s1" "restore_run ul cfg (map as_event es) s1 = Some u"
    using 2(2) by (auto split: bind_splits)
  have "check_imageid uuid b = Some imageid" using 2(3,4) by (auto simp: check_imageid_def)
  then have "ImageUnzipChunk ul cfg b (uuid, s) = Some (Some imageid, s1)"
    using c s1(1) 2(3) by (simp add: ImageUnzipChunk_def)
  then show ?case using 2(1) [OF s1(2), of "Some imageid"] 2(3) by simp
next
  case (3 es)
  then show ?case by (auto split: bind_splits)
qed simp

lemma tiles_renumber: "tiles lo (map renumber cs) hi = tiles lo cs hi"
  by (induction cs arbitrary: lo) (simp_all add: renumber_def)

lemma chunk_ok_renumber: "chunk_ok zl z (renumber c) = chunk_ok zl z c"
  by (simp add: chunk_ok_def renumber_def)

lemma sets_renumber: "data_of (set (map renumber cs)) = chunks_sects cs" "space_of (set (map renumber cs)) = space_of (set cs)"
  by (auto simp: data_of_def space_of_def chunks_sects_def chunk_space_def renumber_def)

lemma chunk_ok_fits:
  assumes "chunk_ok zl z c" and "0 \<le> h_firstsect c" and "h_lastsect c < 2 ^ 32"
  shows "chunk_fits c"
proof -
  have c: "h_relocs c = []" "regions_ok (h_firstsect c) (h_lastsect c) (h_regions c)" "0 < h_size c" "h_size c \<le> CHUNKMAX"
    "HDRUSED (int (length (h_regions c))) (int (length (h_relocs c))) \<le> DEFAULTREGIONSIZE" "int (length (payload c)) = CHUNKMAX"
    using assms(1) unfolding chunk_ok_def by blast+
  have lt: "h_firstsect c < h_lastsect c" using chunk_data_inside [OF assms(1)] by simp
  have "u32 (h_size c)" using c(3,4) by (simp add: u32_def CHUNKMAX_def CHUNKSIZE_BYTES_def DEFAULTREGIONSIZE_def)
  moreover have "u32 (rg_sect r) \<and> u32 (rg_count r)" if "r \<in> set (h_regions c)" for r
    using c(2) that assms(2,3) by (fastforce simp: regions_ok_def u32_def)
  ultimately show ?thesis using assms(2,3) lt c by (simp add: chunk_fits_def u32_def)
qed

lemma concat_block:
  assumes "\<forall>x \<in> set xs. length x = n" and "k < length xs"
  shows "take n (drop (k * n) (concat xs)) = xs ! k"
  using assms
proof (induction xs arbitrary: k)
  case (Cons x xs)
  then show ?case by (cases k) simp_all
qed simp

lemma nchunks_iff:
  assumes "0 \<le> c"
  shows "c < nchunks img \<longleftrightarrow> c * (1024 * 1024) < int (length img)"
  using TotalChunks_iff [of c "int (length img)"] TotalBlocks_iff [of "c * 1024" "int (length img)"] assms
  by (simp add: nchunks_def mult.assoc)


lemma written_chunks:
  assumes "client_inv img b" and "chunkcount b = 0" and "img = concat bs" and "\<forall>x \<in> set bs. length x = 1024 * 1024"
  shows "snd ` set (written b) = set bs"
proof -
  define M where "M = (1024 * 1024 :: nat)"
  have M: "0 < M" "int M = 1024 * 1024" "\<forall>x \<in> set bs. length x = M" using assms(4) by (simp_all add: M_def)
  have len: "length img = length bs * M"
    using M(3) unfolding assms(3) by (induction bs) simp_all
  have whole: "int (length img) mod (1024 * 1024) = 0" using len M(2) by simp
  have n: "c < nchunks img \<longleftrightarrow> c < int (length bs)" if "0 \<le> c" for c
    using nchunks_iff [OF that, of img] M(1) unfolding len M(2) [symmetric] by simp
  note w = written_facts [OF assms(1)]
  have el: "snd w = bs ! nat (fst w) \<and> nat (fst w) < length bs" if "w \<in> set (written b)" for w
  proof -
    have r: "0 \<le> fst w" "fst w < nchunks img" using w(2) that by force+
    then have k: "nat (fst w) < length bs" using n [OF r(1)] by simp
    have "snd w = take M (drop (nat (fst w) * M) img)"
      using whole_chunk_content [OF w(3) [OF that] whole r] by (simp add: M_def)
    then show ?thesis using concat_block [OF M(3) k] k assms(3) by simp
  qed
  show ?thesis
  proof
    show "snd ` set (written b) \<subseteq> set bs" using el by force
    show "set bs \<subseteq> snd ` set (written b)"
    proof
      fix x
      assume "x \<in> set bs"
      then obtain k where k: "k < length bs" "bs ! k = x" by (auto simp: in_set_conv_nth)
      then have "int k \<in> fst ` set (written b)" using w(4) [OF assms(2)] n [of "int k"] by simp
      then obtain p where "p \<in> set (written b)" "fst p = int k" by auto
      then show "x \<in> snd ` set (written b)" using el [of p] k by force
    qed
  qed
qed


text \<open>The chunks of an image as the client reads them, and what it makes of them.\<close>

lemma image_chunk_fits:
  assumes "image_frame z" and "\<forall>c \<in> set cs. chunk_ok zl z c" and "tiles 0 cs (inputmaxsec z - inputminsec z)" and "c \<in> set cs"
  shows "chunk_fits c"
proof -
  have "0 \<le> h_firstsect c \<and> h_lastsect c \<le> inputmaxsec z - inputminsec z" using tiles_space [OF assms(3,2)] assms(4) by blast
  then show ?thesis using chunk_ok_fits [of zl z c] assms(1,2,4) by (simp add: image_frame_def)
qed

lemma chunks_read:
  assumes "image_frame z" and "\<forall>c \<in> set cs. chunk_ok zl z c" and "tiles 0 cs (inputmaxsec z - inputminsec z)"
    and "length imageid = 16" and "c \<in> set cs"
  shows "int (length (chunk_bytes imageid c)) = CHUNKSIZE_BYTES" and "read_chunk (chunk_bytes imageid c) = Some (renumber c)"
    and "take 16 (drop 328 (chunk_bytes imageid c)) = imageid"
  using chunk_bytes_length [OF image_chunk_fits assms(4)] read_chunk_bytes [OF image_chunk_fits assms(4)] assms by blast+

lemma chunks_restored:
  assumes "codec_ok zl ul" and "image_frame z" and "\<forall>c \<in> set cs. chunk_ok zl z c" and "tiles 0 cs (inputmaxsec z - inputminsec z)"
    and "length imageid = 16" and "uuid = None \<or> uuid = Some imageid" and "restore_ok cfg s"
    and "set (passed_on es) = chunk_bytes imageid ` set cs"
  shows "\<exists>w u v. client_restore ul cfg es (uuid, s) = Some (w, u) \<and> threadwait cfg u = Some v \<and> writequeue v = [] \<and>
    target v = restored cfg z (chunks_sects cs) {0..<inputmaxsec z - inputminsec z} (view s)"
proof -
  note rd = chunks_read [OF assms(2-5)]
  have "unzipped (map as_event es) = set (map renumber cs)"
    using rd(2) by (auto simp: unzipped_as_events assms(8) image_iff)
  moreover have "\<forall>c \<in> set (map renumber cs). chunk_ok zl z c" using assms(3) by (simp add: chunk_ok_renumber)
  moreover have "tiles 0 (map renumber cs) (inputmaxsec z - inputminsec z)" using assms(4) by (simp add: tiles_renumber)
  moreover have "chunks_sects (map renumber cs) = chunks_sects cs" by (simp add: chunks_sects_def renumber_def)
  ultimately obtain u v where u: "restore_run ul cfg (map as_event es) s = Some u" "threadwait cfg u = Some v" "writequeue v = []"
    "target v = restored cfg z (chunks_sects cs) {0..<inputmaxsec z - inputminsec z} (view s)"
    using all_restored [OF assms(1,2) _ _ assms(7), of "map renumber cs" "map as_event es"] by auto
  have "\<forall>b \<in> set (passed_on es). int (length b) = CHUNKSIZE_BYTES \<and> read_chunk b \<noteq> None \<and> take 16 (drop 328 b) = imageid"
    using rd by (auto simp: assms(8))
  from client_restore_run [OF u(1) this assms(6)] show ?thesis using u by blast
qed

lemma set_passed_on:
  assumes "image_frame z" and "length imageid = 16" and "\<forall>c \<in> set cs. chunk_ok zl z c" and "tiles 0 cs (inputmaxsec z - inputminsec z)"
    and "reach (sys_start False (image_file imageid cs) sz fi) (sys_step (image_file imageid cs) sz fi nts ntc) s"
    and "chunkcount (box s) = 0"
  shows "snd ` set (written (box s)) = chunk_bytes imageid ` set cs"
proof -
  define img where "img = image_file imageid cs"
  have blocks: "\<forall>x \<in> set (map (chunk_bytes imageid) cs). length x = 1024 * 1024"
    using chunks_read(1) [OF assms(1,3,4,2)] by (auto simp: CHUNKSIZE_BYTES_def)
  then have "length img = length cs * (1024 * 1024)"
    unfolding img_def image_file_def by (induction cs) simp_all
  then have "int (length img) mod (1024 * 1024) = 0" by simp
  then have seen: "seen_image False img = img" by (rule seen_image_id)
  have "sys_inv False img sz fi nts s" using sys.reach_inv assms(5) unfolding img_def by blast
  then have "client_inv img (box s)" by (simp add: sys_inv_def seen)
  from written_chunks [OF this assms(6) _ blocks] show ?thesis by (simp add: img_def image_file_def)
qed

section \<open>From disk to disk\<close>

text \<open>
  C2. Deploying a disk. A disk without fixups and relocations (as with a whole disk saved without relocation) is saved with imagezip, its image file served by frisbeed on a network that loses, repeats, reorders
  and delays packets, and a client decompresses the chunks it has collected, in the order in which they become complete,
  while its writer thread takes turns at any time. Whenever the client's loop has ended, decompression has not failed, and
  when the queue has been written the target holds what the saved disk held in every sector inside the slice, with the
  exception of those in a run of free sectors of at least the given size: these are zero when zeros are asked for, and
  unchanged otherwise.
\<close>

theorem disk_deployed:
  assumes "deflater_ok zl" and "codec_ok zl ul" and "image_frame zcfg"
    and "disjoint_ranges (skips z)" and "within (inputminsec zcfg) (inputmaxsec zcfg) (skips z)"
    and "0 \<le> frangesize" and "frangesize < 2 ^ 31" and "ranges z = []" and "fixups z = []" and "relocs z = []"
    and "saved_sects zcfg frangesize z \<noteq> {}" and "length imageid = 16" and "uuid = None \<or> uuid = Some imageid"
    and "restore_ok cfg t"
  shows "\<exists>n z1 z2 cs. mergeskips frangesize False z = Some (n, z1) \<and> makeranges (inputminsec zcfg) (inputmaxsec zcfg) z1 = Some z2 \<and>
    compress_image zl zcfg z2 = Some cs \<and>
    (\<forall>sz fi nts ntc s es. reach (sys_start False (image_file imageid cs) sz fi) (sys_step (image_file imageid cs) sz fi nts ntc) s \<and>
      chunkcount (box s) = 0 \<and> passed_on es = map snd (written (box s)) \<longrightarrow>
      (\<exists>w u v. client_restore ul cfg es (uuid, t) = Some (w, u) \<and> threadwait cfg u = Some v \<and> writequeue v = [] \<and>
        target v = restored cfg zcfg (saved_sects zcfg frangesize z) {0..<inputmaxsec zcfg - inputminsec zcfg} (view t)))"
proof -
  obtain n z1 z2 cs where saved: "mergeskips frangesize False z = Some (n, z1)"
    "makeranges (inputminsec zcfg) (inputmaxsec zcfg) z1 = Some z2" "compress_image zl zcfg z2 = Some cs"
    and cs: "\<forall>c \<in> set cs. chunk_ok zl zcfg c" "tiles 0 cs (inputmaxsec zcfg - inputminsec zcfg)"
    "chunks_sects cs = saved_sects zcfg frangesize z"
    using image_saved [OF assms(1,3-11)] by blast
  have "\<exists>w u v. client_restore ul cfg es (uuid, t) = Some (w, u) \<and> threadwait cfg u = Some v \<and> writequeue v = [] \<and>
      target v = restored cfg zcfg (saved_sects zcfg frangesize z) {0..<inputmaxsec zcfg - inputminsec zcfg} (view t)"
    if "reach (sys_start False (image_file imageid cs) sz fi) (sys_step (image_file imageid cs) sz fi nts ntc) s"
      and "chunkcount (box s) = 0" and "passed_on es = map snd (written (box s))" for sz fi nts ntc s es
    using chunks_restored [OF assms(2,3) cs(1,2) assms(12-14), of es]
      set_passed_on [OF assms(3,12) cs(1,2) that(1,2)] that(3) cs(3) by simp
  then show ?thesis using saved by blast
qed

text \<open>The example disk goes all the way: its image is served, the client gets it all, and restores it.\<close>

lemma passed_on_Some: "passed_on (map Some xs) = xs"
  by (induction xs) simp_all

lemma tiles_count:
  assumes "tiles lo cs hi" and "\<forall>c \<in> set cs. chunk_ok zl z c"
  shows "int (length cs) \<le> hi - lo"
  using assms
proof (induction cs arbitrary: lo)
  case (Cons c cs)
  then have "int (length cs) \<le> hi - h_lastsect c" using Cons.IH [of "h_lastsect c"] by simp
  then show ?case using chunk_data_inside [of zl z c] Cons.prems by simp
qed simp

definition waiting_client :: "byte list \<Rightarrow> client" where
  "waiting_client img = client_recv_init
     (init_chunks (geometry (int (length img))) [buf_example] [] (client_static (\<lambda>_. 5) (\<lambda>_. Sent)))"

lemma waiting_client:
  "client_start img (waiting_client img)" "\<not> child_error (waiting_client img)" "main_phase (waiting_client img) = Running"
  "serverip (waiting_client img) = 0" "ChunkBuffer (waiting_client img) \<noteq> []" "servertimo (waiting_client img) = 0"
  "0 < maxreadahead (waiting_client img)" "0 < maxinprogress (waiting_client img)"
proof -
  have "net_ok (client_static (\<lambda>_. 5) (\<lambda>_. Sent))"
    by (auto simp: net_ok_def client_static_def retried_def intro: exI [of _ 0])
  moreover have "\<forall>b \<in> set [buf_example]. buf_shape b" by (simp add: buf_shape_def buf_example_def)
  ultimately show "client_start img (waiting_client img)" unfolding client_start_def waiting_client_def
    by (intro exI [of _ "client_static (\<lambda>_. 5) (\<lambda>_. Sent)"] exI [of _ "[buf_example]"] exI [of _ "[]"]) simp
qed (simp_all add: waiting_client_def client_recv_init_def init_chunks_def client_static_def MAXREADAHEAD_def MAXINPROGRESS_def)

lemma image_can_be_served:
  assumes "image_frame z" and "length imageid = 16" and "\<forall>c \<in> set cs. chunk_ok zl z c"
    and "tiles 0 cs (inputmaxsec z - inputminsec z)" and "inputmaxsec z < 1000"
  shows "\<exists>sz fi s. reach (sys_start False (image_file imageid cs) sz fi) (sys_step (image_file imageid cs) sz fi net_example net_example) s \<and>
    main_phase (box s) = Completed \<and> chunkcount (box s) = 0"
proof -
  define img where "img = image_file imageid cs"
  have blocks: "\<forall>x \<in> set (map (chunk_bytes imageid) cs). length x = 1024 * 1024"
    using chunks_read(1) [OF assms(1,3,4,2)] by (auto simp: CHUNKSIZE_BYTES_def)
  then have len: "length img = length cs * (1024 * 1024)"
    unfolding img_def image_file_def by (induction cs) simp_all
  have "int (length cs) < 1000" using tiles_count [OF assms(4,3)] assms(1,5) by (simp add: image_frame_def)
  then have ok: "size_ok (int (length img))" using len by (simp add: size_ok_def)
  then obtain sz fi where i: "init_file_info (int (length img)) = Some (sz, fi)" using init_file_info_Some by blast
  have seen: "seen_image False img = img" using len by (intro seen_image_id) simp
  define s where "s = \<lparr>host = host_example, box = waiting_client img\<rparr>"
  have "sys_start False img sz fi s"
    using ok i waiting_client(1) [of img] by (simp add: sys_start_def s_def seen host_example_ok)
  then have r: "reach (sys_start False img sz fi) (sys_step img sz fi net_example net_example) s" by (rule reach_init)
  have "ready False img sz fi net_example s"
    using sys.reach_inv [OF r] waiting_client(2-8) [of img] by (simp add: ready_def alive_def s_def host_example_def)
  from can_finish [OF this] obtain s' where
    "(sys_step img sz fi net_example net_example)\<^sup>*\<^sup>* s s'" "main_phase (box s') = Completed" "chunkcount (box s') = 0" by blast
  then show ?thesis using reach_rtranclp [OF _ r] unfolding img_def by blast
qed

theorem disk_deployed_witness:
  "\<exists>n z1 z2 cs sz fi s es w u v. mergeskips 2 False free_example = Some (n, z1) \<and> makeranges 0 4 z1 = Some z2 \<and>
    compress_image copy_deflater disk_example z2 = Some cs \<and>
    reach (sys_start False (image_file (replicate 16 7) cs) sz fi) (sys_step (image_file (replicate 16 7) cs) sz fi net_example net_example) s \<and>
    main_phase (box s) = Completed \<and> passed_on es = map snd (written (box s)) \<and>
    client_restore copy_inflater uzconfig_example es (None, unzip_static) = Some (w, u) \<and> threadwait uzconfig_example u = Some v \<and>
    target v 5 = 0 \<and> target v 512 = 9 \<and> target v 1536 = 3"
proof -
  let ?id = "replicate 16 7 :: byte list"
  have vals: "restored uzconfig_example disk_example {0, 3} {0..<4} (\<lambda>x. 9) 5 = 0"
    "restored uzconfig_example disk_example {0, 3} {0..<4} (\<lambda>x. 9) 512 = 9"
    "restored uzconfig_example disk_example {0, 3} {0..<4} (\<lambda>x. 9) 1536 = 3"
    by (simp_all add: restored_def in_limit_def uzconfig_example_def sectobytes_def saved_byte_def disk_example_def nth_append)
  have ne: "saved_sects disk_example 2 free_example \<noteq> {}" by (simp add: saved_example)
  note ex = examples_ok(1-6) examples_ok(9,10)
  have hyps: "disjoint_ranges (skips free_example)" "within (inputminsec disk_example) (inputmaxsec disk_example) (skips free_example)"
    "(0 :: int) \<le> 2" "(2 :: int) < 2 ^ 31" using ex by simp_all
  obtain n z1 z2 cs where saved: "mergeskips 2 False free_example = Some (n, z1)" "makeranges 0 4 z1 = Some z2"
    "compress_image copy_deflater disk_example z2 = Some cs" "\<forall>c \<in> set cs. chunk_ok copy_deflater disk_example c"
    "tiles 0 cs (inputmaxsec disk_example - inputminsec disk_example)"
    using image_saved [OF copy_deflater_ok examples_ok(1) hyps examples_ok(4-6) ne] ex by auto
  have small: "inputmaxsec disk_example < 1000" using ex by simp
  from image_can_be_served [OF examples_ok(1) _ saved(4,5) small, of ?id] obtain sz fi s where
    s: "reach (sys_start False (image_file ?id cs) sz fi) (sys_step (image_file ?id cs) sz fi net_example net_example) s"
    "main_phase (box s) = Completed" "chunkcount (box s) = 0" by auto
  define es where "es = map Some (map snd (written (box s)))"
  have es: "passed_on es = map snd (written (box s))" by (simp add: es_def passed_on_Some del: map_map)
  have "length ?id = 16" "None = None \<or> None = Some ?id" by simp_all
  from disk_deployed [OF copy_deflater_ok copy_codec_ok examples_ok(1) hyps examples_ok(4-6) ne this examples_ok(7)]
  obtain n' y1 y2 cs' where d: "mergeskips 2 False free_example = Some (n', y1)"
    "makeranges (inputminsec disk_example) (inputmaxsec disk_example) y1 = Some y2" "compress_image copy_deflater disk_example y2 = Some cs'"
    "\<forall>sz fi nts ntc s es. reach (sys_start False (image_file ?id cs') sz fi) (sys_step (image_file ?id cs') sz fi nts ntc) s \<and>
      chunkcount (box s) = 0 \<and> passed_on es = map snd (written (box s)) \<longrightarrow>
      (\<exists>w u v. client_restore copy_inflater uzconfig_example es (None, unzip_static) = Some (w, u) \<and> threadwait uzconfig_example u = Some v \<and>
        writequeue v = [] \<and> target v = restored uzconfig_example disk_example (saved_sects disk_example 2 free_example)
          {0..<inputmaxsec disk_example - inputminsec disk_example} (view unzip_static))" by blast
  have "cs' = cs" using d(1-3) saved(1-3) ex by simp
  then obtain w u v where "client_restore copy_inflater uzconfig_example es (None, unzip_static) = Some (w, u)"
    "threadwait uzconfig_example u = Some v" "target v = restored uzconfig_example disk_example {0, 3} {0..<4} (\<lambda>x. 9)"
    using d(4) s(1,3) es saved_example examples_ok(8-10) by (metis diff_zero)
  then show ?thesis using saved(1-3) s(1,2) es vals by metis
qed

section \<open>The format of the image file\<close>

text \<open>
  C7. Reading a chunk gives back what was written. For a chunk whose numbers fit their fields and whose header, regions and
  relocations fit the header area, the bytes are those of a whole chunk; reading them gives every number, region, relocation
  and the compressed data (the number of the chunk as a signed number), and the identifier of the image: the first chunk sets the
  expected identifier, and afterwards a chunk is refused exactly when its image is another one.
\<close>

theorem chunk_roundtrip:
  assumes "chunk_fits c" and "length imageid = 16"
  shows "int (length (chunk_bytes imageid c)) = CHUNKSIZE_BYTES \<and> read_chunk (chunk_bytes imageid c) = Some (renumber c) \<and>
    check_imageid None (chunk_bytes imageid c) = Some imageid \<and>
    check_imageid (Some u) (chunk_bytes imageid c) = (if u = imageid then Some u else None)"
  using chunk_bytes_length [OF assms] read_chunk_bytes [OF assms] by (simp add: check_imageid_def)

definition chunk_example :: chunk where
  "chunk_example = \<lparr>h_size = 2, h_blockindex = 1, h_firstsect = 4, h_lastsect = 70000,
     h_regions = [\<lparr>rg_sect = 5, rg_count = 3\<rparr>, \<lparr>rg_sect = 65536, rg_count = 2\<rparr>],
     h_relocs = [\<lparr>rl_type = 3, rl_sector = 6, rl_sectoff = 100, rl_size = 5\<rparr>], payload = replicate (nat CHUNKMAX) 7\<rparr>"

theorem chunk_roundtrip_witness:
  "read_chunk (chunk_bytes (replicate 16 9) chunk_example) = Some chunk_example \<and>
    check_imageid (Some (replicate 16 8)) (chunk_bytes (replicate 16 9) chunk_example) = None"
proof -
  have "chunk_fits chunk_example"
    by (simp add: chunk_fits_def chunk_example_def u32_def HDRUSED_def DEFAULTREGIONSIZE_def CHUNKMAX_def CHUNKSIZE_BYTES_def)
  moreover have "renumber chunk_example = chunk_example" by (simp add: renumber_def chunk_example_def to_i32_def to_u32_def)
  moreover have "replicate 16 8 \<noteq> (replicate 16 9 :: byte list)" by (simp add: numeral_eq_Suc)
  ultimately show ?thesis using chunk_roundtrip [of chunk_example "replicate 16 9" "replicate 16 8"] by simp
qed

text \<open>
  C6. Images are well formed. Whatever fixups there are, and whatever the compression library does, the header, the
  regions and the relocations of every chunk of an image that imagezip writes fit the header area (it ends with an error rather than
  add a relocation for which there is no room). When there are no fixups and no relocations, with the ranges that
  \<^verbatim>\<open>makeranges\<close> leaves and a compression library that keeps its promises, the image is written, all
  numbers in its chunks fit the 32 bits of their fields, every chunk has exactly the size that frisbee sends and
  \<^verbatim>\<open>ImageUnzipChunk\<close> insists on, and the file is whole megabytes, so that no chunk is filled up on its way.
\<close>

theorem image_well_formed:
  assumes "length imageid = 16"
  shows "(\<forall>cs c. compress_image zl cfg z = Some cs \<and> c \<in> set cs \<longrightarrow> int (length (header_area imageid c)) \<le> DEFAULTREGIONSIZE) \<and>
    (deflater_ok zl \<and> image_frame cfg \<and> fixups z = [] \<and> relocs z = [] \<and> ranges z \<noteq> [] \<and> sorted_wrt apart (ranges z) \<and>
      within (inputminsec cfg) (inputmaxsec cfg) (ranges z) \<longrightarrow> (\<exists>cs. compress_image zl cfg z = Some cs \<and>
      (\<forall>c \<in> set cs. chunk_fits c \<and> int (length (chunk_bytes imageid c)) = CHUNKSIZE_BYTES) \<and>
      int (length (image_file imageid cs)) = int (length cs) * CHUNKSIZE_BYTES \<and>
      seen_image nodecompress (image_file imageid cs) = image_file imageid cs))"
proof (intro conjI impI allI)
  show "int (length (header_area imageid c)) \<le> DEFAULTREGIONSIZE" if "compress_image zl cfg z = Some cs \<and> c \<in> set cs" for cs c
    using compress_image_area [of zl cfg z cs] that header_area_length [OF assms, of c] by (simp add: area_ok_def)
next
  assume a: "deflater_ok zl \<and> image_frame cfg \<and> fixups z = [] \<and> relocs z = [] \<and> ranges z \<noteq> [] \<and> sorted_wrt apart (ranges z) \<and>
    within (inputminsec cfg) (inputmaxsec cfg) (ranges z)"
  then have frame: "image_frame cfg" by simp
  from a image_written_ok [of zl cfg z] obtain cs where
    cs: "compress_image zl cfg z = Some cs" "\<forall>c \<in> set cs. chunk_ok zl cfg c" "tiles 0 cs (inputmaxsec cfg - inputminsec cfg)" by blast
  have fits: "chunk_fits c" if "c \<in> set cs" for c by (rule image_chunk_fits [OF frame cs(2,3) that])
  have blocks: "\<forall>c \<in> set cs. int (length (chunk_bytes imageid c)) = CHUNKSIZE_BYTES"
    using chunk_bytes_length [OF fits assms] by blast
  then have len: "int (length (image_file imageid cs)) = int (length cs) * CHUNKSIZE_BYTES"
    unfolding image_file_def by (induction cs) (simp_all add: distrib_right)
  then have "seen_image nodecompress (image_file imageid cs) = image_file imageid cs"
    by (intro seen_image_id) (simp add: CHUNKSIZE_BYTES_def)
  then show "\<exists>cs. compress_image zl cfg z = Some cs \<and>
      (\<forall>c \<in> set cs. chunk_fits c \<and> int (length (chunk_bytes imageid c)) = CHUNKSIZE_BYTES) \<and>
      int (length (image_file imageid cs)) = int (length cs) * CHUNKSIZE_BYTES \<and>
      seen_image nodecompress (image_file imageid cs) = image_file imageid cs" using cs(1) fits blocks len by blast
qed

theorem image_well_formed_witness:
  "\<exists>cs. compress_image copy_deflater disk_example ranges_example = Some cs \<and>
    int (length (image_file (replicate 16 9) cs)) = int (length cs) * CHUNKSIZE_BYTES"
proof -
  have r: "ranges ranges_example = [\<lparr>ir_start = 0, ir_size = 1, ir_data = ()\<rparr>, \<lparr>ir_start = 3, ir_size = 1, ir_data = ()\<rparr>]"
    "fixups ranges_example = []" "relocs ranges_example = []"
    by (simp_all add: ranges_example_def addvalid_def izlists_init_def)
  show ?thesis using image_well_formed [of "replicate 16 9" copy_deflater disk_example ranges_example] copy_deflater_ok examples_ok(1)
    by (fastforce simp: r examples_ok(9,10) apart_def ir_end_def)
qed

end
