(* ===== verification/EventQueue.thy ===== *)
theory EventQueue
  imports Timeval "HOL-Library.Multiset"
begin

text \<open>
  The priority queue of the event scheduler (event/sched/queue.c): a binary heap in an array whose slot 0 is unused, a
  counting semaphore for the events to consume, and a dequeue that waits for the time of the first event while
  other threads enqueue. Dumping the queue is left out. The abstract view is the multiset of pending events.
\<close>

section \<open>Definitions\<close>

text \<open>\<^verbatim>\<open>sched_event_t\<close>; the pointers are numbers.\<close>

record sched_event =
  ev_agent :: nat
  ev_notification :: nat
  ev_time :: timeval
  ev_length :: int
  ev_flags :: int

definition EVENT_QUEUE_LENGTH :: nat where "EVENT_QUEUE_LENGTH = 1024 * 32"

definition EVENT_QUEUE_HEAD :: nat where "EVENT_QUEUE_HEAD = 1"

record evqueue =
  event_queue :: "sched_event list"
  event_queue_tail :: nat
  event_to_consume :: nat
  initialized :: bool

definition event_is_more_recent :: "sched_event \<Rightarrow> sched_event \<Rightarrow> bool" where
  "event_is_more_recent e1 e2 =
     (if tv_sec (ev_time e1) \<noteq> tv_sec (ev_time e2) then tv_sec (ev_time e1) \<le> tv_sec (ev_time e2)
      else tv_usec (ev_time e1) \<le> tv_usec (ev_time e2))"

definition sched_event_init :: "evqueue \<Rightarrow> evqueue" where
  "sched_event_init s = s\<lparr>event_to_consume := 0, initialized := True\<rparr>"

definition swap_events :: "sched_event list \<Rightarrow> nat \<Rightarrow> nat \<Rightarrow> sched_event list" where
  "swap_events q parent child = q[parent := q ! child, child := q ! parent]"

text \<open>The loop of the enqueue, from the new leaf up; the parent of a node is half its index.\<close>

function sift_up :: "sched_event list \<Rightarrow> nat \<Rightarrow> sched_event list" where
  "sift_up q child =
     (if child div 2 \<ge> EVENT_QUEUE_HEAD then
        if event_is_more_recent (q ! child) (q ! (child div 2))
        then sift_up (swap_events q (child div 2) child) (child div 2)
        else q
      else q)"
  by pat_completeness auto
termination
  by (relation "measure snd") (auto simp: EVENT_QUEUE_HEAD_def)

text \<open>
  The loop of the dequeue, from the root down. It reads the slot after \<open>child\<close> also when that is beyond the tail. The
  indices start at the head, so they are never 0.
\<close>

function sift_down :: "sched_event list \<Rightarrow> nat \<Rightarrow> nat \<Rightarrow> sched_event list" where
  "sift_down q tail parent =
     (if 0 < parent \<and> parent * 2 \<le> tail then
        let child = (if event_is_more_recent (q ! (parent * 2 + 1)) (q ! (parent * 2)) then parent * 2 + 1 else parent * 2) in
        if event_is_more_recent (q ! child) (q ! parent)
        then sift_down (swap_events q parent child) tail child
        else q
      else q)"
  by pat_completeness auto
termination
  by (relation "measure (\<lambda>(q, tail, parent). tail + 1 - parent)") (auto simp: Let_def)

declare sift_up.simps [simp del] sift_down.simps [simp del]

definition sched_event_queue_verify :: "sched_event list \<Rightarrow> nat \<Rightarrow> bool" where
  "sched_event_queue_verify q tail \<longleftrightarrow>
     tv_sec (ev_time (q ! 0)) = 0 \<and> tv_usec (ev_time (q ! 0)) = 0 \<and>
     list_all (\<lambda>i. (2 * i \<le> tail \<longrightarrow> event_is_more_recent (q ! i) (q ! (2 * i))) \<and>
                   (2 * i + 1 \<le> tail \<longrightarrow> event_is_more_recent (q ! i) (q ! (2 * i + 1))))
       [EVENT_QUEUE_HEAD..<tail + 1]"

definition sched_event_enqueue :: "sched_event \<Rightarrow> evqueue \<Rightarrow> evqueue option" where
  "sched_event_enqueue event s = do {
     c_assert (initialized s);
     c_assert (event_queue_tail s < EVENT_QUEUE_LENGTH - 1);
     let tail = event_queue_tail s + 1;
     let q = sift_up ((event_queue s)[tail := event]) tail;
     c_assert (sched_event_queue_verify q tail);
     Some (s\<lparr>event_queue := q, event_queue_tail := tail, event_to_consume := event_to_consume s + 1\<rparr>)
   }"

fun enqueue_all :: "sched_event list \<Rightarrow> evqueue \<Rightarrow> evqueue option" where
  "enqueue_all [] s = Some s"
| "enqueue_all (e # es) s = do { s1 \<leftarrow> sched_event_enqueue e s; enqueue_all es s1 }"

text \<open>
  How \<^verbatim>\<open>pthread_cond_timedwait\<close> returns, with the events that other threads have enqueued while the mutex was free. The
  result of a dequeue; a call whose wake-ups are used up is still waiting.
\<close>

datatype wakeup = Woken "sched_event list" | TimedOut "sched_event list" | WaitFailed "sched_event list"

datatype deq_result = Dequeued sched_event | QueueEmpty | DeqError | StillWaiting

fun dequeue_wait :: "wakeup list \<Rightarrow> evqueue \<Rightarrow> (deq_result \<times> evqueue) option" where
  "dequeue_wait [] s = Some (StillWaiting, s)"
| "dequeue_wait (Woken es # ws) s = do { s1 \<leftarrow> enqueue_all es s; dequeue_wait ws s1 }"
| "dequeue_wait (WaitFailed es # ws) s = do { s1 \<leftarrow> enqueue_all es s; Some (DeqError, s1) }"
| "dequeue_wait (TimedOut es # ws) s = do {
     let event = event_queue s ! EVENT_QUEUE_HEAD;
     s1 \<leftarrow> enqueue_all es s;
     if ev_notification event = ev_notification (event_queue s1 ! EVENT_QUEUE_HEAD) then Some (Dequeued event, s1)
     else dequeue_wait ws s1
   }"

definition remove_head :: "evqueue \<Rightarrow> evqueue option" where
  "remove_head s = do {
     let tail = event_queue_tail s - 1;
     let q = sift_down ((event_queue s)[EVENT_QUEUE_HEAD := event_queue s ! event_queue_tail s]) tail EVENT_QUEUE_HEAD;
     c_assert (sched_event_queue_verify q tail);
     Some (s\<lparr>event_queue := q, event_queue_tail := tail\<rparr>)
   }"

definition sched_event_dequeue :: "bool \<Rightarrow> wakeup list \<Rightarrow> evqueue \<Rightarrow> (deq_result \<times> evqueue) option" where
  "sched_event_dequeue wait ws s = do {
     c_assert (initialized s);
     if wait \<and> event_to_consume s = 0 then Some (StillWaiting, s)
     else if \<not> wait \<and> event_to_consume s = 0 then Some (QueueEmpty, s)
     else do {
       let s1 = (if wait then s\<lparr>event_to_consume := event_to_consume s - 1\<rparr> else s);
       c_assert (event_queue_tail s1 > 0);
       (r, s2) \<leftarrow> dequeue_wait ws s1;
       case r of
         Dequeued event \<Rightarrow> do { s3 \<leftarrow> remove_head s2; Some (Dequeued event, s3) }
       | _ \<Rightarrow> Some (r, s2)
     }
   }"

section \<open>Order and slices\<close>

lemma recent_refl [simp]: "event_is_more_recent e e"
  by (simp add: event_is_more_recent_def)

lemma recent_trans: "event_is_more_recent a b \<Longrightarrow> event_is_more_recent b c \<Longrightarrow> event_is_more_recent a c"
  by (auto simp: event_is_more_recent_def split: if_splits)

lemma recent_total: "\<not> event_is_more_recent a b \<Longrightarrow> event_is_more_recent b a"
  by (auto simp: event_is_more_recent_def split: if_splits)

text \<open>The slots in use, and what is in them.\<close>

definition used :: "sched_event list \<Rightarrow> nat \<Rightarrow> sched_event list" where
  "used q tail = take tail (drop 1 q)"

definition bag :: "evqueue \<Rightarrow> sched_event multiset" where
  "bag s = mset (used (event_queue s) (event_queue_tail s))"

lemma length_used [simp]: "tail < length q \<Longrightarrow> length (used q tail) = tail"
  by (simp add: used_def)

lemma used_nth: "tail < length q \<Longrightarrow> i < tail \<Longrightarrow> used q tail ! i = q ! (i + 1)"
  by (simp add: used_def)

lemma used_update: "1 \<le> i \<Longrightarrow> used (q[i := x]) tail = (used q tail)[i - 1 := x]"
  by (simp add: used_def drop_update_swap take_update_swap)

lemma mset_used_swap:
  assumes "1 \<le> a" and "1 \<le> b" and "a \<le> tail" and "b \<le> tail" and "tail < length q"
  shows "mset (used (swap_events q a b) tail) = mset (used q tail)"
proof -
  have "used (swap_events q a b) tail = (used q tail)[a - 1 := used q tail ! (b - 1), b - 1 := used q tail ! (a - 1)]"
    using assms by (simp add: swap_events_def used_update used_nth)
  then show ?thesis using assms by (simp add: mset_swap)
qed

lemma swap_events_simps [simp]:
  "length (swap_events q a b) = length q"
  by (simp add: swap_events_def)

lemma swap_events_nth:
  "a < length q \<Longrightarrow> b < length q \<Longrightarrow> swap_events q a b ! i = (if i = a then q ! b else if i = b then q ! a else q ! i)"
  by (auto simp: swap_events_def nth_list_update)


section \<open>The heap\<close>

definition heap :: "sched_event list \<Rightarrow> nat \<Rightarrow> bool" where
  "heap q tail \<longleftrightarrow> (\<forall>i. 2 \<le> i \<and> i \<le> tail \<longrightarrow> event_is_more_recent (q ! (i div 2)) (q ! i))"

lemma heapD: "heap q tail \<Longrightarrow> 2 \<le> i \<Longrightarrow> i \<le> tail \<Longrightarrow> event_is_more_recent (q ! (i div 2)) (q ! i)"
  by (simp add: heap_def)

text \<open>A heap but for one node, which may be earlier than its parent, or later than its children.\<close>

definition up_hole :: "sched_event list \<Rightarrow> nat \<Rightarrow> nat \<Rightarrow> bool" where
  "up_hole q tail c \<longleftrightarrow>
     (\<forall>i. 2 \<le> i \<and> i \<le> tail \<and> i \<noteq> c \<longrightarrow> event_is_more_recent (q ! (i div 2)) (q ! i)) \<and>
     (\<forall>i. i \<le> tail \<and> i div 2 = c \<and> 2 \<le> c \<longrightarrow> event_is_more_recent (q ! (c div 2)) (q ! i))"

definition down_hole :: "sched_event list \<Rightarrow> nat \<Rightarrow> nat \<Rightarrow> bool" where
  "down_hole q tail p \<longleftrightarrow>
     (\<forall>i. 2 \<le> i \<and> i \<le> tail \<and> i div 2 \<noteq> p \<longrightarrow> event_is_more_recent (q ! (i div 2)) (q ! i)) \<and>
     (\<forall>i. i \<le> tail \<and> i div 2 = p \<and> 2 \<le> p \<longrightarrow> event_is_more_recent (q ! (p div 2)) (q ! i))"

lemma up_hole_swap:
  assumes "up_hole q tail c" and "2 \<le> c" and "c \<le> tail" and "tail < length q" and "event_is_more_recent (q ! c) (q ! (c div 2))"
  shows "up_hole (swap_events q (c div 2) c) tail (c div 2)"
proof -
  define p where "p = c div 2"
  have p: "1 \<le> p" "p < c" using assms(2) by (simp_all add: p_def)
  have nth: "swap_events q p c ! i = (if i = p then q ! c else if i = c then q ! p else q ! i)" for i
    using p assms(3,4) by (intro swap_events_nth) simp_all
  have le: "event_is_more_recent (q ! (i div 2)) (q ! i)" if "2 \<le> i" "i \<le> tail" "i \<noteq> c" for i
    using assms(1) that by (simp add: up_hole_def)
  have kids: "event_is_more_recent (q ! p) (q ! i)" if "i \<le> tail" "i div 2 = c" for i
    using assms(1,2) that by (simp add: up_hole_def p_def)
  have cp: "event_is_more_recent (q ! c) (q ! p)" using assms(5) by (simp add: p_def)
  have one: "event_is_more_recent (swap_events q p c ! (i div 2)) (swap_events q p c ! i)"
    if "2 \<le> i" "i \<le> tail" "i \<noteq> p" for i
  proof -
    consider "i = c" | "i \<noteq> c" "i div 2 = c" | "i \<noteq> c" "i div 2 = p" | "i \<noteq> c" "i div 2 \<noteq> c" "i div 2 \<noteq> p" by blast
    then show ?thesis
    proof cases
      case 1
      then have "i div 2 = p" by (simp add: p_def)
      then show ?thesis using 1 cp p by (simp add: nth)
    next
      case 2
      then show ?thesis using kids [of i] that p by (simp add: nth)
    next
      case 3
      then show ?thesis using recent_trans [OF cp] le [of i] that p by (simp add: nth)
    next
      case 4
      then show ?thesis using le [of i] that by (simp add: nth)
    qed
  qed
  have two: "event_is_more_recent (swap_events q p c ! (p div 2)) (swap_events q p c ! i)"
    if "i \<le> tail" "i div 2 = p" "2 \<le> p" for i
  proof -
    have up: "event_is_more_recent (q ! (p div 2)) (q ! p)" using le [of p] that p assms(3) by simp
    have "p div 2 \<noteq> p" "p div 2 \<noteq> c" "i \<noteq> p" using that p by auto
    then show ?thesis using up recent_trans [OF up] le [of i] that p by (auto simp: nth)
  qed
  show ?thesis unfolding up_hole_def p_def [symmetric] using one two by blast
qed

lemma sift_up_spec:
  assumes "up_hole q tail c" and "1 \<le> c" and "c \<le> tail" and "tail < length q"
  shows "heap (sift_up q c) tail \<and> mset (used (sift_up q c) tail) = mset (used q tail) \<and>
    length (sift_up q c) = length q \<and> sift_up q c ! 0 = q ! 0"
  using assms
proof (induction q c rule: sift_up.induct)
  case (1 q c)
  note unf = sift_up.simps [of q c]
  show ?case
  proof (cases "2 \<le> c")
    case False
    then have "c = 1" using "1.prems"(2) by simp
    moreover have "sift_up q c = q" using unf False by (simp add: EVENT_QUEUE_HEAD_def)
    ultimately show ?thesis using "1.prems"(1) by (auto simp: heap_def up_hole_def)
  next
    case two: True
    then have head: "EVENT_QUEUE_HEAD \<le> c div 2" by (simp add: EVENT_QUEUE_HEAD_def)
    show ?thesis
    proof (cases "event_is_more_recent (q ! c) (q ! (c div 2))")
      case True
      let ?q = "swap_events q (c div 2) c"
      have h: "up_hole ?q tail (c div 2)" by (rule up_hole_swap [OF "1.prems"(1) two "1.prems"(3,4) True])
      have b: "1 \<le> c div 2" "c div 2 \<le> tail" using two "1.prems"(3) by simp_all
      have "mset (used ?q tail) = mset (used q tail)" using b "1.prems" by (intro mset_used_swap) simp_all
      moreover have "?q ! 0 = q ! 0" using b "1.prems" two by (subst swap_events_nth) auto
      ultimately show ?thesis using "1.IH" [OF head True h b] "1.prems"(4) unf head True by simp
    next
      case False
      then have "event_is_more_recent (q ! (c div 2)) (q ! c)" by (rule recent_total)
      then have "heap q tail" using "1.prems"(1) by (auto simp: heap_def up_hole_def)
      then show ?thesis using unf False by simp
    qed
  qed
qed


lemma down_hole_swap:
  assumes "down_hole q tail p" and "1 \<le> p" and "c div 2 = p" and "c \<le> tail" and "tail < length q"
    and "event_is_more_recent (q ! c) (q ! p)"
    and "\<And>i. i \<le> tail \<Longrightarrow> i div 2 = p \<Longrightarrow> event_is_more_recent (q ! c) (q ! i)"
  shows "down_hole (swap_events q p c) tail c"
proof -
  have p: "p < c" using assms(2,3) by auto
  have nth: "swap_events q p c ! i = (if i = p then q ! c else if i = c then q ! p else q ! i)" for i
    using p assms(4,5) by (intro swap_events_nth) simp_all
  have le: "event_is_more_recent (q ! (i div 2)) (q ! i)" if "2 \<le> i" "i \<le> tail" "i div 2 \<noteq> p" for i
    using assms(1) that by (simp add: down_hole_def)
  have one: "event_is_more_recent (swap_events q p c ! (i div 2)) (swap_events q p c ! i)"
    if "2 \<le> i" "i \<le> tail" "i div 2 \<noteq> c" for i
  proof -
    consider "i = c" | "i \<noteq> c" "i div 2 = p" | "i = p" | "i \<noteq> c" "i div 2 \<noteq> p" "i \<noteq> p" by blast
    then show ?thesis
    proof cases
      case 1
      then show ?thesis using assms(3,6) p by (simp add: nth)
    next
      case 2
      then have "i \<noteq> p" using assms(2) by auto
      then show ?thesis using 2 assms(7) that by (simp add: nth)
    next
      case 3
      then have "p div 2 \<noteq> p" "p div 2 \<noteq> c" "event_is_more_recent (q ! (p div 2)) (q ! c)"
        using assms(1,3,4) that p by (auto simp: down_hole_def)
      then show ?thesis using 3 by (simp add: nth)
    next
      case 4
      then show ?thesis using le [of i] that by (simp add: nth)
    qed
  qed
  have two: "event_is_more_recent (swap_events q p c ! (c div 2)) (swap_events q p c ! i)"
    if "i \<le> tail" "i div 2 = c" "2 \<le> c" for i
  proof -
    have "i \<noteq> c" "i \<noteq> p" "2 \<le> i" "i div 2 \<noteq> p" using that p assms(2) by auto
    then show ?thesis using le [of i] that assms(3) by (simp add: nth)
  qed
  show ?thesis unfolding down_hole_def using one two by blast
qed

lemma down_hole_heap:
  assumes "down_hole q tail p" and "\<And>i. 2 \<le> i \<Longrightarrow> i \<le> tail \<Longrightarrow> i div 2 = p \<Longrightarrow> event_is_more_recent (q ! p) (q ! i)"
  shows "heap q tail"
  using assms unfolding heap_def down_hole_def by metis

text \<open>
  The slot after the tail still holds the event that was moved to the root: when the loop compares with it, it finds the event
  that it moves down, and leaves the queue as it is.
\<close>

lemma sift_down_spec:
  assumes "down_hole q tail p" and "1 \<le> p" and "tail + 1 < length q" and "q ! (tail + 1) = q ! p" and "p \<le> tail + 1"
  shows "heap (sift_down q tail p) tail \<and> mset (used (sift_down q tail p) tail) = mset (used q tail) \<and>
    length (sift_down q tail p) = length q \<and> sift_down q tail p ! 0 = q ! 0"
  using assms
proof (induction q tail p rule: sift_down.induct)
  case (1 q tail p)
  define c where "c = (if event_is_more_recent (q ! (p * 2 + 1)) (q ! (p * 2)) then p * 2 + 1 else p * 2)"
  note unf = sift_down.simps [of q tail p, folded c_def]
  show ?case
  proof (cases "p * 2 \<le> tail")
    case False
    then have "i div 2 \<noteq> p" if "i \<le> tail" for i using that by auto
    then have "heap q tail" using down_hole_heap [OF "1.prems"(1)] by blast
    then show ?thesis using unf False by simp
  next
    case kids: True
    then have pos: "0 < p \<and> p * 2 \<le> tail" using "1.prems"(2) by simp
    have c: "c div 2 = p" "p < c" "1 \<le> c" using "1.prems"(2) by (auto simp: c_def)
    have least: "event_is_more_recent (q ! c) (q ! i)" if "i \<le> tail" "i div 2 = p" for i
    proof -
      have "i = p * 2 \<or> i = p * 2 + 1" using that(2) by auto
      then show ?thesis using recent_total by (auto simp: c_def)
    qed
    show ?thesis
    proof (cases "event_is_more_recent (q ! c) (q ! p)")
      case False
      then have "event_is_more_recent (q ! p) (q ! c)" by (rule recent_total)
      then have "heap q tail" using down_hole_heap [OF "1.prems"(1)] recent_trans least by blast
      then show ?thesis using unf pos False by (simp add: Let_def)
    next
      case True
      have step: "sift_down q tail p = sift_down (swap_events q p c) tail c" using unf pos True by (simp add: Let_def)
      show ?thesis
      proof (cases "c \<le> tail")
        case True
        have h: "down_hole (swap_events q p c) tail c"
          by (rule down_hole_swap [OF "1.prems"(1,2) c(1) True _ \<open>event_is_more_recent (q ! c) (q ! p)\<close>])
            (use "1.prems"(3) in simp, rule least)
        have nth: "swap_events q p c ! i = (if i = p then q ! c else if i = c then q ! p else q ! i)" for i
          using True c "1.prems"(3) by (intro swap_events_nth) simp_all
        have stale: "swap_events q p c ! (tail + 1) = swap_events q p c ! c" using True c "1.prems"(4) by (simp add: nth)
        have "mset (used (swap_events q p c) tail) = mset (used q tail)"
          using True c "1.prems"(2,3) by (intro mset_used_swap) simp_all
        moreover have "swap_events q p c ! 0 = q ! 0" using c "1.prems"(2) by (simp add: nth)
        ultimately show ?thesis
          using "1.IH" [OF pos c_def \<open>event_is_more_recent (q ! c) (q ! p)\<close> h c(3) _ stale] "1.prems"(3) True step by simp
      next
        case False
        then have last: "c = tail + 1" using kids by (auto simp: c_def split: if_splits)
        then have "swap_events q p c = q" using "1.prems"(3,4) by (simp add: swap_events_def list_update_same_conv)
        moreover have "sift_down q tail c = q" using last by (subst sift_down.simps) simp
        moreover have "heap q tail"
        proof (rule down_hole_heap [OF "1.prems"(1)])
          show "event_is_more_recent (q ! p) (q ! i)" if "i \<le> tail" "i div 2 = p" for i
            using least [OF that] unfolding last "1.prems"(4) .
        qed
        ultimately show ?thesis using step by simp
      qed
    qed
  qed
qed


section \<open>The operations on the queue\<close>

definition evq_inv :: "evqueue \<Rightarrow> bool" where
  "evq_inv s \<longleftrightarrow> initialized s \<and> length (event_queue s) = EVENT_QUEUE_LENGTH \<and> event_queue_tail s < EVENT_QUEUE_LENGTH \<and>
     heap (event_queue s) (event_queue_tail s) \<and>
     tv_sec (ev_time (event_queue s ! 0)) = 0 \<and> tv_usec (ev_time (event_queue s ! 0)) = 0"

lemma heap_verify:
  assumes "heap q tail" and "tv_sec (ev_time (q ! 0)) = 0" and "tv_usec (ev_time (q ! 0)) = 0"
  shows "sched_event_queue_verify q tail"
proof -
  have "event_is_more_recent (q ! i) (q ! (2 * i))" if "1 \<le> i" "2 * i \<le> tail" for i
    using heapD [OF assms(1), of "2 * i"] that by simp
  moreover have "event_is_more_recent (q ! i) (q ! (2 * i + 1))" if "1 \<le> i" "2 * i + 1 \<le> tail" for i
    using heapD [OF assms(1), of "2 * i + 1"] that by simp
  ultimately show ?thesis using assms(2,3) by (auto simp: sched_event_queue_verify_def list_all_iff EVENT_QUEUE_HEAD_def)
qed

lemma heap_least:
  assumes "heap q tail" and "1 \<le> i" and "i \<le> tail"
  shows "event_is_more_recent (q ! 1) (q ! i)"
  using assms(2,3)
proof (induction i rule: less_induct)
  case (less i)
  show ?case
  proof (cases "i = 1")
    case False
    then have "i div 2 < i" "1 \<le> i div 2" "i div 2 \<le> tail" "2 \<le> i" using less.prems by auto
    then show ?thesis using recent_trans [OF less.IH [of "i div 2"] heapD [OF assms(1), of i]] less.prems by simp
  qed simp
qed

lemma bag_least:
  assumes "evq_inv s" and "e \<in># bag s"
  shows "event_is_more_recent (event_queue s ! 1) e"
proof -
  obtain i where i: "i < event_queue_tail s" "e = event_queue s ! (i + 1)"
    using assms by (auto simp: bag_def evq_inv_def in_set_conv_nth used_nth)
  then show ?thesis using heap_least [of "event_queue s" "event_queue_tail s" "i + 1"] assms(1) by (simp add: evq_inv_def)
qed

lemma head_in_bag:
  assumes "evq_inv s" and "0 < event_queue_tail s"
  shows "event_queue s ! 1 \<in># bag s"
  using assms used_nth [of "event_queue_tail s" "event_queue s" 0] nth_mem [of 0 "used (event_queue s) (event_queue_tail s)"]
  by (simp add: bag_def evq_inv_def)

lemma used_Suc: "Suc tail < length q \<Longrightarrow> used q (Suc tail) = used q tail @ [q ! Suc tail]"
  by (simp add: used_def take_Suc_conv_app_nth)

lemma sched_event_enqueue_spec:
  assumes "evq_inv s" and "event_queue_tail s < EVENT_QUEUE_LENGTH - 1"
  shows "\<exists>s'. sched_event_enqueue e s = Some s' \<and> evq_inv s' \<and> bag s' = add_mset e (bag s) \<and>
    event_queue_tail s' = event_queue_tail s + 1 \<and> event_to_consume s' = event_to_consume s + 1"
proof -
  define t where "t = event_queue_tail s + 1"
  define q where "q = (event_queue s)[t := e]"
  have len: "length (event_queue s) = EVENT_QUEUE_LENGTH" "t < length q" "1 \<le> t" "length q = EVENT_QUEUE_LENGTH"
    using assms by (simp_all add: evq_inv_def q_def t_def)
  have nth: "q ! i = (if i = t then e else event_queue s ! i)" for i using len by (simp add: q_def nth_list_update)
  have "up_hole q t t"
    using assms(1) unfolding up_hole_def heap_def evq_inv_def by (auto simp: nth t_def)
  note up = sift_up_spec [OF this len(3) order_refl len(2)]
  have "used q t = used q (event_queue_tail s) @ [e]" using used_Suc [of "event_queue_tail s" q] len nth [of t] by (simp add: t_def)
  also have "used q (event_queue_tail s) = used (event_queue s) (event_queue_tail s)"
    using len by (simp add: q_def used_def t_def drop_update_swap)
  finally have bagq: "mset (used q t) = add_mset e (bag s)" by (simp add: bag_def)
  have q0: "tv_sec (ev_time (sift_up q t ! 0)) = 0" "tv_usec (ev_time (sift_up q t ! 0)) = 0"
    using up assms(1) nth [of 0] len(3) by (simp_all add: evq_inv_def)
  define s' where "s' = s\<lparr>event_queue := sift_up q t, event_queue_tail := t, event_to_consume := event_to_consume s + 1\<rparr>"
  have "sched_event_enqueue e s = Some s'"
    using assms up heap_verify [OF _ q0] unfolding sched_event_enqueue_def t_def [symmetric] q_def [symmetric] Let_def s'_def
    by (simp add: evq_inv_def)
  moreover have "evq_inv s'" using assms(1) up q0 len by (simp add: evq_inv_def s'_def)
  moreover have "bag s' = add_mset e (bag s)" using up bagq by (simp add: bag_def s'_def)
  ultimately show ?thesis by (simp add: s'_def t_def)
qed

lemma enqueue_all_spec:
  assumes "evq_inv s" and "event_queue_tail s + length es < EVENT_QUEUE_LENGTH"
  shows "\<exists>s'. enqueue_all es s = Some s' \<and> evq_inv s' \<and> bag s' = mset es + bag s \<and>
    event_queue_tail s' = event_queue_tail s + length es \<and> event_to_consume s' = event_to_consume s + length es"
  using assms
proof (induction es arbitrary: s)
  case (Cons e es)
  have "event_queue_tail s < EVENT_QUEUE_LENGTH - 1" using Cons.prems(2) by (simp add: less_diff_conv)
  from sched_event_enqueue_spec [OF Cons.prems(1) this, of e] obtain s1 where
    "sched_event_enqueue e s = Some s1" "evq_inv s1" "bag s1 = add_mset e (bag s)"
    "event_queue_tail s1 = event_queue_tail s + 1" "event_to_consume s1 = event_to_consume s + 1" by auto
  then show ?case using Cons.IH [of s1] Cons.prems(2) by auto
qed simp

lemma remove_head_spec:
  assumes "evq_inv s" and "0 < event_queue_tail s"
  shows "\<exists>s'. remove_head s = Some s' \<and> evq_inv s' \<and> bag s = add_mset (event_queue s ! 1) (bag s') \<and>
    event_queue_tail s' = event_queue_tail s - 1 \<and> event_to_consume s' = event_to_consume s"
proof -
  obtain t where t: "event_queue_tail s = Suc t" using assms(2) by (cases "event_queue_tail s") simp_all
  define x where "x = event_queue s ! Suc t"
  define q where "q = (event_queue s)[1 := x]"
  have len: "length (event_queue s) = EVENT_QUEUE_LENGTH" "Suc t < length q" "length q = EVENT_QUEUE_LENGTH"
    using assms by (simp_all add: evq_inv_def q_def t)
  have nth: "q ! i = (if i = 1 then x else event_queue s ! i)" for i using len by (simp add: q_def nth_list_update)
  have "down_hole q t 1"
    using assms(1) unfolding down_hole_def heap_def evq_inv_def t by (auto simp: nth)
  moreover have "q ! (t + 1) = q ! 1" by (simp add: nth x_def)
  ultimately have down: "heap (sift_down q t 1) t" "mset (used (sift_down q t 1) t) = mset (used q t)"
    "length (sift_down q t 1) = length q" "sift_down q t 1 ! 0 = q ! 0"
    using sift_down_spec [of q t 1] len by simp_all
  have "mset (used (event_queue s) (Suc t)) = add_mset (event_queue s ! 1) (mset (used q t))"
  proof (cases t)
    case 0
    then show ?thesis using used_Suc [of 0 "event_queue s"] len by (simp add: used_def q_def)
  next
    case (Suc k)
    let ?u = "used (event_queue s) t"
    have u: "length ?u = t" "?u ! 0 = event_queue s ! 1" using len Suc by (simp_all add: used_nth q_def)
    have pos: "0 < length ?u" using u Suc by simp
    have "used q t = ?u[0 := x]" by (simp add: q_def used_update)
    moreover have "?u ! 0 \<in># mset ?u" using u Suc nth_mem [of 0 ?u] by simp
    ultimately have "mset (used q t) = add_mset x (mset ?u - {#event_queue s ! 1#})" "event_queue s ! 1 \<in># mset ?u"
      using mset_update [of 0 ?u x, OF pos] u Suc by simp_all
    moreover have "mset (used (event_queue s) (Suc t)) = add_mset x (mset ?u)"
      using used_Suc [of t "event_queue s"] len by (simp add: x_def q_def)
    ultimately show ?thesis by (metis add_mset_commute insert_DiffM)
  qed
  moreover have q0: "tv_sec (ev_time (sift_down q t 1 ! 0)) = 0" "tv_usec (ev_time (sift_down q t 1 ! 0)) = 0"
    using down(4) assms(1) nth [of 0] by (simp_all add: evq_inv_def)
  moreover have "remove_head s = Some (s\<lparr>event_queue := sift_down q t 1, event_queue_tail := t\<rparr>)"
    using heap_verify [OF down(1) q0] by (simp add: remove_head_def t q_def x_def EVENT_QUEUE_HEAD_def)
  ultimately show ?thesis using down len assms(1) by (simp add: evq_inv_def bag_def t)
qed


fun wake_events :: "wakeup \<Rightarrow> sched_event list" where
  "wake_events (Woken es) = es"
| "wake_events (TimedOut es) = es"
| "wake_events (WaitFailed es) = es"

definition arrivals :: "wakeup list \<Rightarrow> sched_event list" where
  "arrivals ws = concat (map wake_events ws)"

lemma arrivals_simps [simp]: "arrivals [] = []" "arrivals (w # ws) = wake_events w @ arrivals ws"
  by (simp_all add: arrivals_def)

text \<open>
  The wait returns the head of the queue as it is then, provided that no two events share a notification; a time-out without
  arrivals ends it.
\<close>

definition waited :: "evqueue \<Rightarrow> wakeup list \<Rightarrow> deq_result \<Rightarrow> evqueue \<Rightarrow> bool" where
  "waited s ws r s' \<longleftrightarrow> evq_inv s' \<and>
     (\<exists>k \<le> length ws. bag s' = mset (arrivals (take k ws)) + bag s \<and>
       event_queue_tail s' = event_queue_tail s + length (arrivals (take k ws)) \<and>
       event_to_consume s' = event_to_consume s + length (arrivals (take k ws))) \<and>
     (case r of Dequeued e \<Rightarrow> e = event_queue s' ! 1 | QueueEmpty \<Rightarrow> False | DeqError \<Rightarrow> \<exists>es. WaitFailed es \<in> set ws
      | StillWaiting \<Rightarrow> TimedOut [] \<notin> set ws)"

lemma waited_more:
  assumes "waited s1 ws r s'" and "bag s1 = mset (wake_events w) + bag s"
    and "event_queue_tail s1 = event_queue_tail s + length (wake_events w)"
    and "event_to_consume s1 = event_to_consume s + length (wake_events w)" and "r = StillWaiting \<Longrightarrow> w \<noteq> TimedOut []"
  shows "waited s (w # ws) r s'"
proof -
  obtain k where "k \<le> length ws" "bag s' = mset (arrivals (take k ws)) + bag s1"
    "event_queue_tail s' = event_queue_tail s1 + length (arrivals (take k ws))"
    "event_to_consume s' = event_to_consume s1 + length (arrivals (take k ws))" using assms(1) by (auto simp: waited_def)
  then have "Suc k \<le> length (w # ws) \<and> bag s' = mset (arrivals (take (Suc k) (w # ws))) + bag s \<and>
      event_queue_tail s' = event_queue_tail s + length (arrivals (take (Suc k) (w # ws))) \<and>
      event_to_consume s' = event_to_consume s + length (arrivals (take (Suc k) (w # ws)))"
    using assms(2-4) by simp
  then show ?thesis using assms(1,5) unfolding waited_def by (cases r) auto
qed

lemma waited_now:
  assumes "evq_inv s1" and "bag s1 = mset (wake_events w) + bag s"
    and "event_queue_tail s1 = event_queue_tail s + length (wake_events w)"
    and "event_to_consume s1 = event_to_consume s + length (wake_events w)"
    and "r = Dequeued (event_queue s1 ! 1) \<or> r = DeqError \<and> w = WaitFailed (wake_events w)"
  shows "waited s (w # ws) r s1"
proof -
  have "(case r of Dequeued e \<Rightarrow> e = event_queue s1 ! 1 | QueueEmpty \<Rightarrow> False | DeqError \<Rightarrow> \<exists>es. WaitFailed es \<in> set (w # ws)
      | StillWaiting \<Rightarrow> TimedOut [] \<notin> set (w # ws))" using assms(5) by (elim disjE conjE; simp; metis)
  moreover have "\<exists>k \<le> length (w # ws). bag s1 = mset (arrivals (take k (w # ws))) + bag s \<and>
      event_queue_tail s1 = event_queue_tail s + length (arrivals (take k (w # ws))) \<and>
      event_to_consume s1 = event_to_consume s + length (arrivals (take k (w # ws)))"
    using assms(2-4) by (intro exI [of _ 1]) simp
  ultimately show ?thesis using assms(1) unfolding waited_def by blast
qed

lemma dequeue_wait_spec:
  assumes "evq_inv s" and "0 < event_queue_tail s" and "event_queue_tail s + length (arrivals ws) < EVENT_QUEUE_LENGTH"
    and "inj_on ev_notification (set_mset (bag s) \<union> set (arrivals ws))"
  shows "\<exists>r s'. dequeue_wait ws s = Some (r, s') \<and> waited s ws r s'"
  using assms
proof (induction ws arbitrary: s)
  case Nil
  then show ?case by (simp add: waited_def)
next
  case (Cons w ws)
  have room: "event_queue_tail s + length (wake_events w) < EVENT_QUEUE_LENGTH" using Cons.prems(3) by simp
  from enqueue_all_spec [OF Cons.prems(1) room] obtain s1 where
    s1: "enqueue_all (wake_events w) s = Some s1" "evq_inv s1" "bag s1 = mset (wake_events w) + bag s"
    "event_queue_tail s1 = event_queue_tail s + length (wake_events w)"
    "event_to_consume s1 = event_to_consume s + length (wake_events w)" by blast
  have "0 < event_queue_tail s1" "event_queue_tail s1 + length (arrivals ws) < EVENT_QUEUE_LENGTH"
    "inj_on ev_notification (set_mset (bag s1) \<union> set (arrivals ws))"
    using s1(3,4) Cons.prems by (simp_all add: Un_assoc Un_left_commute)
  from Cons.IH [OF s1(2) this] obtain r s' where rec: "dequeue_wait ws s1 = Some (r, s')" "waited s1 ws r s'" by blast
  note more = waited_more [OF rec(2) s1(3-5)] and now = waited_now [OF s1(2-5)]
  show ?case
  proof (cases w)
    case (Woken es)
    then show ?thesis using s1(1) rec(1) more by (intro exI [of _ r] exI [of _ s']) simp
  next
    case (WaitFailed es)
    then show ?thesis using s1(1) now [of DeqError ws] by (intro exI [of _ DeqError] exI [of _ s1]) simp
  next
    case (TimedOut es)
    let ?h = "event_queue s ! 1"
    have heads: "?h \<in># bag s" "event_queue s1 ! 1 \<in># bag s1"
      using head_in_bag [OF Cons.prems(1,2)] head_in_bag [OF s1(2)] Cons.prems(2) s1(4) by simp_all
    then have same: "?h = event_queue s1 ! 1" if "ev_notification ?h = ev_notification (event_queue s1 ! 1)"
      using Cons.prems(4) s1(3) that by (auto dest: inj_onD)
    show ?thesis
    proof (cases "ev_notification ?h = ev_notification (event_queue s1 ! 1)")
      case True
      then have "dequeue_wait (w # ws) s = Some (Dequeued (event_queue s1 ! 1), s1)"
        using TimedOut s1(1) same by (simp add: EVENT_QUEUE_HEAD_def)
      then show ?thesis using now [of "Dequeued (event_queue s1 ! 1)" ws] by blast
    next
      case False
      then have "w \<noteq> TimedOut []" using s1(1) TimedOut by auto
      then show ?thesis using TimedOut s1(1) rec(1) more False
        by (intro exI [of _ r] exI [of _ s']) (simp add: EVENT_QUEUE_HEAD_def)
    qed
  qed
qed


section \<open>Draining a queue in order\<close>

text \<open>
  The contract of a queue from which a least element can be taken. Taking elements until none is left gives all of them in
  order.
\<close>

locale ordered_queue =
  fixes inv :: "'s \<Rightarrow> bool"
    and contents :: "'s \<Rightarrow> 'e multiset"
    and le :: "'e \<Rightarrow> 'e \<Rightarrow> bool"
    and take_least :: "'s \<Rightarrow> ('e \<times> 's) option"
  assumes take_None: "inv s \<Longrightarrow> take_least s = None \<Longrightarrow> contents s = {#}"
    and take_Some: "inv s \<Longrightarrow> take_least s = Some (e, s') \<Longrightarrow>
      inv s' \<and> contents s = add_mset e (contents s') \<and> (\<forall>x \<in># contents s'. le e x)"
begin

lemma drain_sorted:
  assumes "inv s" and "size (contents s) \<le> k" and "serve take_least k s = (es, s')"
  shows "inv s' \<and> contents s' = {#} \<and> mset es = contents s \<and> sorted_wrt le es"
  using assms
proof (induction k arbitrary: s es s')
  case (Suc k)
  show ?case
  proof (cases "take_least s")
    case None
    then show ?thesis using Suc.prems take_None by auto
  next
    case (Some r)
    then obtain e s1 where e: "take_least s = Some (e, s1)" by (cases r) simp
    note t = take_Some [OF Suc.prems(1) e]
    obtain es1 s2 where rec: "serve take_least k s1 = (es1, s2)" by fastforce
    then have "es = e # es1" "s2 = s'" using Suc.prems(3) e by simp_all
    moreover have "inv s2 \<and> contents s2 = {#} \<and> mset es1 = contents s1 \<and> sorted_wrt le es1"
      using Suc.IH [OF _ _ rec] Suc.prems(2) t by simp
    moreover from this have "\<forall>x \<in> set es1. le e x" using t by (metis set_mset_mset)
    ultimately show ?thesis using t by simp
  qed
qed simp

end

definition next_event :: "evqueue \<Rightarrow> (sched_event \<times> evqueue) option" where
  "next_event s = (case sched_event_dequeue True [TimedOut []] s of Some (Dequeued e, s') \<Rightarrow> Some (e, s') | _ \<Rightarrow> None)"

text \<open>The queue and its semaphore in step, as long as all dequeues wait.\<close>

definition evq_sync :: "evqueue \<Rightarrow> bool" where
  "evq_sync s \<longleftrightarrow> evq_inv s \<and> event_to_consume s = event_queue_tail s"

lemma bag_empty: "evq_inv s \<Longrightarrow> bag s = {#} \<longleftrightarrow> event_queue_tail s = 0"
  using length_used [of "event_queue_tail s" "event_queue s"] by (auto simp: bag_def evq_inv_def used_def)

lemma size_bag: "evq_inv s \<Longrightarrow> size (bag s) = event_queue_tail s"
  by (simp add: bag_def evq_inv_def)

lemma next_event_cases:
  assumes "evq_sync s"
  obtains (empty) "bag s = {#}" "next_event s = None"
  | (event) s' where "next_event s = Some (event_queue s ! 1, s')" "evq_sync s'"
      "bag s = add_mset (event_queue s ! 1) (bag s')"
proof (cases "event_queue_tail s = 0")
  case True
  then show ?thesis using empty bag_empty assms
    by (simp add: next_event_def sched_event_dequeue_def evq_sync_def evq_inv_def)
next
  case False
  let ?s = "s\<lparr>event_to_consume := event_to_consume s - 1\<rparr>"
  have inv: "evq_inv ?s" "0 < event_queue_tail ?s" "event_queue ?s = event_queue s" "bag ?s = bag s"
    using assms False by (simp_all add: evq_sync_def evq_inv_def bag_def)
  from remove_head_spec [OF inv(1,2)] obtain s' where
    s': "remove_head ?s = Some s'" "evq_inv s'" "bag s = add_mset (event_queue s ! 1) (bag s')"
    "event_queue_tail s' = event_queue_tail s - 1" "event_to_consume s' = event_to_consume s - 1" using inv(4) by auto
  have "sched_event_dequeue True [TimedOut []] s = Some (Dequeued (event_queue s ! 1), s')"
    using assms False s'(1) by (simp add: sched_event_dequeue_def evq_sync_def evq_inv_def EVENT_QUEUE_HEAD_def)
  then show ?thesis using event [of s'] s' assms by (simp add: next_event_def evq_sync_def)
qed

interpretation events: ordered_queue evq_sync bag event_is_more_recent next_event
proof unfold_locales
  show "bag s = {#}" if "evq_sync s" "next_event s = None" for s
    by (cases rule: next_event_cases [OF that(1)]) (use that(2) in simp_all)
  show "evq_sync s' \<and> bag s = add_mset e (bag s') \<and> (\<forall>x \<in># bag s'. event_is_more_recent e x)"
    if "evq_sync s" "next_event s = Some (e, s')" for s e s'
    by (cases rule: next_event_cases [OF that(1)]) (use that bag_least [of s] in \<open>auto simp: evq_sync_def\<close>)
qed


section \<open>Properties\<close>

text \<open>The queue after \<^const>\<open>sched_event_init\<close>, and with one event.\<close>

definition event_example :: "nat \<Rightarrow> int \<Rightarrow> sched_event" where
  "event_example n sec = \<lparr>ev_agent = 0, ev_notification = n, ev_time = \<lparr>tv_sec = sec, tv_usec = 0\<rparr>, ev_length = 1, ev_flags = 0\<rparr>"

definition evq_example :: evqueue where
  "evq_example = sched_event_init \<lparr>event_queue = replicate EVENT_QUEUE_LENGTH (event_example 0 0), event_queue_tail = 0,
     event_to_consume = 0, initialized = False\<rparr>"

lemma evq_example_inv: "evq_sync evq_example"
  by (simp add: evq_sync_def evq_inv_def evq_example_def sched_event_init_def heap_def event_example_def EVENT_QUEUE_LENGTH_def)

text \<open>
  C35. Enqueuing an event keeps the queue a heap: the check that the routine ends with always succeeds, and exactly the event
  has been added. The only failure is that of the capacity, on a queue that is full.
\<close>

theorem event_enqueue:
  assumes "evq_inv s"
  shows "(event_queue_tail s < EVENT_QUEUE_LENGTH - 1 \<longrightarrow>
      (\<exists>s'. sched_event_enqueue e s = Some s' \<and> evq_inv s' \<and> bag s' = add_mset e (bag s) \<and>
        event_to_consume s' = event_to_consume s + 1)) \<and>
    (event_queue_tail s = EVENT_QUEUE_LENGTH - 1 \<longrightarrow> sched_event_enqueue e s = None)"
  using sched_event_enqueue_spec [OF assms, of e] assms by (auto simp: sched_event_enqueue_def)

theorem event_enqueue_witness:
  "\<exists>s'. sched_event_enqueue (event_example 1 5) evq_example = Some s' \<and> bag s' = {#event_example 1 5#}"
proof -
  have "evq_inv evq_example" "event_queue_tail evq_example < EVENT_QUEUE_LENGTH - 1" "bag evq_example = {#}"
    using evq_example_inv bag_empty [of evq_example]
    by (simp_all add: evq_sync_def evq_example_def sched_event_init_def EVENT_QUEUE_LENGTH_def)
  then show ?thesis using event_enqueue [of evq_example "event_example 1 5"] by auto
qed

text \<open>
  C36. A dequeue from a queue that is not empty passes its checks whatever other threads enqueue while it waits, as long as there is
  room and no two events share a notification. An event that it returns is the earliest of those in the queue when it
  leaves, the new ones included, and exactly it has been removed. The wait ends at the latest with a time-out during which nothing
  arrived; only a failing wait makes it return an error.
\<close>

theorem event_dequeue:
  assumes "evq_inv s" and "0 < event_queue_tail s" and "0 < event_to_consume s"
    and "event_queue_tail s + length (arrivals ws) < EVENT_QUEUE_LENGTH"
    and "inj_on ev_notification (set_mset (bag s) \<union> set (arrivals ws))"
  shows "\<exists>r s'. sched_event_dequeue wait ws s = Some (r, s') \<and> evq_inv s' \<and>
    (\<forall>e. r = Dequeued e \<longrightarrow> (\<exists>k \<le> length ws. mset (arrivals (take k ws)) + bag s = add_mset e (bag s')) \<and>
      (\<forall>x \<in># bag s'. event_is_more_recent e x)) \<and>
    (TimedOut [] \<in> set ws \<and> (\<forall>es. WaitFailed es \<notin> set ws) \<longrightarrow> (\<exists>e. r = Dequeued e))"
proof -
  define s1 where "s1 = (if wait then s\<lparr>event_to_consume := event_to_consume s - 1\<rparr> else s)"
  have s1: "evq_inv s1" "0 < event_queue_tail s1" "event_queue_tail s1 + length (arrivals ws) < EVENT_QUEUE_LENGTH"
    "inj_on ev_notification (set_mset (bag s1) \<union> set (arrivals ws))" "bag s1 = bag s"
    using assms by (simp_all add: s1_def evq_inv_def bag_def)
  from dequeue_wait_spec [OF s1(1-4)] obtain r s2 where w: "dequeue_wait ws s1 = Some (r, s2)" "waited s1 ws r s2" by blast
  from w(2) obtain k where k: "evq_inv s2" "k \<le> length ws" "bag s2 = mset (arrivals (take k ws)) + bag s"
    "event_queue_tail s2 = event_queue_tail s1 + length (arrivals (take k ws))" using s1(5) by (auto simp: waited_def)
  from remove_head_spec [OF k(1)] k(4) s1(2) obtain s3 where
    s3: "remove_head s2 = Some s3" "evq_inv s3" "bag s2 = add_mset (event_queue s2 ! 1) (bag s3)" by auto
  have call: "sched_event_dequeue wait ws s =
      (case r of Dequeued e \<Rightarrow> Some (Dequeued e, s3) | _ \<Rightarrow> Some (r, s2))"
    using assms(1-3) w(1) s3(1) unfolding sched_event_dequeue_def Let_def s1_def [symmetric]
    by (cases r) (simp_all add: evq_inv_def s1_def)
  show ?thesis
  proof (cases r)
    case (Dequeued e)
    then have e: "e = event_queue s2 ! 1" using w(2) by (simp add: waited_def)
    have "\<forall>x \<in># bag s3. event_is_more_recent e x" using bag_least [OF k(1)] s3(3) e by simp
    then show ?thesis using call Dequeued e s3 k(2,3) by auto
  qed (use call w(2) k(1) in \<open>auto simp: waited_def\<close>)
qed

theorem event_dequeue_witness:
  "\<exists>s r s'. sched_event_enqueue (event_example 1 5) evq_example = Some s \<and>
    sched_event_dequeue True [TimedOut [event_example 2 3], TimedOut []] s = Some (r, s') \<and> (\<exists>e. r = Dequeued e)"
proof -
  have i: "evq_inv evq_example" "event_queue_tail evq_example = 0" "bag evq_example = {#}"
    using evq_example_inv bag_empty [of evq_example] by (simp_all add: evq_sync_def evq_example_def sched_event_init_def)
  from sched_event_enqueue_spec [OF i(1), of "event_example 1 5"] i obtain s where
    s: "sched_event_enqueue (event_example 1 5) evq_example = Some s" "evq_inv s" "bag s = {#event_example 1 5#}"
    "event_queue_tail s = 1" "0 < event_to_consume s" by (auto simp: EVENT_QUEUE_LENGTH_def)
  have "inj_on ev_notification (set_mset (bag s) \<union> set (arrivals [TimedOut [event_example 2 3], TimedOut []]))"
    using s(3) by (simp add: event_example_def)
  with event_dequeue [OF s(2) _ s(5), of "[TimedOut [event_example 2 3], TimedOut []]" True] s(4)
  obtain r s' where "sched_event_dequeue True [TimedOut [event_example 2 3], TimedOut []] s = Some (r, s')" "\<exists>e. r = Dequeued e"
    by (auto simp: EVENT_QUEUE_LENGTH_def)
  then show ?thesis using s(1) by blast
qed

text \<open>
  C37. The scheduler fires all events in the order of their times: when nothing new arrives, as many waiting dequeues as there are events
  return exactly the pending events, each once, sorted by time.
\<close>

theorem events_in_order:
  assumes "evq_sync s" and "serve next_event (event_queue_tail s) s = (es, s')"
  shows "mset es = bag s \<and> sorted_wrt event_is_more_recent es \<and> event_queue_tail s' = 0"
proof -
  have "size (bag s) \<le> event_queue_tail s" using size_bag assms(1) by (simp add: evq_sync_def)
  note d = events.drain_sorted [OF assms(1) this assms(2)]
  then show ?thesis using bag_empty [of s'] by (simp add: evq_sync_def)
qed

theorem events_in_order_witness:
  "\<exists>s es s'. enqueue_all [event_example 1 5, event_example 2 3] evq_example = Some s \<and> serve next_event 2 s = (es, s') \<and>
    mset es = {#event_example 1 5, event_example 2 3#} \<and> sorted_wrt event_is_more_recent es"
proof -
  have i: "evq_inv evq_example" "event_queue_tail evq_example = 0" "event_to_consume evq_example = 0" "bag evq_example = {#}"
    using evq_example_inv bag_empty [of evq_example] by (simp_all add: evq_sync_def evq_example_def sched_event_init_def)
  from enqueue_all_spec [OF i(1), of "[event_example 1 5, event_example 2 3]"] i obtain s where
    s: "enqueue_all [event_example 1 5, event_example 2 3] evq_example = Some s" "evq_sync s" "event_queue_tail s = 2"
    "bag s = {#event_example 1 5, event_example 2 3#}"
    by (auto simp: EVENT_QUEUE_LENGTH_def evq_sync_def simp del: enqueue_all.simps)
  obtain es s' where "serve next_event 2 s = (es, s')" by (cases "serve next_event 2 s")
  then show ?thesis using events_in_order [OF s(2), of es s'] s by auto
qed

text \<open>
  A dequeue that does not wait takes an event but leaves the semaphore as it was. When it has taken the last event, the
  next dequeue of either kind believes that there is one more, and fails its assertion.
\<close>

theorem nowait_breaks_semaphore:
  assumes "evq_sync s" and "event_queue_tail s = 1"
  shows "\<exists>e s'. sched_event_dequeue False [TimedOut []] s = Some (Dequeued e, s') \<and> event_to_consume s' = 1 \<and>
    event_queue_tail s' = 0 \<and> (\<forall>wait ws. sched_event_dequeue wait ws s' = None)"
proof -
  have s: "evq_inv s" "0 < event_queue_tail s" "event_to_consume s = 1" using assms by (simp_all add: evq_sync_def)
  from remove_head_spec [OF s(1,2)] obtain s' where
    s': "remove_head s = Some s'" "evq_inv s'" "event_queue_tail s' = 0" "event_to_consume s' = 1" using assms(2) s(3) by auto
  have "sched_event_dequeue False [TimedOut []] s = Some (Dequeued (event_queue s ! 1), s')"
    using s s'(1) by (simp add: sched_event_dequeue_def evq_inv_def EVENT_QUEUE_HEAD_def)
  moreover have "sched_event_dequeue wait ws s' = None" for wait ws
    using s' by (simp add: sched_event_dequeue_def evq_inv_def Let_def)
  ultimately show ?thesis using s' by blast
qed

theorem nowait_breaks_semaphore_witness:
  "\<exists>s e s'. sched_event_enqueue (event_example 1 5) evq_example = Some s \<and>
    sched_event_dequeue False [TimedOut []] s = Some (Dequeued e, s') \<and> sched_event_dequeue True [] s' = None"
proof -
  have i: "evq_inv evq_example" "event_queue_tail evq_example = 0" "event_to_consume evq_example = 0"
    using evq_example_inv by (simp_all add: evq_sync_def evq_example_def sched_event_init_def)
  from sched_event_enqueue_spec [OF i(1), of "event_example 1 5"] i obtain s where
    s: "sched_event_enqueue (event_example 1 5) evq_example = Some s" "evq_sync s" "event_queue_tail s = 1"
    by (auto simp: EVENT_QUEUE_LENGTH_def evq_sync_def)
  then show ?thesis using nowait_breaks_semaphore [OF s(2,3)] by blast
qed

end
