(* ===== verification/RangeMap.thy ===== *)
theory RangeMap
  imports Prelude
begin

text \<open>
  The range maps of the image tools (clientside/os/imagezip/libndz/rangemap.c): a sorted list of disjoint address ranges with
  data, and a hint where the next search starts. The list of \<^verbatim>\<open>struct ndz_range\<close> is a HOL list; a pointer to
  an entry is its index, and a pointer to a \<^verbatim>\<open>next\<close> field (the hint is one) the index of the entry it
  points to, which is the length of the list for the last one. Addresses are unsigned 64-bit numbers. The
  statistics of lookups and the dump are left out. The abstract view is the partial function from addresses to data.
\<close>

section \<open>Definitions\<close>

text \<open>The data pointer is a number, 0 for \<^verbatim>\<open>NULL\<close>.\<close>

record ndz_range =
  rg_start :: int
  rg_end :: int
  rg_data :: nat

record ndz_rangemap =
  ranges_of :: "ndz_range list"
  hint :: nat
  loaddr :: int
  hiaddr :: int
  gen :: int
  entries :: int
  sectors :: int

datatype errno = Zero | EINVAL | EBUSY | ENOMEM

definition ndz_rangemap_init :: "int \<Rightarrow> int \<Rightarrow> ndz_rangemap" where
  "ndz_rangemap_init lo hi = \<lparr>ranges_of = [], hint = 0, loaddr = lo, hiaddr = hi, gen = 1, entries = 0, sectors = 0\<rparr>"

text \<open>
  The search from entry \<open>i\<close> on, with the position before it: the entry found, the one before the address, and the new
  hint.
\<close>

definition prev_of :: "nat \<Rightarrow> nat option" where
  "prev_of i = (if i = 0 then None else Some (i - 1))"

function lookup_loop :: "ndz_range list \<Rightarrow> int \<Rightarrow> nat \<Rightarrow> nat option \<Rightarrow> nat option \<times> nat option \<times> nat" where
  "lookup_loop rs addr i oprange =
     (if addr \<le> rg_end (rs ! i) then
        if addr < rg_start (rs ! i) then (None, prev_of i, case oprange of None \<Rightarrow> i | Some j \<Rightarrow> j)
        else (Some i, prev_of i, i)
      else if i + 1 < length rs then lookup_loop rs addr (i + 1) (Some i)
      else (None, Some i, i))"
  by pat_completeness auto
termination
  by (relation "measure (\<lambda>(rs, addr, i, oprange). length rs - i)") auto

declare lookup_loop.simps [simp del]

definition ndz_rangemap_lookup :: "int \<Rightarrow> ndz_rangemap \<Rightarrow> (nat option \<times> nat option \<times> ndz_rangemap) option" where
  "ndz_rangemap_lookup addr m =
     (let rs = ranges_of m;
          restart = (hint m = length rs \<or> addr < rg_start (rs ! hint m)) in
      if restart \<and> rs = [] then Some (None, None, m\<lparr>hint := 0\<rparr>)
      else
        let (range, prev, h) = lookup_loop rs addr (if restart then 0 else hint m) None in
        do {
          c_assert (case range of Some i \<Rightarrow> h = i | None \<Rightarrow> (case prev of Some j \<Rightarrow> h = j | None \<Rightarrow> True));
          Some (range, prev, m\<lparr>hint := h\<rparr>)
        })"

definition merges_prev :: "ndz_range list \<Rightarrow> int \<Rightarrow> nat option \<Rightarrow> bool" where
  "merges_prev rs addr prev = (case prev of None \<Rightarrow> False | Some p \<Rightarrow> to_u64 (rg_end (rs ! p) + 1) = addr)"

definition merges_next :: "ndz_range list \<Rightarrow> int \<Rightarrow> nat \<Rightarrow> bool" where
  "merges_next rs eaddr k \<longleftrightarrow> k < length rs \<and> to_u64 (eaddr + 1) = rg_start (rs ! k)"

text \<open>The entry after the place where an address is not found.\<close>

definition next_of :: "nat option \<Rightarrow> nat" where
  "next_of prev = (case prev of None \<Rightarrow> 0 | Some p \<Rightarrow> p + 1)"

definition merge_range :: "int \<Rightarrow> int \<Rightarrow> nat option \<Rightarrow> ndz_rangemap \<Rightarrow> ndz_rangemap" where
  "merge_range addr eaddr prev m =
     (let rs = ranges_of m; k = next_of prev in
      if merges_prev rs addr prev then
        let p = the prev;
            m1 = (if merges_next rs eaddr k
                  then m\<lparr>ranges_of := take p rs @ (rs ! p)\<lparr>rg_end := rg_end (rs ! k)\<rparr> # drop (k + 1) rs,
                         entries := to_u64 (entries m - 1)\<rparr>
                  else m\<lparr>ranges_of := rs[p := (rs ! p)\<lparr>rg_end := eaddr\<rparr>]\<rparr>) in
        if hint m1 \<noteq> p then m1\<lparr>hint := p + 1\<rparr> else m1
      else m\<lparr>ranges_of := rs[k := (rs ! k)\<lparr>rg_start := addr\<rparr>], hint := k\<rparr>)"

definition insert_range :: "int \<Rightarrow> int \<Rightarrow> nat \<Rightarrow> nat option \<Rightarrow> ndz_rangemap \<Rightarrow> ndz_rangemap" where
  "insert_range addr eaddr data prev m =
     (let rs = ranges_of m; k = next_of prev in
      m\<lparr>ranges_of := take k rs @ \<lparr>rg_start = addr, rg_end = eaddr, rg_data = data\<rparr> # drop k rs, hint := k,
        entries := to_u64 (entries m + 1)\<rparr>)"

text \<open>The result of \<^verbatim>\<open>calloc\<close> is the first argument.\<close>

definition ndz_rangemap_alloc :: "bool \<Rightarrow> int \<Rightarrow> int \<Rightarrow> nat \<Rightarrow> ndz_rangemap \<Rightarrow> (errno \<times> ndz_rangemap) option" where
  "ndz_rangemap_alloc mem addr nsect data m =
     (let eaddr = to_u64 (addr + nsect - 1) in
      if eaddr < addr \<or> addr < loaddr m \<or> eaddr > hiaddr m then Some (EINVAL, m)
      else do {
        (range, prev, m1) \<leftarrow> ndz_rangemap_lookup addr m;
        let rs = ranges_of m1; k = next_of prev in
        if range \<noteq> None then Some (EINVAL, m1)
        else if k < length rs \<and> eaddr \<ge> rg_start (rs ! k) then Some (EINVAL, m1)
        else
          let done_with = (\<lambda>m2. Some (Zero, m2\<lparr>gen := to_u64 (gen m2 + 1), sectors := to_u64 (sectors m2 + nsect)\<rparr>)) in
          if data = 0 \<and> ((merges_prev rs addr prev \<and> rg_data (rs ! the prev) = 0) \<or>
               (merges_next rs eaddr k \<and> rg_data (rs ! k) = 0))
          then done_with (merge_range addr eaddr prev m1)
          else if \<not> mem then Some (ENOMEM, m1)
          else done_with (insert_range addr eaddr data prev m1)
      })"

definition cut_range :: "int \<Rightarrow> int \<Rightarrow> nat \<Rightarrow> ndz_rangemap \<Rightarrow> ndz_rangemap" where
  "cut_range addr eaddr i m =
     (let rs = ranges_of m; r = rs ! i in
      if rg_start r = addr then
        if rg_end r = eaddr then m\<lparr>ranges_of := take i rs @ drop (i + 1) rs, hint := i, entries := to_u64 (entries m - 1)\<rparr>
        else m\<lparr>ranges_of := rs[i := r\<lparr>rg_start := to_u64 (eaddr + 1)\<rparr>], hint := i\<rparr>
      else if rg_end r = eaddr then m\<lparr>ranges_of := rs[i := r\<lparr>rg_end := to_u64 (addr - 1)\<rparr>], hint := i\<rparr>
      else
        m\<lparr>ranges_of := take i rs @ r\<lparr>rg_end := to_u64 (addr - 1)\<rparr> #
             \<lparr>rg_start = to_u64 (eaddr + 1), rg_end = rg_end r, rg_data = 0\<rparr> # drop (i + 1) rs,
          hint := i + 1, entries := to_u64 (entries m + 1)\<rparr>)"

definition ndz_rangemap_dealloc :: "bool \<Rightarrow> int \<Rightarrow> int \<Rightarrow> ndz_rangemap \<Rightarrow> (errno \<times> ndz_rangemap) option" where
  "ndz_rangemap_dealloc mem addr nsect m =
     (let eaddr = to_u64 (addr + nsect - 1) in
      if eaddr < addr \<or> addr < loaddr m \<or> eaddr > hiaddr m then Some (EINVAL, m)
      else do {
        (range, prev, m1) \<leftarrow> ndz_rangemap_lookup addr m;
        case range of
          None \<Rightarrow> Some (EINVAL, m1)
        | Some i \<Rightarrow>
            let r = ranges_of m1 ! i in
            if eaddr > rg_end r then Some (EINVAL, m1)
            else if rg_data r \<noteq> 0 then Some (EBUSY, m1)
            else if rg_start r \<noteq> addr \<and> rg_end r \<noteq> eaddr \<and> \<not> mem then Some (ENOMEM, m1)
            else
              let m2 = cut_range addr eaddr i m1 in
              Some (Zero, m2\<lparr>gen := to_u64 (gen m2 + 1), sectors := to_u64 (sectors m2 - nsect)\<rparr>)
      })"

definition ndz_rangemap_overlap :: "int \<Rightarrow> int \<Rightarrow> ndz_rangemap \<Rightarrow> (nat option \<times> ndz_rangemap) option" where
  "ndz_rangemap_overlap addr nsect m =
     (let eaddr = to_u64 (addr + nsect - 1) in
      do {
        (range, prev, m1) \<leftarrow> ndz_rangemap_lookup addr m;
        let k = next_of prev;
        Some (if range \<noteq> None then range
              else if k = length (ranges_of m1) then None
              else if eaddr < rg_start (ranges_of m1 ! k) then None
              else Some k, m1)
      })"

definition ndz_rangemap_first :: "ndz_rangemap \<Rightarrow> nat option" where
  "ndz_rangemap_first m = (if ranges_of m = [] then None else Some 0)"

function last_loop :: "ndz_range list \<Rightarrow> nat \<Rightarrow> nat" where
  "last_loop rs i = (if i + 1 < length rs then last_loop rs (i + 1) else i)"
  by pat_completeness auto
termination
  by (relation "measure (\<lambda>(rs, i). length rs - i)") auto

declare last_loop.simps [simp del]

definition ndz_rangemap_last :: "ndz_rangemap \<Rightarrow> nat option" where
  "ndz_rangemap_last m =
     (if ranges_of m = [] then None
      else Some (last_loop (ranges_of m) (if hint m = length (ranges_of m) then 0 else hint m)))"

text \<open>
  The iteration: \<open>n\<close> is the next entry. The callback gets the map and the entry, and may change the map; if it has (the
  generation tells), the place is looked up again by the last address of the entry.
\<close>

partial_function (option) iterate_loop ::
  "(ndz_rangemap \<Rightarrow> nat \<Rightarrow> 'a \<Rightarrow> (int \<times> ndz_rangemap \<times> 'a) option) \<Rightarrow> nat \<Rightarrow> 'a \<Rightarrow> ndz_rangemap \<Rightarrow>
    (int \<times> ndz_rangemap \<times> 'a) option" where
  "iterate_loop ifunc n arg m =
     (if n < length (ranges_of m) then
        Option.bind (ifunc m n arg) (\<lambda>(rv, m1, arg1).
        if rv \<noteq> 0 then Some (rv, m1, arg1)
        else if gen m1 \<noteq> gen m then
          Option.bind (ndz_rangemap_lookup (rg_end (ranges_of m ! n)) m1) (\<lambda>(range, prev, m2).
          Option.bind (c_assert (range \<noteq> None \<or> prev = None \<or> prev = Some (hint m2))) (\<lambda>_.
          let k = (case range of Some i \<Rightarrow> i + 1 | None \<Rightarrow> next_of prev) in
          iterate_loop ifunc k arg1 (m2\<lparr>hint := k\<rparr>)))
        else iterate_loop ifunc (n + 1) arg1 (m1\<lparr>hint := n + 1\<rparr>))
      else Some (0, m, arg))"

definition ndz_rangemap_iterate ::
  "(ndz_rangemap \<Rightarrow> nat \<Rightarrow> 'a \<Rightarrow> (int \<times> ndz_rangemap \<times> 'a) option) \<Rightarrow> 'a \<Rightarrow> ndz_rangemap \<Rightarrow>
    (int \<times> ndz_rangemap \<times> 'a) option" where
  "ndz_rangemap_iterate ifunc arg m = iterate_loop ifunc 0 arg (m\<lparr>hint := 0\<rparr>)"

section \<open>Invariant and abstraction\<close>

definition covers :: "ndz_range \<Rightarrow> int \<Rightarrow> bool" where
  "covers r a \<longleftrightarrow> rg_start r \<le> a \<and> a \<le> rg_end r"

fun data_at :: "ndz_range list \<Rightarrow> int \<Rightarrow> nat option" where
  "data_at [] a = None"
| "data_at (r # rs) a = (if covers r a then Some (rg_data r) else data_at rs a)"

definition before :: "ndz_range \<Rightarrow> ndz_range \<Rightarrow> bool" where
  "before r r' \<longleftrightarrow> rg_end r < rg_start r'"

definition range_in :: "int \<Rightarrow> int \<Rightarrow> ndz_range \<Rightarrow> bool" where
  "range_in lo hi r \<longleftrightarrow> lo \<le> rg_start r \<and> rg_start r \<le> rg_end r \<and> rg_end r \<le> hi"

definition total_size :: "ndz_range list \<Rightarrow> int" where
  "total_size rs = sum_list (map (\<lambda>r. rg_end r - rg_start r + 1) rs)"

definition rm_inv :: "ndz_rangemap \<Rightarrow> bool" where
  "rm_inv m \<longleftrightarrow> 0 \<le> loaddr m \<and> hiaddr m < 2 ^ 64 \<and> sorted_wrt before (ranges_of m) \<and>
     (\<forall>r \<in> set (ranges_of m). range_in (loaddr m) (hiaddr m) r) \<and> hint m \<le> length (ranges_of m) \<and>
     entries m = to_u64 (int (length (ranges_of m))) \<and> sectors m = to_u64 (total_size (ranges_of m))"

lemma data_at_append: "data_at (xs @ ys) a = (case data_at xs a of None \<Rightarrow> data_at ys a | Some d \<Rightarrow> Some d)"
  by (induction xs) auto

lemma data_at_None: "data_at rs a = None \<longleftrightarrow> (\<forall>r \<in> set rs. \<not> covers r a)"
  by (induction rs) auto

lemma total_size_simps [simp]:
  "total_size [] = 0" "total_size (r # rs) = rg_end r - rg_start r + 1 + total_size rs"
  "total_size (xs @ ys) = total_size xs + total_size ys"
  by (simp_all add: total_size_def)

lemma to_u64_add [simp]: "to_u64 (to_u64 a + b) = to_u64 (a + b)" "to_u64 (to_u64 a - b) = to_u64 (a - b)"
  "to_u64 (b + to_u64 a) = to_u64 (b + a)"
  by (simp_all add: to_u64_def mod_simps)


section \<open>Searching\<close>

text \<open>The reference: the number of entries that end before the address.\<close>

definition place :: "ndz_range list \<Rightarrow> int \<Rightarrow> nat" where
  "place rs addr = length (takeWhile (\<lambda>r. rg_end r < addr) rs)"

definition found :: "ndz_range list \<Rightarrow> int \<Rightarrow> bool" where
  "found rs addr \<longleftrightarrow> place rs addr < length rs \<and> rg_start (rs ! place rs addr) \<le> addr"

lemma place_le: "place rs addr \<le> length rs"
  by (simp add: place_def length_takeWhile_le)

lemma place_less: "i < place rs addr \<Longrightarrow> rg_end (rs ! i) < addr"
  unfolding place_def using takeWhile_nth [of i "\<lambda>r. rg_end r < addr" rs] nth_mem [of i "takeWhile (\<lambda>r. rg_end r < addr) rs"]
  by (auto dest: set_takeWhileD)

lemma place_nth: "place rs addr < length rs \<Longrightarrow> addr \<le> rg_end (rs ! place rs addr)"
  unfolding place_def using nth_length_takeWhile [of "\<lambda>r. rg_end r < addr" rs] by simp

lemma place_ge:
  assumes "h \<le> length rs" and "\<And>j. j < h \<Longrightarrow> rg_end (rs ! j) < addr"
  shows "h \<le> place rs addr"
proof (rule ccontr)
  assume "\<not> h \<le> place rs addr"
  then show False using place_nth [of rs addr] assms(1) assms(2) [of "place rs addr"] by simp
qed

lemma lookup_loop_spec:
  assumes "i \<le> place rs addr" and "i < length rs"
    and "case oprange of None \<Rightarrow> i = 0 \<or> rg_start (rs ! i) \<le> addr | Some j \<Rightarrow> Suc j = i"
  shows "lookup_loop rs addr i oprange =
    (if found rs addr then (Some (place rs addr), prev_of (place rs addr), place rs addr)
     else (None, prev_of (place rs addr), place rs addr - 1))"
  using assms
proof (induction rs addr i oprange rule: lookup_loop.induct)
  case (1 rs addr i oprange)
  note unf = lookup_loop.simps [of rs addr i oprange]
  show ?case
  proof (cases "i = place rs addr")
    case True
    then have "addr \<le> rg_end (rs ! i)" using place_nth "1.prems"(2) by simp
    then show ?thesis using unf True "1.prems"(2,3) by (auto simp: found_def split: option.splits)
  next
    case False
    then have lt: "i < place rs addr" using "1.prems"(1) by simp
    then have nle: "\<not> addr \<le> rg_end (rs ! i)" using place_less [of i rs addr] by simp
    show ?thesis
    proof (cases "i + 1 < length rs")
      case True
      then show ?thesis using "1.IH" [OF nle True] lt unf nle by simp
    next
      case False
      then have "place rs addr = length rs" "i = length rs - 1" using lt place_le [of rs addr] "1.prems"(2) by simp_all
      then show ?thesis using unf nle False "1.prems"(2) by (auto simp: found_def prev_of_def)
    qed
  qed
qed

lemma ndz_rangemap_lookup_spec:
  assumes "rm_inv m"
  shows "ndz_rangemap_lookup addr m =
    Some (if found (ranges_of m) addr then Some (place (ranges_of m) addr) else None, prev_of (place (ranges_of m) addr),
      m\<lparr>hint := (if found (ranges_of m) addr then place (ranges_of m) addr else place (ranges_of m) addr - 1)\<rparr>)"
proof -
  let ?rs = "ranges_of m"
  define restart where "restart = (hint m = length ?rs \<or> addr < rg_start (?rs ! hint m))"
  define i where "i = (if restart then 0 else hint m)"
  show ?thesis
  proof (cases "?rs = []")
    case True
    then show ?thesis using assms
      by (simp add: ndz_rangemap_lookup_def Let_def found_def place_def prev_of_def rm_inv_def)
  next
    case False
    have h: "hint m < length ?rs \<and> rg_start (?rs ! hint m) \<le> addr" if "\<not> restart"
      using that assms by (auto simp: restart_def rm_inv_def)
    have "i \<le> place ?rs addr"
    proof (cases restart)
      case no: False
      have "rg_end (?rs ! j) < addr" if "j < hint m" for j
        using sorted_wrt_nth_less [of before ?rs j "hint m"] assms that h [OF no] by (auto simp: rm_inv_def before_def)
      then show ?thesis using place_ge [of "hint m" ?rs addr] h [OF no] no by (simp add: i_def)
    qed (simp add: i_def)
    moreover have "i < length ?rs" "i = 0 \<or> rg_start (?rs ! i) \<le> addr" using False h by (auto simp: i_def)
    ultimately have l: "lookup_loop ?rs addr i None =
        (if found ?rs addr then (Some (place ?rs addr), prev_of (place ?rs addr), place ?rs addr)
         else (None, prev_of (place ?rs addr), place ?rs addr - 1))" by (intro lookup_loop_spec) simp_all
    show ?thesis
      unfolding ndz_rangemap_lookup_def Let_def restart_def [symmetric] i_def [symmetric] l
      using False by (simp add: prev_of_def)
  qed
qed

lemma place_split:
  assumes "n = place rs addr"
  shows "rs = take n rs @ drop n rs" and "r \<in> set (take n rs) \<Longrightarrow> rg_end r < addr"
  using assms place_less [of _ rs addr] place_le [of rs addr] by (auto simp: in_set_conv_nth)


section \<open>Allocating\<close>

definition list_ok :: "int \<Rightarrow> int \<Rightarrow> ndz_range list \<Rightarrow> bool" where
  "list_ok lo hi rs \<longleftrightarrow> sorted_wrt before rs \<and> (\<forall>r \<in> set rs. range_in lo hi r)"

text \<open>A range that lies between two parts of the list.\<close>

definition fits :: "int \<Rightarrow> int \<Rightarrow> ndz_range list \<Rightarrow> ndz_range list \<Rightarrow> bool" where
  "fits a e xs ys \<longleftrightarrow> a \<le> e \<and> (\<forall>r \<in> set xs. rg_end r < a) \<and> (\<forall>r \<in> set ys. e < rg_start r)"

definition overlay :: "int \<Rightarrow> int \<Rightarrow> nat option \<Rightarrow> (int \<Rightarrow> nat option) \<Rightarrow> int \<Rightarrow> nat option" where
  "overlay a e d f x = (if a \<le> x \<and> x \<le> e then d else f x)"

lemma dom_overlay [simp]:
  "dom (overlay a e (Some d) f) = dom f \<union> {a..e}" "dom (overlay a e None f) = dom f - {a..e}"
  by (auto simp: dom_def overlay_def split: if_splits)

lemmas list_simps = list_ok_def fits_def sorted_wrt_append before_def range_in_def

lemma data_at_outside:
  assumes "\<forall>r \<in> set rs. rg_end r < x \<or> x < rg_start r"
  shows "data_at rs x = None"
  using assms by (auto simp: data_at_None covers_def)

lemma shape_insert:
  assumes "list_ok lo hi (xs @ ys)" and "fits a e xs ys" and "lo \<le> a" and "e \<le> hi" and "rg_start r = a" and "rg_end r = e"
  shows "list_ok lo hi (xs @ r # ys)" and "data_at (xs @ r # ys) = overlay a e (Some (rg_data r)) (data_at (xs @ ys))"
    and "total_size (xs @ r # ys) = total_size (xs @ ys) + (e - a + 1)"
proof -
  show "list_ok lo hi (xs @ r # ys)" using assms unfolding list_simps by auto
  show "data_at (xs @ r # ys) = overlay a e (Some (rg_data r)) (data_at (xs @ ys))"
  proof
    fix x
    have "data_at xs x = None" if "a \<le> x" using assms(2) that by (intro data_at_outside) (auto simp: fits_def)
    then show "data_at (xs @ r # ys) x = overlay a e (Some (rg_data r)) (data_at (xs @ ys)) x"
      using assms(5,6) by (auto simp: data_at_append overlay_def covers_def split: option.splits)
  qed
  show "total_size (xs @ r # ys) = total_size (xs @ ys) + (e - a + 1)" using assms(5,6) by simp
qed

text \<open>Growing an entry to the right or to the left, and closing the gap between two.\<close>

lemma shape_right:
  assumes "list_ok lo hi (xs @ p # ys)" and "fits a e (xs @ [p]) ys" and "e \<le> hi" and "rg_end p + 1 = a"
  shows "list_ok lo hi (xs @ p\<lparr>rg_end := e\<rparr> # ys)"
    and "data_at (xs @ p\<lparr>rg_end := e\<rparr> # ys) = overlay a e (Some (rg_data p)) (data_at (xs @ p # ys))"
    and "total_size (xs @ p\<lparr>rg_end := e\<rparr> # ys) = total_size (xs @ p # ys) + (e - a + 1)"
proof -
  have p: "rg_start p \<le> rg_end p" "a \<le> e" using assms(1,2) by (simp_all add: list_simps)
  show "list_ok lo hi (xs @ p\<lparr>rg_end := e\<rparr> # ys)" using assms unfolding list_simps by auto
  show "data_at (xs @ p\<lparr>rg_end := e\<rparr> # ys) = overlay a e (Some (rg_data p)) (data_at (xs @ p # ys))"
  proof
    fix x
    have "data_at xs x = None" if "a \<le> x" using assms(2) that by (intro data_at_outside) (auto simp: fits_def)
    then show "data_at (xs @ p\<lparr>rg_end := e\<rparr> # ys) x = overlay a e (Some (rg_data p)) (data_at (xs @ p # ys)) x"
      using assms(4) p by (auto simp: data_at_append overlay_def covers_def split: option.splits)
  qed
  show "total_size (xs @ p\<lparr>rg_end := e\<rparr> # ys) = total_size (xs @ p # ys) + (e - a + 1)" using assms(4) by simp
qed

lemma shape_left:
  assumes "list_ok lo hi (xs @ n # ys)" and "fits a e xs (n # ys)" and "lo \<le> a" and "e + 1 = rg_start n"
  shows "list_ok lo hi (xs @ n\<lparr>rg_start := a\<rparr> # ys)"
    and "data_at (xs @ n\<lparr>rg_start := a\<rparr> # ys) = overlay a e (Some (rg_data n)) (data_at (xs @ n # ys))"
    and "total_size (xs @ n\<lparr>rg_start := a\<rparr> # ys) = total_size (xs @ n # ys) + (e - a + 1)"
proof -
  have n: "rg_start n \<le> rg_end n" "a \<le> e" using assms(1,2) by (simp_all add: list_simps)
  show "list_ok lo hi (xs @ n\<lparr>rg_start := a\<rparr> # ys)" using assms unfolding list_simps by auto
  show "data_at (xs @ n\<lparr>rg_start := a\<rparr> # ys) = overlay a e (Some (rg_data n)) (data_at (xs @ n # ys))"
  proof
    fix x
    have "data_at xs x = None" if "a \<le> x" using assms(2) that by (intro data_at_outside) (auto simp: fits_def)
    then show "data_at (xs @ n\<lparr>rg_start := a\<rparr> # ys) x = overlay a e (Some (rg_data n)) (data_at (xs @ n # ys)) x"
      using assms(4) n by (auto simp: data_at_append overlay_def covers_def split: option.splits)
  qed
  show "total_size (xs @ n\<lparr>rg_start := a\<rparr> # ys) = total_size (xs @ n # ys) + (e - a + 1)" using assms(4) by simp
qed

lemma shape_join:
  assumes "list_ok lo hi (xs @ p # n # ys)" and "fits a e (xs @ [p]) (n # ys)" and "rg_end p + 1 = a" and "e + 1 = rg_start n"
  shows "list_ok lo hi (xs @ p\<lparr>rg_end := rg_end n\<rparr> # ys)"
    and "rg_data n = rg_data p \<Longrightarrow>
      data_at (xs @ p\<lparr>rg_end := rg_end n\<rparr> # ys) = overlay a e (Some (rg_data p)) (data_at (xs @ p # n # ys))"
    and "total_size (xs @ p\<lparr>rg_end := rg_end n\<rparr> # ys) = total_size (xs @ p # n # ys) + (e - a + 1)"
    and "dom (data_at (xs @ p\<lparr>rg_end := rg_end n\<rparr> # ys)) = dom (data_at (xs @ p # n # ys)) \<union> {a..e}"
proof -
  have dom: "dom (data_at rs) = {x. \<exists>r \<in> set rs. covers r x}" for rs
    using data_at_None [of rs] by (auto simp: dom_def simp del: not_None_eq)
  have pn: "rg_start p \<le> rg_end p" "rg_start n \<le> rg_end n" "a \<le> e" using assms(1,2) by (simp_all add: list_simps)
  show "list_ok lo hi (xs @ p\<lparr>rg_end := rg_end n\<rparr> # ys)" using assms pn unfolding list_simps by auto
  show "data_at (xs @ p\<lparr>rg_end := rg_end n\<rparr> # ys) = overlay a e (Some (rg_data p)) (data_at (xs @ p # n # ys))"
    if "rg_data n = rg_data p"
  proof
    fix x
    have "data_at xs x = None" if "a \<le> x" using assms(2) that by (intro data_at_outside) (auto simp: fits_def)
    then show "data_at (xs @ p\<lparr>rg_end := rg_end n\<rparr> # ys) x = overlay a e (Some (rg_data p)) (data_at (xs @ p # n # ys)) x"
      using assms(3,4) pn that by (auto simp: data_at_append overlay_def covers_def split: option.splits)
  qed
  show "total_size (xs @ p\<lparr>rg_end := rg_end n\<rparr> # ys) = total_size (xs @ p # n # ys) + (e - a + 1)" using assms(3,4) by simp
  have "covers (p\<lparr>rg_end := rg_end n\<rparr>) x \<longleftrightarrow> covers p x \<or> covers n x \<or> x \<in> {a..e}" for x
    using pn assms(3,4) by (auto simp: covers_def)
  then show "dom (data_at (xs @ p\<lparr>rg_end := rg_end n\<rparr> # ys)) = dom (data_at (xs @ p # n # ys)) \<union> {a..e}"
    unfolding dom by auto
qed


lemma rm_inv_list: "rm_inv m \<longleftrightarrow> 0 \<le> loaddr m \<and> hiaddr m < 2 ^ 64 \<and> list_ok (loaddr m) (hiaddr m) (ranges_of m) \<and>
    hint m \<le> length (ranges_of m) \<and> entries m = to_u64 (int (length (ranges_of m))) \<and>
    sectors m = to_u64 (total_size (ranges_of m))"
  by (auto simp: rm_inv_def list_ok_def)

definition free_range :: "ndz_range list \<Rightarrow> int \<Rightarrow> int \<Rightarrow> bool" where
  "free_range rs a e \<longleftrightarrow> (\<forall>x. a \<le> x \<and> x \<le> e \<longrightarrow> data_at rs x = None)"

definition clean_neighbours :: "ndz_range list \<Rightarrow> int \<Rightarrow> int \<Rightarrow> bool" where
  "clean_neighbours rs a e \<longleftrightarrow> (\<forall>r \<in> set rs. rg_end r + 1 = a \<or> e + 1 = rg_start r \<longrightarrow> rg_data r = 0)"

text \<open>Where a free range goes, and that the two searches of the code see when it is not free.\<close>

lemma not_found_fits:
  assumes "list_ok lo hi rs" and "a \<le> e" and "\<not> found rs a"
    and "place rs a < length rs \<Longrightarrow> e < rg_start (rs ! place rs a)"
  shows "fits a e (take (place rs a) rs) (drop (place rs a) rs)"
proof -
  let ?n = "place rs a"
  have "e < rg_start r" if "r \<in> set (drop ?n rs)" for r
  proof -
    from that obtain j where "j < length rs - ?n" "r = rs ! (?n + j)" by (auto simp: in_set_conv_nth)
    then have j: "?n + j < length rs" "r = rs ! (?n + j)" by simp_all
    then have "rg_start (rs ! ?n) \<le> rg_start r"
    proof (cases "j = 0")
      case False
      then have "before (rs ! ?n) r" using sorted_wrt_nth_less [of before rs ?n "?n + j"] assms(1) j by (simp add: list_ok_def)
      moreover have "rg_start (rs ! ?n) \<le> rg_end (rs ! ?n)" using assms(1) j(1) by (auto simp: list_simps)
      ultimately show ?thesis by (simp add: before_def)
    qed simp
    then show ?thesis using assms(4) j(1) by simp
  qed
  then show ?thesis using assms(2) place_split(2) [OF refl, of _ rs a] by (auto simp: fits_def)
qed

lemma fits_free:
  assumes "fits a e xs ys" shows "free_range (xs @ ys) a e"
  unfolding free_range_def
proof (intro allI impI)
  fix x
  assume x: "a \<le> x \<and> x \<le> e"
  show "data_at (xs @ ys) x = None" using assms x by (intro data_at_outside) (fastforce simp: fits_def)
qed

lemma free_range_iff:
  assumes "list_ok lo hi rs" and "a \<le> e"
  shows "free_range rs a e \<longleftrightarrow> \<not> found rs a \<and> (place rs a < length rs \<longrightarrow> e < rg_start (rs ! place rs a))" (is "_ = ?R")
proof
  assume free: "free_range rs a e"
  let ?n = "place rs a"
  have cov: "\<not> covers (rs ! ?n) x" if "?n < length rs" "a \<le> x" "x \<le> e" for x
    using free that nth_mem [of ?n rs] by (auto simp: free_range_def data_at_None)
  have "\<not> found rs a"
    using cov [of a] place_nth [of rs a] assms(2) by (auto simp: found_def covers_def)
  moreover have "e < rg_start (rs ! ?n)" if lt: "?n < length rs"
  proof (rule ccontr)
    assume "\<not> e < rg_start (rs ! ?n)"
    moreover have "a < rg_start (rs ! ?n)" using \<open>\<not> found rs a\<close> lt by (simp add: found_def)
    moreover have "rg_start (rs ! ?n) \<le> rg_end (rs ! ?n)" using assms(1) lt by (auto simp: list_simps)
    ultimately show False using cov [OF lt, of "rg_start (rs ! ?n)"] by (simp add: covers_def)
  qed
  ultimately show ?R by blast
next
  assume ?R
  then have "fits a e (take (place rs a) rs) (drop (place rs a) rs)" using not_found_fits [OF assms] by blast
  then show "free_range rs a e" using fits_free by fastforce
qed

lemma sectors_add: "e = to_u64 (a + n - 1) \<Longrightarrow> to_u64 (t + (e - a + 1)) = to_u64 (t + n)"
proof -
  assume "e = to_u64 (a + n - 1)"
  then have "to_u64 (t + (e - a + 1)) = to_u64 ((a + n - 1) mod 2 ^ 64 + (t - a + 1))" by (simp add: to_u64_def algebra_simps)
  also have "\<dots> = to_u64 ((a + n - 1) + (t - a + 1))" by (simp only: to_u64_def mod_add_left_eq)
  finally show ?thesis by (simp add: algebra_simps)
qed

lemma next_prev [simp]: "next_of (prev_of n) = n"
  by (simp add: next_of_def prev_of_def)


text \<open>What changes in the map, apart from the hint and the counters.\<close>

definition grown :: "int \<Rightarrow> int \<Rightarrow> nat \<Rightarrow> ndz_rangemap \<Rightarrow> ndz_rangemap \<Rightarrow> bool" where
  "grown a e d m m' \<longleftrightarrow> list_ok (loaddr m) (hiaddr m) (ranges_of m') \<and> hint m' \<le> length (ranges_of m') \<and>
     entries m' = to_u64 (int (length (ranges_of m'))) \<and> total_size (ranges_of m') = total_size (ranges_of m) + (e - a + 1) \<and>
     (d \<noteq> 0 \<or> clean_neighbours (ranges_of m) a e \<longrightarrow>
       data_at (ranges_of m') = overlay a e (Some d) (data_at (ranges_of m))) \<and>
     dom (data_at (ranges_of m')) = dom (data_at (ranges_of m)) \<union> {a..e} \<and>
     loaddr m' = loaddr m \<and> hiaddr m' = hiaddr m \<and> gen m' = gen m \<and> sectors m' = sectors m"

lemma insert_range_grown:
  assumes "rm_inv m" and "fits a e (take n (ranges_of m)) (drop n (ranges_of m))" and "loaddr m \<le> a" and "e \<le> hiaddr m"
    and "n \<le> length (ranges_of m)"
  shows "grown a e d m (insert_range a e d (prev_of n) m)"
proof -
  let ?r = "\<lparr>rg_start = a, rg_end = e, rg_data = d\<rparr>"
  have ok: "list_ok (loaddr m) (hiaddr m) (take n (ranges_of m) @ drop n (ranges_of m))"
    using assms(1) by (simp add: rm_inv_list)
  note sh = shape_insert [OF ok assms(2-4), of ?r, simplified]
  have "entries m = to_u64 (int (length (ranges_of m)))" using assms(1) by (simp add: rm_inv_list)
  then show ?thesis using sh assms(5) by (simp add: grown_def insert_range_def Let_def ac_simps)
qed

lemma prev_entry:
  assumes "0 < n" and "n \<le> length rs"
  shows "take n rs = take (n - 1) rs @ [rs ! (n - 1)]"
  using assms take_Suc_conv_app_nth [of "n - 1" rs] by simp

lemma next_entry: "n < length rs \<Longrightarrow> drop n rs = rs ! n # drop (n + 1) rs"
  by (simp add: Cons_nth_drop_Suc)

lemma merges_iff:
  assumes "rm_inv m" and "fits a e (take n (ranges_of m)) (drop n (ranges_of m))" and "loaddr m \<le> a" and "e \<le> hiaddr m"
    and "n \<le> length (ranges_of m)"
  shows "merges_prev (ranges_of m) a (prev_of n) \<longleftrightarrow> 0 < n \<and> rg_end (ranges_of m ! (n - 1)) + 1 = a"
    and "merges_next (ranges_of m) e n \<longleftrightarrow> n < length (ranges_of m) \<and> e + 1 = rg_start (ranges_of m ! n)"
proof -
  define rs where "rs = ranges_of m"
  have ok: "list_ok (loaddr m) (hiaddr m) rs" and lim: "hiaddr m < 2 ^ 64" "0 \<le> loaddr m"
    using assms(1) by (simp_all add: rm_inv_list rs_def)
  have "merges_prev rs a (prev_of n) \<longleftrightarrow> 0 < n \<and> rg_end (rs ! (n - 1)) + 1 = a"
  proof (cases "0 < n")
    case True
    then have "rs ! (n - 1) \<in> set (take n rs)" using prev_entry [of n rs] assms(5) by (simp add: rs_def)
    then have "rg_end (rs ! (n - 1)) < a" and "range_in (loaddr m) (hiaddr m) (rs ! (n - 1))"
      using assms(2) ok set_take_subset [of n rs] by (auto simp: fits_def list_ok_def rs_def [symmetric])
    moreover from this(2) have "0 \<le> rg_end (rs ! (n - 1))" using lim(2) unfolding range_in_def by linarith
    ultimately have "to_u64 (rg_end (rs ! (n - 1)) + 1) = rg_end (rs ! (n - 1)) + 1"
      using assms(2,4) lim by (intro to_u64_id) (auto simp: fits_def)
    then show ?thesis using True by (simp add: merges_prev_def prev_of_def)
  qed (simp add: merges_prev_def prev_of_def)
  then show "merges_prev (ranges_of m) a (prev_of n) \<longleftrightarrow> 0 < n \<and> rg_end (ranges_of m ! (n - 1)) + 1 = a"
    by (simp add: rs_def)
  have "merges_next rs e n \<longleftrightarrow> n < length rs \<and> e + 1 = rg_start (rs ! n)"
  proof (cases "n < length rs")
    case True
    then have "e < rg_start (rs ! n)" and rin: "range_in (loaddr m) (hiaddr m) (rs ! n)"
      using assms(2) ok next_entry [OF True] nth_mem [OF True] by (auto simp: fits_def list_ok_def rs_def [symmetric])
    moreover have "rg_start (rs ! n) \<le> hiaddr m" using rin unfolding range_in_def by linarith
    ultimately have "to_u64 (e + 1) = e + 1" using lim assms(2,3) by (intro to_u64_id) (auto simp: fits_def)
    then show ?thesis using True by (simp add: merges_next_def)
  qed (simp add: merges_next_def)
  then show "merges_next (ranges_of m) e n \<longleftrightarrow> n < length (ranges_of m) \<and> e + 1 = rg_start (ranges_of m ! n)"
    by (simp add: rs_def)
qed

lemma merge_range_grown:
  assumes "rm_inv m" and "fits a e (take n (ranges_of m)) (drop n (ranges_of m))" and "loaddr m \<le> a" and "e \<le> hiaddr m"
    and "n \<le> length (ranges_of m)"
    and "merges_prev (ranges_of m) a (prev_of n) \<or> merges_next (ranges_of m) e n" and "hint m = n - 1"
  shows "grown a e 0 m (merge_range a e (prev_of n) m)"
proof -
  define rs where "rs = ranges_of m"
  have ok: "list_ok (loaddr m) (hiaddr m) rs" and ent: "entries m = to_u64 (int (length rs))"
    using assms(1) by (simp_all add: rm_inv_list rs_def)
  have split: "rs = take n rs @ drop n rs" by simp
  note mp = merges_iff(1) [OF assms(1-5), folded rs_def] and mn = merges_iff(2) [OF assms(1-5), folded rs_def]
  consider (both) "0 < n" "rg_end (rs ! (n - 1)) + 1 = a" "n < length rs" "e + 1 = rg_start (rs ! n)"
    | (left) "0 < n" "rg_end (rs ! (n - 1)) + 1 = a" "\<not> merges_next rs e n"
    | (right) "\<not> merges_prev rs a (prev_of n)" "n < length rs" "e + 1 = rg_start (rs ! n)"
    using assms(6) mp mn unfolding rs_def [symmetric] by blast
  then show ?thesis
  proof cases
    case both
    let ?xs = "take (n - 1) rs" and ?p = "rs ! (n - 1)" and ?n = "rs ! n" and ?ys = "drop (n + 1) rs"
    have eq: "rs = ?xs @ ?p # ?n # ?ys"
      using split prev_entry [OF both(1)] next_entry [OF both(3)] both(3) by (metis append.assoc append_Cons append_Nil less_imp_le)
    have fit: "fits a e (?xs @ [?p]) (?n # ?ys)"
      using assms(2) prev_entry [OF both(1) less_imp_le [OF both(3)]] next_entry [OF both(3)] by (simp add: rs_def [symmetric])
    have "list_ok (loaddr m) (hiaddr m) (?xs @ ?p # ?n # ?ys)" by (subst eq [symmetric]) (rule ok)
    note sh = shape_join [OF this fit both(2,4), unfolded eq [symmetric]]
    have clean: "rg_data ?n = rg_data ?p \<and> rg_data ?p = 0" if "clean_neighbours rs a e"
      using that both nth_mem [of n rs] nth_mem [of "n - 1" rs] by (auto simp: clean_neighbours_def)
    define rs' where "rs' = ?xs @ ?p\<lparr>rg_end := rg_end ?n\<rparr> # ?ys"
    note sh = sh [folded rs'_def]
    have len: "int (length rs) - 1 = int (length rs')" "n - 1 \<le> length rs'" using both(1,3) by (simp_all add: rs'_def)
    have dat: "data_at rs' = overlay a e (Some 0) (data_at rs)" if "clean_neighbours rs a e" using clean [OF that] sh(2) by metis
    have "merge_range a e (prev_of n) m = m\<lparr>ranges_of := rs', entries := to_u64 (entries m - 1)\<rparr>"
      using both mp mn assms(7) unfolding rs'_def by (simp add: merge_range_def Let_def rs_def [symmetric] prev_of_def next_of_def)
    then show ?thesis using sh(1,3,4) dat len assms(7) by (simp add: grown_def rs_def [symmetric] ent)
  next
    case left
    let ?xs = "take (n - 1) rs" and ?p = "rs ! (n - 1)" and ?ys = "drop n rs"
    have n: "n \<le> length rs" using assms(5) by (simp add: rs_def)
    have eq: "rs = ?xs @ ?p # ?ys" using split prev_entry [OF left(1) n] by (metis append.assoc append_Cons append_Nil)
    have fit: "fits a e (?xs @ [?p]) ?ys" using assms(2) prev_entry [OF left(1) n] by (simp add: rs_def [symmetric])
    have "list_ok (loaddr m) (hiaddr m) (?xs @ ?p # ?ys)" by (subst eq [symmetric]) (rule ok)
    note sh = shape_right [OF this fit assms(4) left(2), unfolded eq [symmetric]]
    have upd: "rs[n - 1 := x] = ?xs @ x # ?ys" for x using left(1) n by (simp add: upd_conv_take_nth_drop)
    have "merge_range a e (prev_of n) m = m\<lparr>ranges_of := ?xs @ ?p\<lparr>rg_end := e\<rparr> # ?ys\<rparr>"
      using left mp assms(7) upd [of "?p\<lparr>rg_end := e\<rparr>"] by (simp add: merge_range_def Let_def rs_def [symmetric] prev_of_def next_of_def)
    moreover have "rg_data ?p = 0" if "clean_neighbours rs a e"
      using that left n nth_mem [of "n - 1" rs] by (auto simp: clean_neighbours_def)
    moreover have "length (?xs @ ?p\<lparr>rg_end := e\<rparr> # ?ys) = length rs" using arg_cong [OF eq, of length] by simp
    ultimately show ?thesis using sh assms(7) n by (simp add: grown_def rs_def [symmetric] ent)
  next
    case right
    let ?xs = "take n rs" and ?n = "rs ! n" and ?ys = "drop (n + 1) rs"
    have eq: "rs = ?xs @ ?n # ?ys" using split next_entry [OF right(2)] by simp
    have fit: "fits a e ?xs (?n # ?ys)" using assms(2) next_entry [OF right(2)] by (simp add: rs_def [symmetric])
    have "list_ok (loaddr m) (hiaddr m) (?xs @ ?n # ?ys)" by (subst eq [symmetric]) (rule ok)
    note sh = shape_left [OF this fit assms(3) right(3), unfolded eq [symmetric]]
    have upd: "rs[n := x] = ?xs @ x # ?ys" for x using right(2) by (simp add: upd_conv_take_nth_drop)
    have "merge_range a e (prev_of n) m = m\<lparr>ranges_of := ?xs @ ?n\<lparr>rg_start := a\<rparr> # ?ys, hint := n\<rparr>"
      using right by (simp add: merge_range_def Let_def rs_def [symmetric] upd)
    moreover have "rg_data ?n = 0" if "clean_neighbours rs a e"
      using that right nth_mem [OF right(2)] by (auto simp: clean_neighbours_def)
    moreover have "length (?xs @ ?n\<lparr>rg_start := a\<rparr> # ?ys) = length rs" using arg_cong [OF eq, of length] by simp
    ultimately show ?thesis using sh right(2) by (simp add: grown_def rs_def [symmetric] ent)
  qed
qed


text \<open>The counters that every successful change updates.\<close>

lemma grown_inv:
  assumes "grown a e d m m'" and "rm_inv m" and "e = to_u64 (a + n - 1)"
  shows "rm_inv (m'\<lparr>gen := g, sectors := to_u64 (sectors m' + n)\<rparr>)"
  using assms sectors_add [OF assms(3), of "total_size (ranges_of m)"] by (simp add: grown_def rm_inv_list)

lemma hint_inv: "rm_inv m \<Longrightarrow> h \<le> length (ranges_of m) \<Longrightarrow> rm_inv (m\<lparr>hint := h\<rparr>)"
  by (simp add: rm_inv_def)

lemma same_hint: "\<exists>h. m = m\<lparr>hint := h\<rparr>"
  by (rule exI [of _ "hint m"]) simp

lemma grown_hint: "grown a e d (m\<lparr>hint := h\<rparr>) m' = grown a e d m m'"
  by (simp add: grown_def)

text \<open>Maps without data: the entries are then the maximal runs of addresses.\<close>

definition canon :: "ndz_range list \<Rightarrow> bool" where
  "canon rs \<longleftrightarrow> (\<forall>r \<in> set rs. rg_data r = 0 \<and> (\<forall>r' \<in> set rs. rg_end r + 1 \<noteq> rg_start r'))"

lemma canon_shapes:
  assumes "list_ok lo hi (xs @ r # ys)" and "canon (xs @ ys)" and "rg_data r = 0"
    and "\<forall>x \<in> set xs. rg_end x + 1 \<noteq> rg_start r" and "\<forall>y \<in> set ys. rg_end r + 1 \<noteq> rg_start y"
  shows "canon (xs @ r # ys)"
  unfolding canon_def
proof (intro ballI conjI)
  fix p q
  assume p: "p \<in> set (xs @ r # ys)" and q: "q \<in> set (xs @ r # ys)"
  show "rg_data p = 0" using p assms(2,3) by (auto simp: canon_def)
  have self: "rg_start x \<le> rg_end x" if "x \<in> set (xs @ r # ys)" for x
    using that assms(1) unfolding list_ok_def range_in_def by blast
  have right: "rg_end r < rg_start y" if "y \<in> set ys" for y using that assms(1) by (auto simp: list_simps)
  have left: "rg_end x < rg_start r" if "x \<in> set xs" for x using that assms(1) by (auto simp: list_simps)
  have mid: "p = r \<or> p \<in> set xs \<or> p \<in> set ys" "q = r \<or> q \<in> set xs \<or> q \<in> set ys" using p q by auto
  show "rg_end p + 1 \<noteq> rg_start q"
  proof (cases "p = r \<or> q = r")
    case True
    then show ?thesis using mid right [of p] right [of q] left [of p] left [of q] self [OF p] self [OF q] assms(4,5) by fastforce
  next
    case False
    then have "p \<in> set (xs @ ys)" "q \<in> set (xs @ ys)" using mid by auto
    then show ?thesis using assms(2) unfolding canon_def by blast
  qed
qed

lemma canon_subset: "canon rs \<Longrightarrow> set zs \<subseteq> set rs \<Longrightarrow> canon zs"
  by (auto simp: canon_def)

lemma gap_next:
  assumes "list_ok lo hi (r # ys)" and "e < rg_start r" and "e + 1 \<noteq> rg_start r" and "y \<in> set (r # ys)"
  shows "e + 1 \<noteq> rg_start y"
proof (cases "y = r")
  case False
  then have "rg_end r < rg_start y" "rg_start r \<le> rg_end r" using assms(1,4) by (auto simp: list_simps)
  then show ?thesis using assms(2) by simp
qed (use assms in simp)

lemma gap_prev:
  assumes "list_ok lo hi (xs @ [r])" and "rg_end r < a" and "rg_end r + 1 \<noteq> a" and "x \<in> set (xs @ [r])"
  shows "rg_end x + 1 \<noteq> a"
proof (cases "x = r")
  case False
  then have "rg_end x < rg_start r" "rg_start r \<le> rg_end r" using assms(1,4) by (auto simp: list_simps)
  then show ?thesis using assms(2) by simp
qed (use assms in simp)

lemma list_ok_append: "list_ok lo hi (xs @ ys) \<Longrightarrow> list_ok lo hi xs" "list_ok lo hi (xs @ ys) \<Longrightarrow> list_ok lo hi ys"
  by (auto simp: list_simps)

text \<open>A free range whose neighbours are not merged leaves a gap on both sides.\<close>

lemma far_apart:
  assumes "rm_inv m" and "fits a e (take n (ranges_of m)) (drop n (ranges_of m))" and "loaddr m \<le> a" and "e \<le> hiaddr m"
    and "n \<le> length (ranges_of m)"
  shows "\<not> merges_prev (ranges_of m) a (prev_of n) \<Longrightarrow> x \<in> set (take n (ranges_of m)) \<Longrightarrow> rg_end x + 1 \<noteq> a"
    and "\<not> merges_next (ranges_of m) e n \<Longrightarrow> y \<in> set (drop n (ranges_of m)) \<Longrightarrow> e + 1 \<noteq> rg_start y"
proof -
  have "list_ok (loaddr m) (hiaddr m) (take n (ranges_of m) @ drop n (ranges_of m))" using assms(1) by (simp add: rm_inv_list)
  note ok = list_ok_append [OF this]
  show "rg_end x + 1 \<noteq> a" if no: "\<not> merges_prev (ranges_of m) a (prev_of n)" and x: "x \<in> set (take n (ranges_of m))"
  proof -
    have "0 < n" using x by (cases n) auto
    note pe = prev_entry [OF this assms(5)]
    let ?p = "ranges_of m ! (n - 1)"
    have "rg_end ?p < a" using assms(2) pe by (simp add: fits_def)
    moreover have "rg_end ?p + 1 \<noteq> a" using no merges_iff(1) [OF assms(1-5)] \<open>0 < n\<close> by blast
    ultimately show ?thesis using gap_prev [OF ok(1) [unfolded pe]] x [unfolded pe] by blast
  qed
  show "e + 1 \<noteq> rg_start y" if no: "\<not> merges_next (ranges_of m) e n" and y: "y \<in> set (drop n (ranges_of m))"
  proof -
    have lt: "n < length (ranges_of m)" using y by (cases "n < length (ranges_of m)") auto
    note ne = next_entry [OF lt]
    let ?n = "ranges_of m ! n"
    have "e < rg_start ?n" using assms(2) ne by (simp add: fits_def)
    moreover have "e + 1 \<noteq> rg_start ?n" using no merges_iff(2) [OF assms(1-5)] lt by blast
    ultimately show ?thesis using gap_next [OF ok(2) [unfolded ne]] y [unfolded ne] by blast
  qed
qed

lemma insert_range_canon:
  assumes "rm_inv m" and "fits a e (take n (ranges_of m)) (drop n (ranges_of m))" and "loaddr m \<le> a" and "e \<le> hiaddr m"
    and "n \<le> length (ranges_of m)"
    and "\<not> merges_prev (ranges_of m) a (prev_of n)" "\<not> merges_next (ranges_of m) e n" and "canon (ranges_of m)"
  shows "canon (ranges_of (insert_range a e 0 (prev_of n) m))"
proof -
  have "list_ok (loaddr m) (hiaddr m) (ranges_of (insert_range a e 0 (prev_of n) m))"
    using insert_range_grown [OF assms(1-5), of 0] by (simp add: grown_def)
  then show ?thesis
    using far_apart [OF assms(1-5)] assms(6-8) by (auto simp: insert_range_def Let_def intro!: canon_shapes)
qed

lemma merge_range_canon:
  assumes "rm_inv m" and "fits a e (take n (ranges_of m)) (drop n (ranges_of m))" and "loaddr m \<le> a" and "e \<le> hiaddr m"
    and "n \<le> length (ranges_of m)"
    and "merges_prev (ranges_of m) a (prev_of n) \<or> merges_next (ranges_of m) e n" and "hint m = n - 1"
    and "canon (ranges_of m)"
  shows "canon (ranges_of (merge_range a e (prev_of n) m))"
proof -
  define rs where "rs = ranges_of m"
  let ?P = "merges_prev rs a (prev_of n)" and ?N = "merges_next rs e n"
  let ?p = "rs ! (n - 1)" and ?n = "rs ! n"
  have ok: "list_ok (loaddr m) (hiaddr m) (ranges_of (merge_range a e (prev_of n) m))"
    using merge_range_grown [OF assms(1-7)] by (simp add: grown_def)
  have can: "canon rs" and n: "n \<le> length rs" using assms(5,8) by (simp_all add: rs_def)
  have split: "rs = take n rs @ drop n rs" by simp
  note far = far_apart [OF assms(1-5), folded rs_def]
  have mp: "0 < n \<and> take n rs = take (n - 1) rs @ [?p]" if ?P
    using that merges_iff(1) [OF assms(1-5)] prev_entry [OF _ n] by (simp add: rs_def)
  have mn: "n < length rs \<and> drop n rs = ?n # drop (n + 1) rs" if ?N
    using that merges_iff(2) [OF assms(1-5)] next_entry [of n rs] by (simp add: rs_def)
  have c0: "rg_data x = 0" if "x \<in> set rs" for x using can that by (simp add: canon_def)
  have c: "rg_end x + 1 \<noteq> rg_start y" if "x \<in> set rs" "y \<in> set rs" for x y using can that by (simp add: canon_def)
  have parts: "canon (take i rs @ drop j rs)" for i j
    using canon_subset [OF can, of "take i rs @ drop j rs"] set_take_subset [of i rs] set_drop_subset [of j rs] by simp
  have tk: "x \<in> set rs" if "x \<in> set (take i rs)" for x i using that by (rule in_set_takeD)
  have dr: "y \<in> set rs" if "y \<in> set (drop i rs)" for y i using that by (rule in_set_dropD)
  have pin: "?p \<in> set rs" if "0 < n" using n that by (intro nth_mem) simp
  note can_add = canon_shapes [OF _ parts]
  consider ?P ?N | ?P "\<not> ?N" | "\<not> ?P" ?N using assms(6) rs_def by blast
  then show ?thesis
  proof cases
    case 1
    have "ranges_of (merge_range a e (prev_of n) m) = take (n - 1) rs @ ?p\<lparr>rg_end := rg_end ?n\<rparr> # drop (n + 1) rs"
      using 1 mp mn assms(7) by (simp add: merge_range_def Let_def rs_def [symmetric] prev_of_def next_of_def)
    then show ?thesis using ok pin mp mn 1 c c0 tk dr nth_mem [of n rs]
      by (simp only:) (rule can_add, assumption, simp_all)
  next
    case 2
    have upd: "rs[n - 1 := x] = take (n - 1) rs @ x # drop n rs" for x using conjunct1 [OF mp [OF 2(1)]] n by (simp add: upd_conv_take_nth_drop)
    have "ranges_of (merge_range a e (prev_of n) m) = take (n - 1) rs @ ?p\<lparr>rg_end := e\<rparr> # drop n rs"
      using 2 mp assms(7) upd [of "?p\<lparr>rg_end := e\<rparr>"] by (simp add: merge_range_def Let_def rs_def [symmetric] prev_of_def next_of_def)
    then show ?thesis using ok pin mp 2 c c0 tk far(2)
      by (simp only:) (rule can_add, assumption, simp_all)
  next
    case 3
    have "ranges_of (merge_range a e (prev_of n) m) = take n rs @ ?n\<lparr>rg_start := a\<rparr> # drop (n + 1) rs"
      using 3 mn by (simp add: merge_range_def Let_def rs_def [symmetric] upd_conv_take_nth_drop)
    then show ?thesis using ok mn 3 c c0 dr nth_mem [of n rs] far(1)
      by (simp only:) (rule can_add, assumption, simp_all)
  qed
qed

definition bad_range :: "int \<Rightarrow> int \<Rightarrow> ndz_rangemap \<Rightarrow> bool" where
  "bad_range a n m \<longleftrightarrow> to_u64 (a + n - 1) < a \<or> a < loaddr m \<or> hiaddr m < to_u64 (a + n - 1)"

lemma alloc_cases:
  assumes inv: "rm_inv m" and e: "e = to_u64 (a + n - 1)"
  obtains (bad) "bad_range a n m" "ndz_rangemap_alloc mem a n d m = Some (EINVAL, m)"
  | (taken) h where "\<not> bad_range a n m" "\<not> free_range (ranges_of m) a e" "h \<le> length (ranges_of m)"
      "ndz_rangemap_alloc mem a n d m = Some (EINVAL, m\<lparr>hint := h\<rparr>)"
  | (nomem) h where "\<not> bad_range a n m" "free_range (ranges_of m) a e" "\<not> mem" "h \<le> length (ranges_of m)"
      "ndz_rangemap_alloc mem a n d m = Some (ENOMEM, m\<lparr>hint := h\<rparr>)"
  | (grows) m' where "\<not> bad_range a n m" "free_range (ranges_of m) a e" "grown a e d m m'"
      "d = 0 \<Longrightarrow> canon (ranges_of m) \<Longrightarrow> canon (ranges_of m')"
      "ndz_rangemap_alloc mem a n d m = Some (Zero, m'\<lparr>gen := to_u64 (gen m' + 1), sectors := to_u64 (sectors m' + n)\<rparr>)"
proof -
  let ?rs = "ranges_of m"
  let ?k = "place ?rs a"
  let ?h = "if found ?rs a then ?k else ?k - 1"
  let ?m = "m\<lparr>hint := ?h\<rparr>"
  have h: "?h \<le> length ?rs" using place_le [of ?rs a] by (cases "found ?rs a") simp_all
  have inv': "rm_inv ?m" by (rule hint_inv [OF inv h])
  have ok: "list_ok (loaddr m) (hiaddr m) ?rs" using inv by (simp add: rm_inv_list)
  note lk = ndz_rangemap_lookup_spec [OF inv, of a]
  note unf = ndz_rangemap_alloc_def [of mem a n d m, unfolded Let_def e [symmetric]]
  show thesis
  proof (cases "bad_range a n m")
    case True
    then show ?thesis using bad unf by (simp add: bad_range_def e)
  next
    case good: False
    then have ae: "a \<le> e" and lo: "loaddr m \<le> a" and hi: "e \<le> hiaddr m" by (simp_all add: bad_range_def e)
    note unf = unf [unfolded lk, simplified]
    have free: "free_range ?rs a e \<longleftrightarrow> \<not> found ?rs a \<and> (?k < length ?rs \<longrightarrow> e < rg_start (?rs ! ?k))"
      by (rule free_range_iff [OF ok ae])
    show ?thesis
    proof (cases "free_range ?rs a e")
      case False
      then have "ndz_rangemap_alloc mem a n d m = Some (EINVAL, ?m)"
        using unf free ae lo hi by (cases "found ?rs a") (auto simp: not_less)
      then show ?thesis using taken good False h by blast
    next
      case True
      then have nf: "\<not> found ?rs a" and fit: "fits a e (take ?k ?rs) (drop ?k ?rs)"
        using free not_found_fits [OF ok ae] by blast+
      have m: "?m = m\<lparr>hint := ?k - 1\<rparr>" using nf by simp
      let ?merge = "d = 0 \<and> ((merges_prev ?rs a (prev_of ?k) \<and> rg_data (?rs ! the (prev_of ?k)) = 0) \<or>
               (merges_next ?rs e ?k \<and> rg_data (?rs ! ?k) = 0))"
      have unf': "ndz_rangemap_alloc mem a n d m =
          (let m2 = if ?merge then merge_range a e (prev_of ?k) ?m else insert_range a e d (prev_of ?k) ?m in
           if \<not> ?merge \<and> \<not> mem then Some (ENOMEM, ?m)
           else Some (Zero, m2\<lparr>gen := to_u64 (gen m2 + 1), sectors := to_u64 (sectors m2 + n)\<rparr>))"
        using unf free True ae lo hi nf by (auto simp: Let_def not_less)
      show ?thesis
      proof (cases ?merge)
        case merge: True
        have h': "hint ?m = ?k - 1" using nf by simp
        have args: "fits a e (take ?k (ranges_of ?m)) (drop ?k (ranges_of ?m))" "loaddr ?m \<le> a" "e \<le> hiaddr ?m"
          "?k \<le> length (ranges_of ?m)" "merges_prev (ranges_of ?m) a (prev_of ?k) \<or> merges_next (ranges_of ?m) e ?k"
          using fit lo hi place_le [of ?rs a] merge by auto
        have "grown a e 0 ?m (merge_range a e (prev_of ?k) ?m)" by (rule merge_range_grown [OF inv' args h'])
        moreover have "canon (ranges_of (merge_range a e (prev_of ?k) ?m))" if "canon ?rs"
          using merge_range_canon [OF inv' args h'] that by simp
        ultimately show ?thesis using unf' merge
          by (intro grows [OF good True, of "merge_range a e (prev_of ?k) ?m"]) (simp_all add: grown_hint Let_def)
      next
        case nomerge: False
        have args: "fits a e (take ?k (ranges_of ?m)) (drop ?k (ranges_of ?m))" "loaddr ?m \<le> a" "e \<le> hiaddr ?m"
          "?k \<le> length (ranges_of ?m)" using fit lo hi place_le [of ?rs a] by auto
        then have "grown a e d ?m (insert_range a e d (prev_of ?k) ?m)"
          by (intro insert_range_grown [OF inv']) simp_all
        then have g: "grown a e d m (insert_range a e d (prev_of ?k) ?m)" by (simp add: grown_hint)
        have can: "canon (ranges_of (insert_range a e d (prev_of ?k) ?m))" if d: "d = 0" and can: "canon ?rs"
        proof -
          have "rg_data (?rs ! (?k - 1)) = 0" if "0 < ?k" using can place_le [of ?rs a] that by (simp add: canon_def)
          moreover have "rg_data (?rs ! ?k) = 0" if "?k < length ?rs" using can that by (simp add: canon_def)
          ultimately have "\<not> merges_prev ?rs a (prev_of ?k)" "\<not> merges_next ?rs e ?k"
            using nomerge d by (auto simp: merges_prev_def merges_next_def prev_of_def split: if_splits)
          then show ?thesis using insert_range_canon [OF inv' args] can d by simp
        qed
        show ?thesis
        proof (cases mem)
          case True
          then show ?thesis using unf' nomerge by (intro grows [OF good \<open>free_range ?rs a e\<close> g can]) (simp_all add: Let_def)
        next
          case False
          then show ?thesis using unf' nomerge by (intro nomem [OF good True False h]) (simp add: Let_def)
        qed
      qed
    qed
  qed
qed

section \<open>Deallocating\<close>

text \<open>What is left of a range when a part of it is cut out.\<close>

definition pieces :: "int \<Rightarrow> int \<Rightarrow> ndz_range \<Rightarrow> ndz_range list" where
  "pieces a e r = (if rg_start r < a then [r\<lparr>rg_end := a - 1\<rparr>] else []) @ (if e < rg_end r then [r\<lparr>rg_start := e + 1\<rparr>] else [])"

lemma shape_cut:
  assumes "list_ok lo hi (xs @ r # ys)" and "covers r a" and "covers r e" and "a \<le> e"
  shows "list_ok lo hi (xs @ pieces a e r @ ys)"
    and "data_at (xs @ pieces a e r @ ys) = overlay a e None (data_at (xs @ r # ys))"
    and "total_size (xs @ pieces a e r @ ys) = total_size (xs @ r # ys) - (e - a + 1)"
proof -
  have r: "\<forall>x \<in> set xs. rg_end x < rg_start r" "\<forall>y \<in> set ys. rg_end r < rg_start y" using assms(1) by (auto simp: list_simps)
  show "list_ok lo hi (xs @ pieces a e r @ ys)" using assms unfolding list_simps covers_def pieces_def by auto
  show "data_at (xs @ pieces a e r @ ys) = overlay a e None (data_at (xs @ r # ys))"
  proof
    fix x
    have "data_at xs x = None \<and> data_at ys x = None" if "rg_start r \<le> x \<and> x \<le> rg_end r"
      using r that by (fastforce intro!: data_at_outside)
    then show "data_at (xs @ pieces a e r @ ys) x = overlay a e None (data_at (xs @ r # ys)) x"
      using assms(2-4) by (auto simp: data_at_append overlay_def covers_def pieces_def split: option.splits)
  qed
  show "total_size (xs @ pieces a e r @ ys) = total_size (xs @ r # ys) - (e - a + 1)"
    using assms(2-4) by (auto simp: pieces_def covers_def)
qed

lemma canon_cut:
  assumes "list_ok lo hi (xs @ r # ys)" and "covers r a" and "covers r e" and "a \<le> e" and "canon (xs @ r # ys)"
  shows "canon (xs @ pieces a e r @ ys)"
  unfolding canon_def
proof (intro ballI conjI)
  let ?new = "set (xs @ pieces a e r @ ys)"
  have pc: "rg_start x = rg_start r \<and> rg_end x = a - 1 \<and> rg_start r < a \<or> rg_start x = e + 1 \<and> e < rg_end r \<and> rg_end x = rg_end r"
    and pd: "rg_data x = rg_data r" if "x \<in> set (pieces a e r)" for x
    using that by (auto simp: pieces_def split: if_splits)
  have cov: "rg_start r \<le> a" "e \<le> rg_end r" using assms(2,3) by (simp_all add: covers_def)
  have old: "rg_end x < rg_start r \<or> rg_end r < rg_start x" "rg_start x \<le> rg_end x" if "x \<in> set (xs @ ys)" for x
    using that assms(1) by (auto simp: list_simps)
  have c: "rg_end x + 1 \<noteq> rg_start y" if "x = r \<or> x \<in> set (xs @ ys)" "y = r \<or> y \<in> set (xs @ ys)" for x y
    using that assms(5) by (auto simp: canon_def)
  fix p q
  assume "p \<in> ?new" and "q \<in> ?new"
  then have p: "p \<in> set (pieces a e r) \<or> p \<in> set (xs @ ys)" and q: "q \<in> set (pieces a e r) \<or> q \<in> set (xs @ ys)" by auto
  show "rg_data p = 0" using p pd assms(5) by (auto simp: canon_def)
  show "rg_end p + 1 \<noteq> rg_start q"
  proof (cases "p \<in> set (pieces a e r)"; cases "q \<in> set (pieces a e r)")
    assume "p \<in> set (pieces a e r)" "q \<in> set (pieces a e r)"
    then show ?thesis using pc [of p] pc [of q] cov assms(4) by auto
  next
    assume "p \<in> set (pieces a e r)" "q \<notin> set (pieces a e r)"
    then show ?thesis using pc [of p] q old [of q] c [of r q] cov assms(4) by auto
  next
    assume "p \<notin> set (pieces a e r)" "q \<in> set (pieces a e r)"
    then show ?thesis using pc [of q] p old [of p] c [of p r] cov assms(4) by auto
  next
    assume "p \<notin> set (pieces a e r)" "q \<notin> set (pieces a e r)"
    then show ?thesis using p q c [of p q] by blast
  qed
qed

definition shrunk :: "int \<Rightarrow> int \<Rightarrow> ndz_rangemap \<Rightarrow> ndz_rangemap \<Rightarrow> bool" where
  "shrunk a e m m' \<longleftrightarrow> list_ok (loaddr m) (hiaddr m) (ranges_of m') \<and> hint m' \<le> length (ranges_of m') \<and>
     entries m' = to_u64 (int (length (ranges_of m'))) \<and> total_size (ranges_of m') = total_size (ranges_of m) - (e - a + 1) \<and>
     data_at (ranges_of m') = overlay a e None (data_at (ranges_of m)) \<and>
     (canon (ranges_of m) \<longrightarrow> canon (ranges_of m')) \<and>
     loaddr m' = loaddr m \<and> hiaddr m' = hiaddr m \<and> gen m' = gen m \<and> sectors m' = sectors m"

lemma cut_range_ranges:
  assumes "i < length (ranges_of m)" and "r = ranges_of m ! i" and "covers r a" and "covers r e" and "rg_data r = 0"
    and "0 \<le> rg_start r" and "rg_end r < 2 ^ 64" and "a \<le> e"
  shows "ranges_of (cut_range a e i m) = take i (ranges_of m) @ pieces a e r @ drop (i + 1) (ranges_of m)"
    and "hint (cut_range a e i m) \<le> length (ranges_of (cut_range a e i m))"
    and "entries m = to_u64 (int (length (ranges_of m))) \<Longrightarrow>
      entries (cut_range a e i m) = to_u64 (int (length (ranges_of (cut_range a e i m))))"
proof -
  have u: "to_u64 (a - 1) = a - 1" if "rg_start r \<noteq> a" using assms(3,6,7) that by (intro to_u64_id) (auto simp: covers_def)
  have v: "to_u64 (e + 1) = e + 1" if "rg_end r \<noteq> e" using assms(4,6,7) that by (intro to_u64_id) (auto simp: covers_def)
  have w: "\<lparr>rg_start = x, rg_end = rg_end r, rg_data = 0\<rparr> = r\<lparr>rg_start := x\<rparr>" for x using assms(5) by (cases r) simp
  have upd: "(ranges_of m)[i := x] = take i (ranges_of m) @ x # drop (i + 1) (ranges_of m)" for x
    using assms(1) by (simp add: upd_conv_take_nth_drop)
  note defs = cut_range_def Let_def assms(2) [symmetric] upd w pieces_def
  have c: "rg_start r < a \<longleftrightarrow> rg_start r \<noteq> a" "e < rg_end r \<longleftrightarrow> rg_end r \<noteq> e" using assms(3,4) by (auto simp: covers_def)
  show eq: "ranges_of (cut_range a e i m) = take i (ranges_of m) @ pieces a e r @ drop (i + 1) (ranges_of m)"
    unfolding defs c using u v by simp
  show "hint (cut_range a e i m) \<le> length (ranges_of (cut_range a e i m))"
    unfolding eq unfolding defs c using assms(1) by auto
  show "entries (cut_range a e i m) = to_u64 (int (length (ranges_of (cut_range a e i m))))"
    if "entries m = to_u64 (int (length (ranges_of m)))"
    unfolding eq unfolding defs c using assms(1) that by (simp add: of_nat_diff add.commute)
qed

lemma cut_range_shrunk:
  assumes "rm_inv m" and "i < length (ranges_of m)" and "r = ranges_of m ! i" and "covers r a" and "covers r e"
    and "rg_data r = 0" and "a \<le> e"
  shows "shrunk a e m (cut_range a e i m)"
proof -
  have ok: "list_ok (loaddr m) (hiaddr m) (ranges_of m)" and ent: "entries m = to_u64 (int (length (ranges_of m)))"
    and lim: "0 \<le> loaddr m" "hiaddr m < 2 ^ 64" using assms(1) by (simp_all add: rm_inv_list)
  have eq: "ranges_of m = take i (ranges_of m) @ r # drop (i + 1) (ranges_of m)" using assms(2,3) by (simp add: id_take_nth_drop)
  have "range_in (loaddr m) (hiaddr m) r" using ok assms(2,3) by (simp add: list_ok_def)
  then have "0 \<le> rg_start r" "rg_end r < 2 ^ 64" using lim unfolding range_in_def by linarith+
  note cut = cut_range_ranges [OF assms(2-6) this assms(7)]
  have "list_ok (loaddr m) (hiaddr m) (take i (ranges_of m) @ r # drop (i + 1) (ranges_of m))"
    by (subst eq [symmetric]) (rule ok)
  note sh = shape_cut [OF this assms(4,5,7), folded cut(1), unfolded eq [symmetric]]
  have "canon (ranges_of (cut_range a e i m))" if "canon (ranges_of m)"
    unfolding cut(1) using that eq by (intro canon_cut [OF _ assms(4,5,7)]) (use ok in simp_all)
  moreover have "loaddr (cut_range a e i m) = loaddr m" "hiaddr (cut_range a e i m) = hiaddr m" "gen (cut_range a e i m) = gen m"
    "sectors (cut_range a e i m) = sectors m" by (simp_all add: cut_range_def Let_def)
  ultimately show ?thesis using sh cut(2) cut(3) [OF ent] by (simp add: shrunk_def)
qed


definition holder :: "ndz_range list \<Rightarrow> int \<Rightarrow> int \<Rightarrow> ndz_range \<Rightarrow> bool" where
  "holder rs a e r \<longleftrightarrow> r \<in> set rs \<and> covers r a \<and> covers r e"

lemma holder_place:
  assumes "list_ok lo hi rs" and "a \<le> e"
  shows "holder rs a e r \<longleftrightarrow> found rs a \<and> r = rs ! place rs a \<and> e \<le> rg_end r"
proof
  assume h: "holder rs a e r"
  then obtain i where i: "i < length rs" "r = rs ! i" by (auto simp: holder_def in_set_conv_nth)
  have ends: "rg_start x \<le> rg_end x" if "x \<in> set rs" for x using assms(1) that by (auto simp: list_simps)
  have "i \<le> place rs a"
  proof (rule place_ge)
    show "rg_end (rs ! j) < a" if "j < i" for j
      using sorted_wrt_nth_less [of before rs j i] assms(1) that i h by (auto simp: list_ok_def before_def holder_def covers_def)
  qed (use i in simp)
  moreover have "\<not> i < place rs a" using place_less [of i rs a] h i by (auto simp: holder_def covers_def)
  ultimately have "i = place rs a" by simp
  then show "found rs a \<and> r = rs ! place rs a \<and> e \<le> rg_end r" using i h by (auto simp: found_def holder_def covers_def)
next
  assume "found rs a \<and> r = rs ! place rs a \<and> e \<le> rg_end r"
  then show "holder rs a e r" using assms(2) place_nth [of rs a] by (auto simp: found_def holder_def covers_def)
qed

lemma dealloc_cases:
  assumes inv: "rm_inv m" and e: "e = to_u64 (a + n - 1)"
  obtains (bad) "bad_range a n m" "ndz_rangemap_dealloc mem a n m = Some (EINVAL, m)"
  | (hole) h where "\<not> bad_range a n m" "\<not> (\<exists>r. holder (ranges_of m) a e r)" "h \<le> length (ranges_of m)"
      "ndz_rangemap_dealloc mem a n m = Some (EINVAL, m\<lparr>hint := h\<rparr>)"
  | (busy) h r where "\<not> bad_range a n m" "holder (ranges_of m) a e r" "rg_data r \<noteq> 0" "h \<le> length (ranges_of m)"
      "ndz_rangemap_dealloc mem a n m = Some (EBUSY, m\<lparr>hint := h\<rparr>)"
  | (nomem) h r where "\<not> bad_range a n m" "holder (ranges_of m) a e r" "rg_data r = 0" "\<not> mem" "h \<le> length (ranges_of m)"
      "rg_start r < a" "e < rg_end r"
      "ndz_rangemap_dealloc mem a n m = Some (ENOMEM, m\<lparr>hint := h\<rparr>)"
  | (cut) m' r where "\<not> bad_range a n m" "holder (ranges_of m) a e r" "rg_data r = 0" "shrunk a e m m'"
      "ndz_rangemap_dealloc mem a n m = Some (Zero, m'\<lparr>gen := to_u64 (gen m' + 1), sectors := to_u64 (sectors m' - n)\<rparr>)"
proof -
  let ?rs = "ranges_of m"
  let ?k = "place ?rs a"
  let ?r = "?rs ! ?k"
  let ?h = "if found ?rs a then ?k else ?k - 1"
  let ?m = "m\<lparr>hint := ?h\<rparr>"
  have h: "?h \<le> length ?rs" using place_le [of ?rs a] by (cases "found ?rs a") simp_all
  have inv': "rm_inv ?m" by (rule hint_inv [OF inv h])
  have ok: "list_ok (loaddr m) (hiaddr m) ?rs" using inv by (simp add: rm_inv_list)
  note unf = ndz_rangemap_dealloc_def [of mem a n m, unfolded Let_def e [symmetric]]
  show thesis
  proof (cases "bad_range a n m")
    case True
    then show ?thesis using bad unf by (simp add: bad_range_def e)
  next
    case good: False
    then have ae: "a \<le> e" and lim: "loaddr m \<le> a" "e \<le> hiaddr m" by (simp_all add: bad_range_def e)
    note hp = holder_place [OF ok ae]
    have unf': "ndz_rangemap_dealloc mem a n m =
        (if \<not> holder ?rs a e ?r then Some (EINVAL, ?m)
         else if rg_data ?r \<noteq> 0 then Some (EBUSY, ?m)
         else if rg_start ?r \<noteq> a \<and> rg_end ?r \<noteq> e \<and> \<not> mem then Some (ENOMEM, ?m)
         else Some (Zero, (cut_range a e ?k ?m)\<lparr>gen := to_u64 (gen (cut_range a e ?k ?m) + 1),
           sectors := to_u64 (sectors (cut_range a e ?k ?m) - n)\<rparr>))"
      using unf lim ae hp [of ?r] by (simp add: ndz_rangemap_lookup_spec [OF inv, of a] not_less not_le)
    show ?thesis
    proof (cases "holder ?rs a e ?r")
      case False
      then show ?thesis using hole [OF good _ h] hp unf' by auto
    next
      case True
      then have cov: "covers ?r a" "covers ?r e" "?k < length ?rs" using hp [of ?r] by (auto simp: holder_def found_def)
      have "shrunk a e ?m (cut_range a e ?k ?m)" if "rg_data ?r = 0"
        using cut_range_shrunk [OF inv', of ?k ?r a e] cov that ae by simp
      then have sh: "shrunk a e m (cut_range a e ?k ?m)" if "rg_data ?r = 0" using that by (simp add: shrunk_def)
      consider "rg_data ?r \<noteq> 0" | "rg_data ?r = 0" "rg_start ?r \<noteq> a \<and> rg_end ?r \<noteq> e \<and> \<not> mem"
        | "rg_data ?r = 0" "\<not> (rg_start ?r \<noteq> a \<and> rg_end ?r \<noteq> e \<and> \<not> mem)" by blast
      then show ?thesis
      proof cases
        case 1
        then show ?thesis using busy [OF good True 1 h] unf' True by simp
      next
        case 2
        then have "rg_start ?r < a" "e < rg_end ?r" using cov by (auto simp: covers_def)
        then show ?thesis using nomem [OF good True 2(1) _ h] 2 unf' True by simp
      next
        case 3
        then show ?thesis using cut [OF good True 3(1) sh [OF 3(1)]] unf' True by simp
      qed
    qed
  qed
qed

lemma shrunk_inv:
  assumes "shrunk a e m m'" and "rm_inv m" and "e = to_u64 (a + n - 1)"
  shows "rm_inv (m'\<lparr>gen := g, sectors := to_u64 (sectors m' - n)\<rparr>)"
proof -
  have "to_u64 (total_size (ranges_of m) - (e - a + 1)) = to_u64 (total_size (ranges_of m) - n)"
    using sectors_add [OF assms(3), of "total_size (ranges_of m) - n - (e - a + 1)"] by (simp add: algebra_simps)
  then show ?thesis using assms by (simp add: shrunk_def rm_inv_list)
qed


section \<open>A map without data as a set of addresses\<close>

datatype region_op = Region_alloc int int | Region_dealloc int int

text \<open>What the header comments promise, on sets of addresses between two limits.\<close>

definition region_spec :: "int \<times> int \<Rightarrow> region_op \<Rightarrow> int set \<Rightarrow> errno \<times> int set" where
  "region_spec lim op S =
     (case op of
        Region_alloc a n \<Rightarrow> (let e = to_u64 (a + n - 1) in
          if e < a \<or> a < fst lim \<or> snd lim < e \<or> S \<inter> {a..e} \<noteq> {} then (EINVAL, S) else (Zero, S \<union> {a..e}))
      | Region_dealloc a n \<Rightarrow> (let e = to_u64 (a + n - 1) in
          if e < a \<or> a < fst lim \<or> snd lim < e \<or> \<not> {a..e} \<subseteq> S then (EINVAL, S) else (Zero, S - {a..e})))"

fun region_run :: "(region_op \<Rightarrow> 's \<Rightarrow> (errno \<times> 's) option) \<Rightarrow> region_op list \<Rightarrow> 's \<Rightarrow> (errno list \<times> 's) option" where
  "region_run step [] s = Some ([], s)"
| "region_run step (x # xs) s = do { (r, s1) \<leftarrow> step x s; (rs, s2) \<leftarrow> region_run step xs s1; Some (r # rs, s2) }"

locale address_set =
  fixes inv :: "'m \<Rightarrow> bool" and addrs :: "'m \<Rightarrow> int set" and limits :: "'m \<Rightarrow> int \<times> int"
    and step :: "region_op \<Rightarrow> 'm \<Rightarrow> (errno \<times> 'm) option"
  assumes step_ok: "inv m \<Longrightarrow> \<exists>r m'. step x m = Some (r, m') \<and> inv m' \<and> limits m' = limits m \<and>
    region_spec (limits m) x (addrs m) = (r, addrs m')"
begin

lemma run_ok:
  assumes "inv m"
  shows "\<exists>rs m'. region_run step xs m = Some (rs, m') \<and> inv m' \<and> limits m' = limits m \<and>
    region_run (\<lambda>x S. Some (region_spec (limits m) x S)) xs (addrs m) = Some (rs, addrs m')"
  using assms
proof (induction xs arbitrary: m)
  case (Cons x xs)
  obtain r m' where s: "step x m = Some (r, m')" "inv m'" "limits m' = limits m"
    "region_spec (limits m) x (addrs m) = (r, addrs m')" using step_ok [OF Cons.prems] by blast
  show ?case using Cons.IH [OF s(2)] s by fastforce
qed simp

text \<open>Giving back what was just allocated restores the set.\<close>

lemma alloc_dealloc:
  assumes "inv m" and "step (Region_alloc a n) m = Some (Zero, m1)"
  shows "\<exists>m2. step (Region_dealloc a n) m1 = Some (Zero, m2) \<and> inv m2 \<and> addrs m2 = addrs m"
proof -
  have m1: "inv m1" "limits m1 = limits m" "region_spec (limits m) (Region_alloc a n) (addrs m) = (Zero, addrs m1)"
    using step_ok [OF assms(1), of "Region_alloc a n"] assms(2) by auto
  obtain r m2 where m2: "step (Region_dealloc a n) m1 = Some (r, m2)" "inv m2"
    "region_spec (limits m) (Region_dealloc a n) (addrs m1) = (r, addrs m2)"
    using step_ok [OF m1(1), of "Region_dealloc a n"] m1(2) by auto
  then show ?thesis using m1(3) by (auto simp: region_spec_def Let_def split: if_splits)
qed

end

definition region_step :: "region_op \<Rightarrow> ndz_rangemap \<Rightarrow> (errno \<times> ndz_rangemap) option" where
  "region_step x m = (case x of Region_alloc a n \<Rightarrow> ndz_rangemap_alloc True a n 0 m
     | Region_dealloc a n \<Rightarrow> ndz_rangemap_dealloc True a n m)"

definition region_addrs :: "ndz_rangemap \<Rightarrow> int set" where
  "region_addrs m = dom (data_at (ranges_of m))"

definition region_inv :: "ndz_rangemap \<Rightarrow> bool" where
  "region_inv m \<longleftrightarrow> rm_inv m \<and> canon (ranges_of m)"

lemma free_range_addrs: "free_range (ranges_of m) a e \<longleftrightarrow> region_addrs m \<inter> {a..e} = {}"
  by (auto simp: free_range_def region_addrs_def dom_def)

text \<open>In a map whose entries are maximal, a covered range lies in one entry.\<close>

lemma holder_iff:
  assumes "list_ok lo hi rs" and "canon rs" and "a \<le> e"
  shows "(\<exists>r. holder rs a e r) \<longleftrightarrow> {a..e} \<subseteq> dom (data_at rs)"
proof
  assume "\<exists>r. holder rs a e r"
  then obtain r where "r \<in> set rs" "rg_start r \<le> a" "e \<le> rg_end r" by (auto simp: holder_def covers_def)
  then have "data_at rs x \<noteq> None" if "x \<in> {a..e}" for x
    using that unfolding data_at_None covers_def by fastforce
  then show "{a..e} \<subseteq> dom (data_at rs)" by auto
next
  assume all: "{a..e} \<subseteq> dom (data_at rs)"
  have cov: "\<exists>r \<in> set rs. covers r x" if "a \<le> x" "x \<le> e" for x
  proof (rule ccontr)
    assume "\<not> (\<exists>r \<in> set rs. covers r x)"
    then have "data_at rs x = None" by (simp add: data_at_None)
    then show False using all that by (auto simp: dom_def)
  qed
  obtain r where r: "r \<in> set rs" "covers r a" using cov [of a] assms(3) by blast
  have "e \<le> rg_end r"
  proof (rule ccontr)
    assume lt: "\<not> e \<le> rg_end r"
    then obtain r' where r': "r' \<in> set rs" "covers r' (rg_end r + 1)" using cov [of "rg_end r + 1"] r(2) by (auto simp: covers_def)
    have "rg_start r' \<noteq> rg_end r + 1" using assms(2) r(1) r'(1) unfolding canon_def by metis
    then have both: "covers r' (rg_end r)" using r'(2) by (auto simp: covers_def)
    have "r \<noteq> r'" using r' by (auto simp: covers_def)
    then have "before r r' \<or> before r' r" using assms(1) r(1) r'(1)
      by (metis list_ok_def in_set_conv_nth linorder_neqE_nat sorted_wrt_nth_less)
    then show False using both r(2) r'(2) by (auto simp: before_def covers_def)
  qed
  then show "\<exists>r. holder rs a e r" using r assms(3) by (auto simp: holder_def covers_def)
qed

lemma region_step_alloc:
  assumes "region_inv m"
  shows "\<exists>r m'. region_step (Region_alloc a n) m = Some (r, m') \<and> region_inv m' \<and> (loaddr m', hiaddr m') = (loaddr m, hiaddr m) \<and>
    region_spec (loaddr m, hiaddr m) (Region_alloc a n) (region_addrs m) = (r, region_addrs m')"
proof -
  have inv: "rm_inv m" and can: "canon (ranges_of m)" using assms by (simp_all add: region_inv_def)
  note simps = region_step_def region_spec_def Let_def region_inv_def bad_range_def free_range_addrs region_addrs_def hint_inv
  show ?thesis
  proof (cases rule: alloc_cases [OF inv refl, where a = a and n = n and mem = True and d = 0, case_names bad taken nomem grows])
    case bad
    then show ?thesis using inv can by (auto simp: simps)
  next
    case (taken h)
    then show ?thesis using inv can by (auto simp: simps)
  next
    case (grows m')
    have "rm_inv (m'\<lparr>gen := to_u64 (gen m' + 1), sectors := to_u64 (sectors m' + n)\<rparr>)" by (rule grown_inv [OF grows(3) inv refl])
    then show ?thesis using grows can by (auto simp: simps grown_def)
  qed simp
qed

lemma region_step_dealloc:
  assumes "region_inv m"
  shows "\<exists>r m'. region_step (Region_dealloc a n) m = Some (r, m') \<and> region_inv m' \<and> (loaddr m', hiaddr m') = (loaddr m, hiaddr m) \<and>
    region_spec (loaddr m, hiaddr m) (Region_dealloc a n) (region_addrs m) = (r, region_addrs m')"
proof -
  have inv: "rm_inv m" and can: "canon (ranges_of m)" using assms by (simp_all add: region_inv_def)
  have hold: "(\<exists>r. holder (ranges_of m) a (to_u64 (a + n - 1)) r) \<longleftrightarrow> {a..to_u64 (a + n - 1)} \<subseteq> region_addrs m"
    if "\<not> bad_range a n m"
    unfolding region_addrs_def by (rule holder_iff [OF _ can]) (use inv that in \<open>auto simp: rm_inv_list bad_range_def\<close>)
  note simps = region_step_def region_spec_def Let_def region_inv_def bad_range_def hint_inv
  show ?thesis
  proof (cases rule: dealloc_cases [OF inv refl, where a = a and n = n and mem = True, case_names bad hole busy nomem cut])
    case bad
    then show ?thesis using inv can by (auto simp: simps)
  next
    case (hole h)
    then show ?thesis using inv can hold by (auto simp: simps region_addrs_def)
  next
    case (busy h r)
    then show ?thesis using can by (auto simp: canon_def holder_def)
  next
    case (cut m' r)
    have "rm_inv (m'\<lparr>gen := to_u64 (gen m' + 1), sectors := to_u64 (sectors m' - n)\<rparr>)" by (rule shrunk_inv [OF cut(4) inv refl])
    moreover have "{a..to_u64 (a + n - 1)} \<subseteq> region_addrs m" using hold cut by blast
    moreover have "region_addrs (m'\<lparr>gen := to_u64 (gen m' + 1), sectors := to_u64 (sectors m' - n)\<rparr>) =
        region_addrs m - {a..to_u64 (a + n - 1)}" using cut(4) by (simp add: shrunk_def region_addrs_def)
    ultimately show ?thesis using cut can by (auto simp: simps shrunk_def)
  qed simp
qed

interpretation regions: address_set region_inv region_addrs "\<lambda>m. (loaddr m, hiaddr m)" region_step
proof unfold_locales
  fix m x
  assume "region_inv m"
  then show "\<exists>r m'. region_step x m = Some (r, m') \<and> region_inv m' \<and> (loaddr m', hiaddr m') = (loaddr m, hiaddr m) \<and>
      region_spec (loaddr m, hiaddr m) x (region_addrs m) = (r, region_addrs m')"
    using region_step_alloc region_step_dealloc by (cases x) blast+
qed


section \<open>Properties\<close>

definition one_range :: "nat \<Rightarrow> ndz_rangemap" where
  "one_range d = \<lparr>ranges_of = [\<lparr>rg_start = 10, rg_end = 19, rg_data = d\<rparr>], hint = 0, loaddr = 0, hiaddr = 99, gen = 1,
     entries = 1, sectors = 10\<rparr>"

lemma one_range_ok: "rm_inv (one_range d)" "region_inv (one_range 0)" "region_inv (ndz_rangemap_init 0 99)"
  by (simp_all add: one_range_def rm_inv_def range_in_def to_u64_def region_inv_def canon_def ndz_rangemap_init_def)

lemmas run_simps = one_range_def ndz_rangemap_alloc_def ndz_rangemap_dealloc_def ndz_rangemap_lookup_def lookup_loop.simps
  prev_of_def next_of_def merges_prev_def merges_next_def merge_range_def insert_range_def cut_range_def to_u64_def Let_def

text \<open>
  A search does not depend on where it starts. On a well-formed map \<^const>\<open>ndz_rangemap_lookup\<close> never fails its assertion,
  returns the entry that holds the address iff there is one, gives the entry before the address, changes nothing but the
  hint, and returns the same two entries for every value of the hint.
\<close>

theorem rangemap_lookup:
  assumes "rm_inv m"
  shows "\<exists>r p h. ndz_rangemap_lookup addr m = Some (r, p, m\<lparr>hint := h\<rparr>) \<and> rm_inv (m\<lparr>hint := h\<rparr>) \<and>
    (case r of None \<Rightarrow> data_at (ranges_of m) addr = None
     | Some i \<Rightarrow> i < length (ranges_of m) \<and> covers (ranges_of m ! i) addr \<and>
         data_at (ranges_of m) addr = Some (rg_data (ranges_of m ! i))) \<and>
    (\<forall>i < length (ranges_of m). i < next_of p \<longleftrightarrow> rg_end (ranges_of m ! i) < addr) \<and>
    (\<forall>h' \<le> length (ranges_of m). ndz_rangemap_lookup addr (m\<lparr>hint := h'\<rparr>) = Some (r, p, m\<lparr>hint := h\<rparr>))"
proof -
  let ?rs = "ranges_of m"
  let ?k = "place ?rs addr"
  define h where "h = (if found ?rs addr then ?k else ?k - 1)"
  define r where "r = (if found ?rs addr then Some ?k else None)"
  have ok: "list_ok (loaddr m) (hiaddr m) ?rs" using assms by (simp add: rm_inv_list)
  have "h \<le> length ?rs" using place_le [of ?rs addr] by (auto simp: h_def)
  then have inv: "rm_inv (m\<lparr>hint := h\<rparr>)" by (rule hint_inv [OF assms])
  have lk: "ndz_rangemap_lookup addr m' = Some (r, prev_of ?k, m'\<lparr>hint := h\<rparr>)" if "rm_inv m'" "ranges_of m' = ?rs" for m'
    using ndz_rangemap_lookup_spec [OF that(1), of addr] that(2) by (simp add: h_def r_def)
  have "case r of None \<Rightarrow> data_at ?rs addr = None
     | Some i \<Rightarrow> i < length ?rs \<and> covers (?rs ! i) addr \<and> data_at ?rs addr = Some (rg_data (?rs ! i))"
  proof (cases "found ?rs addr")
    case True
    then have k: "?k < length ?rs" "covers (?rs ! ?k) addr" using place_nth [of ?rs addr] by (auto simp: found_def covers_def)
    have eq: "?rs = take ?k ?rs @ ?rs ! ?k # drop (?k + 1) ?rs" using k(1) by (simp add: id_take_nth_drop)
    have "data_at (take ?k ?rs) addr = None"
      using place_split(2) [OF refl, of _ ?rs addr] by (intro data_at_outside) blast
    then have "data_at ?rs addr = Some (rg_data (?rs ! ?k))" using k(2) by (subst eq) (simp add: data_at_append)
    then show ?thesis using k True by (simp add: r_def)
  next
    case False
    then show ?thesis using free_range_iff [OF ok order_refl, of addr] by (auto simp: r_def free_range_def found_def)
  qed
  moreover have "i < ?k \<longleftrightarrow> rg_end (?rs ! i) < addr" if "i < length ?rs" for i
  proof
    assume "rg_end (?rs ! i) < addr"
    moreover have "rg_end (?rs ! j) < addr" if "j < i" "rg_end (?rs ! i) < addr" for j
    proof -
      have "before (?rs ! j) (?rs ! i)" using ok \<open>i < length ?rs\<close> that(1) by (auto simp: list_ok_def intro: sorted_wrt_nth_less)
      moreover have "rg_start (?rs ! i) \<le> rg_end (?rs ! i)" using ok \<open>i < length ?rs\<close> by (auto simp: list_simps)
      ultimately show ?thesis using that(2) by (simp add: before_def)
    qed
    ultimately have "Suc i \<le> ?k" using that by (intro place_ge) (auto simp: less_Suc_eq)
    then show "i < ?k" by simp
  qed (rule place_less)
  ultimately show ?thesis
    using lk [OF assms refl] lk [OF hint_inv [OF assms]] inv by (intro exI [of _ r] exI [of _ "prev_of ?k"] exI [of _ h]) simp
qed

theorem rangemap_lookup_witness:
  "\<exists>r p h. ndz_rangemap_lookup 15 (one_range 0) = Some (r, p, (one_range 0)\<lparr>hint := h\<rparr>) \<and> r = Some 0"
  using rangemap_lookup [OF one_range_ok(1), of 15 0] by (auto simp: run_simps covers_def)

text \<open>
  C38. Allocating. On a well-formed map \<^const>\<open>ndz_rangemap_alloc\<close> fails with \<^const>\<open>EINVAL\<close> iff the range wraps, leaves
  the limits or meets an allocated address, and with \<^const>\<open>ENOMEM\<close> only when memory is short; a failure changes the hint
  alone. A success adds exactly the addresses of the range and their number, keeps the map well formed, and
  (with data, or next to entries without) gives the range its data and no other address another one.
\<close>

theorem rangemap_alloc:
  assumes "rm_inv m" and "e = to_u64 (a + n - 1)"
  shows "\<exists>r m'. ndz_rangemap_alloc mem a n d m = Some (r, m') \<and> rm_inv m' \<and>
    (r = EINVAL \<longleftrightarrow> e < a \<or> a < loaddr m \<or> hiaddr m < e \<or> (\<exists>x. a \<le> x \<and> x \<le> e \<and> data_at (ranges_of m) x \<noteq> None)) \<and>
    (r \<in> {Zero, EINVAL} \<or> r = ENOMEM \<and> \<not> mem) \<and> (r \<noteq> Zero \<longrightarrow> (\<exists>h. m' = m\<lparr>hint := h\<rparr>)) \<and>
    (r = Zero \<longrightarrow> dom (data_at (ranges_of m')) = dom (data_at (ranges_of m)) \<union> {a..e} \<and>
       sectors m' = to_u64 (sectors m + n) \<and> gen m' = to_u64 (gen m + 1) \<and>
       (d \<noteq> 0 \<or> clean_neighbours (ranges_of m) a e \<longrightarrow>
         data_at (ranges_of m') = overlay a e (Some d) (data_at (ranges_of m))))"
proof (cases rule: alloc_cases [OF assms, where mem = mem and d = d, case_names bad taken nomem grows])
  case bad
  then show ?thesis using assms same_hint by (auto simp: bad_range_def)
next
  case (taken h)
  then show ?thesis using assms hint_inv [OF assms(1) taken(3)] by (fastforce simp: bad_range_def free_range_def)
next
  case (nomem h)
  then show ?thesis using assms hint_inv [OF assms(1) nomem(4)] by (fastforce simp: bad_range_def free_range_def)
next
  case (grows m')
  then show ?thesis using assms grown_inv [OF grows(3) assms] by (auto simp: bad_range_def free_range_def grown_def)
qed

theorem rangemap_alloc_witness:
  "\<exists>r m'. ndz_rangemap_alloc True 20 5 7 (one_range 0) = Some (r, m') \<and> data_at (ranges_of m') 22 = Some 7"
  using rangemap_alloc [OF one_range_ok(1), of 24 20 5 True 7 0]
  by (auto simp: run_simps clean_neighbours_def overlay_def)

text \<open>
  Deallocating. On a well-formed map \<^const>\<open>ndz_rangemap_dealloc\<close> fails with \<^const>\<open>EINVAL\<close> iff the range wraps, leaves
  the limits or does not lie in one entry, with \<^const>\<open>EBUSY\<close> iff that entry has data, and with \<^const>\<open>ENOMEM\<close> only
  when memory is short and the entry has to be split; a failure changes the hint alone. A success removes
  exactly the addresses of the range, and the data of all others stays.
\<close>

theorem rangemap_dealloc:
  assumes "rm_inv m" and "e = to_u64 (a + n - 1)"
  shows "\<exists>r m'. ndz_rangemap_dealloc mem a n m = Some (r, m') \<and> rm_inv m' \<and>
    (r = EINVAL \<longleftrightarrow> e < a \<or> a < loaddr m \<or> hiaddr m < e \<or> \<not> (\<exists>x. holder (ranges_of m) a e x)) \<and>
    (r = EBUSY \<longrightarrow> (\<exists>x. holder (ranges_of m) a e x \<and> rg_data x \<noteq> 0)) \<and>
    (r = ENOMEM \<longrightarrow> \<not> mem \<and> (\<exists>x. holder (ranges_of m) a e x \<and> rg_start x < a \<and> e < rg_end x)) \<and>
    (r \<noteq> Zero \<longrightarrow> (\<exists>h. m' = m\<lparr>hint := h\<rparr>)) \<and>
    (r = Zero \<longrightarrow> data_at (ranges_of m') = overlay a e None (data_at (ranges_of m)) \<and>
       sectors m' = to_u64 (sectors m - n) \<and> gen m' = to_u64 (gen m + 1))"
proof (cases rule: dealloc_cases [OF assms, where mem = mem, case_names bad hole busy nomem cut])
  case bad
  then show ?thesis using assms same_hint by (auto simp: bad_range_def)
next
  case (hole h)
  then show ?thesis using assms hint_inv [OF assms(1) hole(3)] by (auto simp: bad_range_def)
next
  case (busy h r)
  then show ?thesis using assms hint_inv [OF assms(1) busy(4)] by (auto simp: bad_range_def)
next
  case (nomem h r)
  then show ?thesis using assms hint_inv [OF assms(1) nomem(5)] by (auto simp: bad_range_def)
next
  case (cut m' r)
  then show ?thesis using assms shrunk_inv [OF cut(4) assms] by (auto simp: bad_range_def shrunk_def)
qed

theorem rangemap_dealloc_witness:
  "\<exists>r m'. ndz_rangemap_dealloc True 12 5 (one_range 0) = Some (r, m') \<and> data_at (ranges_of m') 14 = None \<and>
    data_at (ranges_of m') 18 = Some 0"
  using rangemap_dealloc [OF one_range_ok(1), of 16 12 5 True 0]
  by (auto simp: run_simps overlay_def covers_def)


text \<open>
  C39. Any sequence of allocations and deallocations without data works as on a set of addresses: the results and the
  addresses are those of \<^const>\<open>region_spec\<close>, for which a deallocation succeeds iff all its addresses are
  allocated, and in the end the entries are again the maximal runs of the set.
\<close>

theorem rangemap_refines_set:
  assumes "region_inv m"
  shows "\<exists>rs m'. region_run region_step ops m = Some (rs, m') \<and> region_inv m' \<and>
    region_run (\<lambda>x S. Some (region_spec (loaddr m, hiaddr m) x S)) ops (region_addrs m) = Some (rs, region_addrs m')"
  using regions.run_ok [OF assms, of ops] by blast

theorem rangemap_refines_set_witness:
  "\<exists>rs m'. region_run region_step [Region_alloc 10 10, Region_dealloc 14 2, Region_alloc 14 2] (ndz_rangemap_init 0 99) =
    Some (rs, m') \<and> rs = [Zero, Zero, Zero] \<and> region_addrs m' = {10..19}"
proof -
  obtain rs m' where r: "region_run region_step [Region_alloc 10 10, Region_dealloc 14 2, Region_alloc 14 2]
      (ndz_rangemap_init 0 99) = Some (rs, m')"
    "region_run (\<lambda>x S. Some (region_spec (0, 99) x S)) [Region_alloc 10 10, Region_dealloc 14 2, Region_alloc 14 2] {} =
      Some (rs, region_addrs m')"
    using rangemap_refines_set [OF one_range_ok(3), of "[Region_alloc 10 10, Region_dealloc 14 2, Region_alloc 14 2]"]
    by (auto simp: ndz_rangemap_init_def region_addrs_def dom_def)
  have "region_spec (0, 99) (Region_alloc 10 10) {} = (Zero, {10..19})"
    and "region_spec (0, 99) (Region_dealloc 14 2) {10..19} = (Zero, {10..19} - {14..15})"
    and "region_spec (0, 99) (Region_alloc 14 2) ({10..19} - {14..15}) = (Zero, ({10..19} - {14..15}) \<union> {14..15})"
    by (auto simp: region_spec_def Let_def to_u64_def)
  then have "rs = [Zero, Zero, Zero]" "region_addrs m' = ({10..19} - {14..15}) \<union> {14..15}" using r(2) by simp_all
  then show ?thesis using r(1) by auto
qed

text \<open>
  \<^const>\<open>ndz_rangemap_overlap\<close> returns the first entry that meets the range, and nothing iff all its addresses are
  free.
\<close>

theorem rangemap_overlap:
  assumes "rm_inv m" and "e = to_u64 (a + n - 1)" and "a \<le> e"
  shows "\<exists>r h. ndz_rangemap_overlap a n m = Some (r, m\<lparr>hint := h\<rparr>) \<and> h \<le> length (ranges_of m) \<and>
    (case r of None \<Rightarrow> \<forall>x. a \<le> x \<and> x \<le> e \<longrightarrow> data_at (ranges_of m) x = None
     | Some i \<Rightarrow> i < length (ranges_of m) \<and> (\<exists>x. a \<le> x \<and> x \<le> e \<and> covers (ranges_of m ! i) x) \<and>
         (\<forall>j < i. rg_end (ranges_of m ! j) < a))"
proof -
  let ?rs = "ranges_of m"
  let ?k = "place ?rs a"
  have ok: "list_ok (loaddr m) (hiaddr m) ?rs" using assms(1) by (simp add: rm_inv_list)
  note free = free_range_iff [OF ok assms(3)]
  define h where "h = (if found ?rs a then ?k else ?k - 1)"
  define r where "r = (if free_range ?rs a e then None else Some ?k)"
  have "ndz_rangemap_overlap a n m = Some (r, m\<lparr>hint := h\<rparr>)"
    using place_le [of ?rs a]
    by (auto simp: ndz_rangemap_overlap_def ndz_rangemap_lookup_spec [OF assms(1)] Let_def assms(2) [symmetric] free r_def h_def
        found_def)
  moreover have "?k < length ?rs \<and> (\<exists>x. a \<le> x \<and> x \<le> e \<and> covers (?rs ! ?k) x)" if nf: "\<not> free_range ?rs a e"
  proof (cases "found ?rs a")
    case True
    then show ?thesis using place_nth [of ?rs a] assms(3) by (auto simp: found_def covers_def)
  next
    case False
    then have k: "?k < length ?rs" "rg_start (?rs ! ?k) \<le> e" using nf free by auto
    moreover have "rg_start (?rs ! ?k) \<le> rg_end (?rs ! ?k)" using ok k(1) by (auto simp: list_simps)
    moreover have "a < rg_start (?rs ! ?k)" using False k(1) by (simp add: found_def)
    ultimately show ?thesis by (auto simp: covers_def intro!: exI [of _ "rg_start (?rs ! ?k)"])
  qed
  moreover have "h \<le> length ?rs" using place_le [of ?rs a] by (auto simp: h_def)
  ultimately show ?thesis using place_less [of _ ?rs a] by (intro exI [of _ r] exI [of _ h]) (simp add: r_def free_range_def)
qed

theorem rangemap_overlap_witness:
  "\<exists>r h. ndz_rangemap_overlap 5 7 (one_range 0) = Some (r, (one_range 0)\<lparr>hint := h\<rparr>) \<and> r = Some 0"
  using rangemap_overlap [OF one_range_ok(1), of 11 5 7 0]
  by (auto simp: run_simps ndz_rangemap_overlap_def covers_def)

text \<open>
  A range without data that lies between two entries is merged with both when one of them has no data, whatever the
  other has. An address that had data then has none, or one that had none gets the data of its neighbour.
\<close>

theorem rangemap_merge_data:
  "(\<exists>m. rm_inv m \<and> data_at (ranges_of m) 35 = Some 7 \<and>
    (\<exists>m'. ndz_rangemap_alloc True 20 10 0 m = Some (Zero, m') \<and> data_at (ranges_of m') 35 = Some 0)) \<and>
   (\<exists>m. rm_inv m \<and> data_at (ranges_of m) 35 = Some 0 \<and>
    (\<exists>m'. ndz_rangemap_alloc True 20 10 0 m = Some (Zero, m') \<and> data_at (ranges_of m') 35 = Some 7))"
proof -
  define mm where "mm d d' = \<lparr>ranges_of = [\<lparr>rg_start = 10, rg_end = 19, rg_data = d\<rparr>, \<lparr>rg_start = 30, rg_end = 39, rg_data = d'\<rparr>],
     hint = 0, loaddr = 0, hiaddr = 99, gen = 1, entries = 2, sectors = 20\<rparr>" for d d'
  have inv: "rm_inv (mm d d')" for d d' by (simp add: mm_def rm_inv_def range_in_def before_def to_u64_def)
  have run: "\<exists>m'. ndz_rangemap_alloc True 20 10 0 (mm d d') = Some (Zero, m') \<and> data_at (ranges_of m') 35 = Some d"
    if "d = 0 \<or> d' = 0" for d d'
    using that by (auto simp: mm_def run_simps covers_def)
  have "data_at (ranges_of (mm d d')) 35 = Some d'" for d d' by (simp add: mm_def covers_def)
  then have all: "\<exists>m. rm_inv m \<and> data_at (ranges_of m) 35 = Some d' \<and>
      (\<exists>m'. ndz_rangemap_alloc True 20 10 0 m = Some (Zero, m') \<and> data_at (ranges_of m') 35 = Some d)"
    if "d = 0 \<or> d' = 0" for d d' using inv run [OF that] by blast
  show ?thesis using all [of 0 7] all [of 7 0] by simp
qed

section \<open>Iterating\<close>

text \<open>A callback that only looks, as a function of the entry; a result other than zero ends the visit.\<close>

fun visit :: "(ndz_range \<Rightarrow> 'a \<Rightarrow> int \<times> 'a) \<Rightarrow> ndz_range list \<Rightarrow> 'a \<Rightarrow> int \<times> 'a" where
  "visit f [] x = (0, x)"
| "visit f (r # rs) x = (let (rv, y) = f r x in if rv \<noteq> 0 then (rv, y) else visit f rs y)"

definition looks :: "(ndz_rangemap \<Rightarrow> nat \<Rightarrow> 'a \<Rightarrow> (int \<times> ndz_rangemap \<times> 'a) option) \<Rightarrow> (ndz_range \<Rightarrow> 'a \<Rightarrow> int \<times> 'a) \<Rightarrow> bool" where
  "looks ifunc f \<longleftrightarrow> (\<forall>m i x. i < length (ranges_of m) \<longrightarrow>
     (\<exists>h. ifunc m i x = Some (fst (f (ranges_of m ! i) x), m\<lparr>hint := h\<rparr>, snd (f (ranges_of m ! i) x))))"

lemma iterate_looks:
  assumes "looks ifunc f"
  shows "\<exists>h. iterate_loop ifunc n x m =
    Some (fst (visit f (drop n (ranges_of m)) x), m\<lparr>hint := h\<rparr>, snd (visit f (drop n (ranges_of m)) x))"
proof (induction "length (ranges_of m) - n" arbitrary: n x m)
  case 0
  then show ?case using same_hint [of m] by (auto simp: iterate_loop.simps)
next
  case (Suc k)
  then have n: "n < length (ranges_of m)" by simp
  let ?y = "f (ranges_of m ! n) x"
  obtain h where h: "ifunc m n x = Some (fst ?y, m\<lparr>hint := h\<rparr>, snd ?y)" using assms n unfolding looks_def by blast
  have v: "visit f (drop n (ranges_of m)) x =
      (if fst ?y \<noteq> 0 then ?y else visit f (drop (n + 1) (ranges_of m)) (snd ?y))"
    by (subst next_entry [OF n]) (simp add: Let_def split_beta)
  have "k = length (ranges_of (m\<lparr>hint := n + 1\<rparr>)) - (n + 1)" using Suc.hyps(2) by simp
  from Suc.hyps(1) [OF this, of "snd ?y"] show ?case
    unfolding v iterate_loop.simps [of ifunc n x m] using n h by auto
qed

text \<open>A callback that deallocates the entry it is given.\<close>

definition delete_entry :: "ndz_rangemap \<Rightarrow> nat \<Rightarrow> 'a \<Rightarrow> (int \<times> ndz_rangemap \<times> 'a) option" where
  "delete_entry m i x = (let r = ranges_of m ! i in
     do { (err, m1) \<leftarrow> ndz_rangemap_dealloc True (rg_start r) (to_u64 (rg_end r + 1 - rg_start r)) m;
          Some (if err = Zero then 0 else 1, m1, x) })"

lemma delete_first:
  assumes "region_inv m" and "ranges_of m = r # rs"
  shows "\<exists>m1. delete_entry m 0 x = Some (0, m1, x) \<and> region_inv m1 \<and> ranges_of m1 = rs \<and> gen m1 \<noteq> gen m"
proof -
  have inv: "rm_inv m" and can: "canon (ranges_of m)" using assms(1) by (simp_all add: region_inv_def)
  have r: "loaddr m \<le> rg_start r" "rg_start r \<le> rg_end r" "rg_end r \<le> hiaddr m" "rg_data r = 0" "0 \<le> loaddr m" "hiaddr m < 2 ^ 64"
    using inv can assms(2) by (auto simp: rm_inv_def range_in_def canon_def)
  let ?n = "to_u64 (rg_end r + 1 - rg_start r)"
  have "rg_start r + ?n - 1 = to_u64 (rg_end r + 1 - rg_start r) + (rg_start r - 1)" by simp
  then have e: "to_u64 (rg_start r + ?n - 1) = rg_end r" using to_u64_id [of "rg_end r"] r by (simp only: to_u64_add) simp
  have pl: "place (ranges_of m) (rg_start r) = 0" using r(2) assms(2) by (simp add: place_def)
  have fd: "found (ranges_of m) (rg_start r)" using assms(2) pl by (simp add: found_def)
  have g: "to_u64 (gen m + 1) \<noteq> gen m"
  proof
    assume "to_u64 (gen m + 1) = gen m"
    then have "(gen m + 1) mod 2 ^ 64 = gen m mod 2 ^ 64" by (simp add: to_u64_def)
    then show False by (simp add: mod_eq_dvd_iff)
  qed
  obtain m1 where m1: "ndz_rangemap_dealloc True (rg_start r) ?n m = Some (Zero, m1)" "ranges_of m1 = rs" "gen m1 \<noteq> gen m"
    using r fd pl g assms(2)
    by (simp add: ndz_rangemap_dealloc_def e Let_def ndz_rangemap_lookup_spec [OF inv] cut_range_def)
  have "region_inv m1" using region_step_dealloc [OF assms(1), of "rg_start r" ?n] m1(1) by (simp add: region_step_def)
  then show ?thesis using m1 assms(2) by (simp add: delete_entry_def)
qed

lemma iterate_delete:
  assumes "region_inv m"
  shows "\<exists>m1. iterate_loop delete_entry 0 x m = Some (0, m1, x) \<and> region_inv m1 \<and> ranges_of m1 = []"
  using assms
proof (induction "ranges_of m" arbitrary: m)
  case Nil
  then show ?case by (simp add: iterate_loop.simps)
next
  case (Cons r rs)
  from delete_first [OF Cons.prems Cons.hyps(2) [symmetric], of x] obtain m1 where
    m1: "delete_entry m 0 x = Some (0, m1, x)" "region_inv m1" "ranges_of m1 = rs" "gen m1 \<noteq> gen m" by (elim exE conjE)
  have inv: "rm_inv m1" using m1(2) by (simp add: region_inv_def)
  have "rg_end r < rg_start (hd rs)" "rg_start (hd rs) \<le> rg_end (hd rs)" if "rs \<noteq> []"
  proof -
    have "list_ok (loaddr m) (hiaddr m) (r # rs)" using Cons.prems Cons.hyps(2) by (simp add: region_inv_def rm_inv_list)
    then show "rg_end r < rg_start (hd rs)" "rg_start (hd rs) \<le> rg_end (hd rs)" using that by (cases rs; simp add: list_simps)+
  qed
  then have pl: "place rs (rg_end r) = 0" "\<not> found rs (rg_end r)" by (cases rs; simp add: place_def found_def)+
  have lk: "ndz_rangemap_lookup (rg_end r) m1 = Some (None, None, m1\<lparr>hint := 0\<rparr>)"
    using ndz_rangemap_lookup_spec [OF inv, of "rg_end r"] pl m1(3) by (simp add: prev_of_def)
  have "region_inv (m1\<lparr>hint := 0\<rparr>)" using m1(2) by (simp add: region_inv_def hint_inv)
  from Cons.hyps(1) [OF _ this] show ?case
    using m1 lk Cons.hyps(2) [symmetric] by (subst iterate_loop.simps) (simp add: next_of_def)
qed

text \<open>
  An iteration whose callback only looks visits the entries from the first to the last, until a call returns a value
  other than zero, and returns that value.
\<close>

theorem rangemap_iterate:
  assumes "looks ifunc f"
  shows "\<exists>h. ndz_rangemap_iterate ifunc x m = Some (fst (visit f (ranges_of m) x), m\<lparr>hint := h\<rparr>, snd (visit f (ranges_of m) x))"
  using iterate_looks [OF assms, of 0 x "m\<lparr>hint := 0\<rparr>"] by (simp add: ndz_rangemap_iterate_def)

theorem rangemap_iterate_witness:
  "\<exists>h. ndz_rangemap_iterate (\<lambda>m i x. Some (0, m, x + rg_start (ranges_of m ! i))) 3 (one_range 0) =
    Some (0, (one_range 0)\<lparr>hint := h\<rparr>, 13)"
proof -
  have "looks (\<lambda>m i x. Some (0, m, x + rg_start (ranges_of m ! i))) (\<lambda>r x. (0, x + rg_start r))"
    using same_hint by (auto simp: looks_def)
  from rangemap_iterate [OF this, of 3 "one_range 0"] show ?thesis by (simp add: one_range_def)
qed

text \<open>
  C40. An iteration goes on correctly behind an entry that its callback has removed: on a map without data, a callback that
  deallocates the entry it is given empties the map, and the iteration ends.
\<close>

theorem rangemap_iterate_delete:
  assumes "region_inv m"
  shows "\<exists>m1. ndz_rangemap_iterate delete_entry x m = Some (0, m1, x) \<and> region_inv m1 \<and> region_addrs m1 = {}"
proof -
  have "region_inv (m\<lparr>hint := 0\<rparr>)" using assms by (simp add: region_inv_def hint_inv)
  from iterate_delete [OF this, of x] obtain m1 where "iterate_loop delete_entry 0 x (m\<lparr>hint := 0\<rparr>) = Some (0, m1, x)" "region_inv m1" "ranges_of m1 = []"
    by (elim exE conjE)
  then show ?thesis by (simp add: ndz_rangemap_iterate_def region_addrs_def dom_def)
qed

theorem rangemap_iterate_delete_witness:
  "\<exists>m1. ndz_rangemap_iterate delete_entry () (one_range 0) = Some (0, m1, ()) \<and> region_addrs m1 = {}"
  using rangemap_iterate_delete [OF one_range_ok(2), of "()"] by (elim exE conjE) (rule exI, rule conjI, assumption+)

end
