(* ===== verification/Barrier.thy ===== *)
theory Barrier
  imports Prelude
begin

text \<open>
  The barrier daemon (clientside/os/syncd/emulab-syncd.c). Programs on the nodes of an experiment wait for each other at
  named barriers: a master says how many waiters there will be, and when they have all arrived the daemon answers the master and the
  waiters with the largest of their error codes. The model has the list of barriers with their waiters, the table from sockets to
  barriers, the open and the watched sockets, and the answers sent; one turn of the main loop is one function.
  A pointer to a barrier is the number of its allocation.
\<close>

section \<open>State\<close>

definition MAXWAITERS :: nat where "MAXWAITERS = 4096"

definition FD_SETSIZE :: int where "FD_SETSIZE = 1024"

definition BARRIER_INIT :: int where "BARRIER_INIT = 1"

definition BARRIER_WAIT :: int where "BARRIER_WAIT = 2"

definition SERVER_ERROR_SIGHUP :: int where "SERVER_ERROR_SIGHUP = 240"

text \<open>
  A request as it comes from a client; \<open>r_name\<close> has 64 bytes. A string in C ends before the first zero byte; when
  there is none in the field it goes on behind it.
\<close>

record barrier_req =
  r_name :: "byte list"
  r_request :: int
  r_flags :: int
  r_count :: int
  r_error :: int

definition c_string :: "byte list \<Rightarrow> byte list" where
  "c_string s = takeWhile (\<lambda>c. c \<noteq> 0) s"

record waiter =
  w_count :: int
  w_sock :: int
  w_istcp :: bool
  w_error :: int
  w_ipaddr :: int

text \<open>The array of waiters with its fill index is a list.\<close>

record barrier =
  b_id :: nat
  b_name :: "byte list"
  b_count :: int
  b_error :: int
  b_ipaddr :: int
  waiters :: "waiter list"

datatype slot = NoBarrier | Sentinel | At nat

text \<open>An answer: socket, address of the client, whether it goes over TCP, and the result.\<close>

type_synonym answer = "int \<times> int \<times> bool \<times> int"

record syncd =
  allbarriers :: "barrier list"
  next_id :: nat
  tcpsockets :: "int \<Rightarrow> slot"
  opened :: "int set"
  watched :: "int set"
  maxfd :: int
  answers :: "answer list"

section \<open>Barriers\<close>

text \<open>A client is answered; a TCP connection is closed afterwards, whether the answer could be written or not.\<close>

definition release_client :: "int \<Rightarrow> int \<Rightarrow> bool \<Rightarrow> int \<Rightarrow> syncd \<Rightarrow> syncd" where
  "release_client sock ipaddr istcp result s =
     (let s1 = s\<lparr>answers := answers s @ [(sock, ipaddr, istcp, result)]\<rparr> in
      if istcp then s1\<lparr>tcpsockets := (tcpsockets s1)(sock := NoBarrier), opened := opened s1 - {sock}\<rparr> else s1)"

fun release_all :: "waiter list \<Rightarrow> int \<Rightarrow> syncd \<Rightarrow> syncd" where
  "release_all [] result s = s"
| "release_all (w # ws) result s = release_all ws result (release_client (w_sock w) (w_ipaddr w) (w_istcp w) result s)"

text \<open>Unlinking a barrier; the loop runs off the end of the list when the barrier is not in it.\<close>

fun remove_barrier :: "nat \<Rightarrow> barrier list \<Rightarrow> barrier list option" where
  "remove_barrier i [] = None"
| "remove_barrier i (b # bs) = (if b_id b = i then Some bs else map_option ((#) b) (remove_barrier i bs))"

fun find_barrier :: "byte list \<Rightarrow> barrier list \<Rightarrow> barrier option" where
  "find_barrier name [] = None"
| "find_barrier name (b # bs) = (if b_name b = name then Some b else find_barrier name bs)"

fun put_barrier :: "barrier \<Rightarrow> barrier list \<Rightarrow> barrier list" where
  "put_barrier b [] = []"
| "put_barrier b (x # xs) = (if b_id x = b_id b then b # xs else x # put_barrier b xs)"

text \<open>The search compares the name as it came; only a new barrier gets the name cut to 63 bytes.\<close>

definition find_or_create :: "barrier_req \<Rightarrow> syncd \<Rightarrow> barrier \<times> syncd" where
  "find_or_create req s =
     (case find_barrier (c_string (r_name req)) (allbarriers s) of
        Some b \<Rightarrow> (b, s)
      | None \<Rightarrow>
          let b = \<lparr>b_id = next_id s, b_name = c_string (take 63 (r_name req)), b_count = 0, b_error = 0, b_ipaddr = 0, waiters = []\<rparr> in
          (b, s\<lparr>allbarriers := b # allbarriers s, next_id := next_id s + 1\<rparr>))"

text \<open>
  The label \<^verbatim>\<open>check\<close>: when the count is zero everybody is released and the barrier is freed.
\<close>

definition check_barrier :: "barrier \<Rightarrow> syncd \<Rightarrow> (int \<times> syncd) option" where
  "check_barrier b s =
     (if b_count b \<noteq> 0 then Some (0, s)
      else do {
        let s1 = release_all (waiters b) (b_error b) s;
        bs \<leftarrow> remove_barrier (b_id b) (allbarriers s1);
        Some (0, s1\<lparr>allbarriers := bs\<rparr>)
      })"

definition store :: "barrier \<Rightarrow> syncd \<Rightarrow> syncd" where
  "store b s = s\<lparr>allbarriers := put_barrier b (allbarriers s)\<rparr>"

text \<open>
  Recording a waiter. A write behind the 4096 waiters of a barrier, or behind the table of sockets, is a failure of the model.
\<close>

definition record_waiter :: "int \<Rightarrow> int \<Rightarrow> bool \<Rightarrow> int \<Rightarrow> int \<Rightarrow> barrier \<Rightarrow> syncd \<Rightarrow> (int \<times> syncd) option" where
  "record_waiter sock ip istcp n err b s = do {
     c_assert (length (waiters b) < MAXWAITERS);
     let b1 = b\<lparr>waiters := waiters b @ [\<lparr>w_count = n, w_sock = sock, w_istcp = istcp, w_error = err, w_ipaddr = ip\<rparr>],
                b_error := (if err > b_error b then err else b_error b)\<rparr>;
     c_assert (istcp \<longrightarrow> 0 \<le> sock \<and> sock < FD_SETSIZE);
     let s1 = store b1 s;
     let s2 = (if istcp then s1\<lparr>tcpsockets := (tcpsockets s1)(sock := At (b_id b1))\<rparr> else s1);
     check_barrier b1 s2
   }"

definition handle_request :: "int \<Rightarrow> int \<Rightarrow> barrier_req \<Rightarrow> bool \<Rightarrow> syncd \<Rightarrow> (int \<times> syncd) option" where
  "handle_request sock ip req istcp s0 =
     (case find_or_create req s0 of (b, s) \<Rightarrow>
      if r_request req = BARRIER_INIT then
        let b1 = b\<lparr>b_count := to_i32 (b_count b + r_count req), b_ipaddr := ip\<rparr> in
        if odd (r_flags req) then do {
          c_assert (istcp \<longrightarrow> 0 \<le> sock \<and> sock < FD_SETSIZE);
          check_barrier b1 (release_client sock ip istcp 0 (store b1 s))
        }
        else record_waiter sock ip istcp (r_count req) (r_error req) b1 s
      else if r_request req = BARRIER_WAIT then
        record_waiter sock ip istcp (- 1) (r_error req) (b\<lparr>b_count := to_i32 (b_count b - 1)\<rparr>) s
      else Some (1, s))"

text \<open>
  A TCP client that closed its connection leaves the barrier: the entries behind it move down, the count is corrected for
  every entry with its socket, and a barrier without waiters is freed.
\<close>

fun pack :: "int \<Rightarrow> waiter list \<Rightarrow> waiter list" where
  "pack sock [] = []"
| "pack sock (w # ws) = (if w_sock w = sock then ws else w # pack sock ws)"

definition packed :: "int \<Rightarrow> waiter list \<Rightarrow> waiter list" where
  "packed sock ws = (if \<exists>w \<in> set ws. w_sock w = sock then pack sock ws else butlast ws)"

definition gone_count :: "int \<Rightarrow> waiter list \<Rightarrow> int" where
  "gone_count sock ws = sum_list (map w_count (filter (\<lambda>w. w_sock w = sock) ws))"

fun get_barrier :: "nat \<Rightarrow> barrier list \<Rightarrow> barrier option" where
  "get_barrier i [] = None"
| "get_barrier i (b # bs) = (if b_id b = i then Some b else get_barrier i bs)"

definition remove_tcpclient :: "int \<Rightarrow> syncd \<Rightarrow> syncd option" where
  "remove_tcpclient sock s =
     (case tcpsockets s sock of
        At i \<Rightarrow> do {
          b \<leftarrow> get_barrier i (allbarriers s);
          let b1 = b\<lparr>b_count := to_i32 (b_count b - gone_count sock (waiters b)), waiters := packed sock (waiters b)\<rparr>;
          let s1 = s\<lparr>tcpsockets := (tcpsockets s)(sock := NoBarrier)\<rparr>;
          if waiters b1 = [] then do {
            bs \<leftarrow> remove_barrier i (allbarriers s1);
            Some (s1\<lparr>allbarriers := bs\<rparr>)
          }
          else Some (store b1 s1)
        }
      | _ \<Rightarrow> None)"

fun clear_list :: "barrier list \<Rightarrow> syncd \<Rightarrow> syncd" where
  "clear_list [] s = s"
| "clear_list (b # bs) s = clear_list bs (release_all (waiters b) SERVER_ERROR_SIGHUP s)"

definition clear_barriers :: "syncd \<Rightarrow> syncd" where
  "clear_barriers s = (clear_list (allbarriers s) s)\<lparr>allbarriers := []\<rparr>"

section \<open>The main loop\<close>

text \<open>The largest socket that is in use; the others up to the limit are no longer watched.\<close>

definition maxtcpsocket :: "(int \<Rightarrow> slot) \<Rightarrow> int set \<Rightarrow> int \<Rightarrow> int set \<times> int" where
  "maxtcpsocket slots fs current_max =
     foldl (\<lambda>(fs, rv) i. if slots i \<noteq> NoBarrier then (fs, i) else (fs - {i}, rv)) (fs, 0) [0..current_max]"

definition set_maxfd :: "syncd \<Rightarrow> syncd" where
  "set_maxfd s = (case maxtcpsocket (tcpsockets s) (watched s) (maxfd s) of (fs, rv) \<Rightarrow> s\<lparr>watched := fs, maxfd := rv\<rparr>)"

datatype tcp_arrival = AcceptFailed | TcpAborted int | TcpReq int int barrier_req

datatype udp_arrival = UdpAborted | UdpReq int barrier_req

text \<open>A connection: the new socket is open, and is watched when its client has to wait.\<close>

definition tcp_request :: "int \<Rightarrow> int \<Rightarrow> barrier_req \<Rightarrow> syncd \<Rightarrow> syncd option" where
  "tcp_request newsock ip req s = do {
     (rc, s1) \<leftarrow> handle_request newsock ip req True (s\<lparr>opened := insert newsock (opened s)\<rparr>);
     Some (if rc \<noteq> 0 then s1\<lparr>opened := opened s1 - {newsock}\<rparr>
           else if tcpsockets s1 newsock \<noteq> NoBarrier
           then s1\<lparr>watched := insert newsock (watched s1), maxfd := (if newsock > maxfd s1 then newsock else maxfd s1)\<rparr>
           else set_maxfd s1)
   }"

text \<open>A watched socket on which a read returned 0; reading a socket that was closed in the meantime is an error and is ignored.\<close>

definition close_client :: "int \<Rightarrow> syncd \<Rightarrow> syncd option" where
  "close_client j s =
     (if j \<notin> opened s then Some s
      else do {
        s1 \<leftarrow> remove_tcpclient j (s\<lparr>watched := watched s - {j}, opened := opened s - {j}\<rparr>);
        Some (if j = maxfd s1 then set_maxfd s1 else s1)
      })"

fun close_clients :: "int list \<Rightarrow> syncd \<Rightarrow> syncd option" where
  "close_clients [] s = Some s"
| "close_clients (j # js) s = do { s1 \<leftarrow> close_client j s; close_clients js s1 }"

text \<open>
  One turn: a hang-up signal clears the barriers; \<^verbatim>\<open>select\<close> fails, which is fatal, when a watched socket is closed;
  then a connection, a datagram and the closed connections are served.
\<close>

definition sync_turn :: "int \<Rightarrow> bool \<Rightarrow> tcp_arrival option \<Rightarrow> udp_arrival option \<Rightarrow> int list \<Rightarrow> syncd \<Rightarrow> syncd option" where
  "sync_turn udpsock sighup tcp udp closed s = do {
     let s0 = (if sighup then set_maxfd (clear_barriers s) else s);
     c_assert (watched s0 \<subseteq> opened s0);
     (case tcp of
        Some AcceptFailed \<Rightarrow> Some s0
      | Some (TcpAborted newsock) \<Rightarrow> Some s0
      | _ \<Rightarrow> do {
          s1 \<leftarrow> (case tcp of Some (TcpReq newsock ip req) \<Rightarrow> tcp_request newsock ip req s0 | _ \<Rightarrow> Some s0);
          (case udp of
             Some UdpAborted \<Rightarrow> Some s1
           | _ \<Rightarrow> do {
               s2 \<leftarrow> (case udp of
                       Some (UdpReq ip req) \<Rightarrow> map_option snd (handle_request udpsock ip req False s1)
                     | _ \<Rightarrow> Some s1);
               close_clients closed s2
             })
        })
   }"

definition syncd_start :: "int \<Rightarrow> int \<Rightarrow> syncd" where
  "syncd_start tcpsock udpsock =
     \<lparr>allbarriers = [], next_id = 0, tcpsockets = (\<lambda>_. NoBarrier)(tcpsock := Sentinel, udpsock := Sentinel),
      opened = {tcpsock, udpsock}, watched = {tcpsock, udpsock}, maxfd = (if udpsock > tcpsock then udpsock else tcpsock), answers = []\<rparr>"

section \<open>The list of barriers\<close>

lemma fresh_id: "b_id x \<notin> b_id ` set xs \<Longrightarrow> y \<in> set xs \<Longrightarrow> b_id y \<noteq> b_id (x :: barrier)"
  by (metis image_eqI)

lemma put_barrier_map: "distinct (map b_id bs) \<Longrightarrow> put_barrier b bs = map (\<lambda>x. if b_id x = b_id b then b else x) bs"
proof (induction bs)
  case (Cons x xs)
  have "b_id y \<noteq> b_id x" if "y \<in> set xs" for y using fresh_id [OF _ that] Cons.prems by simp
  then have "map (\<lambda>y. if b_id y = b_id x then b else y) xs = xs" by (intro map_idI) simp
  then show ?case using Cons by auto
qed simp

lemma remove_barrier_filter:
  "distinct (map b_id bs) \<Longrightarrow> i \<in> b_id ` set bs \<Longrightarrow> remove_barrier i bs = Some (filter (\<lambda>b. b_id b \<noteq> i) bs)"
proof (induction bs)
  case (Cons x xs)
  show ?case
  proof (cases "b_id x = i")
    case True
    then have "\<forall>b \<in> set xs. b_id b \<noteq> i" using Cons.prems(1) fresh_id by auto
    then show ?thesis using True by simp
  next
    case False
    then show ?thesis using Cons by auto
  qed
qed simp

lemma get_barrier_Some: "distinct (map b_id bs) \<Longrightarrow> b \<in> set bs \<Longrightarrow> get_barrier (b_id b) bs = Some b"
  by (induction bs) force+

lemma find_barrier_Some: "distinct (map b_name bs) \<Longrightarrow> b \<in> set bs \<Longrightarrow> find_barrier (b_name b) bs = Some b"
  by (induction bs) force+

lemma find_barrier_D: "find_barrier x bs = Some b \<Longrightarrow> b \<in> set bs \<and> b_name b = x"
  by (induction bs) (auto split: if_splits)

lemma find_barrier_None: "find_barrier x bs = None \<longleftrightarrow> x \<notin> b_name ` set bs"
  by (induction bs) auto

lemma same_barrier:
  assumes "distinct (map b_id bs)" and "b \<in> set bs" and "b' \<in> set (bs :: barrier list)" and "b_id b = b_id b'"
  shows "b = b'"
proof -
  have "get_barrier (b_id b') bs = Some b" using get_barrier_Some [OF assms(1,2)] by (simp only: assms(4))
  then show ?thesis using get_barrier_Some [OF assms(1,3)] by simp
qed

lemma set_put_barrier:
  assumes "distinct (map b_id bs)" and "b \<in> set bs" and "b_id b' = b_id b"
  shows "set (put_barrier b' bs) = insert b' (set bs - {b})" and "map b_id (put_barrier b' bs) = map b_id bs"
proof -
  note eq = put_barrier_map [OF assms(1), of b']
  show "map b_id (put_barrier b' bs) = map b_id bs" unfolding eq map_map by (rule map_cong [OF refl]) simp
  have "x = b" if "x \<in> set bs" "b_id x = b_id b'" for x
    by (rule same_barrier [OF assms(1) that(1) assms(2)]) (use that(2) assms(3) in simp)
  then show "set (put_barrier b' bs) = insert b' (set bs - {b})" unfolding eq using assms(2,3) by auto
qed

section \<open>The invariant\<close>

definition tcp_socks :: "waiter list \<Rightarrow> int set" where
  "tcp_socks ws = w_sock ` {w \<in> set ws. w_istcp w}"

lemma tcp_socks_simps [simp]:
  "tcp_socks [] = {}" "tcp_socks (w # ws) = (if w_istcp w then insert (w_sock w) (tcp_socks ws) else tcp_socks ws)"
  "tcp_socks (us @ ws) = tcp_socks us \<union> tcp_socks ws"
  by (auto simp: tcp_socks_def)

lemma release_all_frame [simp]:
  "allbarriers (release_all ws r s) = allbarriers s" "next_id (release_all ws r s) = next_id s"
  "watched (release_all ws r s) = watched s" "maxfd (release_all ws r s) = maxfd s"
  by (induction ws arbitrary: s) (simp_all add: release_client_def Let_def)

definition answers_to :: "waiter list \<Rightarrow> int \<Rightarrow> answer list" where
  "answers_to ws r = map (\<lambda>w. (w_sock w, w_ipaddr w, w_istcp w, r)) ws"

lemma release_all_answers [simp]: "answers (release_all ws r s) = answers s @ answers_to ws r"
  by (induction ws arbitrary: s) (simp_all add: release_client_def Let_def answers_to_def)

lemma release_all_slots [simp]:
  "tcpsockets (release_all ws r s) x = (if x \<in> tcp_socks ws then NoBarrier else tcpsockets s x)"
  by (induction ws arbitrary: s) (auto simp: release_client_def Let_def)

lemma release_all_opened [simp]: "opened (release_all ws r s) = opened s - tcp_socks ws"
  by (induction ws arbitrary: s) (auto simp: release_client_def Let_def)

text \<open>
  Waiters over UDP have the socket of the daemon; those over TCP have their own. A socket waits at a barrier exactly when
  the barrier has a waiter with it.
\<close>

definition waiters_ok :: "int \<Rightarrow> waiter list \<Rightarrow> bool" where
  "waiters_ok udpsock ws \<longleftrightarrow> length ws \<le> MAXWAITERS \<and> distinct (map w_sock (filter w_istcp ws)) \<and>
     (\<forall>w \<in> set ws. \<not> w_istcp w \<longrightarrow> w_sock w = udpsock)"

definition table_ok :: "barrier set \<Rightarrow> (int \<Rightarrow> slot) \<Rightarrow> bool" where
  "table_ok B slots \<longleftrightarrow> (\<forall>sock i. slots sock = At i \<longleftrightarrow> (\<exists>b \<in> B. b_id b = i \<and> sock \<in> tcp_socks (waiters b)))"

definition sync_inv :: "int \<Rightarrow> syncd \<Rightarrow> bool" where
  "sync_inv udpsock s \<longleftrightarrow> distinct (map b_id (allbarriers s)) \<and> (\<forall>b \<in> set (allbarriers s). b_id b < next_id s) \<and>
     (\<forall>b \<in> set (allbarriers s). waiters_ok udpsock (waiters b)) \<and> table_ok (set (allbarriers s)) (tcpsockets s) \<and>
     tcpsockets s udpsock = Sentinel \<and>
     (\<forall>sock. tcpsockets s sock \<noteq> NoBarrier \<longrightarrow> sock \<in> opened s \<and> 0 \<le> sock \<and> sock < FD_SETSIZE)"

definition names_ok :: "syncd \<Rightarrow> bool" where
  "names_ok s \<longleftrightarrow> distinct (map b_name (allbarriers s))"

lemma table_at: "table_ok B slots \<Longrightarrow> b \<in> B \<Longrightarrow> sock \<in> tcp_socks (waiters b) \<Longrightarrow> slots sock = At (b_id b)"
  unfolding table_ok_def by blast

lemma table_disjoint:
  assumes "table_ok B slots" and "b \<in> B" and "b' \<in> B" and "b_id b \<noteq> b_id b'"
  shows "tcp_socks (waiters b) \<inter> tcp_socks (waiters b') = {}"
  using table_at [OF assms(1,2)] table_at [OF assms(1,3)] assms(4) by fastforce

text \<open>What a barrier looks like to its clients.\<close>

type_synonym room = "int \<times> int \<times> waiter list"

definition room :: "byte list \<Rightarrow> syncd \<Rightarrow> room" where
  "room x s = (case find_barrier x (allbarriers s) of None \<Rightarrow> (0, 0, []) | Some b \<Rightarrow> (b_count b, b_error b, waiters b))"

lemma same_name:
  assumes "names_ok s" and "b \<in> set (allbarriers s)" and "b' \<in> set (allbarriers s)" and "b_name b = b_name b'"
  shows "b = b'"
proof -
  have d: "distinct (map b_name (allbarriers s))" using assms(1) by (simp add: names_ok_def)
  have "find_barrier (b_name b') (allbarriers s) = Some b" using find_barrier_Some [OF d assms(2)] by (simp only: assms(4))
  then show ?thesis using find_barrier_Some [OF d assms(3)] by simp
qed

lemma room_at: "names_ok s \<Longrightarrow> b \<in> set (allbarriers s) \<Longrightarrow> room (b_name b) s = (b_count b, b_error b, waiters b)"
  by (simp add: room_def names_ok_def find_barrier_Some)

text \<open>Changing a barrier, without its name and number.\<close>

lemma store_room:
  assumes "sync_inv u s" and "names_ok s" and "b \<in> set (allbarriers s)" and "b_id b' = b_id b" and "b_name b' = b_name b"
  shows "names_ok (store b' s)" and "room x (store b' s) = (if x = b_name b then (b_count b', b_error b', waiters b') else room x s)"
    and "set (allbarriers (store b' s)) = insert b' (set (allbarriers s) - {b})"
    and "map b_id (allbarriers (store b' s)) = map b_id (allbarriers s)"
proof -
  have d: "distinct (map b_id (allbarriers s))" using assms(1) by (simp add: sync_inv_def)
  note p = set_put_barrier [OF d assms(3,4)]
  have "x = b" if "x \<in> set (allbarriers s)" "b_id x = b_id b'" for x
    by (rule same_barrier [OF d that(1) assms(3)]) (use that(2) assms(4) in simp)
  then have names: "map b_name (allbarriers (store b' s)) = map b_name (allbarriers s)"
    unfolding store_def by (auto simp: put_barrier_map [OF d] assms(5))
  then show n: "names_ok (store b' s)" using assms(2) by (simp add: names_ok_def)
  show st: "set (allbarriers (store b' s)) = insert b' (set (allbarriers s) - {b})"
    "map b_id (allbarriers (store b' s)) = map b_id (allbarriers s)"
    using p by (simp_all add: store_def)
  show "room x (store b' s) = (if x = b_name b then (b_count b', b_error b', waiters b') else room x s)"
  proof (cases "x = b_name b")
    case True
    then show ?thesis using room_at [OF n, of b'] st assms(5) by simp
  next
    case False
    show ?thesis
    proof (cases "find_barrier x (allbarriers s)")
      case None
      then have "find_barrier x (allbarriers (store b' s)) = None" 
        using arg_cong [OF names, of set] by (simp add: find_barrier_None)
      then show ?thesis using None False by (simp add: room_def)
    next
      case (Some c)
      then have c: "c \<in> set (allbarriers s)" "b_name c = x" using find_barrier_D by blast+
      then have "c \<in> set (allbarriers (store b' s))" using st False by auto
      then show ?thesis using room_at [OF n, of c] room_at [OF assms(2) c(1)] c(2) False by simp
    qed
  qed
qed


lemma store_frame [simp]:
  "next_id (store b s) = next_id s" "tcpsockets (store b s) = tcpsockets s" "opened (store b s) = opened s"
  "watched (store b s) = watched s" "maxfd (store b s) = maxfd s" "answers (store b s) = answers s"
  by (simp_all add: store_def)

section \<open>Crossing a barrier\<close>

fun cross :: "room \<Rightarrow> room \<times> answer list" where
  "cross (c, e, ws) = (if c = 0 then ((0, 0, []), answers_to ws e) else ((c, e, ws), []))"

text \<open>The sockets of the clients that are released.\<close>

definition released :: "room \<Rightarrow> int set" where
  "released r = (if fst r = 0 then tcp_socks (snd (snd r)) else {})"

definition sync_frame :: "int set \<Rightarrow> syncd \<Rightarrow> syncd \<Rightarrow> bool" where
  "sync_frame gone s s' \<longleftrightarrow> watched s' = watched s \<and> maxfd s' = maxfd s \<and> opened s' = opened s - gone \<and>
     (\<forall>x. tcpsockets s' x = (if x \<in> gone then NoBarrier else tcpsockets s x))"

lemma check_barrier_spec:
  assumes "sync_inv u s" and "names_ok s" and "b \<in> set (allbarriers s)" and "r = (b_count b, b_error b, waiters b)"
  shows "\<exists>s'. check_barrier b s = Some (0, s') \<and> sync_inv u s' \<and> names_ok s' \<and>
    (\<forall>x. room x s' = (if x = b_name b then fst (cross r) else room x s)) \<and> answers s' = answers s @ snd (cross r) \<and>
    sync_frame (released r) s s'"
proof (cases "b_count b = 0")
  case False
  then show ?thesis using assms room_at [OF assms(2,3)]
    by (auto simp: check_barrier_def sync_frame_def released_def)
next
  case True
  have inv: "distinct (map b_id (allbarriers s))" "\<forall>b \<in> set (allbarriers s). b_id b < next_id s"
    "\<forall>b \<in> set (allbarriers s). waiters_ok u (waiters b)" "table_ok (set (allbarriers s)) (tcpsockets s)"
    "tcpsockets s u = Sentinel" "\<forall>sock. tcpsockets s sock \<noteq> NoBarrier \<longrightarrow> sock \<in> opened s \<and> 0 \<le> sock \<and> sock < FD_SETSIZE"
    using assms(1) by (simp_all add: sync_inv_def)
  define rest where "rest = filter (\<lambda>x. b_id x \<noteq> b_id b) (allbarriers s)"
  define s' where "s' = (release_all (waiters b) (b_error b) s)\<lparr>allbarriers := rest\<rparr>"
  have eq: "check_barrier b s = Some (0, s')"
    using True remove_barrier_filter [OF inv(1)] assms(3) by (simp add: check_barrier_def rest_def s'_def Let_def)
  have mem: "x \<in> set rest \<longleftrightarrow> x \<in> set (allbarriers s) \<and> x \<noteq> b" for x
    using same_barrier [OF inv(1) _ assms(3)] assms(3) by (auto simp: rest_def)
  have "table_ok (set rest) (tcpsockets s')"
  proof -
    have "x \<in> tcp_socks (waiters c) \<Longrightarrow> x \<notin> tcp_socks (waiters b)" if "c \<in> set rest" for c x
      using table_disjoint [OF inv(4), of c b] that assms(3) by (auto simp: rest_def)
    then show ?thesis using inv(4) mem by (auto simp: table_ok_def s'_def)
  qed
  moreover have "u \<notin> tcp_socks (waiters b)" using inv(5) table_at [OF inv(4) assms(3), of u] by auto
  moreover have "distinct (map b_id rest)" unfolding rest_def by (rule distinct_map_filter [OF inv(1)])
  ultimately have "sync_inv u s'" using inv mem by (simp add: sync_inv_def s'_def)
  moreover have n: "names_ok s'" using assms(2) by (simp add: names_ok_def s'_def rest_def distinct_map_filter)
  moreover have "room x s' = (if x = b_name b then (0, 0, []) else room x s)" for x
  proof (cases "x \<in> b_name ` set (allbarriers s)")
    case xin: True
    then obtain c where c: "c \<in> set (allbarriers s)" "b_name c = x" by auto
    show ?thesis
    proof (cases "c = b")
      case True
      have "y = b" if "y \<in> set (allbarriers s)" "b_name y = b_name b" for y
        by (rule same_name [OF assms(2) that(1) assms(3) that(2)])
      then have "x \<notin> b_name ` set rest" using c(2) True mem by (metis (no_types, lifting) imageE)
      then have "find_barrier x rest = None" by (simp add: find_barrier_None)
      then show ?thesis using c True by (simp add: room_def s'_def)
    next
      case False
      then have "c \<in> set (allbarriers s')" using c mem by (simp add: s'_def)
      moreover have "x \<noteq> b_name b"
        using same_name [OF assms(2) c(1) assms(3)] c(2) False by blast
      ultimately show ?thesis using room_at [OF n, of c] room_at [OF assms(2) c(1)] c(2) by simp
    qed
  next
    case False
    then have "find_barrier x (allbarriers s) = None" "find_barrier x rest = None" by (auto simp: find_barrier_None rest_def)
    then show ?thesis by (simp add: room_def s'_def)
  qed
  moreover have "sync_frame (released r) s s'" using True assms(4) by (simp add: sync_frame_def released_def s'_def)
  ultimately show ?thesis using eq True assms(4) by (simp add: s'_def)
qed

section \<open>A waiter arrives\<close>

text \<open>Sockets that are open without being known to any barrier or to the main loop.\<close>

definition orphans :: "syncd \<Rightarrow> int set" where
  "orphans s = {x \<in> opened s. tcpsockets s x = NoBarrier}"

lemma record_waiter_spec:
  assumes "sync_inv u s" and "names_ok s" and "b0 \<in> set (allbarriers s)" and "b_id b = b_id b0" and "b_name b = b_name b0"
    and "waiters b = waiters b0" and "length (waiters b0) < MAXWAITERS"
    and "if istcp then tcpsockets s sock = NoBarrier \<and> sock \<in> opened s \<and> 0 \<le> sock \<and> sock < FD_SETSIZE else sock = u"
    and "r = (b_count b, if err > b_error b then err else b_error b,
      waiters b @ [\<lparr>w_count = n, w_sock = sock, w_istcp = istcp, w_error = err, w_ipaddr = ip\<rparr>])"
  shows "\<exists>s'. record_waiter sock ip istcp n err b s = Some (0, s') \<and> sync_inv u s' \<and> names_ok s' \<and>
    (\<forall>x. room x s' = (if x = b_name b then fst (cross r) else room x s)) \<and> answers s' = answers s @ snd (cross r) \<and>
    watched s' = watched s \<and> maxfd s' = maxfd s \<and>
    (\<forall>x. tcpsockets s' x \<noteq> tcpsockets s x \<longrightarrow> tcpsockets s' x \<noteq> Sentinel \<and>
      (x = sock \<and> istcp \<or> tcpsockets s' x = NoBarrier \<and> tcpsockets s x \<noteq> Sentinel)) \<and>
    (istcp \<and> tcpsockets s' sock \<noteq> NoBarrier \<longrightarrow> opened s' = opened s \<and> (\<forall>x. x \<noteq> sock \<longrightarrow> tcpsockets s' x = tcpsockets s x)) \<and>
    orphans s' \<subseteq> orphans s \<and> (istcp \<longrightarrow> sock \<notin> orphans s')"
proof -
  have inv: "distinct (map b_id (allbarriers s))" "\<forall>b \<in> set (allbarriers s). b_id b < next_id s"
    "\<forall>b \<in> set (allbarriers s). waiters_ok u (waiters b)" "table_ok (set (allbarriers s)) (tcpsockets s)"
    "tcpsockets s u = Sentinel" "\<forall>sock. tcpsockets s sock \<noteq> NoBarrier \<longrightarrow> sock \<in> opened s \<and> 0 \<le> sock \<and> sock < FD_SETSIZE"
    using assms(1) by (simp_all add: sync_inv_def)
  define b1 where "b1 = b\<lparr>waiters := waiters b @ [\<lparr>w_count = n, w_sock = sock, w_istcp = istcp, w_error = err, w_ipaddr = ip\<rparr>],
    b_error := (if err > b_error b then err else b_error b)\<rparr>"
  define s2 where "s2 = (if istcp then (store b1 s)\<lparr>tcpsockets := (tcpsockets s)(sock := At (b_id b1))\<rparr> else store b1 s)"
  have b1: "b_id b1 = b_id b0" "b_name b1 = b_name b0" "b_count b1 = b_count b"
    "waiters b1 = waiters b0 @ [\<lparr>w_count = n, w_sock = sock, w_istcp = istcp, w_error = err, w_ipaddr = ip\<rparr>]"
    using assms(4-6) by (simp_all add: b1_def)
  note st = store_room [OF assms(1-3) b1(1,2)]
  have s2: "allbarriers s2 = allbarriers (store b1 s)" "next_id s2 = next_id s" "answers s2 = answers s" "opened s2 = opened s"
    "tcpsockets s2 = (if istcp then (tcpsockets s)(sock := At (b_id b1)) else tcpsockets s)" "watched s2 = watched s" "maxfd s2 = maxfd s"
    by (simp_all add: s2_def)
  have notin: "sock \<notin> tcp_socks (waiters c)" if "istcp" "c \<in> set (allbarriers s)" for c
    using table_at [OF inv(4) that(2), of sock] assms(8) that(1) by auto
  have w: "waiters_ok u (waiters b1)"
  proof -
    have "sock \<notin> w_sock ` set (filter w_istcp (waiters b0))" if istcp
      using notin [OF that assms(3)] by (simp add: tcp_socks_def)
    then show ?thesis using inv(3) assms(3,7,8) by (auto simp: waiters_ok_def b1(4) split: if_splits)
  qed
  have table: "table_ok (set (allbarriers s2)) (tcpsockets s2)"
  proof -
    have "tcpsockets s2 x = At i \<longleftrightarrow> (\<exists>c \<in> insert b1 (set (allbarriers s) - {b0}). b_id c = i \<and> x \<in> tcp_socks (waiters c))" for x i
    proof (cases "istcp \<and> x = sock")
      case True
      have "x \<notin> tcp_socks (waiters c)" if "c \<in> set (allbarriers s)" for c using notin that True by blast
      then show ?thesis using True s2(5) b1(4) by auto
    next
      case False
      then have "tcpsockets s2 x = tcpsockets s x" "x \<in> tcp_socks (waiters b1) \<longleftrightarrow> x \<in> tcp_socks (waiters b0)"
        using s2(5) b1(4) by auto
      then show ?thesis using inv(4) assms(3) b1(1) unfolding table_ok_def by auto
    qed
    then show ?thesis unfolding s2(1) st(3) by (simp add: table_ok_def)
  qed
  have "sync_inv u s2"
    unfolding sync_inv_def s2(1) st(3,4) s2(2)
    using inv table w assms(3,8) b1(1) unfolding s2(1) st(3) by (auto simp: s2(4,5) b1(1) split: if_splits)
  moreover have "names_ok s2" using st(1) by (simp add: names_ok_def s2(1))
  moreover have "b1 \<in> set (allbarriers s2)" unfolding s2(1) st(3) by simp
  moreover have "r = (b_count b1, b_error b1, waiters b1)" unfolding assms(9) by (simp add: b1_def)
  ultimately obtain s' where s': "check_barrier b1 s2 = Some (0, s')" "sync_inv u s'" "names_ok s'"
    "\<forall>x. room x s' = (if x = b_name b1 then fst (cross r) else room x s2)" "answers s' = answers s2 @ snd (cross r)"
    "sync_frame (released r) s2 s'" using check_barrier_spec by blast
  have run: "record_waiter sock ip istcp n err b s = Some (0, s')"
    using assms(6-8) s'(1) by (simp add: record_waiter_def b1_def s2_def Let_def split: if_splits)
  have rooms: "room x s2 = room x s" if "x \<noteq> b_name b" for x
    using st(2) [of x] that assms(5) by (simp add: room_def s2(1))
  have slots: "tcpsockets s' x = NoBarrier \<and> tcpsockets s x \<noteq> Sentinel"
    if "tcpsockets s' x \<noteq> tcpsockets s x" "\<not> (x = sock \<and> istcp)" for x
  proof -
    have "x \<in> released r" "tcpsockets s' x = NoBarrier" using that s'(6) s2(5) by (auto simp: sync_frame_def split: if_splits)
    moreover have "x \<in> tcp_socks (waiters b0)"
      using calculation(1) that(2) assms(6) unfolding assms(9) by (auto simp: released_def split: if_splits)
    ultimately show ?thesis using table_at [OF inv(4) assms(3), of x] by simp
  qed
  have still: "opened s' = opened s \<and> (\<forall>x. x \<noteq> sock \<longrightarrow> tcpsockets s' x = tcpsockets s x)"
    if "istcp" "tcpsockets s' sock \<noteq> NoBarrier"
  proof -
    have "sock \<notin> released r" using that(2) s'(6) by (auto simp: sync_frame_def)
    then have "released r = {}" using that(1) unfolding assms(9) by (auto simp: released_def)
    then show ?thesis using s'(6) s2(4,5) by (simp add: sync_frame_def)
  qed
  have "watched s' = watched s" "maxfd s' = maxfd s" using s'(6) s2(6,7) by (simp_all add: sync_frame_def)
  have "orphans s' \<subseteq> orphans s" "istcp \<longrightarrow> sock \<notin> orphans s'"
  proof -
    have "x \<in> orphans s \<and> (istcp \<longrightarrow> x \<noteq> sock)" if "x \<in> orphans s'" for x
    proof -
      have x: "x \<in> opened s'" "tcpsockets s' x = NoBarrier" using that by (simp_all add: orphans_def)
      then have o: "x \<notin> released r" "x \<in> opened s" using s'(6) s2(4) by (simp_all add: sync_frame_def)
      then have "tcpsockets s2 x = NoBarrier" using x s'(6) by (simp add: sync_frame_def)
      then show ?thesis using s2(5) o(2) by (cases istcp; cases "x = sock") (simp_all add: orphans_def)
    qed
    then show "orphans s' \<subseteq> orphans s" "istcp \<longrightarrow> sock \<notin> orphans s'" by blast+
  qed
  have "\<forall>x. tcpsockets s' x \<noteq> tcpsockets s x \<longrightarrow> tcpsockets s' x \<noteq> Sentinel \<and>
      (x = sock \<and> istcp \<or> tcpsockets s' x = NoBarrier \<and> tcpsockets s x \<noteq> Sentinel)"
  proof (intro allI impI)
    fix x
    assume d: "tcpsockets s' x \<noteq> tcpsockets s x"
    have "tcpsockets s' sock \<noteq> Sentinel" if "istcp" using s'(6) s2(5) that by (auto simp: sync_frame_def split: if_splits)
    then show "tcpsockets s' x \<noteq> Sentinel \<and> (x = sock \<and> istcp \<or> tcpsockets s' x = NoBarrier \<and> tcpsockets s x \<noteq> Sentinel)"
      using slots [OF d] by (cases "x = sock \<and> istcp") auto
  qed
  have "\<forall>x. room x s' = (if x = b_name b then fst (cross r) else room x s)" using s'(4) rooms b1(2) assms(5) by simp
  have "answers s' = answers s @ snd (cross r)" using s'(5) s2(3) by simp
  have "istcp \<and> tcpsockets s' sock \<noteq> NoBarrier \<longrightarrow> opened s' = opened s \<and> (\<forall>x. x \<noteq> sock \<longrightarrow> tcpsockets s' x = tcpsockets s x)"
    using still by blast
  show ?thesis
    by (intro exI [of _ s'] conjI) fact+
qed

lemma store_same_waiters:
  assumes "sync_inv u s" and "names_ok s" and "b \<in> set (allbarriers s)" and "b_id b' = b_id b" and "b_name b' = b_name b"
    and "waiters b' = waiters b"
  shows "sync_inv u (store b' s)"
proof -
  note st = store_room [OF assms(1-5)]
  have "table_ok (insert b' (set (allbarriers s) - {b})) (tcpsockets s) = table_ok (set (allbarriers s)) (tcpsockets s)"
    using assms(3,4,6) unfolding table_ok_def by (smt (verit) Diff_iff insertE insertI1 insert_iff singletonD)
  then show ?thesis
    using assms unfolding sync_inv_def st(3,4) store_frame by auto
qed


section \<open>What a request does\<close>

definition admit :: "int \<Rightarrow> int \<Rightarrow> bool \<Rightarrow> int \<Rightarrow> int \<Rightarrow> int \<Rightarrow> room \<Rightarrow> room" where
  "admit sock ip istcp n err c r =
     (c, max (fst (snd r)) err, snd (snd r) @ [\<lparr>w_count = n, w_sock = sock, w_istcp = istcp, w_error = err, w_ipaddr = ip\<rparr>])"

text \<open>The specification: a barrier counts, collects its waiters and the largest error, and releases all of them at zero.\<close>

definition arrive :: "int \<Rightarrow> int \<Rightarrow> barrier_req \<Rightarrow> bool \<Rightarrow> room \<Rightarrow> room \<times> answer list" where
  "arrive sock ip req istcp r =
     (if r_request req = BARRIER_INIT then
        let c = to_i32 (fst r + r_count req) in
        if odd (r_flags req) then apsnd ((#) (sock, ip, istcp, 0)) (cross (c, snd r))
        else cross (admit sock ip istcp (r_count req) (r_error req) c r)
      else if r_request req = BARRIER_WAIT then cross (admit sock ip istcp (- 1) (r_error req) (to_i32 (fst r - 1)) r)
      else (r, []))"

definition terminated :: "barrier_req \<Rightarrow> bool" where
  "terminated req \<longleftrightarrow> length (r_name req) = 64 \<and> 0 \<in> set (r_name req)"

definition req_name :: "barrier_req \<Rightarrow> byte list" where
  "req_name req = c_string (r_name req)"

definition may_arrive :: "int \<Rightarrow> int \<Rightarrow> bool \<Rightarrow> syncd \<Rightarrow> bool" where
  "may_arrive u sock istcp s \<longleftrightarrow>
     (if istcp then tcpsockets s sock = NoBarrier \<and> sock \<in> opened s \<and> 0 \<le> sock \<and> sock < FD_SETSIZE else sock = u)"

lemma cut_name: "terminated req \<Longrightarrow> c_string (take 63 (r_name req)) = c_string (r_name req)"
proof -
  assume t: "terminated req"
  have "length (c_string (r_name req)) < length (r_name req)"
    unfolding c_string_def by (rule takeWhile_stops [of 0]) (use t in \<open>simp_all add: terminated_def\<close>)
  then have l: "length (c_string (r_name req)) \<le> 63" using t by (simp add: terminated_def)
  have "takeWhile P (take n xs) = take n (takeWhile P xs)" for P n and xs :: "byte list"
    by (induction xs arbitrary: n) (auto simp: take_Cons split: nat.splits)
  then show ?thesis using l by (simp add: c_string_def)
qed

lemma find_or_create_spec:
  assumes "sync_inv u s" and "names_ok s" and "terminated req"
  shows "\<exists>b s1. find_or_create req s = (b, s1) \<and> sync_inv u s1 \<and> names_ok s1 \<and> b \<in> set (allbarriers s1) \<and> b_name b = req_name req \<and>
    (b_count b, b_error b, waiters b) = room (req_name req) s \<and> (\<forall>x. room x s1 = room x s) \<and> tcpsockets s1 = tcpsockets s \<and>
    opened s1 = opened s \<and> watched s1 = watched s \<and> maxfd s1 = maxfd s \<and> answers s1 = answers s"
proof (cases "find_barrier (req_name req) (allbarriers s)")
  case (Some b)
  then show ?thesis using assms(1,2) find_barrier_D [OF Some] by (simp add: find_or_create_def req_name_def room_def)
next
  case None
  define b where "b = \<lparr>b_id = next_id s, b_name = req_name req, b_count = 0, b_error = 0, b_ipaddr = 0, waiters = []\<rparr>"
  define s1 where "s1 = s\<lparr>allbarriers := b # allbarriers s, next_id := next_id s + 1\<rparr>"
  have eq: "find_or_create req s = (b, s1)"
    using None cut_name [OF assms(3)] by (simp add: find_or_create_def req_name_def b_def s1_def Let_def)
  have new: "req_name req \<notin> b_name ` set (allbarriers s)" using None by (simp add: find_barrier_None)
  have ids: "\<forall>c \<in> set (allbarriers s). b_id c < next_id s" using assms(1) by (simp add: sync_inv_def)
  then have "next_id s \<notin> b_id ` set (allbarriers s)" by fastforce
  moreover have "table_ok (insert b (set (allbarriers s))) (tcpsockets s)"
    using assms(1) by (simp add: sync_inv_def table_ok_def b_def)
  moreover have "waiters_ok u (waiters b)" by (simp add: waiters_ok_def b_def)
  moreover have "b_id b = next_id s" by (simp add: b_def)
  ultimately have "sync_inv u s1" using assms(1) ids by (auto simp: sync_inv_def s1_def less_Suc_eq)
  moreover have "names_ok s1" using assms(2) new by (simp add: names_ok_def s1_def b_def)
  moreover have "room x s1 = room x s" for x using None by (auto simp: room_def s1_def b_def)
  ultimately show ?thesis using eq None by (simp add: s1_def room_def) (simp add: b_def)
qed

lemma handle_request_spec:
  assumes "sync_inv u s" and "names_ok s" and "terminated req" and "may_arrive u sock istcp s"
    and "length (snd (snd (room (req_name req) s))) < MAXWAITERS" and "arrive sock ip req istcp (room (req_name req) s) = (r, as)"
  shows "\<exists>rc s'. handle_request sock ip req istcp s = Some (rc, s') \<and> sync_inv u s' \<and> names_ok s' \<and>
    (\<forall>x. room x s' = (if x = req_name req then r else room x s)) \<and> answers s' = answers s @ as \<and>
    (rc = 0 \<longleftrightarrow> r_request req = BARRIER_INIT \<or> r_request req = BARRIER_WAIT) \<and> watched s' = watched s \<and> maxfd s' = maxfd s \<and>
    (\<forall>x. tcpsockets s' x \<noteq> tcpsockets s x \<longrightarrow> tcpsockets s' x \<noteq> Sentinel \<and>
      (x = sock \<and> istcp \<or> tcpsockets s' x = NoBarrier \<and> tcpsockets s x \<noteq> Sentinel)) \<and>
    (rc \<noteq> 0 \<longrightarrow> tcpsockets s' = tcpsockets s \<and> opened s' = opened s) \<and>
    (istcp \<and> tcpsockets s' sock \<noteq> NoBarrier \<longrightarrow> opened s' = opened s \<and> (\<forall>x. x \<noteq> sock \<longrightarrow> tcpsockets s' x = tcpsockets s x)) \<and>
    orphans s' \<subseteq> orphans s \<and> (istcp \<and> rc = 0 \<longrightarrow> sock \<notin> orphans s')"
proof -
  from find_or_create_spec [OF assms(1-3)] obtain b s1 where
    b: "find_or_create req s = (b, s1)" "sync_inv u s1" "names_ok s1" "b \<in> set (allbarriers s1)" "b_name b = req_name req"
    "(b_count b, b_error b, waiters b) = room (req_name req) s" "\<forall>x. room x s1 = room x s" "tcpsockets s1 = tcpsockets s"
    "opened s1 = opened s" "watched s1 = watched s" "maxfd s1 = maxfd s" "answers s1 = answers s" by blast
  have room: "room (req_name req) s = (b_count b, b_error b, waiters b)" using b(6) by simp
  have orph: "orphans s1 = orphans s" by (simp add: orphans_def b(8,9))
  have may: "if istcp then tcpsockets s1 sock = NoBarrier \<and> sock \<in> opened s1 \<and> 0 \<le> sock \<and> sock < FD_SETSIZE else sock = u"
    using assms(4) b(8,9) by (simp add: may_arrive_def)
  have recorded: "\<exists>s'. record_waiter sock ip istcp n (r_error req) (b\<lparr>b_count := c, b_ipaddr := i\<rparr>) s1 = Some (0, s') \<and> sync_inv u s' \<and>
      names_ok s' \<and> (\<forall>x. room x s' = (if x = req_name req then fst (cross q) else room x s)) \<and> answers s' = answers s @ snd (cross q) \<and>
      watched s' = watched s \<and> maxfd s' = maxfd s \<and>
      (\<forall>x. tcpsockets s' x \<noteq> tcpsockets s x \<longrightarrow> tcpsockets s' x \<noteq> Sentinel \<and>
      (x = sock \<and> istcp \<or> tcpsockets s' x = NoBarrier \<and> tcpsockets s x \<noteq> Sentinel)) \<and>
      (istcp \<and> tcpsockets s' sock \<noteq> NoBarrier \<longrightarrow> opened s' = opened s \<and> (\<forall>x. x \<noteq> sock \<longrightarrow> tcpsockets s' x = tcpsockets s x)) \<and>
      orphans s' \<subseteq> orphans s \<and> (istcp \<longrightarrow> sock \<notin> orphans s')"
    if "q = admit sock ip istcp n (r_error req) c (room (req_name req) s)" for n c i q
  proof -
    define bb where "bb = b\<lparr>b_count := c, b_ipaddr := i\<rparr>"
    have bb: "b_id bb = b_id b" "b_name bb = b_name b" "waiters bb = waiters b" by (simp_all add: bb_def)
    have q: "q = (b_count bb, if r_error req > b_error bb then r_error req else b_error bb, waiters bb @
        [\<lparr>w_count = n, w_sock = sock, w_istcp = istcp, w_error = r_error req, w_ipaddr = ip\<rparr>])"
      unfolding that admit_def room by (simp add: max_def bb_def)
    have "length (waiters b) < MAXWAITERS" using assms(5) room by simp
    from record_waiter_spec [OF b(2-4) bb this may q] obtain s' where
      "record_waiter sock ip istcp n (r_error req) bb s1 = Some (0, s')" "sync_inv u s'" "names_ok s'"
      "\<forall>x. room x s' = (if x = b_name bb then fst (cross q) else room x s1)" "answers s' = answers s1 @ snd (cross q)"
      "watched s' = watched s1" "maxfd s' = maxfd s1"
      "\<forall>x. tcpsockets s' x \<noteq> tcpsockets s1 x \<longrightarrow> tcpsockets s' x \<noteq> Sentinel \<and>
      (x = sock \<and> istcp \<or> tcpsockets s' x = NoBarrier \<and> tcpsockets s1 x \<noteq> Sentinel)"
      "istcp \<and> tcpsockets s' sock \<noteq> NoBarrier \<longrightarrow> opened s' = opened s1 \<and> (\<forall>x. x \<noteq> sock \<longrightarrow> tcpsockets s' x = tcpsockets s1 x)"
      "orphans s' \<subseteq> orphans s1" "istcp \<longrightarrow> sock \<notin> orphans s'" by blast
    then show ?thesis unfolding bb_def [symmetric] b(8-12) bb(2) b(5) orph using b(7)
      by (intro exI [of _ s'] conjI) (assumption | simp del: cross.simps)+
  qed
  consider (wait) "r_request req = BARRIER_WAIT" "r_request req \<noteq> BARRIER_INIT"
    | (init) "r_request req = BARRIER_INIT" "even (r_flags req)" | (nowait) "r_request req = BARRIER_INIT" "odd (r_flags req)"
    | (bad) "r_request req \<noteq> BARRIER_INIT" "r_request req \<noteq> BARRIER_WAIT" by (auto simp: BARRIER_INIT_def BARRIER_WAIT_def)
  then show ?thesis
  proof cases
    case wait
    have r: "r = fst (cross (admit sock ip istcp (- 1) (r_error req) (to_i32 (b_count b - 1)) (room (req_name req) s)))"
      "as = snd (cross (admit sock ip istcp (- 1) (r_error req) (to_i32 (b_count b - 1)) (room (req_name req) s)))"
      using assms(6) wait room by (simp_all add: arrive_def)
    have "handle_request sock ip req istcp s = record_waiter sock ip istcp (- 1) (r_error req)
        (b\<lparr>b_count := to_i32 (b_count b - 1), b_ipaddr := b_ipaddr b\<rparr>) s1"
      using wait b(1) by (simp add: handle_request_def)
    then show ?thesis using recorded [OF refl, where n = "- 1" and c = "to_i32 (b_count b - 1)" and i = "b_ipaddr b"] wait(1) unfolding r by auto
  next
    case init
    have r: "r = fst (cross (admit sock ip istcp (r_count req) (r_error req) (to_i32 (b_count b + r_count req)) (room (req_name req) s)))"
      "as = snd (cross (admit sock ip istcp (r_count req) (r_error req) (to_i32 (b_count b + r_count req)) (room (req_name req) s)))"
      using assms(6) init room by (simp_all add: arrive_def Let_def)
    have "handle_request sock ip req istcp s = record_waiter sock ip istcp (r_count req) (r_error req)
        (b\<lparr>b_count := to_i32 (b_count b + r_count req), b_ipaddr := ip\<rparr>) s1"
      using init b(1) by (simp add: handle_request_def Let_def)
    then show ?thesis using recorded [OF refl, where n = "r_count req" and c = "to_i32 (b_count b + r_count req)" and i = ip] init(1) unfolding r by auto
  next
    case nowait
    define b1 where "b1 = b\<lparr>b_count := to_i32 (b_count b + r_count req), b_ipaddr := ip\<rparr>"
    define s2 where "s2 = release_client sock ip istcp 0 (store b1 s1)"
    have b1: "b_id b1 = b_id b" "b_name b1 = b_name b" "waiters b1 = waiters b" "b_error b1 = b_error b" by (simp_all add: b1_def)
    note st = store_room [OF b(2-4) b1(1,2)]
    have inv1: "sync_inv u (store b1 s1)" by (rule store_same_waiters [OF b(2-4) b1(1-3)])
    have slots: "tcpsockets s2 = tcpsockets s1" using may by (auto simp: s2_def release_client_def Let_def)
    have s2: "allbarriers s2 = allbarriers (store b1 s1)" "next_id s2 = next_id s1" "answers s2 = answers s1 @ [(sock, ip, istcp, 0)]"
      "opened s2 = (if istcp then opened s1 - {sock} else opened s1)" "watched s2 = watched s1" "maxfd s2 = maxfd s1"
      by (simp_all add: s2_def release_client_def Let_def)
    have inv2: "sync_inv u s2"
      using inv1 may unfolding sync_inv_def s2(1,2) slots store_frame by (auto simp: s2(4) split: if_splits)
    have n2: "names_ok s2" using st(1) by (simp add: names_ok_def s2(1))
    have in2: "b1 \<in> set (allbarriers s2)" unfolding s2(1) st(3) by simp
    obtain s' where s': "check_barrier b1 s2 = Some (0, s')" "sync_inv u s'" "names_ok s'"
      "\<forall>x. room x s' = (if x = b_name b1 then fst (cross (b_count b1, b_error b1, waiters b1)) else room x s2)"
      "answers s' = answers s2 @ snd (cross (b_count b1, b_error b1, waiters b1))"
      "sync_frame (released (b_count b1, b_error b1, waiters b1)) s2 s'"
      using check_barrier_spec [OF inv2 n2 in2 refl] by blast
    have "istcp \<longrightarrow> 0 \<le> sock \<and> sock < FD_SETSIZE" using may by (simp split: if_splits)
    then have eq: "handle_request sock ip req istcp s = Some (0, s')"
      using nowait b(1) s'(1) by (simp add: handle_request_def b1_def s2_def Let_def)
    have r: "r = fst (cross (b_count b1, b_error b1, waiters b1))" "as = (sock, ip, istcp, 0) # snd (cross (b_count b1, b_error b1, waiters b1))"
      using assms(6) nowait room b1 by (auto simp: arrive_def Let_def b1_def apsnd_def map_prod_def split: prod.splits if_splits)
    have rooms: "room x s2 = room x s" if "x \<noteq> b_name b" for x
      using st(2) [of x] that b(7) by (simp add: room_def s2(1))
    have gone: "tcpsockets s' x = NoBarrier \<and> tcpsockets s x \<noteq> Sentinel" if "tcpsockets s' x \<noteq> tcpsockets s x" for x
    proof -
      have x: "x \<in> released (b_count b1, b_error b1, waiters b1)" "tcpsockets s' x = NoBarrier"
        using that s'(6) slots b(8) by (auto simp: sync_frame_def split: if_splits)
      then have "x \<in> tcp_socks (waiters b)" using b1(3) by (simp add: released_def split: if_splits)
      then show ?thesis using x(2) b(2,4,8) table_at [of "set (allbarriers s1)" "tcpsockets s1" b x] by (simp add: sync_inv_def)
    qed
    have none: "istcp \<longrightarrow> tcpsockets s' sock = NoBarrier" using gone [of sock] may b(8) by (auto split: if_splits)
    have "room x s' = (if x = req_name req then r else room x s)" for x
      using s'(4) rooms [of x] b(5) b1(2) r(1) by simp
    moreover have "answers s' = answers s @ as" unfolding r(2) s'(5) s2(3) b(12) by simp
    moreover have "watched s' = watched s \<and> maxfd s' = maxfd s" using s'(6) s2(5,6) b(10,11) by (simp add: sync_frame_def)
    moreover have "\<forall>x. tcpsockets s' x \<noteq> tcpsockets s x \<longrightarrow> tcpsockets s' x \<noteq> Sentinel \<and>
      (x = sock \<and> istcp \<or> tcpsockets s' x = NoBarrier \<and> tcpsockets s x \<noteq> Sentinel)"
      using gone by (metis slot.distinct(1))
    moreover have "istcp \<and> tcpsockets s' sock \<noteq> NoBarrier \<longrightarrow> opened s' = opened s \<and> (\<forall>x. x \<noteq> sock \<longrightarrow> tcpsockets s' x = tcpsockets s x)"
      using none by blast
    moreover have "orphans s' \<subseteq> orphans s" "istcp \<longrightarrow> sock \<notin> orphans s'"
      using s'(6) s2(4) slots b(8,9) by (auto simp: orphans_def sync_frame_def split: if_splits)
    moreover have "(0 :: int) = 0 \<longleftrightarrow> r_request req = BARRIER_INIT \<or> r_request req = BARRIER_WAIT" using nowait(1) by simp
    ultimately show ?thesis using eq s'(2,3) by (intro exI [of _ 0] exI [of _ s'] conjI allI impI) blast+
  next
    case bad
    then have "handle_request sock ip req istcp s = Some (1, s1)" using b(1) by (simp add: handle_request_def)
    moreover have "r = room (req_name req) s" "as = []" using bad assms(6) by (simp_all add: arrive_def)
    ultimately show ?thesis using bad b(2,3,7-12) orph by (intro exI [of _ 1] exI [of _ s1]) simp
  qed
qed

section \<open>A client leaves\<close>

definition leave :: "int \<Rightarrow> room \<Rightarrow> room" where
  "leave sock r =
     (let ws = filter (\<lambda>w. w_sock w \<noteq> sock) (snd (snd r)) in
      if ws = [] then (0, 0, []) else (to_i32 (fst r - gone_count sock (snd (snd r))), fst (snd r), ws))"

lemma pack_filter:
  assumes "waiters_ok u ws" and "j \<noteq> u"
  shows "pack j ws = filter (\<lambda>w. w_sock w \<noteq> j) ws"
  using assms(1)
proof (induction ws)
  case (Cons w ws)
  then have ok: "waiters_ok u ws" by (auto simp: waiters_ok_def split: if_splits)
  show ?case
  proof (cases "w_sock w = j")
    case True
    then have tcp: "w_istcp w" using Cons.prems assms(2) by (auto simp: waiters_ok_def)
    have "w_sock v \<noteq> j" if "v \<in> set ws" for v
    proof
      assume "w_sock v = j"
      then have "w_istcp v" using Cons.prems that assms(2) by (auto simp: waiters_ok_def)
      then have "j \<in> w_sock ` set (filter w_istcp ws)" using that \<open>w_sock v = j\<close> by force
      then show False using Cons.prems True tcp by (simp add: waiters_ok_def)
    qed
    then show ?thesis using True by simp
  next
    case False
    then show ?thesis using Cons.IH [OF ok] by simp
  qed
qed simp

lemma packed_filter:
  assumes "waiters_ok u ws" and "j \<noteq> u" and "j \<in> tcp_socks ws"
  shows "packed j ws = filter (\<lambda>w. w_sock w \<noteq> j) ws"
proof -
  have "\<exists>w \<in> set ws. w_sock w = j" using assms(3) by (auto simp: tcp_socks_def)
  then show ?thesis using pack_filter [OF assms(1,2)] by (simp add: packed_def)
qed

lemma waiters_ok_filter: "waiters_ok u ws \<Longrightarrow> waiters_ok u (filter P ws)"
  using le_trans [OF length_filter_le [of P ws]] distinct_map_filter [of w_sock "filter w_istcp ws" P]
  by (auto simp: waiters_ok_def conj_commute)

lemma tcp_socks_filter: "tcp_socks (filter (\<lambda>w. w_sock w \<noteq> j) ws) = tcp_socks ws - {j}"
  by (auto simp: tcp_socks_def)

lemma find_filter:
  assumes "distinct (map b_id (allbarriers s))" and "names_ok s" and "b \<in> set (allbarriers s)"
  shows "find_barrier y (filter (\<lambda>x. b_id x \<noteq> b_id b) (allbarriers s)) =
    (if y = b_name b then None else find_barrier y (allbarriers s))" (is "find_barrier y ?rest = _")
proof -
  have n: "distinct (map b_name (allbarriers s))" using assms(2) by (simp add: names_ok_def)
  have mem: "c \<in> set ?rest \<longleftrightarrow> c \<in> set (allbarriers s) \<and> c \<noteq> b" for c
    using same_barrier [OF assms(1) _ assms(3)] assms(3) by auto
  show ?thesis
  proof (cases "y = b_name b")
    case True
    then have "y \<notin> b_name ` set ?rest" using same_name [OF assms(2) _ assms(3)] mem by (metis (no_types, lifting) imageE)
    then have "find_barrier y ?rest = None" using find_barrier_None by blast
    then show ?thesis using True by simp
  next
    case False
    show ?thesis
    proof (cases "find_barrier y (allbarriers s)")
      case None
      then have "y \<notin> b_name ` set ?rest" by (auto simp: find_barrier_None)
      then have "find_barrier y ?rest = None" using find_barrier_None by blast
      then show ?thesis using None False by simp
    next
      case (Some c)
      then have c: "c \<in> set (allbarriers s)" "b_name c = y" using find_barrier_D by blast+
      then have "c \<in> set ?rest" using mem False by blast
      from find_barrier_Some [OF distinct_map_filter [OF n] this] show ?thesis using Some False c(2) by simp
    qed
  qed
qed

lemma remove_tcpclient_spec:
  assumes "sync_inv u s" and "names_ok s" and "tcpsockets s j = At i"
  shows "\<exists>s' x. remove_tcpclient j (s\<lparr>watched := watched s - {j}, opened := opened s - {j}\<rparr>) = Some s' \<and> sync_inv u s' \<and> names_ok s' \<and>
    j \<in> tcp_socks (snd (snd (room x s))) \<and> (\<forall>y. room y s' = (if y = x then leave j (room x s) else room y s)) \<and>
    answers s' = answers s \<and> tcpsockets s' = (tcpsockets s)(j := NoBarrier) \<and> opened s' = opened s - {j} \<and>
    watched s' = watched s - {j} \<and> maxfd s' = maxfd s"
proof -
  have inv: "distinct (map b_id (allbarriers s))" "\<forall>b \<in> set (allbarriers s). b_id b < next_id s"
    "\<forall>b \<in> set (allbarriers s). waiters_ok u (waiters b)" "table_ok (set (allbarriers s)) (tcpsockets s)"
    "tcpsockets s u = Sentinel" "\<forall>sock. tcpsockets s sock \<noteq> NoBarrier \<longrightarrow> sock \<in> opened s \<and> 0 \<le> sock \<and> sock < FD_SETSIZE"
    using assms(1) by (simp_all add: sync_inv_def)
  obtain b where b: "b \<in> set (allbarriers s)" "b_id b = i" "j \<in> tcp_socks (waiters b)"
    using inv(4) assms(3) unfolding table_ok_def by blast
  have ju: "j \<noteq> u" using assms(3) inv(5) by auto
  note ws = packed_filter [OF inv(3) [rule_format, OF b(1)] ju b(3)]
  define ws' where "ws' = filter (\<lambda>w. w_sock w \<noteq> j) (waiters b)"
  define b1 where "b1 = b\<lparr>b_count := to_i32 (b_count b - gone_count j (waiters b)), waiters := ws'\<rparr>"
  have b1: "b_id b1 = b_id b" "b_name b1 = b_name b" "waiters b1 = ws'" "b_error b1 = b_error b" by (simp_all add: b1_def)
  define s1 where "s1 = s\<lparr>watched := watched s - {j}, opened := opened s - {j}, tcpsockets := (tcpsockets s)(j := NoBarrier)\<rparr>"
  have room: "room (b_name b) s = (b_count b, b_error b, waiters b)" by (rule room_at [OF assms(2) b(1)])
  have others: "j \<notin> tcp_socks (waiters c)" if "c \<in> set (allbarriers s)" "c \<noteq> b" for c
    using table_disjoint [OF inv(4) that(1) b(1)] b(3) same_barrier [OF inv(1) that(1) b(1)] that(2) by blast
  have socks: "tcp_socks ws' = tcp_socks (waiters b) - {j}" by (simp add: ws'_def tcp_socks_filter)
  have table: "((tcpsockets s)(j := NoBarrier)) x = At k \<longleftrightarrow> (\<exists>c \<in> insert b1 (set (allbarriers s) - {b}). b_id c = k \<and> x \<in> tcp_socks (waiters c))" for x k
  proof (cases "x = j")
    case True
    then show ?thesis using others socks b1(3) by auto
  next
    case False
    have "tcpsockets s x = At k \<longleftrightarrow> (\<exists>c \<in> set (allbarriers s). b_id c = k \<and> x \<in> tcp_socks (waiters c))"
      using inv(4) unfolding table_ok_def by blast
    moreover have "b_id b1 = k \<and> x \<in> tcp_socks (waiters b1) \<longleftrightarrow> b_id b = k \<and> x \<in> tcp_socks (waiters b)"
      using socks b1 False by simp
    moreover have "((tcpsockets s)(j := NoBarrier)) x = tcpsockets s x" using False by simp
    ultimately show ?thesis using b(1) by (metis (no_types, lifting) Diff_iff empty_iff insert_Diff insert_iff)
  qed
  have turn: "remove_tcpclient j (s\<lparr>watched := watched s - {j}, opened := opened s - {j}\<rparr>) =
      (if ws' = [] then do { bs \<leftarrow> remove_barrier i (allbarriers s); Some (s1\<lparr>allbarriers := bs\<rparr>) } else Some (store b1 s1))"
    using assms(3) get_barrier_Some [OF inv(1) b(1)] b(2) ws
    by (simp add: remove_tcpclient_def b1_def s1_def ws'_def Let_def)
  have lv: "leave j (room (b_name b) s) = (if ws' = [] then (0, 0, []) else (b_count b1, b_error b1, waiters b1))"
    by (simp add: leave_def room Let_def ws'_def [symmetric] b1_def)
  have inj: "j \<in> tcp_socks (snd (snd (room (b_name b) s)))" using b(3) room by simp
  show ?thesis
  proof (cases "ws' = []")
    case True
    have bid: "i \<in> b_id ` set (allbarriers s)" using b(1,2) by blast
    define rest where "rest = filter (\<lambda>x. b_id x \<noteq> i) (allbarriers s)"
    define s' where "s' = s1\<lparr>allbarriers := rest\<rparr>"
    have mem: "c \<in> set rest \<longleftrightarrow> c \<in> set (allbarriers s) \<and> c \<noteq> b" for c
    proof -
      have "c = b" if "c \<in> set (allbarriers s)" "b_id c = i"
        by (rule same_barrier [OF inv(1) that(1) b(1)]) (simp add: that(2) b(2))
      then show ?thesis using b(2) by (auto simp: rest_def)
    qed
    have "table_ok (set rest) ((tcpsockets s)(j := NoBarrier))"
    proof -
      have "x \<notin> tcp_socks (waiters b1)" for x using True b1(3) by simp
      then show ?thesis unfolding table_ok_def table using mem by (metis (no_types, lifting) Diff_iff empty_iff insert_iff)
    qed
    moreover have "distinct (map b_id rest)" unfolding rest_def by (rule distinct_map_filter [OF inv(1)])
    ultimately have "sync_inv u s'" using inv mem ju by (simp add: sync_inv_def s'_def s1_def)
    moreover have n: "names_ok s'" using assms(2) by (simp add: names_ok_def s'_def rest_def distinct_map_filter)
    moreover have "room y s' = (if y = b_name b then leave j (room (b_name b) s) else room y s)" for y
    proof -
      have "room y s' = (case find_barrier y rest of None \<Rightarrow> (0, 0, []) | Some b \<Rightarrow> (b_count b, b_error b, waiters b))"
        by (simp add: room_def s'_def)
      moreover have "find_barrier y rest = (if y = b_name b then None else find_barrier y (allbarriers s))"
        unfolding rest_def b(2) [symmetric] by (rule find_filter [OF inv(1) assms(2) b(1)])
      ultimately show ?thesis using lv True by (simp add: room_def)
    qed
    moreover have "remove_tcpclient j (s\<lparr>watched := watched s - {j}, opened := opened s - {j}\<rparr>) = Some s'"
      using turn True remove_barrier_filter [OF inv(1) bid] by (simp add: s'_def rest_def)
    ultimately show ?thesis using inj by (intro exI [of _ s'] exI [of _ "b_name b"]) (simp add: s'_def s1_def)
  next
    case False
    note st = store_room [OF assms(1,2) b(1) b1(1,2)]
    have eqs: "allbarriers (store b1 s1) = allbarriers (store b1 s)" by (simp add: store_def s1_def)
    have "table_ok (set (allbarriers (store b1 s1))) (tcpsockets (store b1 s1))"
      unfolding eqs st(3) table_ok_def using table by (simp add: s1_def)
    moreover have "waiters_ok u ws'" unfolding ws'_def using inv(3) b(1) waiters_ok_filter by blast
    ultimately have "sync_inv u (store b1 s1)"
      using inv b(1) b1(1,3) ju unfolding sync_inv_def eqs st(3,4) by (auto simp: s1_def)
    moreover have "names_ok (store b1 s1)" using st(1) by (simp add: names_ok_def eqs)
    moreover have "room y (store b1 s1) = (if y = b_name b then leave j (room (b_name b) s) else room y s)" for y
      using st(2) [of y] lv False by (simp add: room_def eqs)
    ultimately show ?thesis using turn False inj by (intro exI [of _ "store b1 s1"] exI [of _ "b_name b"]) (simp add: s1_def)
  qed
qed

section \<open>A turn of the main loop\<close>

text \<open>
  All that waits over TCP is watched, and nothing else but the two sockets of the daemon, and no other socket is open.
\<close>

definition watch_ok :: "int \<Rightarrow> int \<Rightarrow> syncd \<Rightarrow> bool" where
  "watch_ok u tcpsock s \<longleftrightarrow> (\<forall>x. x \<in> watched s \<longleftrightarrow> tcpsockets s x \<noteq> NoBarrier) \<and> (\<forall>x \<in> watched s. x \<le> maxfd s) \<and>
     (\<forall>x. tcpsockets s x = Sentinel \<longleftrightarrow> x = u \<or> x = tcpsock) \<and> opened s = watched s"

lemma maxtcpsocket_spec:
  assumes "maxtcpsocket slots fs (int m) = (fs', rv)"
  shows "(\<forall>x. x \<in> fs' \<longleftrightarrow> x \<in> fs \<and> \<not> (0 \<le> x \<and> x \<le> int m \<and> slots x = NoBarrier)) \<and>
    (\<forall>x. 0 \<le> x \<and> x \<le> int m \<and> slots x \<noteq> NoBarrier \<longrightarrow> x \<le> rv) \<and> 0 \<le> rv \<and> rv \<le> int m"
  using assms
proof (induction m arbitrary: fs' rv)
  case 0
  have z: "x = 0" if "0 \<le> x" "x \<le> (0 :: int)" for x using that by simp
  show ?case
  proof (cases "slots 0 = NoBarrier")
    case True
    then have "fs' = fs - {0}" "rv = 0" using 0 by (simp_all add: maxtcpsocket_def)
    then show ?thesis using True z by fastforce
  next
    case False
    then have "fs' = fs" "rv = 0" using 0 by (simp_all add: maxtcpsocket_def)
    then show ?thesis using False z by fastforce
  qed
next
  case (Suc m)
  obtain fs1 rv1 where 1: "maxtcpsocket slots fs (int m) = (fs1, rv1)" by fastforce
  note IH = Suc.IH [OF 1]
  have "[0..int (Suc m)] = [0..int m] @ [int (Suc m)]" using upto_rec2 [of 0 "int (Suc m)"] by simp
  then have r: "(fs', rv) = (if slots (int (Suc m)) \<noteq> NoBarrier then (fs1, int (Suc m)) else (fs1 - {int (Suc m)}, rv1))"
    using Suc.prems 1 by (simp add: maxtcpsocket_def split: if_splits)
  have le: "x \<le> 1 + int m \<longleftrightarrow> x \<le> int m \<or> x = 1 + int m" for x by auto
  show ?case
  proof (cases "slots (int (Suc m)) \<noteq> NoBarrier")
    case True
    then show ?thesis using r IH by (auto simp: le)
  next
    case False
    then show ?thesis using r IH by (auto simp: le)
  qed
qed

lemma set_maxfd_spec:
  assumes "sync_inv u s" and "\<forall>x. tcpsockets s x \<noteq> NoBarrier \<longrightarrow> x \<in> watched s" and "\<forall>x \<in> watched s. 0 \<le> x \<and> x \<le> maxfd s"
    and "\<forall>x. tcpsockets s x = Sentinel \<longleftrightarrow> x = u \<or> x = tcpsock" and "\<forall>x \<in> opened s. tcpsockets s x \<noteq> NoBarrier"
  shows "sync_inv u (set_maxfd s) \<and> watch_ok u tcpsock (set_maxfd s) \<and> allbarriers (set_maxfd s) = allbarriers s \<and>
    answers (set_maxfd s) = answers s \<and> opened (set_maxfd s) = opened s \<and> tcpsockets (set_maxfd s) = tcpsockets s"
proof -
  have "tcpsockets s u = Sentinel" using assms(4) by simp
  then have "u \<in> watched s" using assms(2) by (metis slot.distinct(1))
  then have "0 \<le> maxfd s" using assms(3) by fastforce
  then obtain m where m: "maxfd s = int m" by (rule nonneg_int_cases)
  obtain fs rv where mt: "maxtcpsocket (tcpsockets s) (watched s) (int m) = (fs, rv)" by fastforce
  note sp = maxtcpsocket_spec [OF mt]
  have eq: "set_maxfd s = s\<lparr>watched := fs, maxfd := rv\<rparr>" using mt m by (simp add: set_maxfd_def)
  have "watch_ok u tcpsock (s\<lparr>watched := fs, maxfd := rv\<rparr>)"
  proof -
    have "x \<in> fs \<longleftrightarrow> tcpsockets s x \<noteq> NoBarrier" for x using assms(2,3) sp m by auto
    moreover have "\<forall>x \<in> fs. x \<le> rv" using assms(2,3) sp m calculation by auto
    moreover have "opened s = fs" using assms(1,5) calculation(1) by (auto simp: sync_inv_def)
    ultimately show ?thesis using assms(4) by (auto simp: watch_ok_def)
  qed
  moreover have "sync_inv u (s\<lparr>watched := fs, maxfd := rv\<rparr>)" using assms(1) by (simp add: sync_inv_def)
  ultimately show ?thesis unfolding eq by simp
qed

text \<open>A request of a new connection.\<close>

definition tcp_ok :: "int \<Rightarrow> int \<Rightarrow> barrier_req \<Rightarrow> syncd \<Rightarrow> bool" where
  "tcp_ok u newsock req s \<longleftrightarrow> newsock \<notin> opened s \<and> 0 \<le> newsock \<and> newsock < FD_SETSIZE \<and> terminated req \<and>
     length (snd (snd (room (req_name req) s))) < MAXWAITERS"

lemma tcp_request_spec:
  assumes "sync_inv u s" and "names_ok s" and "watch_ok u tcpsock s" and "tcp_ok u newsock req s"
    and "arrive newsock ip req True (room (req_name req) s) = (r, as)"
  shows "\<exists>s'. tcp_request newsock ip req s = Some s' \<and> sync_inv u s' \<and> names_ok s' \<and> watch_ok u tcpsock s' \<and>
    (\<forall>x. room x s' = (if x = req_name req then r else room x s)) \<and> answers s' = answers s @ as"
proof -
  define s0 where "s0 = s\<lparr>opened := insert newsock (opened s)\<rparr>"
  have s0: "sync_inv u s0" "names_ok s0" "room x s0 = room x s" "watched s0 = watched s" "maxfd s0 = maxfd s"
    "tcpsockets s0 = tcpsockets s" "answers s0 = answers s" "opened s0 = insert newsock (opened s)" for x
    using assms(1,2) by (auto simp: s0_def sync_inv_def names_ok_def room_def)
  have fresh: "tcpsockets s newsock = NoBarrier" using assms(1,4) by (auto simp: sync_inv_def tcp_ok_def)
  have may: "may_arrive u newsock True s0" using assms(4) fresh by (simp add: may_arrive_def tcp_ok_def s0)
  have cap: "terminated req" "length (snd (snd (room (req_name req) s0))) < MAXWAITERS" using assms(4) by (simp_all add: tcp_ok_def s0(3))
  have arr: "arrive newsock ip req True (room (req_name req) s0) = (r, as)" using assms(5) by (simp only: s0(3))
  from handle_request_spec [OF s0(1,2) cap(1) may cap(2) arr] obtain rc s1 where
    s1: "handle_request newsock ip req True s0 = Some (rc, s1)" "sync_inv u s1" "names_ok s1"
    "\<forall>x. room x s1 = (if x = req_name req then r else room x s0)" "answers s1 = answers s0 @ as" "watched s1 = watched s0" "maxfd s1 = maxfd s0"
    "\<forall>x. tcpsockets s1 x \<noteq> tcpsockets s0 x \<longrightarrow> tcpsockets s1 x \<noteq> Sentinel \<and>
      (x = newsock \<and> True \<or> tcpsockets s1 x = NoBarrier \<and> tcpsockets s0 x \<noteq> Sentinel)"
    "rc \<noteq> 0 \<longrightarrow> tcpsockets s1 = tcpsockets s0 \<and> opened s1 = opened s0"
    "True \<and> tcpsockets s1 newsock \<noteq> NoBarrier \<longrightarrow> opened s1 = opened s0 \<and> (\<forall>x. x \<noteq> newsock \<longrightarrow> tcpsockets s1 x = tcpsockets s0 x)"
    "orphans s1 \<subseteq> orphans s0" "True \<and> rc = 0 \<longrightarrow> newsock \<notin> orphans s1"
    by blast
  have w: "\<forall>x. x \<in> watched s \<longleftrightarrow> tcpsockets s x \<noteq> NoBarrier" "\<forall>x \<in> watched s. x \<le> maxfd s" "\<forall>x. tcpsockets s x = Sentinel \<longleftrightarrow> x = u \<or> x = tcpsock"
    "opened s = watched s"
    using assms(3) by (simp_all add: watch_ok_def)
  have noleak: "rc = 0 \<longrightarrow> (\<forall>x \<in> opened s1. tcpsockets s1 x \<noteq> NoBarrier)" using s1(11,12) s0(6,8) w(1,4) by (auto simp: orphans_def)
  have pos: "\<forall>x \<in> watched s. 0 \<le> x" using assms(1) w(1) by (auto simp: sync_inv_def)
  have sent: "\<forall>x. tcpsockets s1 x = Sentinel \<longleftrightarrow> x = u \<or> x = tcpsock"
    using s1(8) w(3) fresh s0(6) by (metis slot.distinct(1))
  define s' where "s' = (if rc \<noteq> 0 then s1\<lparr>opened := opened s1 - {newsock}\<rparr>
    else if tcpsockets s1 newsock \<noteq> NoBarrier
    then s1\<lparr>watched := insert newsock (watched s1), maxfd := (if newsock > maxfd s1 then newsock else maxfd s1)\<rparr> else set_maxfd s1)"
  have eq: "tcp_request newsock ip req s = Some s'" using s1(1) by (simp add: tcp_request_def s0_def s'_def)
  have "sync_inv u s' \<and> watch_ok u tcpsock s' \<and> allbarriers s' = allbarriers s1 \<and> answers s' = answers s1"
  proof (cases "rc \<noteq> 0")
    case True
    then have "tcpsockets s1 = tcpsockets s" using s1(9) s0(6) by simp
    moreover have "opened s1 = insert newsock (watched s)" using True s1(9) s0(8) w(4) by simp
    ultimately show ?thesis using True s1(2,6,7) s0(4,5) fresh w by (auto simp: s'_def sync_inv_def watch_ok_def)
  next
    case rc: False
    show ?thesis
    proof (cases "tcpsockets s1 newsock = NoBarrier")
      case False
      then have slots: "tcpsockets s1 x = tcpsockets s x" if "x \<noteq> newsock" for x using s1(10) s0(6) that by simp
      have iff: "x \<in> insert newsock (watched s) \<longleftrightarrow> tcpsockets s1 x \<noteq> NoBarrier" for x
        using slots [of x] w(1) False by (cases "x = newsock") auto
      have "watch_ok u tcpsock s'"
        using rc False iff w(2,4) sent s1(6,7,10) s0(4,5,8) by (auto simp: s'_def watch_ok_def)
      then show ?thesis using rc False s1(2) by (simp add: s'_def sync_inv_def)
    next
      case True
      have sub: "\<forall>x. tcpsockets s1 x \<noteq> NoBarrier \<longrightarrow> x \<in> watched s1"
        using s1(6,8) s0(4,6) w(1) True by metis
      have "\<forall>x \<in> watched s1. 0 \<le> x \<and> x \<le> maxfd s1" using s1(6,7) s0(4,5) w(2) pos by simp
      moreover have "\<forall>x \<in> opened s1. tcpsockets s1 x \<noteq> NoBarrier" using noleak rc by simp
      ultimately have "sync_inv u (set_maxfd s1) \<and> watch_ok u tcpsock (set_maxfd s1) \<and> allbarriers (set_maxfd s1) = allbarriers s1 \<and>
          answers (set_maxfd s1) = answers s1"
        using set_maxfd_spec [OF s1(2) sub _ sent] by blast
      then show ?thesis using rc True by (simp add: s'_def)
    qed
  qed
  moreover from this have "names_ok s'" "\<forall>x. room x s' = room x s1" using s1(3) by (simp_all add: names_ok_def room_def)
  ultimately show ?thesis using eq s1(4,5) s0(3,7) by (intro exI [of _ s']) simp
qed

section \<open>Hang-up and closed connections\<close>

definition syncd_ok :: "int \<Rightarrow> int \<Rightarrow> syncd \<Rightarrow> bool" where
  "syncd_ok u tcpsock s \<longleftrightarrow> sync_inv u s \<and> names_ok s \<and> watch_ok u tcpsock s"

definition any_socks :: "barrier list \<Rightarrow> int set" where
  "any_socks bs = (\<Union>b \<in> set bs. tcp_socks (waiters b))"

lemma clear_list_frame:
  "allbarriers (clear_list bs s) = allbarriers s" "next_id (clear_list bs s) = next_id s" "watched (clear_list bs s) = watched s"
  "maxfd (clear_list bs s) = maxfd s"
  by (induction bs arbitrary: s) simp_all

lemma clear_list_slots:
  "tcpsockets (clear_list bs s) x = (if x \<in> any_socks bs then NoBarrier else tcpsockets s x)"
  by (induction bs arbitrary: s) (auto simp: any_socks_def)

lemma clear_list_opened: "opened (clear_list bs s) = opened s - any_socks bs"
  by (induction bs arbitrary: s) (auto simp: any_socks_def)

lemma clear_list_answers:
  "answers (clear_list bs s) = answers s @ concat (map (\<lambda>b. answers_to (waiters b) SERVER_ERROR_SIGHUP) bs)"
  by (induction bs arbitrary: s) simp_all

lemma slot_cases:
  assumes "sync_inv u s"
  shows "(\<exists>i. tcpsockets s x = At i) \<longleftrightarrow> x \<in> any_socks (allbarriers s)"
  using assms unfolding sync_inv_def table_ok_def any_socks_def by blast

lemma room_socks:
  assumes "names_ok s"
  shows "x \<in> any_socks (allbarriers s) \<longleftrightarrow> (\<exists>y. x \<in> tcp_socks (snd (snd (room y s))))"
proof
  assume "x \<in> any_socks (allbarriers s)"
  then obtain b where "b \<in> set (allbarriers s)" "x \<in> tcp_socks (waiters b)" by (auto simp: any_socks_def)
  then show "\<exists>y. x \<in> tcp_socks (snd (snd (room y s)))" using room_at [OF assms, of b] by (intro exI [of _ "b_name b"]) simp
next
  assume "\<exists>y. x \<in> tcp_socks (snd (snd (room y s)))"
  then obtain y where y: "x \<in> tcp_socks (snd (snd (room y s)))" by blast
  then show "x \<in> any_socks (allbarriers s)"
    using find_barrier_D by (fastforce simp: room_def any_socks_def split: option.splits)
qed

lemma opened_rooms:
  assumes "syncd_ok u tcpsock s"
  shows "x \<in> opened s \<longleftrightarrow> x = u \<or> x = tcpsock \<or> (\<exists>y. x \<in> tcp_socks (snd (snd (room y s))))"
proof -
  have a: "sync_inv u s" "names_ok s" "watch_ok u tcpsock s" using assms by (simp_all add: syncd_ok_def)
  have "x \<in> opened s \<longleftrightarrow> tcpsockets s x \<noteq> NoBarrier" using a(3) by (simp add: watch_ok_def)
  also have "\<dots> \<longleftrightarrow> tcpsockets s x = Sentinel \<or> (\<exists>i. tcpsockets s x = At i)" by (cases "tcpsockets s x") simp_all
  also have "\<dots> \<longleftrightarrow> (x = u \<or> x = tcpsock) \<or> (\<exists>y. x \<in> tcp_socks (snd (snd (room y s))))"
    using a(3) slot_cases [OF a(1)] room_socks [OF a(2)] by (simp add: watch_ok_def)
  finally show ?thesis by simp
qed

lemma clear_spec:
  assumes "syncd_ok u tcpsock s"
  shows "syncd_ok u tcpsock (set_maxfd (clear_barriers s)) \<and> (\<forall>x. room x (set_maxfd (clear_barriers s)) = (0, 0, [])) \<and>
    answers (set_maxfd (clear_barriers s)) =
      answers s @ concat (map (\<lambda>b. answers_to (waiters b) SERVER_ERROR_SIGHUP) (allbarriers s))"
proof -
  have a: "sync_inv u s" "names_ok s" "watch_ok u tcpsock s" using assms by (simp_all add: syncd_ok_def)
  define s1 where "s1 = clear_barriers s"
  have s1: "allbarriers s1 = []" "watched s1 = watched s" "maxfd s1 = maxfd s" "opened s1 = opened s - any_socks (allbarriers s)"
    "answers s1 = answers s @ concat (map (\<lambda>b. answers_to (waiters b) SERVER_ERROR_SIGHUP) (allbarriers s))"
    by (simp_all add: s1_def clear_barriers_def clear_list_frame clear_list_opened clear_list_answers)
  have sl: "tcpsockets s1 x = (if x \<in> any_socks (allbarriers s) then NoBarrier else tcpsockets s x)" for x
    by (simp add: s1_def clear_barriers_def clear_list_slots)
  have sent: "x \<notin> any_socks (allbarriers s)" if "tcpsockets s x = Sentinel" for x
    using that slot_cases [OF a(1), of x] by auto
  have noat: "tcpsockets s1 x \<noteq> At i" for x i using sl [of x] slot_cases [OF a(1), of x] by auto
  have "table_ok (set (allbarriers s1)) (tcpsockets s1)" using noat by (simp add: table_ok_def s1(1))
  moreover have "tcpsockets s1 u = Sentinel" using a(1) sent sl by (simp add: sync_inv_def)
  moreover have "\<forall>x. tcpsockets s1 x \<noteq> NoBarrier \<longrightarrow> x \<in> opened s1 \<and> 0 \<le> x \<and> x < FD_SETSIZE"
    using a(1) by (simp add: sl s1(4) sync_inv_def)
  ultimately have i1: "sync_inv u s1" by (simp add: sync_inv_def s1(1))
  have w1: "\<forall>x. tcpsockets s1 x \<noteq> NoBarrier \<longrightarrow> x \<in> watched s1" using a(3) by (simp add: sl s1(2) watch_ok_def)
  have w2: "\<forall>x \<in> watched s1. 0 \<le> x \<and> x \<le> maxfd s1" using a(1,3) by (simp add: s1(2,3) watch_ok_def sync_inv_def)
  have w3: "\<forall>x. tcpsockets s1 x = Sentinel \<longleftrightarrow> x = u \<or> x = tcpsock"
    using a(3) sent unfolding watch_ok_def sl by (metis slot.distinct(1))
  have w4: "\<forall>x \<in> opened s1. tcpsockets s1 x \<noteq> NoBarrier" using a(3) by (simp add: sl s1(4) watch_ok_def)
  note mx = set_maxfd_spec [OF i1 w1 w2 w3 w4]
  show ?thesis using mx s1(1,5) unfolding s1_def [symmetric] by (simp add: syncd_ok_def names_ok_def room_def)
qed

lemma close_client_rooms:
  assumes "syncd_ok u tcpsock s" and "j \<noteq> u" and "j \<noteq> tcpsock" 
  shows "\<exists>s'. close_client j s = Some s' \<and> syncd_ok u tcpsock s' \<and> answers s' = answers s \<and>
    (\<forall>x. room x s' = (if j \<in> tcp_socks (snd (snd (room x s))) then leave j (room x s) else room x s))"
proof -
  have a: "sync_inv u s" "names_ok s" "watch_ok u tcpsock s" using assms(1) by (simp_all add: syncd_ok_def)
  show ?thesis
  proof (cases "j \<in> opened s")
    case False
    then have "j \<notin> tcp_socks (snd (snd (room x s)))" for x using opened_rooms [OF assms(1), of j] by blast
    then show ?thesis using False assms(1) by (simp add: close_client_def)
  next
    case True
    then have "tcpsockets s j \<noteq> NoBarrier" "tcpsockets s j \<noteq> Sentinel" using a(3) assms(2,3) by (auto simp: watch_ok_def)
    then obtain i where at: "tcpsockets s j = At i" by (cases "tcpsockets s j") auto
    from remove_tcpclient_spec [OF a(1,2) at] obtain s1 x where
      s1: "remove_tcpclient j (s\<lparr>watched := watched s - {j}, opened := opened s - {j}\<rparr>) = Some s1" "sync_inv u s1" "names_ok s1"
      "j \<in> tcp_socks (snd (snd (room x s)))" "\<forall>y. room y s1 = (if y = x then leave j (room x s) else room y s)"
      "answers s1 = answers s" "tcpsockets s1 = (tcpsockets s)(j := NoBarrier)" "opened s1 = opened s - {j}" "watched s1 = watched s - {j}"
      "maxfd s1 = maxfd s" by blast
    have w: "watch_ok u tcpsock s1" using a(3) assms(2,3) s1(7-10) by (auto simp: watch_ok_def)
    have pos: "\<forall>x \<in> watched s1. 0 \<le> x \<and> x \<le> maxfd s1" using w s1(2) by (auto simp: watch_ok_def sync_inv_def)
    have "\<forall>x. tcpsockets s1 x \<noteq> NoBarrier \<longrightarrow> x \<in> watched s1" "\<forall>x. tcpsockets s1 x = Sentinel \<longleftrightarrow> x = u \<or> x = tcpsock"
      "\<forall>x \<in> opened s1. tcpsockets s1 x \<noteq> NoBarrier" using w by (simp_all add: watch_ok_def)
    note mx = set_maxfd_spec [OF s1(2) this(1) pos this(2,3)]
    define s' where "s' = (if j = maxfd s1 then set_maxfd s1 else s1)"
    have eq: "close_client j s = Some s'" using True s1(1) by (simp add: close_client_def s'_def)
    have ok: "syncd_ok u tcpsock s'" using mx s1(2,3) w by (simp add: s'_def syncd_ok_def names_ok_def)
    have same: "allbarriers s' = allbarriers s1" "answers s' = answers s" using mx s1(6) by (simp_all add: s'_def)
    have gone: "j \<notin> tcp_socks (snd (snd (room y s1)))" for y
    proof -
      have "tcpsockets s1 j \<noteq> At k" for k using s1(7) by simp
      then show ?thesis using slot_cases [OF s1(2), of j] room_socks [OF s1(3), of j] by blast
    qed
    have "room y s' = (if j \<in> tcp_socks (snd (snd (room y s))) then leave j (room y s) else room y s)" for y
    proof (cases "y = x")
      case True
      then show ?thesis using s1(4,5) same(1) by (simp add: room_def)
    next
      case False
      then have "room y s1 = room y s" using s1(5) by simp
      then show ?thesis using gone [of y] same(1) by (simp add: room_def)
    qed
    then show ?thesis using eq ok same(2) by blast
  qed
qed

lemma close_clients_ok:
  "syncd_ok u tcpsock s \<Longrightarrow> u \<notin> set js \<Longrightarrow> tcpsock \<notin> set js \<Longrightarrow>
   \<exists>s'. close_clients js s = Some s' \<and> syncd_ok u tcpsock s' \<and> answers s' = answers s"
proof (induction js arbitrary: s)
  case (Cons j js)
  have "\<exists>s'. close_client j s = Some s' \<and> syncd_ok u tcpsock s' \<and> answers s' = answers s"
    using close_client_rooms [OF Cons.prems(1), of j] Cons.prems(2,3) by fastforce
  then obtain s1 where s1: "close_client j s = Some s1" "syncd_ok u tcpsock s1" "answers s1 = answers s" by blast
  then show ?case using Cons.IH [OF s1(2)] Cons.prems(2,3) by simp
qed simp

section \<open>The daemon keeps running\<close>

lemma tcp_request_rooms:
  assumes "syncd_ok u tcpsock s" and "tcp_ok u newsock req s" and "arrive newsock ip req True (room (req_name req) s) = (r, as)"
  shows "\<exists>s'. tcp_request newsock ip req s = Some s' \<and> syncd_ok u tcpsock s' \<and>
    (\<forall>x. room x s' = (if x = req_name req then r else room x s)) \<and> answers s' = answers s @ as"
  using tcp_request_spec [of u s tcpsock newsock req ip r as] assms by (auto simp: syncd_ok_def)

text \<open>A datagram that does not release a client of a connection.\<close>

definition udp_ok :: "int \<Rightarrow> int \<Rightarrow> barrier_req \<Rightarrow> syncd \<Rightarrow> bool" where
  "udp_ok u ip req s \<longleftrightarrow> terminated req \<and> length (snd (snd (room (req_name req) s))) < MAXWAITERS \<and>
     tcp_socks (snd (snd (fst (arrive u ip req False (room (req_name req) s))))) = tcp_socks (snd (snd (room (req_name req) s)))"

lemma udp_request_rooms:
  assumes "syncd_ok u tcpsock s" and "udp_ok u ip req s" and "arrive u ip req False (room (req_name req) s) = (r, as)"
  shows "\<exists>rc s'. handle_request u ip req False s = Some (rc, s') \<and> syncd_ok u tcpsock s' \<and>
    (\<forall>x. room x s' = (if x = req_name req then r else room x s)) \<and> answers s' = answers s @ as"
proof -
  have a: "sync_inv u s" "names_ok s" "watch_ok u tcpsock s" using assms(1) by (simp_all add: syncd_ok_def)
  have may: "may_arrive u u False s" by (simp add: may_arrive_def)
  have ok: "terminated req" "length (snd (snd (room (req_name req) s))) < MAXWAITERS"
    "tcp_socks (snd (snd r)) = tcp_socks (snd (snd (room (req_name req) s)))"
    using assms(2,3) by (simp_all add: udp_ok_def)
  from handle_request_spec [OF a(1,2) ok(1) may ok(2) assms(3)] obtain rc s1 where
    s1: "handle_request u ip req False s = Some (rc, s1)" "sync_inv u s1" "names_ok s1"
    "\<forall>x. room x s1 = (if x = req_name req then r else room x s)" "answers s1 = answers s @ as" "watched s1 = watched s" "maxfd s1 = maxfd s"
    "\<forall>x. tcpsockets s1 x \<noteq> tcpsockets s x \<longrightarrow> tcpsockets s1 x \<noteq> Sentinel \<and>
      (x = u \<and> False \<or> tcpsockets s1 x = NoBarrier \<and> tcpsockets s x \<noteq> Sentinel)"
    "orphans s1 \<subseteq> orphans s" by blast
  have socks: "x \<in> any_socks (allbarriers s1) \<longleftrightarrow> x \<in> any_socks (allbarriers s)" for x
    unfolding room_socks [OF a(2)] room_socks [OF s1(3)] using s1(4) ok(3) by (metis (full_types))
  have slots: "tcpsockets s1 x \<noteq> NoBarrier \<longleftrightarrow> tcpsockets s x \<noteq> NoBarrier" for x
  proof (cases "tcpsockets s1 x = tcpsockets s x")
    case False
    then have n: "tcpsockets s1 x = NoBarrier" "tcpsockets s x \<noteq> Sentinel" using s1(8) by blast+
    then have "x \<notin> any_socks (allbarriers s)" using slot_cases [OF s1(2), of x] socks by auto
    then have "tcpsockets s x = NoBarrier" using n(2) slot_cases [OF a(1), of x] by (cases "tcpsockets s x") auto
    then show ?thesis using n by simp
  qed simp
  have sent: "tcpsockets s1 x = Sentinel \<longleftrightarrow> tcpsockets s x = Sentinel" for x using s1(8) by metis
  have "orphans s = {}" using a(3) by (auto simp: orphans_def watch_ok_def)
  then have "x \<in> opened s1 \<longrightarrow> tcpsockets s1 x \<noteq> NoBarrier" for x using s1(9) by (auto simp: orphans_def)
  then have "x \<in> opened s1 \<longleftrightarrow> x \<in> opened s" for x
    using s1(2) a(3) slots [of x] by (auto simp: sync_inv_def watch_ok_def)
  then have "opened s1 = opened s" by blast
  then have "watch_ok u tcpsock s1" using a(3) s1(6,7) slots sent by (simp add: watch_ok_def)
  then have "syncd_ok u tcpsock s1" using s1(2,3) by (simp add: syncd_ok_def)
  then show ?thesis using s1(1,4,5) by blast
qed

text \<open>What reaches the daemon in a turn, and the run over a list of turns.\<close>

type_synonym turn = "bool \<times> tcp_arrival option \<times> udp_arrival option \<times> int list"

fun sync_run :: "int \<Rightarrow> turn list \<Rightarrow> syncd \<Rightarrow> syncd option" where
  "sync_run u [] s = Some s"
| "sync_run u ((hup, tcp, udp, closed) # ts) s = do { s1 \<leftarrow> sync_turn u hup tcp udp closed s; sync_run u ts s1 }"

lemma sync_run_append: "sync_run u (ts @ ts') s = do { s1 \<leftarrow> sync_run u ts s; sync_run u ts' s1 }"
proof (induction ts arbitrary: s)
  case (Cons t ts)
  then show ?case by (cases t) (auto split: Option.bind_splits)
qed simp

definition after_hup :: "bool \<Rightarrow> syncd \<Rightarrow> syncd" where
  "after_hup hup s = (if hup then set_maxfd (clear_barriers s) else s)"

definition after_tcp :: "tcp_arrival option \<Rightarrow> syncd \<Rightarrow> syncd option" where
  "after_tcp tcp s = (case tcp of Some (TcpReq newsock ip req) \<Rightarrow> tcp_request newsock ip req s | _ \<Rightarrow> Some s)"

text \<open>
  The requests of a turn fit: names end with a zero, barriers have room, \<^verbatim>\<open>accept\<close> gives a new socket, and a datagram
  does not release a client of a connection.
\<close>

definition turn_ok :: "int \<Rightarrow> int \<Rightarrow> turn \<Rightarrow> syncd \<Rightarrow> bool" where
  "turn_ok u tcpsock t s \<longleftrightarrow> (case t of (hup, tcp, udp, closed) \<Rightarrow>
     u \<notin> set closed \<and> tcpsock \<notin> set closed \<and>
     (\<forall>newsock ip req. tcp = Some (TcpReq newsock ip req) \<longrightarrow> tcp_ok u newsock req (after_hup hup s)) \<and>
     (\<forall>ip req s1. udp = Some (UdpReq ip req) \<longrightarrow> after_tcp tcp (after_hup hup s) = Some s1 \<longrightarrow> udp_ok u ip req s1))"

lemma after_hup_ok: "syncd_ok u tcpsock s \<Longrightarrow> syncd_ok u tcpsock (after_hup hup s)"
  using clear_spec by (simp add: after_hup_def)

lemma sync_turn_ok:
  assumes "syncd_ok u tcpsock s" and "turn_ok u tcpsock (hup, tcp, udp, closed) s"
  shows "\<exists>s'. sync_turn u hup tcp udp closed s = Some s' \<and> syncd_ok u tcpsock s'"
proof -
  define s0 where "s0 = after_hup hup s"
  have s0: "syncd_ok u tcpsock s0" unfolding s0_def by (rule after_hup_ok [OF assms(1)])
  then have sub: "watched s0 \<subseteq> opened s0" by (simp add: syncd_ok_def watch_ok_def)
  have cl: "u \<notin> set closed" "tcpsock \<notin> set closed" using assms(2) by (simp_all add: turn_ok_def)
  define run1 where "run1 = after_tcp tcp s0"
  have "\<exists>s1. run1 = Some s1 \<and> syncd_ok u tcpsock s1"
  proof (cases "\<exists>newsock ip req. tcp = Some (TcpReq newsock ip req)")
    case True
    then obtain newsock ip req where t: "tcp = Some (TcpReq newsock ip req)" by blast
    obtain r as where "arrive newsock ip req True (room (req_name req) s0) = (r, as)" by fastforce
    from tcp_request_rooms [OF s0 _ this] show ?thesis using t assms(2) by (auto simp: run1_def after_tcp_def turn_ok_def s0_def)
  next
    case False
    then have "run1 = Some s0" by (auto simp: run1_def after_tcp_def split: option.splits tcp_arrival.splits)
    then show ?thesis using s0 by simp
  qed
  then obtain s1 where s1: "run1 = Some s1" "syncd_ok u tcpsock s1" by blast
  define run2 where "run2 = (case udp of Some (UdpReq ip req) \<Rightarrow> map_option snd (handle_request u ip req False s1) | _ \<Rightarrow> Some s1)"
  have "\<exists>s2. run2 = Some s2 \<and> syncd_ok u tcpsock s2"
  proof (cases "\<exists>ip req. udp = Some (UdpReq ip req)")
    case True
    then obtain ip req where t: "udp = Some (UdpReq ip req)" by blast
    have ok: "udp_ok u ip req s1" using assms(2) t s1(1) unfolding turn_ok_def run1_def s0_def by simp
    obtain r as where "arrive u ip req False (room (req_name req) s1) = (r, as)" by fastforce
    from udp_request_rooms [OF s1(2) ok this] show ?thesis using t by (auto simp: run2_def)
  next
    case False
    then have "run2 = Some s1" by (auto simp: run2_def split: option.splits udp_arrival.splits)
    then show ?thesis using s1(2) by simp
  qed
  then obtain s2 where s2: "run2 = Some s2" "syncd_ok u tcpsock s2" by blast
  obtain s3 where s3: "close_clients closed s2 = Some s3" "syncd_ok u tcpsock s3"
    using close_clients_ok [OF s2(2) cl] by blast
  consider (fail) "tcp = Some AcceptFailed \<or> (\<exists>n. tcp = Some (TcpAborted n))"
    | (abort) "\<not> (tcp = Some AcceptFailed \<or> (\<exists>n. tcp = Some (TcpAborted n)))" "udp = Some UdpAborted"
    | (all) "\<not> (tcp = Some AcceptFailed \<or> (\<exists>n. tcp = Some (TcpAborted n)))" "udp \<noteq> Some UdpAborted" by blast
  then show ?thesis
  proof cases
    case fail
    then have "sync_turn u hup tcp udp closed s = Some s0" using sub by (auto simp: sync_turn_def s0_def after_hup_def Let_def)
    then show ?thesis using s0 by blast
  next
    case abort
    then have "sync_turn u hup tcp udp closed s = Some s1"
      using sub s1(1) by (auto simp: sync_turn_def run1_def after_tcp_def s0_def after_hup_def Let_def split: option.splits tcp_arrival.splits)
    then show ?thesis using s1(2) by blast
  next
    case all
    have "sync_turn u hup tcp udp closed s = Some s3"
      using all sub s1(1) s2(1) s3(1) unfolding sync_turn_def s0_def [symmetric] after_hup_def [symmetric] run1_def after_tcp_def run2_def Let_def
      by (auto split: option.splits tcp_arrival.splits udp_arrival.splits)
    then show ?thesis using s3(2) by blast
  qed
qed

lemma syncd_start_ok:
  assumes "u \<noteq> tcpsock" and "0 \<le> u" and "u < FD_SETSIZE" and "0 \<le> tcpsock" and "tcpsock < FD_SETSIZE"
  shows "syncd_ok u tcpsock (syncd_start tcpsock u)"
  using assms by (auto simp: syncd_ok_def sync_inv_def names_ok_def watch_ok_def syncd_start_def table_ok_def)

text \<open>The daemon from its start on, while its turns are as above.\<close>

definition listening :: "int \<Rightarrow> int \<Rightarrow> syncd \<Rightarrow> bool" where
  "listening tcpsock udpsock s \<longleftrightarrow> udpsock \<noteq> tcpsock \<and> 0 \<le> udpsock \<and> udpsock < FD_SETSIZE \<and> 0 \<le> tcpsock \<and> tcpsock < FD_SETSIZE \<and>
     s = syncd_start tcpsock udpsock"

inductive syncd_step :: "int \<Rightarrow> int \<Rightarrow> syncd \<Rightarrow> syncd \<Rightarrow> bool" for tcpsock udpsock where
  Turn: "turn_ok udpsock tcpsock (hup, tcp, udp, closed) s \<Longrightarrow> sync_turn udpsock hup tcp udp closed s = Some s' \<Longrightarrow>
    syncd_step tcpsock udpsock s s'"

abbreviation sync_reach :: "int \<Rightarrow> int \<Rightarrow> syncd \<Rightarrow> bool" where
  "sync_reach tcpsock udpsock \<equiv> reach (listening tcpsock udpsock) (syncd_step tcpsock udpsock)"

interpretation syncd_sys: invariant_system "listening tcpsock u" "syncd_step tcpsock u" "syncd_ok u tcpsock"
proof unfold_locales
  show "syncd_ok u tcpsock s" if "listening tcpsock u s" for s
    using that syncd_start_ok by (simp add: listening_def)
  show "syncd_ok u tcpsock s'" if "syncd_ok u tcpsock s" "syncd_step tcpsock u s s'" for s s'
    using that(2)
  proof cases
    case (Turn hup tcp udp closed)
    then show ?thesis using sync_turn_ok [OF that(1) Turn(1)] by simp
  qed
qed

lemma tcp_turn:
  assumes "syncd_ok u tcpsock s" and "tcp_ok u sock req s" and "arrive sock ip req True (room (req_name req) s) = (r, as)"
  shows "\<exists>s'. sync_turn u False (Some (TcpReq sock ip req)) None [] s = Some s' \<and> syncd_ok u tcpsock s' \<and>
    (\<forall>x. room x s' = (if x = req_name req then r else room x s)) \<and> answers s' = answers s @ as"
proof -
  have sub: "watched s \<subseteq> opened s" using assms(1) by (simp add: syncd_ok_def watch_ok_def)
  obtain s' where s': "tcp_request sock ip req s = Some s'" "syncd_ok u tcpsock s'"
    "\<forall>x. room x s' = (if x = req_name req then r else room x s)" "answers s' = answers s @ as"
    using tcp_request_rooms [OF assms] by blast
  have "sync_turn u False (Some (TcpReq sock ip req)) None [] s = Some s'" using sub s'(1) by (simp add: sync_turn_def)
  then show ?thesis using s'(2-4) by blast
qed

section \<open>A meeting\<close>

type_synonym arrival = "int \<times> int \<times> barrier_req"

definition due :: "arrival \<Rightarrow> int" where
  "due a = (if r_request (snd (snd a)) = BARRIER_INIT then r_count (snd (snd a)) else - 1)"

definition person :: "arrival \<Rightarrow> waiter" where
  "person a = \<lparr>w_count = due a, w_sock = fst a, w_istcp = True, w_error = r_error (snd (snd a)), w_ipaddr = fst (snd a)\<rparr>"

definition turn_of :: "arrival \<Rightarrow> turn" where
  "turn_of a = (False, Some (TcpReq (fst a) (fst (snd a)) (snd (snd a))), None, [])"

definition worst :: "arrival list \<Rightarrow> int" where
  "worst as = foldl (\<lambda>e a. max e (r_error (snd (snd a)))) 0 as"

definition owed :: "arrival list \<Rightarrow> int" where
  "owed as = sum_list (map due as)"

definition comes :: "byte list \<Rightarrow> arrival \<Rightarrow> bool" where
  "comes x a \<longleftrightarrow> terminated (snd (snd a)) \<and> req_name (snd (snd a)) = x \<and> 0 \<le> fst a \<and> fst a < FD_SETSIZE \<and>
     (r_request (snd (snd a)) = BARRIER_INIT \<and> even (r_flags (snd (snd a))) \<or> r_request (snd (snd a)) = BARRIER_WAIT)"

lemma person_socks: "tcp_socks (map person as) = fst ` set as"
  by (induction as) (simp_all add: person_def)

lemma opened_while_waiting:
  assumes "syncd_ok u tcpsock s" and "syncd_ok u tcpsock s1"
    and "\<forall>y. room y s1 = (if y = x then (c, e, map person as) else room y s)" and "sock \<in> opened s1"
  shows "sock \<in> opened s \<or> sock \<in> fst ` set as"
  using assms(3,4) person_socks [of as] unfolding opened_rooms [OF assms(1)] opened_rooms [OF assms(2)]
  by (auto split: if_splits)

lemma one_comes:
  assumes "syncd_ok u tcpsock s" and "comes x a" and "room x s = (c, e, ws)" and "length ws < MAXWAITERS" and "fst a \<notin> opened s"
    and "q = cross (to_i32 (c + due a), max e (r_error (snd (snd a))), ws @ [person a])"
  shows "\<exists>s'. sync_run u [turn_of a] s = Some s' \<and> syncd_ok u tcpsock s' \<and>
    (\<forall>y. room y s' = (if y = x then fst q else room y s)) \<and> answers s' = answers s @ snd q"
proof -
  obtain sock ip req where a: "a = (sock, ip, req)" by (cases a)
  have nm: "req_name req = x" using assms(2) by (simp add: comes_def a)
  have ok: "tcp_ok u sock req s" using assms(2-5) by (simp add: tcp_ok_def comes_def a)
  have "arrive sock ip req True (room (req_name req) s) = (fst q, snd q)"
    using assms(2,3,6) unfolding nm
    by (auto simp: arrive_def comes_def a due_def person_def admit_def BARRIER_INIT_def BARRIER_WAIT_def Let_def)
  from tcp_turn [OF assms(1) ok this] obtain s' where "sync_turn u False (Some (TcpReq sock ip req)) None [] s = Some s'"
    "syncd_ok u tcpsock s'" "\<forall>y. room y s' = (if y = x then fst q else room y s)" "answers s' = answers s @ snd q"
    unfolding nm by blast
  then show ?thesis by (intro exI [of _ s']) (simp add: turn_of_def a)
qed

text \<open>As long as the count does not come to zero, everybody waits.\<close>

lemma waiting:
  assumes "syncd_ok u tcpsock s" and "room x s = (0, 0, [])" and "\<forall>a \<in> set as. comes x a \<and> fst a \<notin> opened s"
    and "distinct (map fst as)" and "length as \<le> MAXWAITERS" and "\<forall>k \<le> length as. 0 < k \<longrightarrow> owed (take k as) \<noteq> 0"
    and "\<forall>k \<le> length as. to_i32 (owed (take k as)) = owed (take k as)"
  shows "\<exists>s'. sync_run u (map turn_of as) s = Some s' \<and> syncd_ok u tcpsock s' \<and>
    (\<forall>y. room y s' = (if y = x then (owed as, worst as, map person as) else room y s)) \<and> answers s' = answers s"
  using assms(3-7)
proof (induction as rule: rev_induct)
  case Nil
  then show ?case using assms(1,2) by (auto simp: owed_def worst_def)
next
  case (snoc a as)
  have "owed (take k as) \<noteq> 0" if "k \<le> length as" "0 < k" for k using snoc.prems(4) [rule_format, of k] that by simp
  moreover have "to_i32 (owed (take k as)) = owed (take k as)" if "k \<le> length as" for k
    using snoc.prems(5) [rule_format, of k] that by simp
  ultimately obtain s1 where s1: "sync_run u (map turn_of as) s = Some s1" "syncd_ok u tcpsock s1"
    "\<forall>y. room y s1 = (if y = x then (owed as, worst as, map person as) else room y s)" "answers s1 = answers s"
    using snoc.IH snoc.prems(1-3) by auto
  have new: "fst a \<notin> opened s1" using opened_while_waiting [OF assms(1) s1(2,3), of "fst a"] snoc.prems(1,2) by auto
  have c: "to_i32 (owed as + due a) = owed (as @ [a])" "owed (as @ [a]) \<noteq> 0"
    using snoc.prems(4,5) [rule_format, of "length (as @ [a])"] by (simp_all add: owed_def)
  define q where "q = cross (to_i32 (owed as + due a), max (worst as) (r_error (snd (snd a))), map person as @ [person a])"
  have q: "q = ((owed (as @ [a]), worst (as @ [a]), map person (as @ [a])), [])"
    unfolding q_def c(1) using c(2) by (simp add: worst_def)
  have rx: "room x s1 = (owed as, worst as, map person as)" using s1(3) by simp
  have "comes x a" "length (map person as) < MAXWAITERS" using snoc.prems(1,3) by simp_all
  from one_comes [OF s1(2) this(1) rx this(2) new q_def] obtain s2 where
    s2: "sync_run u [turn_of a] s1 = Some s2" "syncd_ok u tcpsock s2" "\<forall>y. room y s2 = (if y = x then fst q else room y s1)"
    "answers s2 = answers s1 @ snd q" by blast
  have "sync_run u (map turn_of (as @ [a])) s = Some s2" using s1(1) s2(1) by (simp only: map_append sync_run_append list.map bind.bind_lunit)
  then show ?case using s2(2-4) s1(3,4) q by simp
qed

definition meeting :: "byte list \<Rightarrow> nat \<Rightarrow> arrival list \<Rightarrow> bool" where
  "meeting x n as \<longleftrightarrow> length as = n + 1 \<and> (\<forall>a \<in> set as. comes x a) \<and> distinct (map fst as) \<and>
     length (filter (\<lambda>a. r_request (snd (snd a)) = BARRIER_INIT) as) = 1 \<and>
     (\<forall>a \<in> set as. r_request (snd (snd a)) = BARRIER_INIT \<longrightarrow> r_count (snd (snd a)) = int n)"

lemma owed_count:
  assumes "\<forall>a \<in> set as. r_request (snd (snd a)) = BARRIER_INIT \<longrightarrow> r_count (snd (snd a)) = int n"
  shows "owed as = (int n + 1) * int (length (filter (\<lambda>a. r_request (snd (snd a)) = BARRIER_INIT) as)) - int (length as)"
  using assms by (induction as) (auto simp: owed_def due_def algebra_simps)

lemma owed_before:
  assumes "meeting x n as" and "k \<le> n + 1"
  shows "owed (take k as) = - int k \<or> owed (take k as) = int n + 1 - int k" and "owed as = 0"
proof -
  have m: "length as = n + 1" "length (filter (\<lambda>a. r_request (snd (snd a)) = BARRIER_INIT) as) = 1"
    "\<forall>a \<in> set as. r_request (snd (snd a)) = BARRIER_INIT \<longrightarrow> r_count (snd (snd a)) = int n"
    using assms(1) by (simp_all add: meeting_def)
  have "length (filter P (take k as)) \<le> length (filter P as)" for P
    by (metis append_take_drop_id filter_append le_add1 length_append)
  then have "length (filter (\<lambda>a. r_request (snd (snd a)) = BARRIER_INIT) (take k as)) \<le> 1" using m(2) by metis
  moreover have "\<forall>a \<in> set (take k as). r_request (snd (snd a)) = BARRIER_INIT \<longrightarrow> r_count (snd (snd a)) = int n"
    using m(3) in_set_takeD by metis
  ultimately show "owed (take k as) = - int k \<or> owed (take k as) = int n + 1 - int k"
    using owed_count [of "take k as" n] m(1) assms(2) by (auto simp: le_Suc_eq)
  show "owed as = 0" using owed_count [OF m(3)] m(1,2) by simp
qed

lemma meets:
  assumes "syncd_ok u tcpsock s" and "room x s = (0, 0, [])" and "meeting x n as" and "n < MAXWAITERS" and "\<forall>a \<in> set as. fst a \<notin> opened s"
  shows "\<And>k. k \<le> n \<Longrightarrow> \<exists>s'. sync_run u (map turn_of (take k as)) s = Some s' \<and> answers s' = answers s"
    and "\<exists>s'. sync_run u (map turn_of as) s = Some s' \<and> answers s' = answers s @ answers_to (map person as) (worst as) \<and>
      (\<forall>y. room y s' = room y s)"
proof -
  have m: "length as = n + 1" "\<forall>a \<in> set as. comes x a" "distinct (map fst as)" using assms(3) by (simp_all add: meeting_def)
  have i32: "to_i32 (owed (take k as)) = owed (take k as)" if "k \<le> n + 1" for k
    using owed_before(1) [OF assms(3) that] that assms(4) by (auto simp: to_i32_def MAXWAITERS_def)
  have some: "\<exists>s'. sync_run u (map turn_of (take k as)) s = Some s' \<and> syncd_ok u tcpsock s' \<and>
      (\<forall>y. room y s' = (if y = x then (owed (take k as), worst (take k as), map person (take k as)) else room y s)) \<and> answers s' = answers s"
    if k: "k \<le> n" for k
  proof (rule waiting [OF assms(1,2)])
    show "\<forall>a \<in> set (take k as). comes x a \<and> fst a \<notin> opened s" using m(2) assms(5) by (metis in_set_takeD)
    show "distinct (map fst (take k as))" using distinct_take [OF m(3), of k] by (simp add: take_map)
    show "length (take k as) \<le> MAXWAITERS" using k assms(4) m(1) by simp
    have "owed (take j as) \<noteq> 0" if "j \<le> k" "0 < j" for j
      using owed_before(1) [OF assms(3), of j] that k by auto
    then show "\<forall>j \<le> length (take k as). 0 < j \<longrightarrow> owed (take j (take k as)) \<noteq> 0" using k m(1) by (simp add: min_def)
    show "\<forall>j \<le> length (take k as). to_i32 (owed (take j (take k as))) = owed (take j (take k as))"
      using k m(1) i32 by (simp add: min_def)
  qed
  then show "\<exists>s'. sync_run u (map turn_of (take k as)) s = Some s' \<and> answers s' = answers s" if "k \<le> n" for k using that by blast
  define bs a where "bs = take n as" and "a = as ! n"
  have as: "as = bs @ [a]" using m(1) by (simp add: bs_def a_def take_Suc_conv_app_nth [symmetric])
  from some [of n] obtain s1 where s1: "sync_run u (map turn_of bs) s = Some s1" "syncd_ok u tcpsock s1"
    "\<forall>y. room y s1 = (if y = x then (owed bs, worst bs, map person bs) else room y s)" "answers s1 = answers s"
    unfolding bs_def by blast
  have new: "fst a \<notin> opened s1" using opened_while_waiting [OF assms(1) s1(2,3), of "fst a"] m(3) assms(5) unfolding as by auto
  have "owed bs + due a = owed as" unfolding as by (simp add: owed_def)
  then have c: "to_i32 (owed bs + due a) = 0" using owed_before(2) [OF assms(3), of 0] by (simp add: to_i32_def)
  define q where "q = cross (to_i32 (owed bs + due a), max (worst bs) (r_error (snd (snd a))), map person bs @ [person a])"
  have q: "q = ((0, 0, []), answers_to (map person as) (worst as))" unfolding q_def c by (simp add: as worst_def)
  have rx: "room x s1 = (owed bs, worst bs, map person bs)" using s1(3) by simp
  have "comes x a" "length (map person bs) < MAXWAITERS" using m(1,2) assms(4) unfolding as by simp_all
  from one_comes [OF s1(2) this(1) rx this(2) new q_def] obtain s2 where
    s2: "sync_run u [turn_of a] s1 = Some s2" "\<forall>y. room y s2 = (if y = x then fst q else room y s1)"
    "answers s2 = answers s1 @ snd q" by blast
  have "sync_run u (map turn_of as) s = Some s2"
    using s1(1) s2(1) unfolding as by (simp only: map_append sync_run_append list.map bind.bind_lunit)
  moreover have "\<forall>y. room y s2 = room y s" using s2(2) s1(3) q assms(2) by simp
  ultimately show "\<exists>s'. sync_run u (map turn_of as) s = Some s' \<and> answers s' = answers s @ answers_to (map person as) (worst as) \<and>
      (\<forall>y. room y s' = room y s)"
    using s2(3) s1(4) q by auto
qed

lemma closed_turn:
  assumes "syncd_ok u tcpsock s" and "j \<noteq> u" and "j \<noteq> tcpsock"
  shows "\<exists>s'. sync_run u [(False, None, None, [j])] s = Some s' \<and> syncd_ok u tcpsock s' \<and> answers s' = answers s \<and>
    (\<forall>x. room x s' = (if j \<in> tcp_socks (snd (snd (room x s))) then leave j (room x s) else room x s))"
proof -
  have "watched s \<subseteq> opened s" using assms(1) by (simp add: syncd_ok_def watch_ok_def)
  then have "sync_run u [(False, None, None, [j])] s = close_client j s"
    by (cases "close_client j s") (simp_all add: sync_turn_def Let_def)
  then show ?thesis using close_client_rooms [OF assms] by simp
qed

definition sample_req :: "int \<Rightarrow> int \<Rightarrow> int \<Rightarrow> int \<Rightarrow> barrier_req" where
  "sample_req what flags n err = \<lparr>r_name = 97 # replicate 63 0, r_request = what, r_flags = flags, r_count = n, r_error = err\<rparr>"

lemma sample_req_simps [simp]:
  "terminated (sample_req what flags n err)" "req_name (sample_req what flags n err) = [97]" "r_request (sample_req what flags n err) = what"
  "r_flags (sample_req what flags n err) = flags" "r_count (sample_req what flags n err) = n" "r_error (sample_req what flags n err) = err"
  by (simp_all add: sample_req_def terminated_def req_name_def c_string_def takeWhile_replicate)

lemma start_reach: "sync_reach 3 4 (syncd_start 3 4)"
  by (rule reach_init) (simp add: listening_def FD_SETSIZE_def)

lemma start_room [simp]: "room x (syncd_start t u) = (0, 0, [])"
  by (simp add: room_def syncd_start_def)

section \<open>Properties\<close>

text \<open>
  C27. A request does to its barrier what the specification says, over TCP and over UDP: a master adds its count and a waiter takes
  one off, the barrier collects the largest error, and at zero all are answered with it and the barrier is gone. The other
  barriers are as before, the invariant is kept, and an unknown request is refused.
\<close>

theorem requests_served:
  assumes "sync_inv u s" and "names_ok s" and "terminated req" and "may_arrive u sock istcp s"
    and "length (snd (snd (room (req_name req) s))) < MAXWAITERS"
  shows "\<exists>rc s'. handle_request sock ip req istcp s = Some (rc, s') \<and> sync_inv u s' \<and> names_ok s' \<and>
    (\<forall>x. room x s' = (if x = req_name req then fst (arrive sock ip req istcp (room x s)) else room x s)) \<and>
    answers s' = answers s @ snd (arrive sock ip req istcp (room (req_name req) s)) \<and>
    (rc = 0 \<longleftrightarrow> r_request req = BARRIER_INIT \<or> r_request req = BARRIER_WAIT)"
  using handle_request_spec [OF assms prod.collapse [symmetric]] by fastforce

theorem requests_served_witness:
  "\<exists>rc s'. handle_request 4 10 (sample_req BARRIER_WAIT 0 0 2) False (syncd_start 3 4) = Some (rc, s') \<and> sync_inv 4 s' \<and> names_ok s' \<and>
    (\<forall>x. room x s' = (if x = [97] then (- 1, 2, [\<lparr>w_count = - 1, w_sock = 4, w_istcp = False, w_error = 2, w_ipaddr = 10\<rparr>]) else (0, 0, []))) \<and>
    answers s' = [] \<and> rc = 0"
proof -
  have ok: "sync_inv 4 (syncd_start 3 4)" "names_ok (syncd_start 3 4)" using syncd_sys.reach_inv [OF start_reach] by (simp_all add: syncd_ok_def)
  have a: "arrive 4 10 (sample_req BARRIER_WAIT 0 0 2) False (0, 0, []) =
      ((- 1, 2, [\<lparr>w_count = - 1, w_sock = 4, w_istcp = False, w_error = 2, w_ipaddr = 10\<rparr>]), [])"
    by (simp add: arrive_def admit_def to_i32_def BARRIER_INIT_def BARRIER_WAIT_def)
  have "may_arrive 4 4 False (syncd_start 3 4)" "length (snd (snd (room (req_name (sample_req BARRIER_WAIT 0 0 2)) (syncd_start 3 4)))) < MAXWAITERS"
    by (simp_all add: may_arrive_def MAXWAITERS_def)
  from requests_served [OF ok _ this, of 10] obtain rc s' where
    "handle_request 4 10 (sample_req BARRIER_WAIT 0 0 2) False (syncd_start 3 4) = Some (rc, s')" "sync_inv 4 s'" "names_ok s'"
    "\<forall>x. room x s' = (if x = [97] then fst (arrive 4 10 (sample_req BARRIER_WAIT 0 0 2) False (0, 0, [])) else (0, 0, []))"
    "answers s' = answers (syncd_start 3 4) @ snd (arrive 4 10 (sample_req BARRIER_WAIT 0 0 2) False (0, 0, []))" "rc = 0"
    by auto
  then show ?thesis unfolding a by (intro exI [of _ rc] exI [of _ s']) (simp add: syncd_start_def)
qed



text \<open>
  C29. A meeting of a master with the count n and n waiters, who come in any order over connections of their own while others wait
  elsewhere. Nobody is answered before the last of them has come, and then all of them are, in the order they came, with
  the largest of their errors; the other barriers do not change.
\<close>

theorem barrier_meets:
  assumes "sync_reach tcpsock u s" and "room x s = (0, 0, [])" and "meeting x n as" and "n < MAXWAITERS"
    and "\<forall>a \<in> set as. fst a \<notin> opened s"
  shows "(\<forall>k \<le> n. \<exists>s'. sync_run u (map turn_of (take k as)) s = Some s' \<and> answers s' = answers s) \<and>
    (\<exists>s'. sync_run u (map turn_of as) s = Some s' \<and>
      answers s' = answers s @ map (\<lambda>(sock, ip, req). (sock, ip, True, worst as)) as \<and> (\<forall>y. room y s' = room y s))"
proof -
  have "answers_to (map person as) (worst as) = map (\<lambda>(sock, ip, req). (sock, ip, True, worst as)) as"
    by (simp add: answers_to_def person_def case_prod_beta)
  then show ?thesis using meets [OF syncd_sys.reach_inv [OF assms(1)] assms(2-5)] by auto
qed

theorem barrier_meets_witness:
  "(\<exists>s'. sync_run 4 [turn_of (5, 10, sample_req BARRIER_WAIT 0 0 2)] (syncd_start 3 4) = Some s' \<and> answers s' = []) \<and>
   (\<exists>s'. sync_run 4 [turn_of (5, 10, sample_req BARRIER_WAIT 0 0 2), turn_of (6, 11, sample_req BARRIER_INIT 0 1 0)] (syncd_start 3 4) = Some s' \<and>
     answers s' = [(5, 10, True, 2), (6, 11, True, 2)])"
proof -
  define as where "as = [(5 :: int, 10 :: int, sample_req BARRIER_WAIT 0 0 2), (6, 11, sample_req BARRIER_INIT 0 1 0)]"
  have "meeting [97] 1 as" by (simp add: meeting_def as_def comes_def FD_SETSIZE_def BARRIER_WAIT_def BARRIER_INIT_def)
  moreover have "(1 :: nat) < MAXWAITERS" by (simp add: MAXWAITERS_def)
  moreover have "\<forall>a \<in> set as. fst a \<notin> opened (syncd_start 3 4)" by (simp add: as_def syncd_start_def)
  ultimately have m: "(\<forall>k \<le> 1. \<exists>s'. sync_run 4 (map turn_of (take k as)) (syncd_start 3 4) = Some s' \<and> answers s' = answers (syncd_start 3 4)) \<and>
    (\<exists>s'. sync_run 4 (map turn_of as) (syncd_start 3 4) = Some s' \<and>
      answers s' = answers (syncd_start 3 4) @ map (\<lambda>(sock, ip, req). (sock, ip, True, worst as)) as \<and> (\<forall>y. room y s' = room y (syncd_start 3 4)))"
    by (intro barrier_meets [OF start_reach start_room])
  have "worst as = 2" "answers (syncd_start 3 4) = []" by (simp_all add: worst_def as_def syncd_start_def)
  then show ?thesis using m [THEN conjunct1, rule_format, of 1] m [THEN conjunct2] unfolding as_def by auto
qed

text \<open>
  C30. A datagram that releases a client of a connection stops the daemon. The socket of the client is closed but stays in the set
  for \<^verbatim>\<open>select\<close>, since only the branch for connections looks after the set; the next turn without a hang-up signal fails.
\<close>

theorem udp_crossing_fatal:
  assumes "sync_reach tcpsock u s" and "terminated req" and "length (snd (snd (room (req_name req) s))) < MAXWAITERS"
    and "x \<in> tcp_socks (snd (snd (room (req_name req) s)))"
    and "x \<notin> tcp_socks (snd (snd (fst (arrive u ip req False (room (req_name req) s)))))"
  shows "\<exists>s'. sync_turn u False None (Some (UdpReq ip req)) [] s = Some s' \<and>
    answers s' = answers s @ snd (arrive u ip req False (room (req_name req) s)) \<and> x \<in> watched s' \<and> x \<notin> opened s' \<and>
    (\<forall>tcp udp closed. sync_turn u False tcp udp closed s' = None)"
proof -
  have a: "sync_inv u s" "names_ok s" "watch_ok u tcpsock s" using syncd_sys.reach_inv [OF assms(1)] by (simp_all add: syncd_ok_def)
  have may: "may_arrive u u False s" by (simp add: may_arrive_def)
  from handle_request_spec [OF a(1,2) assms(2) may assms(3) prod.collapse [symmetric], of ip] obtain rc s1 where
    s1: "handle_request u ip req False s = Some (rc, s1)" "sync_inv u s1" "names_ok s1"
    "\<forall>y. room y s1 = (if y = req_name req then fst (arrive u ip req False (room (req_name req) s)) else room y s)"
    "answers s1 = answers s @ snd (arrive u ip req False (room (req_name req) s))" "watched s1 = watched s"
    "\<forall>y. tcpsockets s1 y \<noteq> tcpsockets s y \<longrightarrow> tcpsockets s1 y \<noteq> Sentinel" "orphans s1 \<subseteq> orphans s" by blast
  have x: "x \<in> any_socks (allbarriers s)" using room_socks [OF a(2)] assms(4) by blast
  then obtain i where i: "tcpsockets s x = At i" using slot_cases [OF a(1)] by blast
  have elsewhere: "x \<notin> tcp_socks (snd (snd (room y s)))" if "y \<noteq> req_name req" for y
  proof
    assume "x \<in> tcp_socks (snd (snd (room y s)))"
    then obtain b c where "b \<in> set (allbarriers s)" "c \<in> set (allbarriers s)" "b_name b = y" "b_name c = req_name req"
      "x \<in> tcp_socks (waiters b)" "x \<in> tcp_socks (waiters c)"
      using assms(4) by (auto simp: room_def dest!: find_barrier_D split: option.splits)
    moreover from this have "b_id b = b_id c" using table_disjoint [of "set (allbarriers s)" "tcpsockets s" b c] a(1)
      by (auto simp: sync_inv_def)
    ultimately have "b = c" using same_barrier [of "allbarriers s" b c] a(1) by (simp add: sync_inv_def)
    then show False using that \<open>b_name b = y\<close> \<open>b_name c = req_name req\<close> by simp
  qed
  have "x \<notin> any_socks (allbarriers s1)" unfolding room_socks [OF s1(3)] using s1(4) assms(5) elsewhere by auto
  then have "\<forall>k. tcpsockets s1 x \<noteq> At k" using slot_cases [OF s1(2)] by blast
  moreover have "tcpsockets s1 x \<noteq> Sentinel" using s1(7) i by (metis slot.distinct(5))
  ultimately have none: "tcpsockets s1 x = NoBarrier" by (cases "tcpsockets s1 x") simp_all
  have "orphans s = {}" using a(3) by (auto simp: orphans_def watch_ok_def)
  then have closed: "x \<notin> opened s1" using none s1(8) by (auto simp: orphans_def)
  have watched: "x \<in> watched s1" using a(3) i s1(6) by (simp add: watch_ok_def)
  then have "\<not> watched s1 \<subseteq> opened s1" using closed by blast
  then have "sync_turn u False tcp udp cl s1 = None" for tcp udp cl by (simp add: sync_turn_def)
  moreover have "watched s \<subseteq> opened s" using a(3) by (simp add: watch_ok_def)
  then have "sync_turn u False None (Some (UdpReq ip req)) [] s = Some s1" using s1(1) by (simp add: sync_turn_def)
  ultimately show ?thesis using s1(5) closed watched by blast
qed

theorem udp_crossing_fatal_witness:
  "\<exists>s s'. sync_turn 4 False (Some (TcpReq 5 10 (sample_req BARRIER_WAIT 0 0 0))) None [] (syncd_start 3 4) = Some s \<and>
    sync_turn 4 False None (Some (UdpReq 11 (sample_req BARRIER_INIT 0 1 0))) [] s = Some s' \<and>
    (\<forall>tcp udp closed. sync_turn 4 False tcp udp closed s' = None)"
proof -
  define ws where "ws = [person (5, 10, sample_req BARRIER_WAIT 0 0 0)]"
  have start: "syncd_ok 4 3 (syncd_start 3 4)" by (rule syncd_sys.reach_inv [OF start_reach])
  have ok: "tcp_ok 4 5 (sample_req BARRIER_WAIT 0 0 0) (syncd_start 3 4)"
    by (simp add: tcp_ok_def FD_SETSIZE_def MAXWAITERS_def) (simp add: syncd_start_def)
  have "arrive 5 10 (sample_req BARRIER_WAIT 0 0 0) True (room (req_name (sample_req BARRIER_WAIT 0 0 0)) (syncd_start 3 4)) = ((- 1, 0, ws), [])"
    by (simp add: arrive_def admit_def to_i32_def BARRIER_INIT_def BARRIER_WAIT_def ws_def person_def due_def)
  from tcp_turn [OF start ok this] obtain s where
    s: "sync_turn 4 False (Some (TcpReq 5 10 (sample_req BARRIER_WAIT 0 0 0))) None [] (syncd_start 3 4) = Some s" "room [97] s = (- 1, 0, ws)"
    by auto
  have "after_hup False (syncd_start 3 4) = syncd_start 3 4" by (simp add: after_hup_def)
  then have "turn_ok 4 3 (False, Some (TcpReq 5 10 (sample_req BARRIER_WAIT 0 0 0)), None, []) (syncd_start 3 4)"
    using ok by (simp add: turn_ok_def)
  note reach = reach_step [OF start_reach syncd_step.Turn [OF this s(1)]]
  define r where "r = arrive 4 11 (sample_req BARRIER_INIT 0 1 0) False (- 1, 0, ws)"
  have r: "tcp_socks (snd (snd (fst r))) = {}" by (simp add: r_def arrive_def admit_def Let_def to_i32_def)
  have five: "5 \<in> tcp_socks ws" by (simp add: ws_def person_def)
  have room: "room (req_name (sample_req BARRIER_INIT 0 1 0)) s = (- 1, 0, ws)" using s(2) by simp
  have len: "length ws < MAXWAITERS" by (simp add: ws_def MAXWAITERS_def)
  from udp_crossing_fatal [OF reach, of "sample_req BARRIER_INIT 0 1 0" 5 11] obtain s' where
    "sync_turn 4 False None (Some (UdpReq 11 (sample_req BARRIER_INIT 0 1 0))) [] s = Some s'"
    "\<forall>tcp udp closed. sync_turn 4 False tcp udp closed s' = None"
    unfolding room r_def [symmetric] using r five len by auto
  then show ?thesis using s(1) by blast
qed

text \<open>
  C31. A master that does not wait, for n waiters, is forgotten when the first waiter to come closes its connection: with its
  only waiter the barrier is freed, and with it the count, so that those who come afterwards are never released.
\<close>

theorem nowait_master_lost:
  assumes "sync_reach tcpsock u s" and "room x s = (0, 0, [])" and "master = (sock, ip, req)" and "tcp_ok u sock req s"
    and "req_name req = x" and "r_request req = BARRIER_INIT" and "odd (r_flags req)" and "1 < r_count req" and "r_count req < 2 ^ 31"
    and "comes x first" and "r_request (snd (snd first)) = BARRIER_WAIT" and "fst first \<notin> opened s" and "r_error (snd (snd first)) = 0"
  shows "\<exists>s1 s'. sync_run u [turn_of master, turn_of first] s = Some s1 \<and> room x s1 = (r_count req - 1, 0, [person first]) \<and>
    sync_run u [(False, None, None, [fst first])] s1 = Some s' \<and> room x s' = (0, 0, []) \<and>
    answers s' = answers s @ [(sock, ip, True, 0)]"
proof -
  have ok: "syncd_ok u tcpsock s" by (rule syncd_sys.reach_inv [OF assms(1)])
  have i32: "to_i32 (r_count req) = r_count req" "to_i32 (r_count req - 1) = r_count req - 1" using assms(8,9) by (simp_all add: to_i32_def)
  have "arrive sock ip req True (room (req_name req) s) = ((r_count req, 0, []), [(sock, ip, True, 0)])"
    using assms(2,5-8) i32(1) by (simp add: arrive_def Let_def)
  from tcp_turn [OF ok assms(4) this] obtain s0 where
    s0: "sync_turn u False (Some (TcpReq sock ip req)) None [] s = Some s0" "syncd_ok u tcpsock s0"
    "\<forall>y. room y s0 = (if y = req_name req then (r_count req, 0, []) else room y s)" "answers s0 = answers s @ [(sock, ip, True, 0)]" by blast
  have "fst first \<notin> opened s0"
    using assms(12) s0(3) unfolding opened_rooms [OF s0(2)] opened_rooms [OF ok] by (auto split: if_splits)
  moreover have "room x s0 = (r_count req, 0, [])" using s0(3) assms(5) by simp
  moreover define q where "q = cross (to_i32 (r_count req + due first), max 0 (r_error (snd (snd first))), [] @ [person first])"
  moreover have "length ([] :: waiter list) < MAXWAITERS" by (simp add: MAXWAITERS_def)
  ultimately obtain s1 where s1: "sync_run u [turn_of first] s0 = Some s1" "syncd_ok u tcpsock s1"
    "\<forall>y. room y s1 = (if y = x then fst q else room y s0)" "answers s1 = answers s0 @ snd q"
    using one_comes [OF s0(2) assms(10)] by blast
  have "due first = - 1" using assms(11) by (simp add: due_def BARRIER_INIT_def BARRIER_WAIT_def)
  then have q: "q = ((r_count req - 1, 0, [person first]), [])" unfolding q_def using i32(2) assms(8,13) by simp
  have r1: "room x s1 = (r_count req - 1, 0, [person first])" using s1(3) q by simp
  have ne: "fst first \<noteq> u" "fst first \<noteq> tcpsock" using assms(12) opened_rooms [OF ok] by auto
  have "fst first \<in> tcp_socks (snd (snd (room x s1)))" "leave (fst first) (room x s1) = (0, 0, [])"
    unfolding r1 by (simp_all add: person_def leave_def)
  then obtain s' where s': "sync_run u [(False, None, None, [fst first])] s1 = Some s'" "room x s' = (0, 0, [])" "answers s' = answers s1"
    using closed_turn [OF s1(2) ne] by auto
  have "sync_run u [turn_of master, turn_of first] s = Some s1" using s0(1) s1(1) by (simp add: turn_of_def assms(3))
  then show ?thesis using r1 s' s1(4) s0(4) q by (intro exI [of _ s1] exI [of _ s']) simp
qed

theorem nowait_master_lost_witness:
  "\<exists>s1 s'. sync_run 4 [turn_of (5, 10, sample_req BARRIER_INIT 1 2 0), turn_of (6, 11, sample_req BARRIER_WAIT 0 0 0)] (syncd_start 3 4) = Some s1 \<and>
    sync_run 4 [(False, None, None, [6])] s1 = Some s' \<and> room [97] s' = (0, 0, [])"
proof -
  have ok: "tcp_ok 4 5 (sample_req BARRIER_INIT 1 2 0) (syncd_start 3 4)"
    by (simp add: tcp_ok_def FD_SETSIZE_def MAXWAITERS_def) (simp add: syncd_start_def)
  have c: "comes [97] (6, 11, sample_req BARRIER_WAIT 0 0 0)" by (simp add: comes_def FD_SETSIZE_def)
  have new: "fst (6 :: int, 11 :: int, sample_req BARRIER_WAIT 0 0 0) \<notin> opened (syncd_start 3 4)" by (simp add: syncd_start_def)
  show ?thesis
    using nowait_master_lost [OF start_reach start_room refl ok _ _ _ _ _ c _ new, of 10] by auto
qed

end
