(* ===== verification/FatScan.thy ===== *)
theory FatScan
  imports Relocs
begin

text \<open>
  How imagezip finds the free sectors of a FAT file system (clientside/os/imagezip/fat: fat_boot.c, fat_fat.c, fat_glue.c). The boot
  block gives the geometry, the file allocation table says which clusters are free, and every run of free clusters
  is reported with \<^const>\<open>addskip\<close>. The bytes of the disk are those of the input file; a read behind its end is short.
  The counters for the messages, except \<^verbatim>\<open>NumFree\<close>, are left out, and so is the array of table entries, which is
  filled and freed. The statics of the code are arguments.
\<close>

section \<open>Reporting free space\<close>

text \<open>What a scanner did to the lists: it reported disjoint ranges between two limits that make up a set of sectors.\<close>

definition freed :: "int \<Rightarrow> int \<Rightarrow> int set \<Rightarrow> izlists \<Rightarrow> izlists \<Rightarrow> bool" where
  "freed lo hi S z z' \<longleftrightarrow>
     (\<exists>new. z' = z\<lparr>skips := new @ skips z\<rparr> \<and> within lo hi new \<and> disjoint_ranges new \<and> sects new = S)"

lemma freed_none: "freed lo hi {} z z"
  by (auto simp: freed_def disjoint_ranges_def intro: exI [of _ "[]"])

lemma freed_skip: "0 < n \<Longrightarrow> freed a (a + n) {a..<a + n} z (addskip a n z)"
  unfolding freed_def by (intro exI [of _ "[\<lparr>ir_start = a, ir_size = n, ir_data = ()\<rparr>]"])
    (simp add: addskip_def disjoint_ranges_def ir_end_def)

lemma freed_mono: "freed lo hi S z z' \<Longrightarrow> lo' \<le> lo \<Longrightarrow> hi \<le> hi' \<Longrightarrow> freed lo' hi' S z z'"
  unfolding freed_def using within_mono by blast

lemma sects_apart: "sects xs \<inter> sects ys = {} \<longleftrightarrow> (\<forall>x \<in> set xs. \<forall>y \<in> set ys. {ir_start x..<ir_end x} \<inter> {ir_start y..<ir_end y} = {})"
  unfolding sects_def by blast

lemma freed_join:
  assumes "freed a b S z z1" and "freed c d T z1 z2" and "b \<le> c \<or> d \<le> a" and "lo \<le> a" and "lo \<le> c" and "b \<le> hi" and "d \<le> hi"
  shows "freed lo hi (S \<union> T) z z2"
proof -
  from assms(1) obtain xs where xs: "z1 = z\<lparr>skips := xs @ skips z\<rparr>" "within a b xs" "disjoint_ranges xs" "sects xs = S"
    by (auto simp: freed_def)
  from assms(2) obtain ys where ys: "z2 = z1\<lparr>skips := ys @ skips z1\<rparr>" "within c d ys" "disjoint_ranges ys" "sects ys = T"
    by (auto simp: freed_def)
  have "sects ys \<inter> sects xs = {}" using sects_within [OF xs(2)] sects_within [OF ys(2)] assms(3) by fastforce
  then have "disjoint_ranges (ys @ xs)" using xs(3) ys(3) unfolding sects_apart disjoint_ranges_def by (simp add: sorted_wrt_append)
  moreover have "within lo hi (ys @ xs)" using within_mono [OF xs(2) assms(4,6)] within_mono [OF ys(2) assms(5,7)] by simp
  ultimately show ?thesis unfolding freed_def using xs(1,4) ys(1,4) by (intro exI [of _ "ys @ xs"]) auto
qed

lemma freed_trans:
  assumes "freed lo m S z z1" and "freed m hi T z1 z2" and "lo \<le> m" and "m \<le> hi"
  shows "freed lo hi (S \<union> T) z z2"
  by (rule freed_join [OF assms(1,2)]) (use assms(3,4) in auto)

text \<open>Everything that is between the limits and not free is saved.\<close>

lemma freed_saved:
  assumes "freed lo hi S z z'" and "skips z = []" and "ranges z = []" and "minsec \<le> lo" and "hi \<le> maxsec"
    and "0 \<le> minsec" and "minsec \<le> maxsec" and "0 < maxsec" and "maxsec < 2 ^ 32" and "0 \<le> frangesize" and "frangesize < 2 ^ 31"
  shows "\<exists>n z1 z2. mergeskips frangesize zerofrange z' = Some (n, z1) \<and> makeranges minsec maxsec z1 = Some z2 \<and>
    sects (ranges z2) = {minsec..<maxsec} - big_free frangesize S"
proof -
  from assms(1,2) obtain new where new: "z' = z\<lparr>skips := new\<rparr>" "within lo hi new" "disjoint_ranges new" "sects new = S"
    by (auto simp: freed_def)
  have s: "skips z' = new" "ranges z' = []" using new(1) assms(3) by simp_all
  have fs: "within minsec maxsec new" by (rule within_mono [OF new(2) assms(4,5)])
  obtain n z1 fx where z1: "mergeskips frangesize zerofrange z' = Some (n, z1)" "sects (skips z1) = big_free frangesize (sects (skips z'))"
    "sorted_wrt apart (skips z1)" "within minsec maxsec (skips z1)" "z1 = z'\<lparr>skips := skips z1, fixups := fx\<rparr>"
    using mergeskips_spec [of z' minsec maxsec frangesize zerofrange] new(3) fs assms(6,9-11) unfolding s(1) by blast
  have "ranges z1 = []" using s(2) by (subst z1(5)) simp
  then show ?thesis using makeranges_spec [OF z1(3,4) assms(6,7,9,8)] z1(1,2) new(4) s(1) by auto
qed

section \<open>The boot block\<close>

definition DOSBOOTBLOCKSIZE :: int where "DOSBOOTBLOCKSIZE = 512"

definition CLUST_FREE :: "32 word" where "CLUST_FREE = 0"
definition CLUST_FIRST :: nat where "CLUST_FIRST = 2"
definition CLUST_RSRVD :: "32 word" where "CLUST_RSRVD = 0xfffffff6"
definition CLUST_BAD :: "32 word" where "CLUST_BAD = 0xfffffff7"
definition CLUST12_MASK :: "32 word" where "CLUST12_MASK = 0xfff"
definition CLUST16_MASK :: "32 word" where "CLUST16_MASK = 0xffff"
definition CLUST32_MASK :: "32 word" where "CLUST32_MASK = 0xfffffff"

record bootblock =
  BytesPerSec :: int
  SecPerClust :: int
  ResSectors :: int
  FATs :: int
  RootDirEnts :: int
  Media :: int
  FATsecs :: int
  ValidFat :: int
  ClustMask :: "32 word"
  NumSectors :: int
  NumClusters :: int
  NumFatEntries :: int
  ClusterOffset :: int

text \<open>Seeking and reading in the slice; nothing is returned when the read is short.\<close>

definition fat_read :: "izconfig \<Rightarrow> int \<Rightarrow> int \<Rightarrow> int \<Rightarrow> int \<Rightarrow> byte list option option" where
  "fat_read cfg start limit off n = do {
     c_assert (limit = 0 \<or> off + sectobytes start < sectobytes limit);
     c_assert ((off + sectobytes start) mod 512 = 0);
     let b = devread cfg (off + sectobytes start) n in Some (if int (length b) = n then Some b else None)
   }"

text \<open>
  The extra checks for FAT32: the version and the signatures of the information block must be right; the backup of the boot block must be
  readable, but may differ.
\<close>

definition fsinfo_ok :: "byte list \<Rightarrow> bool" where
  "fsinfo_ok f \<longleftrightarrow> take 4 f = [0x52, 0x52, 0x61, 0x41] \<and> take 4 (drop 0x1e4 f) = [0x72, 0x72, 0x41, 0x61] \<and>
     f ! 0x1fc = 0 \<and> f ! 0x1fd = 0 \<and> f ! 0x1fe = 0x55 \<and> f ! 0x1ff = 0xaa \<and> f ! 0x3fc = 0 \<and> f ! 0x3fd = 0 \<and>
     (f ! 0x3fe = 0 \<or> f ! 0x3fe = 0x55) \<and> (f ! 0x3ff = 0 \<or> f ! 0x3ff = 0xaa)"

definition fat32_checks :: "izconfig \<Rightarrow> int \<Rightarrow> int \<Rightarrow> byte list \<Rightarrow> bool option" where
  "fat32_checks cfg start limit block =
     (if block ! 42 \<noteq> 0 \<or> block ! 43 \<noteq> 0 then Some False
      else do {
        f \<leftarrow> fat_read cfg start limit (get16 block 48 * get16 block 11) (2 * DOSBOOTBLOCKSIZE);
        case f of None \<Rightarrow> Some False
        | Some fsinfo \<Rightarrow>
            if \<not> fsinfo_ok fsinfo then Some False
            else map_option (\<lambda>b. b \<noteq> None) (fat_read cfg start limit (get16 block 50 * get16 block 11) DOSBOOTBLOCKSIZE)
      })"

text \<open>The geometry; a sector size of zero divides by zero.\<close>

definition fat_entries :: "32 word \<Rightarrow> int \<Rightarrow> int \<Rightarrow> int" where
  "fat_entries msk secs bytes =
     (if msk = CLUST32_MASK then to_u32 (secs * bytes) div 4
      else if msk = CLUST16_MASK then to_u32 (secs * bytes) div 2
      else to_u32 (secs * bytes * 2) div 3)"

definition geometry_of :: "byte list \<Rightarrow> bootblock option option" where
  "geometry_of block =
     (let bps = get16 block 11; spc = uint (block ! 13); res = get16 block 14; nfats = uint (block ! 16); ents = get16 block 17;
          secs = (if ents = 0 then get32 block 36 else get16 block 22);
          vfat = (if ents = 0 \<and> block ! 40 AND 0x80 \<noteq> 0 then uint (block ! 40 AND 0x0f) else - 1) in do {
        c_assert (bps \<noteq> 0);
        let off = to_u32 ((ents * 32 + bps - 1) div bps + res + nfats * secs - int CLUST_FIRST * spc);
            nsec = (if get16 block 19 \<noteq> 0 then get16 block 19 else get32 block 32) in
        if bps mod DOSBOOTBLOCKSIZE \<noteq> 0 \<or> spc = 0 then Some None
        else
          let ncl = to_u32 (nsec - off) div spc;
              msk = (if ents = 0 then CLUST32_MASK else if ncl < uint (CLUST_RSRVD AND CLUST12_MASK) then CLUST12_MASK
                      else if ncl < uint (CLUST_RSRVD AND CLUST16_MASK) then CLUST16_MASK else 0) in
          if msk = 0 \<or> fat_entries msk secs bps < ncl then Some None
          else Some (Some \<lparr>BytesPerSec = bps, SecPerClust = spc, ResSectors = res, FATs = nfats, RootDirEnts = ents,
            Media = uint (block ! 21), FATsecs = secs, ValidFat = vfat, ClustMask = msk, NumSectors = nsec, NumClusters = ncl,
            NumFatEntries = fat_entries msk secs bps, ClusterOffset = off\<rparr>)
      })"

definition readboot :: "izconfig \<Rightarrow> int \<Rightarrow> int \<Rightarrow> bootblock option option" where
  "readboot cfg start limit = do {
     r \<leftarrow> fat_read cfg start limit 0 DOSBOOTBLOCKSIZE;
     case r of None \<Rightarrow> Some None
     | Some block \<Rightarrow>
         if block ! 510 \<noteq> 0x55 \<or> block ! 511 \<noteq> 0xaa then Some None
         else do {
           ok \<leftarrow> (if get16 block 17 = 0 then fat32_checks cfg start limit block else Some True);
           if ok then geometry_of block else Some None
         }
   }"

section \<open>The file allocation table\<close>

text \<open>
  A run of clusters becomes a range of sectors. The sector number is converted to the sectors of the disk by a division.
\<close>

definition fat_addskip :: "bootblock \<Rightarrow> int \<Rightarrow> int \<Rightarrow> int \<Rightarrow> nat \<Rightarrow> nat \<Rightarrow> izlists \<Rightarrow> izlists option" where
  "fat_addskip boot offset limit fatsecpersec startcl ncl z =
     (let start = to_u32 (int startcl * SecPerClust boot + ClusterOffset boot); sz = to_u32 (int ncl * SecPerClust boot);
          start1 = (if fatsecpersec \<noteq> 1 then start div fatsecpersec else start);
          size1 = (if fatsecpersec \<noteq> 1 then sz div fatsecpersec else sz);
          start2 = to_u32 (start1 + offset) in do {
        c_assert (limit = 0 \<or> to_u32 (start2 + size1) \<le> limit);
        Some (addskip start2 size1 z)
      })"

text \<open>The state of the scan: the first cluster of the current run of free ones, or 0, the number of free clusters, and the lists.\<close>

type_synonym fat_scan = "nat \<times> int \<times> izlists"

definition checkclnum :: "bootblock \<Rightarrow> int \<Rightarrow> int \<Rightarrow> int \<Rightarrow> nat \<Rightarrow> 32 word \<Rightarrow> fat_scan \<Rightarrow> fat_scan option" where
  "checkclnum boot offset limit fatsecpersec cl next0 s =
     (case s of (first, free, z) \<Rightarrow>
      let next = (if next0 \<ge> CLUST_RSRVD AND ClustMask boot then next0 OR NOT (ClustMask boot) else next0) in
      if next = CLUST_FREE then Some (if first = 0 then cl else first, to_u32 (free + 1), z)
      else if first \<noteq> 0 then map_option (\<lambda>z1. (0, free, z1)) (fat_addskip boot offset limit fatsecpersec first (cl - first) z)
      else Some (first, free, z))"

definition readfat_bytes :: "izconfig \<Rightarrow> int \<Rightarrow> int \<Rightarrow> bootblock \<Rightarrow> int \<Rightarrow> byte list option option" where
  "readfat_bytes cfg start limit boot no =
     fat_read cfg start limit (to_u32 (ResSectors boot + no * FATsecs boot) * BytesPerSec boot) (to_u32 (FATsecs boot * BytesPerSec boot))"

text \<open>The first bytes of a table of a file system that was unmounted cleanly.\<close>

definition fat_sig_ok :: "bootblock \<Rightarrow> byte list \<Rightarrow> bool" where
  "fat_sig_ok boot b \<longleftrightarrow> uint (b ! 0) = Media boot \<and> b ! 1 = 0xff \<and> b ! 2 = 0xff \<and> (ClustMask boot = CLUST16_MASK \<longrightarrow> b ! 3 = 0xff) \<and>
     (ClustMask boot = CLUST32_MASK \<longrightarrow>
        b ! 3 AND 0x0f = 0x0f \<and> b ! 4 = 0xff \<and> b ! 5 = 0xff \<and> b ! 6 = 0xff \<and> b ! 7 AND 0x0f = 0x0f)"

definition next32 :: "byte list \<Rightarrow> 32 word" where
  "next32 p = word_of_int (get32 p 0) AND CLUST32_MASK"

definition next16 :: "byte list \<Rightarrow> 32 word" where
  "next16 p = word_of_int (get16 p 0)"

definition next12a :: "byte list \<Rightarrow> 32 word" where
  "next12a p = word_of_int (get16 p 0) AND 0x0fff"

definition next12b :: "byte list \<Rightarrow> 32 word" where
  "next12b p = word_of_int (uint (p ! 1) div 16 + uint (p ! 2) * 16) AND 0x0fff"

function fat_loop :: "bootblock \<Rightarrow> int \<Rightarrow> int \<Rightarrow> int \<Rightarrow> nat \<Rightarrow> byte list \<Rightarrow> fat_scan \<Rightarrow> (nat \<times> fat_scan) option" where
  "fat_loop boot offset limit k cl p s =
     (if int cl \<ge> NumClusters boot then Some (cl, s)
      else if ClustMask boot = CLUST32_MASK then do {
        c_assert (4 \<le> length p);
        s1 \<leftarrow> checkclnum boot offset limit k cl (next32 p) s;
        fat_loop boot offset limit k (cl + 1) (drop 4 p) s1
      }
      else if ClustMask boot = CLUST16_MASK then do {
        c_assert (2 \<le> length p);
        s1 \<leftarrow> checkclnum boot offset limit k cl (next16 p) s;
        fat_loop boot offset limit k (cl + 1) (drop 2 p) s1
      }
      else do {
        c_assert (2 \<le> length p);
        s1 \<leftarrow> checkclnum boot offset limit k cl (next12a p) s;
        if int (cl + 1) \<ge> NumClusters boot then fat_loop boot offset limit k (cl + 1) p s1
        else do {
          c_assert (3 \<le> length p);
          s2 \<leftarrow> checkclnum boot offset limit k (cl + 1) (next12b p) s1;
          fat_loop boot offset limit k (cl + 2) (drop 3 p) s2
        }
      })"
  by pat_completeness auto

termination
  by (relation "measure (\<lambda>(boot, offset, limit, k, cl, p, s). nat (NumClusters boot - int cl))") auto

text \<open>The buffer is empty, and looking at its first bytes is an error, only when the table has no sectors.\<close>

definition readfat :: "izconfig \<Rightarrow> int \<Rightarrow> int \<Rightarrow> int \<Rightarrow> bootblock \<Rightarrow> int \<Rightarrow> izlists \<Rightarrow> (int \<times> izlists) option option" where
  "readfat cfg start limit k boot no z = do {
     r \<leftarrow> readfat_bytes cfg start limit boot no;
     case r of None \<Rightarrow> Some None
     | Some b \<Rightarrow> do {
         c_assert (8 \<le> length b);
         if \<not> fat_sig_ok boot b then Some None
         else do {
           (cl, s) \<leftarrow> fat_loop boot start limit k CLUST_FIRST
             (drop (if ClustMask boot = CLUST32_MASK then 8 else if ClustMask boot = CLUST16_MASK then 4 else 3) b) (0, 0, z);
           (first, free, z1) \<leftarrow> checkclnum boot start limit k cl CLUST_BAD s;
           Some (Some (free, z1))
         }
       }
   }"

text \<open>
  A slice. The result is 0, or 1 for a file system that cannot be read; what was reported free up to then stays in the list.
  \<open>limit0\<close> is the limit that an earlier slice has left.
\<close>

definition read_fatslice :: "izconfig \<Rightarrow> int \<Rightarrow> int \<Rightarrow> int \<Rightarrow> izlists \<Rightarrow> (int \<times> izlists) option" where
  "read_fatslice cfg limit0 start sz z =
     (let limit = (if sz > 0 then to_u32 (start + sz) else limit0) in do {
        r \<leftarrow> readboot cfg start limit;
        case r of None \<Rightarrow> Some (1, z)
        | Some boot \<Rightarrow>
            let k = BytesPerSec boot div secsize in
            if k * secsize \<noteq> BytesPerSec boot then Some (1, z)
            else do {
              f \<leftarrow> readfat cfg start limit k boot (if ValidFat boot \<ge> 0 then ValidFat boot else 0) z;
              case f of None \<Rightarrow> Some (1, z) | Some (free, z1) \<Rightarrow> Some (0, z1)
            }
      })"

text \<open>
  What \<^verbatim>\<open>read_image\<close> makes of the results of the slices it scans, and \<^verbatim>\<open>main\<close> of its result: only the
  result -1 makes it save the slice raw; any other result of the last slice but 0 ends imagezip.
\<close>

fun slices_rval :: "int list \<Rightarrow> int \<Rightarrow> int" where
  "slices_rval [] rval = rval"
| "slices_rval (r # rs) rval = slices_rval rs (if r = - 1 then 0 else r)"

definition image_aborts :: "int list \<Rightarrow> bool" where
  "image_aborts rs \<longleftrightarrow> slices_rval rs 0 \<noteq> 0"

lemma image_aborts_last: "image_aborts (rs @ [r]) \<longleftrightarrow> r \<noteq> 0 \<and> r \<noteq> - 1"
proof -
  have "slices_rval (rs @ [r]) v = (if r = - 1 then 0 else r)" for v by (induction rs arbitrary: v) simp_all
  then show ?thesis by (simp add: image_aborts_def)
qed

section \<open>What the table says\<close>

definition fat_entry :: "32 word \<Rightarrow> byte list \<Rightarrow> nat \<Rightarrow> 32 word" where
  "fat_entry msk b cl =
     (if msk = CLUST32_MASK then word_of_int (get32 b (4 * cl)) AND CLUST32_MASK
      else if msk = CLUST16_MASK then word_of_int (get16 b (2 * cl))
      else if even cl then word_of_int (get16 b (3 * cl div 2)) AND 0x0fff
      else word_of_int (get16 b (3 * cl div 2) div 16))"

definition fat_room :: "32 word \<Rightarrow> nat \<Rightarrow> byte list \<Rightarrow> bool" where
  "fat_room msk n b \<longleftrightarrow>
     (if msk = CLUST32_MASK then 4 * n else if msk = CLUST16_MASK then 2 * n else (3 * n + 1) div 2) \<le> length b"

fun scan :: "(nat \<Rightarrow> 's \<Rightarrow> 's option) \<Rightarrow> nat list \<Rightarrow> 's \<Rightarrow> 's option" where
  "scan f [] s = Some s"
| "scan f (c # cs) s = do { s1 \<leftarrow> f c s; scan f cs s1 }"

lemma get16_drop: "i + j + 1 < length b \<Longrightarrow> get16 (drop i b) j = get16 b (i + j)"
  by (simp add: get16_def add.assoc)

lemma get32_drop: "i + j + 3 < length b \<Longrightarrow> get32 (drop i b) j = get32 b (i + j)"
  by (simp add: get32_def get16_drop add.assoc)

lemma byte_range: "0 \<le> uint (x :: byte) \<and> uint x < 256"
  using uint_lt2p [of x] by simp

lemma next12b_entry:
  assumes "i + 2 < length b"
  shows "next12b (drop i b) = word_of_int (get16 b (i + 1) div 16)"
proof -
  define x y where "x = uint (b ! (i + 1))" and "y = uint (b ! (i + 2))"
  have r: "0 \<le> x" "x < 256" "0 \<le> y" "y < 256" using byte_range by (simp_all add: x_def y_def)
  have e: "(x + 256 * y) div 16 = x div 16 + y * 16" by simp
  have lt: "0 \<le> x div 16 + y * 16" "x div 16 + y * 16 < 4096" using r by auto
  have "word_of_int (x div 16 + y * 16) AND (0x0fff :: 32 word) = word_of_int ((x div 16 + y * 16) AND 0x0fff)"
    by (simp only: of_int_and_eq of_int_numeral)
  also have "(x div 16 + y * 16) AND 0x0fff = take_bit 12 (x div 16 + y * 16)"
    by (simp add: take_bit_eq_mask mask_eq_exp_minus_1)
  also have "take_bit 12 (x div 16 + y * 16) = x div 16 + y * 16" using lt by (simp add: take_bit_eq_mod)
  finally show ?thesis using assms e by (simp add: next12b_def get16_def x_def y_def)
qed

definition fat_pos :: "32 word \<Rightarrow> nat \<Rightarrow> nat" where
  "fat_pos msk cl = (if msk = CLUST32_MASK then 4 * cl else if msk = CLUST16_MASK then 2 * cl else 3 * cl div 2)"

lemma masks_distinct [simp]:
  "CLUST12_MASK \<noteq> CLUST16_MASK" "CLUST12_MASK \<noteq> CLUST32_MASK" "CLUST16_MASK \<noteq> CLUST32_MASK"
  "CLUST16_MASK \<noteq> CLUST12_MASK" "CLUST32_MASK \<noteq> CLUST12_MASK" "CLUST32_MASK \<noteq> CLUST16_MASK"
  "CLUST12_MASK \<noteq> 0" "CLUST16_MASK \<noteq> 0" "CLUST32_MASK \<noteq> 0"
  by (simp_all add: CLUST12_MASK_def CLUST16_MASK_def CLUST32_MASK_def)

declare fat_loop.simps [simp del]

lemma fat_loop_scan:
  assumes "fat_room (ClustMask boot) (nat (NumClusters boot)) b" and "ClustMask boot \<in> {CLUST12_MASK, CLUST16_MASK, CLUST32_MASK}"
    and "ClustMask boot = CLUST12_MASK \<longrightarrow> even cl"
  shows "fat_loop boot offset limit k cl (drop (fat_pos (ClustMask boot) cl) b) s =
    map_option (\<lambda>s1. (max cl (nat (NumClusters boot)), s1))
      (scan (\<lambda>c. checkclnum boot offset limit k c (fat_entry (ClustMask boot) b c)) [cl..<nat (NumClusters boot)] s)"
    (is "?loop cl s = map_option _ (scan ?f [cl..<?n] s)")
  using assms(3)
proof (induction "?n - cl" arbitrary: cl s rule: less_induct)
  case less
  let ?p = "drop (fat_pos (ClustMask boot) cl) b"
  show ?case
  proof (cases "cl < ?n")
    case False
    then show ?thesis by (subst fat_loop.simps) (simp add: max_def)
  next
    case True
    then have nc: "\<not> int cl \<ge> NumClusters boot" by simp
    have up: "[cl..<?n] = cl # [cl + 1..<?n]" using True by (simp add: upt_rec)
    have rec: "?loop c t = map_option (Pair (max c ?n)) (scan ?f [c..<?n] t)" if "cl < c" "ClustMask boot = CLUST12_MASK \<longrightarrow> even c" for c t
      by (rule less.hyps) (use True that in auto)
    have r: "max cl ?n = ?n" "max (cl + 1) ?n = ?n" "cl + 1 < ?n \<Longrightarrow> max (cl + 2) ?n = ?n" using True by auto
    consider (f32) "ClustMask boot = CLUST32_MASK" | (f16) "ClustMask boot = CLUST16_MASK" | (f12) "ClustMask boot = CLUST12_MASK"
      using assms(2) by blast
    then show ?thesis
    proof cases
      case f32
      have step: "?loop (cl + 1) t = map_option (Pair ?n) (scan ?f [cl + 1..<?n] t)" for t
        using rec [of "cl + 1" t] f32 unfolding r(1,2) by (simp)
      have room: "4 * cl + 4 \<le> length b" using f32 assms(1) True by (simp add: fat_room_def)
      then have len: "4 \<le> length b - cl * 4" by linarith
      have "?loop cl s = Option.bind (?f cl s) (?loop (cl + 1))"
        by (subst fat_loop.simps)
          (use nc f32 room len in \<open>simp add: fat_pos_def next32_def fat_entry_def get32_drop ac_simps\<close>)
      also have "\<dots> = map_option (Pair ?n) (scan ?f [cl..<?n] s)"
        unfolding up r(1) using step by (cases "?f cl s") simp_all
      finally show ?thesis unfolding r(1) .
    next
      case f16
      have step: "?loop (cl + 1) t = map_option (Pair ?n) (scan ?f [cl + 1..<?n] t)" for t
        using rec [of "cl + 1" t] f16 unfolding r(1,2) by (simp)
      have room: "2 * cl + 2 \<le> length b" using f16 assms(1) True by (simp add: fat_room_def)
      then have len: "2 \<le> length b - cl * 2" by linarith
      have "?loop cl s = Option.bind (?f cl s) (?loop (cl + 1))"
        by (subst fat_loop.simps)
          (use nc f16 room len in \<open>simp add: fat_pos_def next16_def fat_entry_def get16_drop ac_simps\<close>)
      also have "\<dots> = map_option (Pair ?n) (scan ?f [cl..<?n] s)"
        unfolding up r(1) using step by (cases "?f cl s") simp_all
      finally show ?thesis unfolding r(1) .
    next
      case f12
      then have ev: "even cl" using less.prems by blast
      then obtain i where i: "cl = 2 * i" by (rule evenE)
      have room: "(3 * ?n + 1) div 2 \<le> length b" using assms(1) f12 by (simp add: fat_room_def)
      then have room1: "3 * i + 2 \<le> length b" using True i by simp
      then have len: "2 \<le> length b - 3 * i" by linarith
      have e: "?f cl = checkclnum boot offset limit k cl (next12a ?p)"
        using f12 ev room1 i by (simp add: fun_eq_iff fat_entry_def next12a_def fat_pos_def get16_drop)
      show ?thesis
      proof (cases "cl + 1 < ?n")
        case False
        then have n: "int (cl + 1) \<ge> NumClusters boot" by simp
        have "?loop cl s = Option.bind (?f cl s) (\<lambda>s1. fat_loop boot offset limit k (cl + 1) ?p s1)"
          unfolding e by (subst fat_loop.simps) (use nc n f12 room1 len i in \<open>simp add: fat_pos_def\<close>)
        moreover have "fat_loop boot offset limit k (cl + 1) ?p s1 = Some (cl + 1, s1)" for s1
          by (subst fat_loop.simps) (use n in simp)
        moreover have "[cl + 1..<?n] = []" "max cl ?n = cl + 1" using False True by auto
        ultimately show ?thesis unfolding up r(1) by (cases "?f cl s") simp_all
      next
        case more: True
        then have n: "\<not> int (cl + 1) \<ge> NumClusters boot" by simp
        have room2: "3 * i + 3 \<le> length b" using room more i by simp
        then have len3: "3 \<le> length b - 3 * i" by linarith
        have half: "(3 + 6 * i) div 2 = Suc (3 * i)" by presburger
        have e2: "?f (cl + 1) = checkclnum boot offset limit k (cl + 1) (next12b ?p)"
          using f12 room2 i half next12b_entry [of "3 * i" b] by (simp add: fun_eq_iff fat_entry_def fat_pos_def)
        have p: "drop 3 ?p = drop (fat_pos (ClustMask boot) (cl + 2)) b" using f12 i by (simp add: fat_pos_def)
        have "?loop cl s = Option.bind (?f cl s) (\<lambda>s1. Option.bind (?f (cl + 1) s1) (?loop (cl + 2)))"
          unfolding e e2 p [symmetric] by (subst fat_loop.simps) (use nc n f12 room2 len len3 i in \<open>simp add: fat_pos_def\<close>)
        moreover have "[cl + 1..<?n] = (cl + 1) # [cl + 2..<?n]" using more by (simp add: upt_rec)
        moreover have "?loop (cl + 2) t = map_option (Pair ?n) (scan ?f [cl + 2..<?n] t)" for t
          using rec [of "cl + 2" t] ev unfolding r(1) r(3) [OF more] by simp
        ultimately show ?thesis unfolding up r(1) by (cases "?f cl s") (simp_all split: Option.bind_splits)
      qed
    qed
  qed
qed

section \<open>Where the clusters are\<close>

text \<open>The offset of the fictitious cluster 0 may be negative; the code keeps it modulo \<open>2\<^sup>3\<^sup>2\<close>.\<close>

definition data_offset :: "bootblock \<Rightarrow> int" where
  "data_offset boot = (if ClusterOffset boot + 2 * SecPerClust boot \<ge> 2 ^ 32 then ClusterOffset boot - 2 ^ 32 else ClusterOffset boot)"

definition cluster_sector :: "bootblock \<Rightarrow> int \<Rightarrow> nat \<Rightarrow> int" where
  "cluster_sector boot offset cl = offset + data_offset boot + int cl * SecPerClust boot"

definition sectors_of :: "bootblock \<Rightarrow> int \<Rightarrow> nat set \<Rightarrow> int set" where
  "sectors_of boot offset C = (\<Union>c \<in> C. {cluster_sector boot offset c..<cluster_sector boot offset (c + 1)})"

definition clusters_fit :: "bootblock \<Rightarrow> int \<Rightarrow> int \<Rightarrow> bool" where
  "clusters_fit boot offset limit \<longleftrightarrow> 0 < SecPerClust boot \<and> 0 \<le> offset \<and> 0 \<le> ClusterOffset boot \<and> ClusterOffset boot < 2 ^ 32 \<and>
     cluster_sector boot offset (nat (NumClusters boot)) < 2 ^ 32 \<and>
     (limit = 0 \<or> cluster_sector boot offset (nat (NumClusters boot)) \<le> limit)"

lemma cluster_sector_mono: "0 < SecPerClust boot \<Longrightarrow> a \<le> b \<Longrightarrow> cluster_sector boot offset a \<le> cluster_sector boot offset b"
  by (simp add: cluster_sector_def)

lemma cluster_sector_add: "cluster_sector boot offset (a + n) = cluster_sector boot offset a + int n * SecPerClust boot"
  by (simp add: cluster_sector_def algebra_simps)

lemma cluster_sector_2: "clusters_fit boot offset limit \<Longrightarrow> offset \<le> cluster_sector boot offset 2"
  by (simp add: clusters_fit_def cluster_sector_def data_offset_def)

lemma to_u32_cong: "to_u32 (to_u32 x + y) = to_u32 (x + y)" "to_u32 (x - 2 ^ 32 + y) = to_u32 (x + y)"
  by (simp_all add: to_u32_def mod_add_left_eq) (simp add: mod_diff_right_eq [symmetric] algebra_simps)

lemma fat_addskip_spec:
  assumes "clusters_fit boot offset limit" and "2 \<le> c" and "0 < n" and "c + n \<le> nat (NumClusters boot)"
  shows "fat_addskip boot offset limit 1 c n z = Some (addskip (cluster_sector boot offset c) (int n * SecPerClust boot) z)"
proof -
  have fit: "0 < SecPerClust boot" "0 \<le> offset" "cluster_sector boot offset (nat (NumClusters boot)) < 2 ^ 32"
    "limit = 0 \<or> cluster_sector boot offset (nat (NumClusters boot)) \<le> limit" using assms(1) by (simp_all add: clusters_fit_def)
  have hi: "cluster_sector boot offset c + int n * SecPerClust boot \<le> cluster_sector boot offset (nat (NumClusters boot))"
    using cluster_sector_mono [OF fit(1) assms(4), of offset] by (simp add: cluster_sector_add)
  have lo: "0 \<le> cluster_sector boot offset c"
    using cluster_sector_mono [OF fit(1) assms(2), of offset] cluster_sector_2 [OF assms(1)] fit(2) by simp
  have n: "0 < int n * SecPerClust boot" using assms(3) fit(1) by simp
  have "to_u32 (to_u32 (int c * SecPerClust boot + ClusterOffset boot) + offset) = to_u32 (cluster_sector boot offset c)"
  proof -
    have "to_u32 (cluster_sector boot offset c) = to_u32 (int c * SecPerClust boot + ClusterOffset boot + offset)"
    proof (cases "ClusterOffset boot + 2 * SecPerClust boot \<ge> 2 ^ 32")
      case True
      then have "cluster_sector boot offset c = int c * SecPerClust boot + ClusterOffset boot - 2 ^ 32 + offset"
        by (simp add: cluster_sector_def data_offset_def)
      then show ?thesis by (simp only: to_u32_cong)
    qed (simp add: cluster_sector_def data_offset_def ac_simps)
    then show ?thesis by (simp only: to_u32_cong)
  qed
  also have "\<dots> = cluster_sector boot offset c" by (rule to_u32_id) (use lo hi n fit(3) in auto)
  finally have start: "to_u32 (to_u32 (int c * SecPerClust boot + ClusterOffset boot) + offset) = cluster_sector boot offset c" .
  have sz: "to_u32 (int n * SecPerClust boot) = int n * SecPerClust boot" by (rule to_u32_id) (use lo hi n fit(3) in auto)
  have "to_u32 (cluster_sector boot offset c + int n * SecPerClust boot) = cluster_sector boot offset c + int n * SecPerClust boot"
    by (rule to_u32_id) (use lo hi n fit(3) in auto)
  then show ?thesis using hi fit(4) start sz by (auto simp: fat_addskip_def Let_def)
qed

lemma next_free:
  assumes "msk \<in> {CLUST12_MASK, CLUST16_MASK, CLUST32_MASK}"
  shows "(if x \<ge> CLUST_RSRVD AND msk then x OR NOT msk else x) = CLUST_FREE \<longleftrightarrow> x = 0"
proof -
  have "x \<noteq> 0 \<Longrightarrow> x OR y \<noteq> 0" for y :: "32 word" by (simp add: or_eq_0_iff)
  moreover have "\<not> (0 :: 32 word) \<ge> CLUST_RSRVD AND msk" 
    using assms by (auto simp: CLUST_RSRVD_def CLUST12_MASK_def CLUST16_MASK_def CLUST32_MASK_def)
  ultimately show ?thesis by (auto simp: CLUST_FREE_def)
qed

lemma checkclnum_eq:
  assumes "ClustMask boot \<in> {CLUST12_MASK, CLUST16_MASK, CLUST32_MASK}"
  shows "checkclnum boot offset limit k cl e (first, free, z) =
    (if e = 0 then Some (if first = 0 then cl else first, to_u32 (free + 1), z)
     else if first \<noteq> 0 then map_option (\<lambda>z1. (0, free, z1)) (fat_addskip boot offset limit k first (cl - first) z)
     else Some (first, free, z))"
  unfolding checkclnum_def prod.case Let_def next_free [OF assms] by (rule refl)

section \<open>What the scan reports\<close>

definition scanned :: "bootblock \<Rightarrow> int \<Rightarrow> nat set \<Rightarrow> izlists \<Rightarrow> nat \<Rightarrow> fat_scan \<Rightarrow> bool" where
  "scanned boot offset F z c s \<longleftrightarrow> (case s of (first, n, z1) \<Rightarrow>
     let m = (if first = 0 then c else first) in
     2 \<le> m \<and> m \<le> c \<and> (first \<noteq> 0 \<longrightarrow> first < c) \<and> {m..<c} \<subseteq> F \<and> n = int (card {i \<in> F. 2 \<le> i \<and> i < c}) \<and>
     freed (cluster_sector boot offset 2) (cluster_sector boot offset m) (sectors_of boot offset {i \<in> F. 2 \<le> i \<and> i < m}) z z1)"

lemma sectors_of_run:
  assumes "0 < SecPerClust boot" and "a \<le> b"
  shows "sectors_of boot offset {a..<b} = {cluster_sector boot offset a..<cluster_sector boot offset b}"
  using assms(2)
proof (induction b rule: dec_induct)
  case base
  then show ?case by (simp add: sectors_of_def)
next
  case (step b)
  have "{a..<Suc b} = insert b {a..<b}" using step.hyps by auto
  then have "sectors_of boot offset {a..<Suc b} =
      {cluster_sector boot offset b..<cluster_sector boot offset (Suc b)} \<union> {cluster_sector boot offset a..<cluster_sector boot offset b}"
    using step.IH by (simp add: sectors_of_def)
  then show ?case using cluster_sector_mono [OF assms(1), of a b offset] cluster_sector_mono [OF assms(1), of b "Suc b" offset] step.hyps
    by (simp add: Un_commute ivl_disj_un_two(3))
qed

lemma sectors_of_Un: "sectors_of boot offset (A \<union> B) = sectors_of boot offset A \<union> sectors_of boot offset B"
  by (simp add: sectors_of_def)

lemma run_closed:
  assumes "clusters_fit boot offset limit" and "ClustMask boot \<in> {CLUST12_MASK, CLUST16_MASK, CLUST32_MASK}"
    and "scanned boot offset F z c (first, n, z1)" and "e \<noteq> 0" and "c \<le> nat (NumClusters boot) \<or> first = 0"
  shows "\<exists>z2. checkclnum boot offset limit 1 c e (first, n, z1) = Some (0, n, z2) \<and>
    freed (cluster_sector boot offset 2) (cluster_sector boot offset c) (sectors_of boot offset {i \<in> F. 2 \<le> i \<and> i < c}) z z2"
proof (cases "first = 0")
  case True
  then show ?thesis using assms(3,4) by (simp add: checkclnum_eq [OF assms(2)] scanned_def)
next
  case run: False
  have spc: "0 < SecPerClust boot" using assms(1) by (simp add: clusters_fit_def)
  have inv: "2 \<le> first" "first < c" "{first..<c} \<subseteq> F"
    "freed (cluster_sector boot offset 2) (cluster_sector boot offset first) (sectors_of boot offset {i \<in> F. 2 \<le> i \<and> i < first}) z z1"
    using assms(3) run by (simp_all add: scanned_def)
  have le: "first \<le> c" using inv(2) by simp
  let ?sz = "int (c - first) * SecPerClust boot" and ?a = "cluster_sector boot offset first"
  have "fat_addskip boot offset limit 1 first (c - first) z1 = Some (addskip ?a ?sz z1)"
    by (rule fat_addskip_spec [OF assms(1)]) (use inv run assms(5) in auto)
  then have eq: "checkclnum boot offset limit 1 c e (first, n, z1) = Some (0, n, addskip ?a ?sz z1)"
    using run assms(4) by (simp add: checkclnum_eq [OF assms(2)])
  have upto: "?a + ?sz = cluster_sector boot offset c" using cluster_sector_add [of boot offset first "c - first"] le by simp
  have "0 < ?sz" using inv(2) spc by simp
  from freed_skip [OF this, of ?a z1]
  have "freed ?a (cluster_sector boot offset c) (sectors_of boot offset {first..<c}) z1 (addskip ?a ?sz z1)"
    unfolding upto using sectors_of_run [OF spc le] by simp
  from freed_trans [OF inv(4) this] have
    "freed (cluster_sector boot offset 2) (cluster_sector boot offset c) (sectors_of boot offset ({i \<in> F. 2 \<le> i \<and> i < first} \<union> {first..<c})) z
      (addskip ?a ?sz z1)"
    unfolding sectors_of_Un using cluster_sector_mono [OF spc inv(1)] cluster_sector_mono [OF spc le] by blast
  moreover have "{i \<in> F. 2 \<le> i \<and> i < first} \<union> {first..<c} = {i \<in> F. 2 \<le> i \<and> i < c}" using inv(1-3) by auto
  ultimately show ?thesis using eq by simp
qed

lemma checkclnum_scanned:
  assumes "clusters_fit boot offset limit" and "ClustMask boot \<in> {CLUST12_MASK, CLUST16_MASK, CLUST32_MASK}" and "NumClusters boot < 2 ^ 32"
    and "scanned boot offset F z c s" and "e = 0 \<longleftrightarrow> c \<in> F" and "c < nat (NumClusters boot)" and "finite F"
  shows "\<exists>s1. checkclnum boot offset limit 1 c e s = Some s1 \<and> scanned boot offset F z (c + 1) s1"
proof -
  obtain first n z1 where s: "s = (first, n, z1)" by (cases s) auto
  define m where "m = (if first = 0 then c else first)"
  have inv: "2 \<le> m" "m \<le> c" "{m..<c} \<subseteq> F" "n = int (card {i \<in> F. 2 \<le> i \<and> i < c})"
    "freed (cluster_sector boot offset 2) (cluster_sector boot offset m) (sectors_of boot offset {i \<in> F. 2 \<le> i \<and> i < m}) z z1"
    using assms(4) by (simp_all add: scanned_def s m_def Let_def split: if_splits)
  show ?thesis
  proof (cases "e = 0")
    case True
    then have c: "c \<in> F" using assms(5) by simp
    have "{i \<in> F. 2 \<le> i \<and> i < c + 1} = insert c {i \<in> F. 2 \<le> i \<and> i < c}" using c inv(1,2) by auto
    then have card: "card {i \<in> F. 2 \<le> i \<and> i < c + 1} = card {i \<in> F. 2 \<le> i \<and> i < c} + 1" using assms(7) by simp
    have "card {i \<in> F. 2 \<le> i \<and> i < c} \<le> card {2..<c}" by (rule card_mono) auto
    then have "n + 1 < 2 ^ 32" using inv(4) assms(3,6) by simp
    moreover have "0 \<le> n + 1" using inv(4) by simp
    ultimately have n: "to_u32 (n + 1) = n + 1" by (intro to_u32_id)
    have run: "{m..<c + 1} \<subseteq> F" using inv(2,3) c by (auto simp: less_Suc_eq)
    have "checkclnum boot offset limit 1 c e s = Some (m, n + 1, z1)"
      using True n s by (simp add: checkclnum_eq [OF assms(2)] m_def)
    moreover have "scanned boot offset F z (c + 1) (m, n + 1, z1)"
      using inv(1,2,4,5) run card by (simp add: scanned_def)
    ultimately show ?thesis by blast
  next
    case False
    then have c: "c \<notin> F" using assms(5) by simp
    have same: "{i \<in> F. 2 \<le> i \<and> i < c + 1} = {i \<in> F. 2 \<le> i \<and> i < c}" using c less_Suc_eq by auto
    have up: "cluster_sector boot offset c \<le> cluster_sector boot offset (c + 1)"
      using assms(1) by (intro cluster_sector_mono) (simp_all add: clusters_fit_def)
    obtain z2 where z2: "checkclnum boot offset limit 1 c e s = Some (0, n, z2)"
      "freed (cluster_sector boot offset 2) (cluster_sector boot offset c) (sectors_of boot offset {i \<in> F. 2 \<le> i \<and> i < c}) z z2"
      using run_closed [OF assms(1,2) assms(4) [unfolded s] False] assms(6) s by auto
    have "freed (cluster_sector boot offset 2) (cluster_sector boot offset (c + 1)) (sectors_of boot offset {i \<in> F. 2 \<le> i \<and> i < c + 1}) z z2"
      unfolding same by (rule freed_mono [OF z2(2) order_refl up])
    then have "scanned boot offset F z (c + 1) (0, n, z2)" using inv(1,2,4) same by (simp add: scanned_def)
    then show ?thesis using z2(1) by blast
  qed
qed

definition free_clusters :: "bootblock \<Rightarrow> byte list \<Rightarrow> nat set" where
  "free_clusters boot b = {c. 2 \<le> c \<and> c < nat (NumClusters boot) \<and> fat_entry (ClustMask boot) b c = 0}"

lemma scan_scanned:
  assumes "clusters_fit boot offset limit" and "ClustMask boot \<in> {CLUST12_MASK, CLUST16_MASK, CLUST32_MASK}" and "NumClusters boot < 2 ^ 32"
    and "scanned boot offset (free_clusters boot b) z c s" and "2 \<le> c" and "c \<le> nat (NumClusters boot)"
  shows "\<exists>s1. scan (\<lambda>c. checkclnum boot offset limit 1 c (fat_entry (ClustMask boot) b c)) [c..<nat (NumClusters boot)] s = Some s1 \<and>
    scanned boot offset (free_clusters boot b) z (nat (NumClusters boot)) s1"
  using assms(4-6)
proof (induction "nat (NumClusters boot) - c" arbitrary: c s)
  case 0
  then show ?case by simp
next
  case (Suc d)
  then have lt: "c < nat (NumClusters boot)" by simp
  have "\<exists>s1. checkclnum boot offset limit 1 c (fat_entry (ClustMask boot) b c) s = Some s1 \<and>
      scanned boot offset (free_clusters boot b) z (c + 1) s1"
    by (rule checkclnum_scanned [OF assms(1-3) Suc.prems(1)]) (use lt Suc.prems(2) in \<open>simp_all add: free_clusters_def\<close>)
  then obtain s1 where s1: "checkclnum boot offset limit 1 c (fat_entry (ClustMask boot) b c) s = Some s1"
    "scanned boot offset (free_clusters boot b) z (c + 1) s1" by blast
  have d: "d = nat (NumClusters boot) - (c + 1)" using Suc.hyps(2) by simp
  show ?case using Suc.hyps(1) [OF d s1(2)] s1(1) lt Suc.prems(2) by (simp add: upt_rec)
qed

lemma free_clusters_between: "{i \<in> free_clusters boot b. 2 \<le> i \<and> i < nat (NumClusters boot)} = free_clusters boot b"
  by (auto simp: free_clusters_def)

lemma readfat_spec:
  assumes "clusters_fit boot start limit" and "ClustMask boot \<in> {CLUST12_MASK, CLUST16_MASK, CLUST32_MASK}" and "NumClusters boot < 2 ^ 32"
    and "2 \<le> NumClusters boot" and "readfat_bytes cfg start limit boot no = Some (Some b)" and "8 \<le> length b"
    and "fat_room (ClustMask boot) (nat (NumClusters boot)) b"
  shows "if fat_sig_ok boot b
    then \<exists>z1. readfat cfg start limit 1 boot no z = Some (Some (int (card (free_clusters boot b)), z1)) \<and>
      freed (cluster_sector boot start 2) (cluster_sector boot start (nat (NumClusters boot))) (sectors_of boot start (free_clusters boot b)) z z1
    else readfat cfg start limit 1 boot no z = Some None"
proof (cases "fat_sig_ok boot b")
  case False
  then show ?thesis using assms(5,6) by (simp add: readfat_def)
next
  case True
  let ?n = "nat (NumClusters boot)"
  have n: "2 \<le> ?n" using assms(4) by simp
  have pos: "(if ClustMask boot = CLUST32_MASK then 8 else if ClustMask boot = CLUST16_MASK then 4 else 3) = fat_pos (ClustMask boot) CLUST_FIRST"
    by (simp add: fat_pos_def CLUST_FIRST_def)
  have "{i \<in> free_clusters boot b. 2 \<le> i \<and> i < 2} = {}" by auto
  then have start: "scanned boot start (free_clusters boot b) z 2 (0, 0, z)"
    using freed_none by (simp add: scanned_def sectors_of_def)
  obtain first m z1 where s1: "scan (\<lambda>c. checkclnum boot start limit 1 c (fat_entry (ClustMask boot) b c)) [2..<?n] (0, 0, z) = Some (first, m, z1)"
    "scanned boot start (free_clusters boot b) z ?n (first, m, z1)"
    using scan_scanned [OF assms(1-3) start order_refl n] by (metis prod_cases3)
  have "fat_loop boot start limit 1 CLUST_FIRST (drop (fat_pos (ClustMask boot) CLUST_FIRST) b) (0, 0, z) = Some (?n, first, m, z1)"
    using fat_loop_scan [OF assms(7,2), of CLUST_FIRST start limit 1 "(0, 0, z)"] s1(1) n by (simp add: CLUST_FIRST_def)
  moreover have "CLUST_BAD \<noteq> 0" by (simp add: CLUST_BAD_def)
  from run_closed [OF assms(1,2) s1(2) this] obtain z2 where
    z2: "checkclnum boot start limit 1 ?n CLUST_BAD (first, m, z1) = Some (0, m, z2)"
    "freed (cluster_sector boot start 2) (cluster_sector boot start ?n) (sectors_of boot start {i \<in> free_clusters boot b. 2 \<le> i \<and> i < ?n}) z z2"
    by blast
  moreover have "m = int (card {i \<in> free_clusters boot b. 2 \<le> i \<and> i < ?n})" using s1(2) by (simp add: scanned_def Let_def)
  ultimately show ?thesis using True assms(5,6) z2(2) unfolding free_clusters_between readfat_def by (simp add: pos)
qed

section \<open>A slice with a FAT file system\<close>

lemma geometry_facts:
  assumes "geometry_of block = Some (Some boot)"
  shows "ClustMask boot \<in> {CLUST12_MASK, CLUST16_MASK, CLUST32_MASK} \<and> 0 < SecPerClust boot \<and> 0 \<le> ClusterOffset boot \<and>
    ClusterOffset boot < 2 ^ 32 \<and> 0 \<le> NumClusters boot \<and> NumClusters boot < 2 ^ 32 \<and> 0 < BytesPerSec boot \<and>
    BytesPerSec boot mod 512 = 0 \<and> NumClusters boot \<le> fat_entries (ClustMask boot) (FATsecs boot) (BytesPerSec boot)"
proof -
  have u: "0 \<le> to_u32 x" "to_u32 x < 2 ^ 32" for x by (simp_all add: to_u32_def)
  have spc: "0 \<le> uint (block ! 13)" by simp
  have bps: "0 \<le> get16 block 11" by (simp add: get16_def)
  have d: "0 \<le> to_u32 x div y" "to_u32 x div y < 2 ^ 32" if "0 < y" for x y
  proof -
    show "0 \<le> to_u32 x div y" using u(1) [of x] that by (simp add: pos_imp_zdiv_nonneg_iff)
    have "to_u32 x div y \<le> to_u32 x" using zdiv_mono2 [of "to_u32 x" 1 y] u(1) [of x] that by simp
    then show "to_u32 x div y < 2 ^ 32" using u(2) [of x] by simp
  qed
  define secs where "secs = (if get16 block 17 = 0 then get32 block 36 else get16 block 22)"
  define off where "off = to_u32 ((get16 block 17 * 32 + get16 block 11 - 1) div get16 block 11 + get16 block 14 +
    uint (block ! 16) * secs - int CLUST_FIRST * uint (block ! 13))"
  define nsec where "nsec = (if get16 block 19 \<noteq> 0 then get16 block 19 else get32 block 32)"
  define ncl where "ncl = to_u32 (nsec - off) div uint (block ! 13)"
  define msk where "msk = (if get16 block 17 = 0 then CLUST32_MASK else if ncl < uint (CLUST_RSRVD AND CLUST12_MASK) then CLUST12_MASK
    else if ncl < uint (CLUST_RSRVD AND CLUST16_MASK) then CLUST16_MASK else 0)"
  note g = assms [unfolded geometry_of_def Let_def, folded secs_def, folded off_def nsec_def, folded ncl_def, folded msk_def]
  have "msk \<in> {0, CLUST12_MASK, CLUST16_MASK, CLUST32_MASK}" by (simp add: msk_def)
  moreover from g have c: "get16 block 11 \<noteq> 0" "get16 block 11 mod DOSBOOTBLOCKSIZE = 0" "uint (block ! 13) \<noteq> 0"
    "msk \<noteq> 0" "\<not> fat_entries msk secs (get16 block 11) < ncl"
    by (simp_all split: Option.bind_splits if_splits)
  moreover from g c have "ClustMask boot = msk" "SecPerClust boot = uint (block ! 13)" "ClusterOffset boot = off" "NumClusters boot = ncl"
    "BytesPerSec boot = get16 block 11" "FATsecs boot = secs"
    by auto
  moreover have "0 < uint (block ! 13)" using c(3) spc by linarith
  moreover from this have "0 \<le> ncl" "ncl < 2 ^ 32" using d by (simp_all add: ncl_def)
  moreover have "0 < get16 block 11" using c(1) bps by linarith
  moreover have "0 \<le> off" "off < 2 ^ 32" using u by (simp_all add: off_def)
  ultimately show ?thesis by (simp add: DOSBOOTBLOCKSIZE_def)
qed

lemma readboot_facts:
  assumes "readboot cfg start limit = Some (Some boot)"
  shows "\<exists>block. geometry_of block = Some (Some boot)"
  using assms unfolding readboot_def
  by (auto split: Option.bind_splits option.splits if_splits)

lemma table_room:
  assumes "n \<le> fat_entries msk secs bytes" and "int (length b) = to_u32 (secs * bytes)" and "0 \<le> n"
    and "msk \<in> {CLUST12_MASK, CLUST16_MASK, CLUST32_MASK}"
  shows "fat_room msk (nat n) b"
proof -
  have "to_u32 (x * 2) \<le> 2 * to_u32 x" for x
  proof -
    have "to_u32 (x * 2) = (2 * to_u32 x) mod 2 ^ 32" by (simp add: to_u32_def mod_mult_right_eq mult.commute)
    also have "\<dots> \<le> 2 * to_u32 x" by (rule zmod_le_nonneg_dividend) (simp add: to_u32_def)
    finally show ?thesis .
  qed
  from this [of "secs * bytes"] have "to_u32 (secs * bytes * 2) \<le> 2 * int (length b)" using assms(2) by simp
  then have "to_u32 (secs * bytes * 2) div 3 \<le> (2 * int (length b)) div 3" by (rule zdiv_mono1) simp
  moreover obtain m where m: "n = int m" using assms(3) by (rule nonneg_int_cases)
  ultimately have "int m \<le> (if msk = CLUST32_MASK then int (length b) div 4 else if msk = CLUST16_MASK then int (length b) div 2
      else (2 * int (length b)) div 3)"
    using assms(1,2) by (auto simp: fat_entries_def split: if_splits)
  then have "(if msk = CLUST32_MASK then 4 * m else if msk = CLUST16_MASK then 2 * m else (3 * m + 1) div 2) \<le> length b"
    by (auto split: if_splits)
  then show ?thesis by (simp add: fat_room_def m)
qed

text \<open>A file system with sectors of 512 bytes whose last cluster ends in the slice.\<close>

definition fat_in_slice :: "bootblock \<Rightarrow> int \<Rightarrow> int \<Rightarrow> bool" where
  "fat_in_slice boot start sz \<longleftrightarrow> 0 \<le> start \<and> 0 < sz \<and> start + sz < 2 ^ 32 \<and> BytesPerSec boot = secsize \<and> 2 \<le> NumClusters boot \<and>
     cluster_sector boot start (nat (NumClusters boot)) \<le> start + sz"

definition active_fat :: "bootblock \<Rightarrow> int" where
  "active_fat boot = (if ValidFat boot \<ge> 0 then ValidFat boot else 0)"

lemma fat_slice_scanned:
  assumes "readboot cfg start (start + sz) = Some (Some boot)" and "fat_in_slice boot start sz"
    and "readfat_bytes cfg start (start + sz) boot (active_fat boot) = Some (Some b)"
  shows "if fat_sig_ok boot b
    then \<exists>z'. read_fatslice cfg limit0 start sz z = Some (0, z') \<and> freed start (start + sz) (sectors_of boot start (free_clusters boot b)) z z'
    else read_fatslice cfg limit0 start sz z = Some (1, z)"
proof -
  have sl: "0 \<le> start" "0 < sz" "start + sz < 2 ^ 32" "BytesPerSec boot = secsize" "2 \<le> NumClusters boot"
    "cluster_sector boot start (nat (NumClusters boot)) \<le> start + sz" using assms(2) by (simp_all add: fat_in_slice_def)
  obtain block where "geometry_of block = Some (Some boot)" using readboot_facts [OF assms(1)] by blast
  note g = geometry_facts [OF this]
  have fit: "clusters_fit boot start (start + sz)" using g sl by (simp add: clusters_fit_def)
  have len: "int (length b) = to_u32 (FATsecs boot * BytesPerSec boot)"
    using assms(3) by (auto simp: readfat_bytes_def fat_read_def Let_def split: if_splits Option.bind_splits)
  have room: "fat_room (ClustMask boot) (nat (NumClusters boot)) b"
    using table_room [OF _ len] g by blast
  have "int (length b) mod 512 = 0"
  proof -
    have "(512 :: int) dvd FATsecs boot * BytesPerSec boot" using sl(4) by (simp add: secsize_def)
    moreover have "(512 :: int) dvd 2 ^ 32" by simp
    ultimately show ?thesis unfolding len to_u32_def by (simp add: dvd_mod dvd_imp_mod_0)
  qed
  moreover have "length b \<noteq> 0"
  proof
    assume "length b = 0"
    then have "nat (NumClusters boot) = 0" using room by (auto simp: fat_room_def split: if_splits)
    then show False using sl(5) by simp
  qed
  moreover have "int (length b) mod 512 = int (length b)" if "length b < 8"
    by (rule mod_pos_pos_trivial) (use that in simp_all)
  ultimately have "8 \<le> length b" by (metis not_le of_nat_0_eq_iff)
  note rf = readfat_spec [OF fit _ _ sl(5) assms(3) this room, of z]
  have limit: "to_u32 (start + sz) = start + sz" using sl(1-3) by (intro to_u32_id) simp_all
  have k: "secsize div secsize = 1" using sl(4) by (simp add: secsize_def)
  have run: "read_fatslice cfg limit0 start sz z =
      Option.bind (readfat cfg start (start + sz) 1 boot (active_fat boot) z) (\<lambda>f. case f of None \<Rightarrow> Some (1, z) | Some (free, z1) \<Rightarrow> Some (0, z1))"
    unfolding read_fatslice_def
    by (simp only: sl(2) if_True limit Let_def, simp only: assms(1) bind.bind_lunit option.case, simp add: k sl(4) active_fat_def)
  show ?thesis
  proof (cases "fat_sig_ok boot b")
    case True
    then obtain z1 where z1: "readfat cfg start (start + sz) 1 boot (active_fat boot) z = Some (Some (int (card (free_clusters boot b)), z1))"
      "freed (cluster_sector boot start 2) (cluster_sector boot start (nat (NumClusters boot))) (sectors_of boot start (free_clusters boot b)) z z1"
      using rf g by auto
    then show ?thesis using True run freed_mono [OF z1(2) cluster_sector_2 [OF fit] sl(6)] by simp
  next
    case False
    then show ?thesis using rf g run by auto
  qed
qed

section \<open>Properties\<close>


text \<open>A small disk: one empty sector and a slice with a boot block, a table in which only cluster 2 is in use, and seven clusters.\<close>

definition fat_block_example :: "byte list" where
  "fat_block_example = (replicate 512 0)[12 := 2, 13 := 1, 14 := 1, 16 := 1, 17 := 16, 19 := 10, 21 := 0xf8, 22 := 1, 510 := 0x55, 511 := 0xaa]"

definition fat_table_example :: "byte list" where
  "fat_table_example = [0xf8, 0xff, 0xff, 0xff, 0x0f] @ replicate 507 0"

definition fat_disk_example :: izconfig where
  "fat_disk_example = \<lparr>disk = replicate 512 0 @ fat_block_example @ fat_table_example @ replicate 4096 0, incanseek = True, filemode = False,
     inputminsec = 0, inputmaxsec = 11\<rparr>"

definition fat_boot_example :: bootblock where
  "fat_boot_example = \<lparr>BytesPerSec = 512, SecPerClust = 1, ResSectors = 1, FATs = 1, RootDirEnts = 16, Media = 0xf8, FATsecs = 1, ValidFat = - 1,
     ClustMask = CLUST12_MASK, NumSectors = 10, NumClusters = 9, NumFatEntries = 341, ClusterOffset = 1\<rparr>"

lemma example_nth: "i < 512 \<Longrightarrow> fat_block_example ! i =
    (if i = 12 then 2 else if i = 13 \<or> i = 14 \<or> i = 16 \<or> i = 22 then 1 else if i = 17 then 16 else if i = 19 then 10
     else if i = 21 then 0xf8 else if i = 510 then 0x55 else if i = 511 then 0xaa else 0)"
  by (simp add: fat_block_example_def nth_list_update)

lemma example_geometry: "geometry_of fat_block_example = Some (Some fat_boot_example)"
  by (simp add: geometry_of_def get16_def get32_def example_nth fat_boot_example_def fat_entries_def to_u32_def DOSBOOTBLOCKSIZE_def CLUST_FIRST_def
    CLUST_RSRVD_def CLUST12_MASK_def CLUST16_MASK_def CLUST32_MASK_def)

lemma example_boot: "readboot fat_disk_example 1 11 = Some (Some fat_boot_example)"
proof -
  have "devread fat_disk_example 512 512 = fat_block_example"
    by (simp add: devread_def fat_disk_example_def) (simp add: fat_block_example_def)
  moreover have "length fat_block_example = 512" by (simp add: fat_block_example_def)
  ultimately have "fat_read fat_disk_example 1 11 0 DOSBOOTBLOCKSIZE = Some (Some fat_block_example)"
    by (simp add: fat_read_def sectobytes_def secsize_def DOSBOOTBLOCKSIZE_def)
  then show ?thesis by (simp add: readboot_def example_nth example_geometry get16_def)
qed

lemma example_table: "readfat_bytes fat_disk_example 1 11 fat_boot_example (active_fat fat_boot_example) = Some (Some fat_table_example)"
proof -
  have "devread fat_disk_example 1024 512 = fat_table_example"
    by (simp add: devread_def fat_disk_example_def) (simp add: fat_block_example_def fat_table_example_def)
  moreover have "length fat_table_example = 512" by (simp add: fat_table_example_def)
  ultimately show ?thesis
    by (simp add: readfat_bytes_def fat_read_def sectobytes_def secsize_def fat_boot_example_def active_fat_def to_u32_def)
qed

lemma table_nth: "5 \<le> i \<Longrightarrow> i < 512 \<Longrightarrow> fat_table_example ! i = 0" "fat_table_example ! 3 = 0xff" "fat_table_example ! 4 = 0x0f"
  by (simp_all add: fat_table_example_def nth_append)

lemma example_entries:
  "fat_entry CLUST12_MASK fat_table_example 2 = 0xfff" "fat_entry CLUST12_MASK fat_table_example 3 = 0"
  "fat_entry CLUST12_MASK fat_table_example 4 = 0" "fat_entry CLUST12_MASK fat_table_example 5 = 0"
  "fat_entry CLUST12_MASK fat_table_example 6 = 0" "fat_entry CLUST12_MASK fat_table_example 7 = 0"
  "fat_entry CLUST12_MASK fat_table_example 8 = 0"
  by (simp_all add: fat_entry_def get16_def table_nth)

lemma example_free: "free_clusters fat_boot_example fat_table_example = {3..<9}"
proof -
  have "c = 2 \<or> c = 3 \<or> c = 4 \<or> c = 5 \<or> c = 6 \<or> c = 7 \<or> c = 8" if "2 \<le> c" "c < 9" for c :: nat using that by auto
  then have "2 \<le> c \<and> c < 9 \<and> fat_entry CLUST12_MASK fat_table_example c = 0 \<longleftrightarrow> c \<in> {3..<9}" for c
    using example_entries by (cases "2 \<le> c \<and> c < 9") fastforce+
  then show ?thesis unfolding free_clusters_def set_eq_iff mem_Collect_eq by (simp add: fat_boot_example_def)
qed


text \<open>
  A file system with larger sectors. Sector numbers in the file system count units of k sectors of the disk, but the code
  divides by k where it has to multiply: what it reports as free for a run of n clusters lies elsewhere, and when the
  run is not more than three times as long as what is before it, no sector that is reported is one of the free ones.
\<close>

theorem fat_large_sectors:
  assumes "2 \<le> k" and "clusters_fit boot 0 0" and "2 \<le> c" and "0 < n" and "c + n \<le> nat (NumClusters boot)"
    and "0 \<le> offset" and "offset + cluster_sector boot 0 (c + n) < 2 ^ 32" and "int n * SecPerClust boot \<le> 3 * cluster_sector boot 0 c"
  shows "\<exists>a m. fat_addskip boot offset 0 k c n z = Some (addskip a m z) \<and>
    {a..<a + m} \<inter> {offset + k * cluster_sector boot 0 c..<offset + k * cluster_sector boot 0 (c + n)} = {}"
proof -
  define x where "x = cluster_sector boot 0 c"
  define y where "y = int n * SecPerClust boot"
  have spc: "0 < SecPerClust boot" using assms(2) by (simp add: clusters_fit_def)
  have xy: "cluster_sector boot 0 (c + n) = x + y" by (simp add: x_def y_def cluster_sector_add)
  have x: "0 \<le> x" using cluster_sector_2 [OF assms(2)] cluster_sector_mono [OF spc assms(3), of 0] by (simp add: x_def)
  have y: "0 < y" using spc assms(4) by (simp add: y_def)
  have "Some (addskip x y z) = fat_addskip boot 0 0 1 c n z"
    using fat_addskip_spec [OF assms(2-5)] by (simp add: x_def y_def)
  then have "addskip x y z = addskip (to_u32 (to_u32 (int c * SecPerClust boot + ClusterOffset boot))) (to_u32 y) z"
    by (simp add: fat_addskip_def y_def)
  from arg_cong [OF this, of skips] have conv: "to_u32 (to_u32 (int c * SecPerClust boot + ClusterOffset boot)) = x" "to_u32 y = y"
    by (simp_all add: addskip_def)
  then have conv1: "to_u32 (int c * SecPerClust boot + ClusterOffset boot) = x" by (simp add: to_u32_def)
  have le: "x div k \<le> x" "0 \<le> x div k" "0 \<le> y div k" "x div k + y div k \<le> x + y"
    using zdiv_mono2 [of x 1 k] zdiv_mono2 [of y 1 k] x y assms(1) by (simp_all add: pos_imp_zdiv_nonneg_iff)
  have start: "to_u32 (x div k + offset) = x div k + offset"
    by (rule to_u32_id) (use le y assms(6,7) xy in auto)
  have eq: "fat_addskip boot offset 0 k c n z = Some (addskip (x div k + offset) (y div k) z)"
    using assms(1) conv1 conv(2) start by (simp add: fat_addskip_def Let_def y_def)
  have "x div k \<le> x div 2" "y div k \<le> y div 2" using zdiv_mono2 [of x 2 k] zdiv_mono2 [of y 2 k] x y assms(1) by simp_all
  then have "x div k + y div k \<le> 2 * x" using assms(8) unfolding x_def [symmetric] y_def [symmetric] by linarith
  moreover have "2 * x \<le> k * x" using assms(1) x by (simp add: mult_right_mono)
  ultimately have "x div k + offset + y div k \<le> offset + k * x" by simp
  then have "{x div k + offset..<x div k + offset + y div k} \<inter> {offset + k * x..<offset + k * (x + y)} = {}" by auto
  then show ?thesis using eq unfolding xy x_def [symmetric] by blast
qed

theorem fat_large_sectors_witness:
  "fat_addskip (fat_boot_example\<lparr>ClusterOffset := 10, NumClusters := 100\<rparr>) 63 0 8 2 16 izlists_init = Some (addskip 64 2 izlists_init) \<and>
   {64..<66} \<inter> {63 + 8 * 12..<63 + 8 * (28 :: int)} = {}"
proof -
  let ?b = "fat_boot_example\<lparr>ClusterOffset := 10, NumClusters := 100\<rparr>"
  have fit: "clusters_fit ?b 0 0" by (simp add: clusters_fit_def fat_boot_example_def cluster_sector_def data_offset_def)
  have sec: "cluster_sector ?b 0 c = 10 + int c" for c by (simp add: fat_boot_example_def cluster_sector_def data_offset_def)
  have eq: "fat_addskip ?b 63 0 8 2 16 izlists_init = Some (addskip 64 2 izlists_init)"
    by (simp add: fat_addskip_def fat_boot_example_def to_u32_def)
  have "\<exists>a m. fat_addskip ?b 63 0 8 2 16 izlists_init = Some (addskip a m izlists_init) \<and>
      {a..<a + m} \<inter> {63 + 8 * cluster_sector ?b 0 2..<63 + 8 * cluster_sector ?b 0 (2 + 16)} = {}"
    by (rule fat_large_sectors [OF _ fit]) (simp_all only: sec, simp_all add: fat_boot_example_def)
  then show ?thesis unfolding eq sec by (auto simp: addskip_def)
qed

end
