(* ===== verification/ExtScan.thy ===== *)
theory ExtScan
  imports FatScan
begin

text \<open>
  How imagezip finds the free sectors of a Linux file system (clientside/os/imagezip/extfs/extfs.c, with the structures of ext2_fs.h).
  The superblock gives the geometry, the group descriptors say where the bitmap of each group of blocks is, and
  the runs of blocks whose bit is clear are reported with \<^const>\<open>addskip\<close>. A swap partition is free except for its first 32 KB.
  Messages and the count of free blocks, which is only compared for a warning, are left out.
\<close>

section \<open>Structures\<close>

definition LINUX_SUPERBLOCK_OFFSET :: int where "LINUX_SUPERBLOCK_OFFSET = 1024"
definition LINUX_SUPERBLOCK_SIZE :: int where "LINUX_SUPERBLOCK_SIZE = 1024"
definition EXT4_SUPER_MAGIC :: int where "EXT4_SUPER_MAGIC = 0xEF53"
definition EXT4_MIN_BLOCK_SIZE :: int where "EXT4_MIN_BLOCK_SIZE = 1024"
definition EXT4_MAX_BLOCK_SIZE :: int where "EXT4_MAX_BLOCK_SIZE = 65536"
definition EXT4_MIN_DESC_SIZE :: nat where "EXT4_MIN_DESC_SIZE = 32"

record ext_super =
  s_blocks_count_lo :: int
  s_first_data_block :: int
  s_log_block_size :: int
  s_blocks_per_group :: int
  s_magic :: int
  s_incompat :: "32 word"

definition super_at :: "byte list \<Rightarrow> ext_super" where
  "super_at b = \<lparr>s_blocks_count_lo = get32 b 4, s_first_data_block = get32 b 20, s_log_block_size = get32 b 24,
     s_blocks_per_group = get32 b 32, s_magic = get16 b 56, s_incompat = word_of_int (get32 b 96)\<rparr>"

record ext_group =
  bg_block_bitmap_lo :: int
  bg_free_blocks_count_lo :: int
  bg_flags :: "16 word"

definition group_at :: "byte list \<Rightarrow> nat \<Rightarrow> ext_group" where
  "group_at b i = \<lparr>bg_block_bitmap_lo = get32 b i, bg_free_blocks_count_lo = get16 b (i + 12), bg_flags = word_of_int (get16 b (i + 18))\<rparr>"

definition EXT4_BG_BLOCK_UNINIT :: "16 word" where "EXT4_BG_BLOCK_UNINIT = 2"
definition INCOMPAT_64BIT :: "32 word" where "INCOMPAT_64BIT = 0x80"
definition INCOMPAT_FLEX_BG :: "32 word" where "INCOMPAT_FLEX_BG = 0x200"

text \<open>The block size of a superblock; a shift by 32 bits or more is undefined.\<close>

definition EXT4_BLOCK_SIZE :: "ext_super \<Rightarrow> int option" where
  "EXT4_BLOCK_SIZE fs =
     do { c_assert (s_log_block_size fs < 32); Some (to_i32 (EXT4_MIN_BLOCK_SIZE * 2 ^ nat (s_log_block_size fs))) }"

definition EXT4_DESC_PER_BLOCK :: "int \<Rightarrow> nat" where
  "EXT4_DESC_PER_BLOCK bs = nat bs div EXT4_MIN_DESC_SIZE"

section \<open>A group of blocks\<close>

definition isset :: "byte list \<Rightarrow> nat \<Rightarrow> bool" where
  "isset p i = bit (p ! (i div 8)) (i mod 8)"

definition LINUX_FSBTODB :: "int \<Rightarrow> int \<Rightarrow> int" where
  "LINUX_FSBTODB bs cnt = to_u32 ((bs div secsize) * cnt)"

text \<open>The last block of a run of free blocks.\<close>

function run_end :: "byte list \<Rightarrow> nat \<Rightarrow> nat \<Rightarrow> nat" where
  "run_end p i n = (if i + 1 < n \<and> \<not> isset p (i + 1) then run_end p (i + 1) n else i)"
  by pat_completeness auto

termination
  by (relation "measure (\<lambda>(p, i, n). n - i)") auto

declare run_end.simps [simp del]

lemma run_end_ge: "i \<le> run_end p i n"
  by (induction p i n rule: run_end.induct) (subst run_end.simps, auto)

text \<open>\<open>base\<close> is the sector of the first block of the group.\<close>

function bitmap_loop :: "int \<Rightarrow> int \<Rightarrow> byte list \<Rightarrow> nat \<Rightarrow> nat \<Rightarrow> izlists \<Rightarrow> izlists" where
  "bitmap_loop bs base p i n z =
     (if i \<ge> n then z
      else if isset p i then bitmap_loop bs base p (i + 1) n z
      else
        let e = run_end p i n in
        bitmap_loop bs base p (e + 1) n
          (addskip (to_u32 (base + LINUX_FSBTODB bs (int i))) (LINUX_FSBTODB bs (int (e - i) + 1)) z))"
  by pat_completeness auto

termination
  by (relation "measure (\<lambda>(bs, base, p, i, n, z). n - i)") (auto intro: diff_less_mono2 simp: le_imp_less_Suc [OF run_end_ge] less_le_trans)

definition read_ext4group :: "izconfig \<Rightarrow> ext_super \<Rightarrow> int \<Rightarrow> ext_group \<Rightarrow> int \<Rightarrow> int \<Rightarrow> izlists \<Rightarrow> (int \<times> izlists) option" where
  "read_ext4group cfg fs bs g ix sliceoffset z =
     (let bpg = s_blocks_per_group fs; block = to_u32 (s_first_data_block fs + ix * bpg);
          base = sliceoffset + LINUX_FSBTODB bs (to_u32 (ix * bpg)) + LINUX_FSBTODB bs (s_first_data_block fs) in
      if s_incompat fs AND INCOMPAT_FLEX_BG = 0 \<and> (bg_block_bitmap_lo g < block \<or> bg_block_bitmap_lo g \<ge> block + bpg) then Some (1, z)
      else if bg_flags g AND EXT4_BG_BLOCK_UNINIT \<noteq> 0 then
        Some (0, addskip (to_u32 base) (LINUX_FSBTODB bs (bg_free_blocks_count_lo g)) z)
      else
        let offset = sectobytes sliceoffset + bs * bg_block_bitmap_lo g in do {
          c_assert (offset mod 512 = 0);
          if bpg > bs * 8 then Some (1, z)
          else
            let bitmap = devread cfg offset bs in
            if int (length bitmap) \<noteq> bs then Some (1, z)
            else
              let m = to_i32 (s_blocks_count_lo fs - block); mx = (if to_u32 m > bpg then bpg else m) in
              Some (0, bitmap_loop bs base bitmap 0 (nat mx) z)
        })"

section \<open>A slice\<close>

text \<open>The group descriptors are read block by block; \<open>groups\<close> is the block that was read last.\<close>

fun group_loop :: "izconfig \<Rightarrow> ext_super \<Rightarrow> int \<Rightarrow> int \<Rightarrow> nat \<Rightarrow> nat \<Rightarrow> int \<Rightarrow> byte list \<Rightarrow> izlists \<Rightarrow> (int \<times> izlists) option" where
  "group_loop cfg fs bs start i 0 soff groups z = Some (0, z)"
| "group_loop cfg fs bs start i (Suc n) soff groups z =
     (let gix = i mod EXT4_DESC_PER_BLOCK bs in do {
        c_assert (gix = 0 \<longrightarrow> soff mod 512 = 0);
        let b = (if gix = 0 then devread cfg soff bs else groups);
            soff1 = (if gix = 0 then soff + bs else soff) in
        if gix = 0 \<and> int (length b) \<noteq> bs then Some (1, z)
        else do {
          (rval, z1) \<leftarrow> read_ext4group cfg fs bs (group_at b (gix * EXT4_MIN_DESC_SIZE)) (int i) start z;
          if rval \<noteq> 0 then Some (rval, z1) else group_loop cfg fs bs start (i + 1) n soff1 b z1
        }
      })"

definition read_linuxslice :: "izconfig \<Rightarrow> bool \<Rightarrow> bool \<Rightarrow> bool \<Rightarrow> int \<Rightarrow> int \<Rightarrow> izlists \<Rightarrow> (int \<times> izlists) option" where
  "read_linuxslice cfg dorelocs forcerelocs excludenonfs start sz z = do {
     (lilo, found, z1) \<leftarrow> (if dorelocs \<and> (start > 0 \<or> forcerelocs) then fixup_lilo cfg start sz z else Some (0, None, z));
     if lilo \<noteq> 0 then Some (1, z1)
     else
       let b = devread cfg (sectobytes start + LINUX_SUPERBLOCK_OFFSET) LINUX_SUPERBLOCK_SIZE; fs = super_at b in
       if int (length b) \<noteq> LINUX_SUPERBLOCK_SIZE \<or> s_magic fs \<noteq> EXT4_SUPER_MAGIC then Some (1, z1)
       else do {
         bs \<leftarrow> EXT4_BLOCK_SIZE fs;
         if bs < EXT4_MIN_BLOCK_SIZE \<or> bs > EXT4_MAX_BLOCK_SIZE \<or> s_incompat fs AND INCOMPAT_64BIT \<noteq> 0 then Some (1, z1)
         else
           let fssect = bytestosec (bs * s_blocks_count_lo fs);
               z2 = (if excludenonfs \<and> fssect < sz then addskip (to_u32 (start + fssect)) (sz - fssect) z1 else z1) in do {
             c_assert (s_blocks_per_group fs \<noteq> 0);
             let numgroups = to_u32 (to_u32 (s_blocks_count_lo fs - s_first_data_block fs) + (s_blocks_per_group fs - 1)) div s_blocks_per_group fs;
                 soff = sectobytes start + to_u32 ((s_first_data_block fs + 1) * bs) in
             group_loop cfg fs bs start 0 (nat (to_i32 numgroups)) soff [] z2
           }
       }
   }"

definition read_linuxswap :: "int \<Rightarrow> int \<Rightarrow> izlists \<Rightarrow> int \<times> izlists" where
  "read_linuxswap start sz z = (0, addskip (to_u32 (start + bytestosec 0x8000)) (to_u32 (sz - bytestosec 0x8000)) z)"

section \<open>What a bitmap says\<close>

definition unit_sectors :: "int \<Rightarrow> int \<Rightarrow> nat set \<Rightarrow> int set" where
  "unit_sectors base spb J = (\<Union>j \<in> J. {base + int j * spb..<base + int (j + 1) * spb})"

lemma unit_sectors_Un: "unit_sectors base spb (A \<union> B) = unit_sectors base spb A \<union> unit_sectors base spb B"
  by (simp add: unit_sectors_def)

lemma unit_sectors_run:
  assumes "0 < spb" and "a \<le> b"
  shows "unit_sectors base spb {a..<b} = {base + int a * spb..<base + int b * spb}"
  using assms(2)
proof (induction b rule: dec_induct)
  case base
  then show ?case by (simp add: unit_sectors_def)
next
  case (step b)
  have "{a..<Suc b} = insert b {a..<b}" using step.hyps by auto
  then have "unit_sectors base spb {a..<Suc b} =
      {base + int a * spb..<base + int b * spb} \<union> {base + int b * spb..<base + int (Suc b) * spb}"
    using step.IH by (auto simp: unit_sectors_def)
  moreover have "int a * spb \<le> int b * spb" "int b * spb \<le> int (Suc b) * spb"
    using assms(1) step.hyps by (simp_all add: mult_right_mono)
  ultimately show ?case by (simp add: ivl_disj_un_two(3))
qed

lemma run_end_spec: "i < n \<Longrightarrow> run_end p i n < n \<and> (\<forall>j. i < j \<and> j \<le> run_end p i n \<longrightarrow> \<not> isset p j)"
proof (induction p i n rule: run_end.induct)
  case (1 p i n)
  show ?case
  proof (cases "i + 1 < n \<and> \<not> isset p (i + 1)")
    case True
    then have IH: "run_end p (i + 1) n < n" "\<forall>j. i + 1 < j \<and> j \<le> run_end p (i + 1) n \<longrightarrow> \<not> isset p j" using 1(1) by auto
    have "\<not> isset p j" if "i < j" "j \<le> run_end p (i + 1) n" for j
    proof (cases "j = i + 1")
      case True
      then show ?thesis using \<open>i + 1 < n \<and> \<not> isset p (i + 1)\<close> by simp
    next
      case False
      then show ?thesis using IH(2) that by simp
    qed
    then show ?thesis using True IH(1) by (subst (1 2) run_end.simps) auto
  next
    case False
    then show ?thesis using 1(2) by (subst (1 2) run_end.simps) auto
  qed
qed

declare bitmap_loop.simps [simp del]

lemma bitmap_loop_spec:
  assumes "bs = spb * secsize" and "0 < spb" and "to_u32 base = a" and "a + int n * spb < 2 ^ 32" and "0 \<le> a"
  shows "i \<le> n \<Longrightarrow> freed (a + int i * spb) (a + int n * spb) (unit_sectors a spb {j. i \<le> j \<and> j < n \<and> \<not> isset p j}) z (bitmap_loop bs base p i n z)"
proof (induction "n - i" arbitrary: i z rule: less_induct)
  case less
  have spb: "bs div secsize = spb" using assms(1) by (simp add: secsize_def)
  show ?case
  proof (cases "i = n")
    case True
    then have "unit_sectors a spb {j. i \<le> j \<and> j < n \<and> \<not> isset p j} = {}" by (auto simp: unit_sectors_def)
    then show ?thesis using True freed_none by (subst bitmap_loop.simps) simp
  next
    case False
    then have lt: "i < n" using less.prems by simp
    show ?thesis
    proof (cases "isset p i")
      case True
      have "{j. i \<le> j \<and> j < n \<and> \<not> isset p j} = {j. i + 1 \<le> j \<and> j < n \<and> \<not> isset p j}"
        using True by (auto simp: Suc_le_eq le_less)
      moreover have "freed (a + int (i + 1) * spb) (a + int n * spb) (unit_sectors a spb {j. i + 1 \<le> j \<and> j < n \<and> \<not> isset p j}) z
          (bitmap_loop bs base p (i + 1) n z)"
        by (rule less.hyps) (use lt in auto)
      moreover have "a + int i * spb \<le> a + int (i + 1) * spb" using assms(2) by (simp add: mult_right_mono)
      ultimately show ?thesis using True lt by (subst bitmap_loop.simps) (auto intro: freed_mono)
    next
      case clear: False
      define e where "e = run_end p i n"
      have e: "i \<le> e" "e < n" "\<forall>j. i < j \<and> j \<le> e \<longrightarrow> \<not> isset p j"
        using run_end_ge [of i p n] run_end_spec [OF lt, of p] by (simp_all add: e_def)
      have le: "int (e + 1) * spb \<le> int n * spb" "int i * spb < int (e + 1) * spb"
        using e assms(2) by (auto intro: mult_right_mono mult_strict_right_mono)
      have cnt: "int (e - i) + 1 = int (e + 1) - int i" using e(1) by simp
      have pos: "0 \<le> int i * spb" using assms(2) by simp
      have start: "to_u32 (base + LINUX_FSBTODB bs (int i)) = a + int i * spb"
      proof -
        have "to_u32 (base + LINUX_FSBTODB bs (int i)) = to_u32 (to_u32 base + int i * spb)"
          by (simp add: LINUX_FSBTODB_def spb to_u32_def mod_simps mult.commute)
        also have "\<dots> = a + int i * spb" unfolding assms(3) by (rule to_u32_id) (use assms(4,5) le pos in linarith)+
        finally show ?thesis .
      qed
      have n: "LINUX_FSBTODB bs (int (e - i) + 1) = int (e + 1) * spb - int i * spb"
      proof -
        have "LINUX_FSBTODB bs (int (e - i) + 1) = to_u32 (int (e + 1) * spb - int i * spb)"
          unfolding LINUX_FSBTODB_def spb cnt by (simp add: algebra_simps)
        also have "\<dots> = int (e + 1) * spb - int i * spb" by (rule to_u32_id) (use assms(4,5) le pos in linarith)+
        finally show ?thesis .
      qed
      let ?z1 = "addskip (a + int i * spb) (int (e + 1) * spb - int i * spb) z"
      have "freed (a + int i * spb) (a + int (e + 1) * spb) {a + int i * spb..<a + int (e + 1) * spb} z ?z1"
        using freed_skip [of "int (e + 1) * spb - int i * spb" "a + int i * spb" z] le(2) by simp
      then have 1: "freed (a + int i * spb) (a + int (e + 1) * spb) (unit_sectors a spb {i..<e + 1}) z ?z1"
        using unit_sectors_run [OF assms(2), of i "e + 1" a] e(1) by simp
      have 2: "freed (a + int (e + 1) * spb) (a + int n * spb) (unit_sectors a spb {j. e + 1 \<le> j \<and> j < n \<and> \<not> isset p j}) ?z1
          (bitmap_loop bs base p (e + 1) n ?z1)"
        by (rule less.hyps) (use lt e in auto)
      have run: "\<not> isset p j" if "i \<le> j" "j \<le> e" for j using clear e(3) that by (cases "j = i") auto
      have "{j. i \<le> j \<and> j < n \<and> \<not> isset p j} = {i..<e + 1} \<union> {j. e + 1 \<le> j \<and> j < n \<and> \<not> isset p j}"
        using run e(1,2) by (auto simp: not_le less_Suc_eq_le)
      then have "freed (a + int i * spb) (a + int n * spb) (unit_sectors a spb {j. i \<le> j \<and> j < n \<and> \<not> isset p j}) z
          (bitmap_loop bs base p (e + 1) n ?z1)"
        unfolding unit_sectors_Un using freed_trans [OF 1 2] le by (simp add: unit_sectors_Un)
      then show ?thesis using lt clear by (subst bitmap_loop.simps) (simp add: Let_def e_def [symmetric] start n)
    qed
  qed
qed

section \<open>Groups\<close>

definition spb :: "int \<Rightarrow> int" where
  "spb bs = bs div secsize"

text \<open>The file system fits into the slice.\<close>

definition ext_fits :: "ext_super \<Rightarrow> int \<Rightarrow> int \<Rightarrow> int \<Rightarrow> bool" where
  "ext_fits fs bs start sz \<longleftrightarrow> bs = spb bs * secsize \<and> 2 \<le> spb bs \<and> 0 < s_blocks_per_group fs \<and> s_blocks_per_group fs \<le> bs * 8 \<and>
     bs \<le> EXT4_MAX_BLOCK_SIZE \<and> 0 \<le> s_first_data_block fs \<and> s_first_data_block fs < s_blocks_count_lo fs \<and> 0 \<le> start \<and>
     s_blocks_count_lo fs * spb bs \<le> sz \<and> start + sz < 2 ^ 32"

definition group_block :: "ext_super \<Rightarrow> nat \<Rightarrow> int" where
  "group_block fs g = min (s_blocks_count_lo fs) (s_first_data_block fs + int g * s_blocks_per_group fs)"

definition group_sector :: "ext_super \<Rightarrow> int \<Rightarrow> int \<Rightarrow> nat \<Rightarrow> int" where
  "group_sector fs bs start g = start + group_block fs g * spb bs"

definition group_free :: "ext_super \<Rightarrow> byte list \<Rightarrow> nat \<Rightarrow> nat set" where
  "group_free fs bitmap g = {j. j < nat (group_block fs (g + 1) - group_block fs g) \<and> \<not> isset bitmap j}"

definition group_bitmap :: "izconfig \<Rightarrow> int \<Rightarrow> int \<Rightarrow> ext_group \<Rightarrow> byte list" where
  "group_bitmap cfg bs start d = devread cfg (sectobytes start + bs * bg_block_bitmap_lo d) bs"

definition bitmap_in_range :: "ext_super \<Rightarrow> nat \<Rightarrow> ext_group \<Rightarrow> bool" where
  "bitmap_in_range fs g d \<longleftrightarrow> s_incompat fs AND INCOMPAT_FLEX_BG \<noteq> 0 \<or>
     (s_first_data_block fs + int g * s_blocks_per_group fs \<le> bg_block_bitmap_lo d \<and>
      bg_block_bitmap_lo d < s_first_data_block fs + int g * s_blocks_per_group fs + s_blocks_per_group fs)"

lemma count_small: "ext_fits fs bs start sz \<Longrightarrow> 2 * s_blocks_count_lo fs < 2 ^ 32"
proof -
  assume f: "ext_fits fs bs start sz"
  then have "s_blocks_count_lo fs * 2 \<le> s_blocks_count_lo fs * spb bs" by (intro mult_left_mono) (simp_all add: ext_fits_def)
  moreover have "0 \<le> start" "s_blocks_count_lo fs * spb bs \<le> sz" "start + sz < 2 ^ 32" using f by (simp_all add: ext_fits_def)
  ultimately show ?thesis by linarith
qed

lemma to_u32_sum: "to_u32 (x + to_u32 y + to_u32 z) = to_u32 (x + y + z)"
  unfolding to_u32_def by (metis mod_add_left_eq mod_add_right_eq)

lemma group_base:
  assumes "ext_fits fs bs start sz" and "s_first_data_block fs + int g * s_blocks_per_group fs < s_blocks_count_lo fs"
  shows "group_block fs g = s_first_data_block fs + int g * s_blocks_per_group fs"
    and "to_u32 (s_first_data_block fs + int g * s_blocks_per_group fs) = group_block fs g"
    and "to_u32 (start + LINUX_FSBTODB bs (to_u32 (int g * s_blocks_per_group fs)) + LINUX_FSBTODB bs (s_first_data_block fs)) =
      group_sector fs bs start g"
    and "group_sector fs bs start g < group_sector fs bs start (g + 1)" and "start \<le> group_sector fs bs start g"
    and "group_sector fs bs start (g + 1) \<le> start + sz"
proof -
  have f: "2 \<le> spb bs" "0 < s_blocks_per_group fs" "0 \<le> s_first_data_block fs" "0 \<le> start" "s_blocks_count_lo fs * spb bs \<le> sz" "start + sz < 2 ^ 32"
    using assms(1) by (simp_all add: ext_fits_def)
  have pos: "0 \<le> int g * s_blocks_per_group fs" using f(2) by simp
  show gb: "group_block fs g = s_first_data_block fs + int g * s_blocks_per_group fs" using assms(2) by (simp add: group_block_def)
  show "to_u32 (s_first_data_block fs + int g * s_blocks_per_group fs) = group_block fs g"
    unfolding gb by (rule to_u32_id) (use f(3) pos assms(2) count_small [OF assms(1)] in linarith)+
  have lt: "group_block fs g < group_block fs (g + 1)" "group_block fs (g + 1) \<le> s_blocks_count_lo fs"
    using assms(2) f(2) by (simp_all add: group_block_def algebra_simps)
  then show "group_sector fs bs start g < group_sector fs bs start (g + 1)" using f(1) by (simp add: group_sector_def)
  show ge: "start \<le> group_sector fs bs start g" unfolding group_sector_def gb using f(1,3) pos by simp
  have "group_block fs (g + 1) * spb bs \<le> s_blocks_count_lo fs * spb bs" using lt(2) f(1) by (simp add: mult_right_mono)
  then show le: "group_sector fs bs start (g + 1) \<le> start + sz" using f(5) by (simp add: group_sector_def)
  have "to_u32 (int g * s_blocks_per_group fs) = int g * s_blocks_per_group fs"
    by (rule to_u32_id) (use f(3) pos assms(2) count_small [OF assms(1)] in linarith)+
  then have "to_u32 (start + LINUX_FSBTODB bs (to_u32 (int g * s_blocks_per_group fs)) + LINUX_FSBTODB bs (s_first_data_block fs)) =
      to_u32 (group_sector fs bs start g)"
    unfolding group_sector_def gb LINUX_FSBTODB_def spb_def [symmetric] to_u32_sum by (simp add: algebra_simps)
  also have "\<dots> = group_sector fs bs start g"
    by (rule to_u32_id) (use f(4,6) ge le \<open>group_sector fs bs start g < group_sector fs bs start (g + 1)\<close> in linarith)+
  finally show "to_u32 (start + LINUX_FSBTODB bs (to_u32 (int g * s_blocks_per_group fs)) + LINUX_FSBTODB bs (s_first_data_block fs)) =
      group_sector fs bs start g" .
qed

lemma read_ext4group_spec:
  assumes "ext_fits fs bs start sz" and "s_first_data_block fs + int g * s_blocks_per_group fs < s_blocks_count_lo fs"
    and "bitmap_in_range fs g d" and "bg_flags d AND EXT4_BG_BLOCK_UNINIT = 0" and "int (length (group_bitmap cfg bs start d)) = bs"
  shows "\<exists>z'. read_ext4group cfg fs bs d (int g) start z = Some (0, z') \<and>
    freed (group_sector fs bs start g) (group_sector fs bs start (g + 1))
      (unit_sectors (group_sector fs bs start g) (spb bs) (group_free fs (group_bitmap cfg bs start d) g)) z z'"
proof -
  note gb = group_base [OF assms(1,2)]
  have f: "bs = spb bs * secsize" "2 \<le> spb bs" "0 < s_blocks_per_group fs" "s_blocks_per_group fs \<le> bs * 8" "0 \<le> start" "start + sz < 2 ^ 32"
    "bs \<le> EXT4_MAX_BLOCK_SIZE" using assms(1) by (simp_all add: ext_fits_def)
  define n where "n = nat (group_block fs (g + 1) - group_block fs g)"
  have lt: "group_block fs g < group_block fs (g + 1)" using gb(4) f(2) by (simp add: group_sector_def)
  then have n: "int n = group_block fs (g + 1) - group_block fs g" by (simp add: n_def)
  have m: "to_i32 (s_blocks_count_lo fs - group_block fs g) = s_blocks_count_lo fs - group_block fs g"
    "to_u32 (s_blocks_count_lo fs - group_block fs g) = s_blocks_count_lo fs - group_block fs g"
  proof -
    have c: "0 \<le> s_blocks_count_lo fs - group_block fs g" "2 * (s_blocks_count_lo fs - group_block fs g) < 2 ^ 32"
    proof -
      have "0 \<le> int g * s_blocks_per_group fs" "0 \<le> s_first_data_block fs" using f(3) assms(1) by (simp_all add: ext_fits_def)
      then have "0 \<le> group_block fs g" "0 \<le> s_blocks_count_lo fs - group_block fs g" using gb(1) assms(2) by linarith+
      then show "0 \<le> s_blocks_count_lo fs - group_block fs g" "2 * (s_blocks_count_lo fs - group_block fs g) < 2 ^ 32"
        using count_small [OF assms(1)] by simp_all
    qed
    show "to_i32 (s_blocks_count_lo fs - group_block fs g) = s_blocks_count_lo fs - group_block fs g"
      by (rule to_i32_id) (use c in simp_all)
    show "to_u32 (s_blocks_count_lo fs - group_block fs g) = s_blocks_count_lo fs - group_block fs g"
      by (rule to_u32_id) (use c in simp_all)
  qed
  have mx: "nat (if s_blocks_count_lo fs - group_block fs g > s_blocks_per_group fs then s_blocks_per_group fs
      else s_blocks_count_lo fs - group_block fs g) = n"
    using gb(1) by (auto simp: n_def group_block_def algebra_simps)
  have al: "(sectobytes start + bs * bg_block_bitmap_lo d) mod 512 = 0"
    by (subst f(1)) (simp add: sectobytes_def secsize_def mod_eq_0_iff_dvd)
  have rng: "\<not> (s_incompat fs AND INCOMPAT_FLEX_BG = 0 \<and> (bg_block_bitmap_lo d < group_block fs g \<or>
      bg_block_bitmap_lo d \<ge> group_block fs g + s_blocks_per_group fs))"
    using assms(3) unfolding gb(1) bitmap_in_range_def by auto
  let ?base = "start + LINUX_FSBTODB bs (to_u32 (int g * s_blocks_per_group fs)) + LINUX_FSBTODB bs (s_first_data_block fs)"
  let ?p = "group_bitmap cfg bs start d"
  have eq: "read_ext4group cfg fs bs d (int g) start z = Some (0, bitmap_loop bs ?base ?p 0 n z)"
    using assms(4,5) f(4) rng al unfolding read_ext4group_def Let_def gb(2) m mx group_bitmap_def [symmetric]
    by (simp add: group_bitmap_def)
  have end_: "group_sector fs bs start g + int n * spb bs = group_sector fs bs start (g + 1)"
    by (simp add: n group_sector_def algebra_simps)
  have "freed (group_sector fs bs start g + int 0 * spb bs) (group_sector fs bs start g + int n * spb bs)
      (unit_sectors (group_sector fs bs start g) (spb bs) {j. 0 \<le> j \<and> j < n \<and> \<not> isset ?p j}) z (bitmap_loop bs ?base ?p 0 n z)"
    by (rule bitmap_loop_spec [OF f(1) _ gb(3)]) (use f end_ gb(5,6) in simp_all)
  then show ?thesis using eq unfolding end_ by (simp add: group_free_def n_def)
qed

section \<open>All groups\<close>

definition desc_block :: "izconfig \<Rightarrow> ext_super \<Rightarrow> int \<Rightarrow> int \<Rightarrow> nat \<Rightarrow> byte list" where
  "desc_block cfg fs bs start k = devread cfg (sectobytes start + to_u32 ((s_first_data_block fs + 1) * bs) + int k * bs) bs"

definition group_desc :: "izconfig \<Rightarrow> ext_super \<Rightarrow> int \<Rightarrow> int \<Rightarrow> nat \<Rightarrow> ext_group" where
  "group_desc cfg fs bs start g =
     group_at (desc_block cfg fs bs start (g div EXT4_DESC_PER_BLOCK bs)) (g mod EXT4_DESC_PER_BLOCK bs * EXT4_MIN_DESC_SIZE)"

definition group_ready :: "izconfig \<Rightarrow> ext_super \<Rightarrow> int \<Rightarrow> int \<Rightarrow> nat \<Rightarrow> bool" where
  "group_ready cfg fs bs start g \<longleftrightarrow>
     (let d = group_desc cfg fs bs start g in
      int (length (desc_block cfg fs bs start (g div EXT4_DESC_PER_BLOCK bs))) = bs \<and> bitmap_in_range fs g d \<and>
      bg_flags d AND EXT4_BG_BLOCK_UNINIT = 0 \<and> int (length (group_bitmap cfg bs start d)) = bs)"

definition group_sectors :: "izconfig \<Rightarrow> ext_super \<Rightarrow> int \<Rightarrow> int \<Rightarrow> nat \<Rightarrow> int set" where
  "group_sectors cfg fs bs start g =
     unit_sectors (group_sector fs bs start g) (spb bs) (group_free fs (group_bitmap cfg bs start (group_desc cfg fs bs start g)) g)"

lemma blocks_read:
  assumes "0 < (D :: nat)"
  shows "(i + D - 1) div D = (if i mod D = 0 then i div D else i div D + 1)" and "(i + 1 + D - 1) div D = i div D + 1"
proof -
  show "(i + 1 + D - 1) div D = i div D + 1" using assms div_add_self2 [of D i] by simp
  show "(i + D - 1) div D = (if i mod D = 0 then i div D else i div D + 1)"
  proof (cases "i mod D = 0")
    case True
    then have "i + D - 1 = (D - 1) + i div D * D" using assms by (metis add.commute Nat.add_diff_assoc div_mult_mod_eq add.right_neutral Suc_leI One_nat_def)
    then have "(i + D - 1) div D = ((D - 1) + i div D * D) div D" by simp
    also have "\<dots> = i div D" using assms by (subst div_mult_self1) simp_all
    finally show ?thesis using True by simp
  next
    case False
    then have "i + D - 1 = (i mod D - 1) + (i div D + 1) * D" using div_mult_mod_eq [of i D] by simp
    then have "(i + D - 1) div D = ((i mod D - 1) + (i div D + 1) * D) div D" by simp
    also have "\<dots> = i div D + 1 + (i mod D - 1) div D" using assms by (subst div_mult_self1) simp_all
    also have "(i mod D - 1) div D = 0" using mod_less_divisor [OF assms, of i] by (intro div_less) linarith
    finally show ?thesis using False by simp
  qed
qed

lemma next_in_block: "(i + 1) mod D \<noteq> 0 \<Longrightarrow> (i + 1) div D = i div (D :: nat)"
  by (metis Suc_eq_plus1 div_Suc)

lemma group_loop_spec:
  assumes "ext_fits fs bs start sz"
    and "\<forall>g. i \<le> g \<and> g < i + n \<longrightarrow> s_first_data_block fs + int g * s_blocks_per_group fs < s_blocks_count_lo fs \<and> group_ready cfg fs bs start g"
    and "soff = sectobytes start + to_u32 ((s_first_data_block fs + 1) * bs) +
      int ((i + EXT4_DESC_PER_BLOCK bs - 1) div EXT4_DESC_PER_BLOCK bs) * bs"
    and "i mod EXT4_DESC_PER_BLOCK bs \<noteq> 0 \<longrightarrow> groups = desc_block cfg fs bs start (i div EXT4_DESC_PER_BLOCK bs)"
  shows "\<exists>z'. group_loop cfg fs bs start i n soff groups z = Some (0, z') \<and>
    freed (group_sector fs bs start i) (group_sector fs bs start (i + n)) (\<Union>g \<in> {i..<i + n}. group_sectors cfg fs bs start g) z z'"
  using assms(2-4)
proof (induction n arbitrary: i soff groups z)
  case 0
  then show ?case using freed_none by simp
next
  case (Suc n)
  define D where "D = EXT4_DESC_PER_BLOCK bs"
  have f: "bs = spb bs * secsize" "2 \<le> spb bs" using assms(1) by (simp_all add: ext_fits_def)
  have bs: "1024 \<le> bs" by (subst f(1)) (use f(2) in \<open>simp add: secsize_def\<close>)
  have D: "0 < D"
  proof -
    have "32 \<le> nat bs" using bs by simp
    then show ?thesis by (simp add: D_def EXT4_DESC_PER_BLOCK_def EXT4_MIN_DESC_SIZE_def div_greater_zero_iff)
  qed
  note rd = blocks_read [OF D, of i]
  have i: "s_first_data_block fs + int i * s_blocks_per_group fs < s_blocks_count_lo fs" "group_ready cfg fs bs start i"
    using Suc.prems(1) by simp_all
  let ?d = "group_desc cfg fs bs start i"
  have ready: "int (length (desc_block cfg fs bs start (i div D))) = bs" "bitmap_in_range fs i ?d" "bg_flags ?d AND EXT4_BG_BLOCK_UNINIT = 0"
    "int (length (group_bitmap cfg bs start ?d)) = bs"
    using i(2) by (simp_all add: group_ready_def Let_def D_def)
  define soff1 where "soff1 = (if i mod D = 0 then soff + bs else soff)"
  have al: "soff mod 512 = 0"
  proof -
    have "512 dvd bs" by (subst f(1)) (simp add: secsize_def)
    moreover from this have "512 dvd to_u32 ((s_first_data_block fs + 1) * bs)" by (simp add: to_u32_def dvd_mod)
    ultimately have "512 dvd soff" unfolding Suc.prems(2) by (intro dvd_add) (simp_all add: sectobytes_def secsize_def)
    then show ?thesis by simp
  qed
  have b: "(if i mod D = 0 then devread cfg soff bs else groups) = desc_block cfg fs bs start (i div D)"
    using Suc.prems(2,3) rd(1) by (auto simp: D_def desc_block_def)
  obtain z1 where z1: "read_ext4group cfg fs bs ?d (int i) start z = Some (0, z1)"
    "freed (group_sector fs bs start i) (group_sector fs bs start (i + 1)) (group_sectors cfg fs bs start i) z z1"
    using read_ext4group_spec [OF assms(1) i(1) ready(2-4)] unfolding group_sectors_def by blast
  have eq: "group_loop cfg fs bs start i (Suc n) soff groups z =
      group_loop cfg fs bs start (i + 1) n soff1 (desc_block cfg fs bs start (i div D)) z1"
    using z1(1) al ready(1) unfolding group_loop.simps Let_def D_def [symmetric] b
    by (simp add: group_desc_def D_def [symmetric] soff1_def)
  have "\<exists>z'. group_loop cfg fs bs start (i + 1) n soff1 (desc_block cfg fs bs start (i div D)) z1 = Some (0, z') \<and>
      freed (group_sector fs bs start (i + 1)) (group_sector fs bs start (i + 1 + n))
        (\<Union>g \<in> {i + 1..<i + 1 + n}. group_sectors cfg fs bs start g) z1 z'"
  proof (rule Suc.IH)
    show "\<forall>g. i + 1 \<le> g \<and> g < i + 1 + n \<longrightarrow>
        s_first_data_block fs + int g * s_blocks_per_group fs < s_blocks_count_lo fs \<and> group_ready cfg fs bs start g"
      using Suc.prems(1) by simp
    show "soff1 = sectobytes start + to_u32 ((s_first_data_block fs + 1) * bs) +
        int ((i + 1 + EXT4_DESC_PER_BLOCK bs - 1) div EXT4_DESC_PER_BLOCK bs) * bs"
      unfolding D_def [symmetric] rd(2) using Suc.prems(2) unfolding D_def [symmetric] rd(1)
      by (simp add: soff1_def algebra_simps)
    show "(i + 1) mod EXT4_DESC_PER_BLOCK bs \<noteq> 0 \<longrightarrow>
        desc_block cfg fs bs start (i div D) = desc_block cfg fs bs start ((i + 1) div EXT4_DESC_PER_BLOCK bs)"
      using next_in_block [of i D] by (simp add: D_def)
  qed
  then obtain z' where z': "group_loop cfg fs bs start (i + 1) n soff1 (desc_block cfg fs bs start (i div D)) z1 = Some (0, z')"
    "freed (group_sector fs bs start (i + 1)) (group_sector fs bs start (i + 1 + n))
        (\<Union>g \<in> {i + 1..<i + 1 + n}. group_sectors cfg fs bs start g) z1 z'" by blast
  have "group_sector fs bs start a \<le> group_sector fs bs start b" if "a \<le> b" for a b
  proof -
    have "int a * s_blocks_per_group fs \<le> int b * s_blocks_per_group fs"
      using that assms(1) by (intro mult_right_mono) (simp_all add: ext_fits_def)
    then have "group_block fs a \<le> group_block fs b" by (simp add: group_block_def)
    then show ?thesis using f(2) by (simp add: group_sector_def mult_right_mono)
  qed
  then have "freed (group_sector fs bs start i) (group_sector fs bs start (i + 1 + n))
      (group_sectors cfg fs bs start i \<union> (\<Union>g \<in> {i + 1..<i + 1 + n}. group_sectors cfg fs bs start g)) z z'"
    using freed_trans [OF z1(2) z'(2)] by simp
  moreover have "{i..<i + Suc n} = insert i {i + 1..<i + 1 + n}" by auto
  ultimately show ?case using eq z'(1) by simp
qed

section \<open>A slice with a Linux file system\<close>

definition ext_super_ok :: "izconfig \<Rightarrow> int \<Rightarrow> ext_super \<Rightarrow> int \<Rightarrow> bool" where
  "ext_super_ok cfg start fs bs \<longleftrightarrow>
     (let b = devread cfg (sectobytes start + LINUX_SUPERBLOCK_OFFSET) LINUX_SUPERBLOCK_SIZE in
      int (length b) = LINUX_SUPERBLOCK_SIZE \<and> fs = super_at b \<and> s_magic fs = EXT4_SUPER_MAGIC \<and> EXT4_BLOCK_SIZE fs = Some bs \<and>
      s_incompat fs AND INCOMPAT_64BIT = 0)"

definition ngroups :: "ext_super \<Rightarrow> nat" where
  "ngroups fs = nat ((s_blocks_count_lo fs - s_first_data_block fs + (s_blocks_per_group fs - 1)) div s_blocks_per_group fs)"

text \<open>The bit of a block in the bitmap of its group is clear.\<close>

definition block_free :: "izconfig \<Rightarrow> ext_super \<Rightarrow> int \<Rightarrow> int \<Rightarrow> int \<Rightarrow> bool" where
  "block_free cfg fs bs start B \<longleftrightarrow>
     (let k = B - s_first_data_block fs; g = nat (k div s_blocks_per_group fs) in
      s_first_data_block fs \<le> B \<and> B < s_blocks_count_lo fs \<and>
      \<not> isset (group_bitmap cfg bs start (group_desc cfg fs bs start g)) (nat (k mod s_blocks_per_group fs)))"

definition ext_free_sectors :: "izconfig \<Rightarrow> ext_super \<Rightarrow> int \<Rightarrow> int \<Rightarrow> int set" where
  "ext_free_sectors cfg fs bs start = (\<Union>B \<in> {B. block_free cfg fs bs start B}. {start + B * spb bs..<start + (B + 1) * spb bs})"

lemma group_of_block:
  assumes "0 < (p :: int)" and "0 \<le> int j" and "int j < p"
  shows "(int g * p + int j) div p = int g" and "(int g * p + int j) mod p = int j"
  using assms by (simp_all add: add.commute div_pos_pos_trivial)

lemma ngroups_facts:
  assumes "0 < s_blocks_per_group fs" and "s_first_data_block fs < s_blocks_count_lo fs"
  shows "g < ngroups fs \<longleftrightarrow> s_first_data_block fs + int g * s_blocks_per_group fs < s_blocks_count_lo fs"
    and "group_block fs (ngroups fs) = s_blocks_count_lo fs"
proof -
  let ?p = "s_blocks_per_group fs" and ?n = "s_blocks_count_lo fs - s_first_data_block fs"
  have n: "int (ngroups fs) = (?n + (?p - 1)) div ?p" using assms by (simp add: ngroups_def pos_imp_zdiv_nonneg_iff)
  have iff: "int g < (?n + (?p - 1)) div ?p \<longleftrightarrow> int g * ?p < ?n" for g
  proof -
    define d where "d = (?n + (?p - 1)) div ?p"
    have x: "d * ?p + (?n + (?p - 1)) mod ?p = ?n + (?p - 1)" by (simp add: d_def)
    have r: "0 \<le> (?n + (?p - 1)) mod ?p" "(?n + (?p - 1)) mod ?p < ?p" using assms(1) by simp_all
    have "int g * ?p < ?n" if "int g < d"
    proof -
      have "(int g + 1) * ?p \<le> d * ?p" using that assms(1) by (intro mult_right_mono) simp_all
      then have "int g * ?p + ?p \<le> d * ?p" by (simp add: algebra_simps)
      then show ?thesis using x r by linarith
    qed
    moreover have "\<not> int g * ?p < ?n" if "d \<le> int g"
    proof -
      have "d * ?p \<le> int g * ?p" using that assms(1) by (intro mult_right_mono) simp_all
      then show ?thesis using x r by linarith
    qed
    ultimately show ?thesis unfolding d_def [symmetric] by linarith
  qed
  show "g < ngroups fs \<longleftrightarrow> s_first_data_block fs + int g * ?p < s_blocks_count_lo fs" for g
    using iff [of g] n by linarith
  have "\<not> int (ngroups fs) < (?n + (?p - 1)) div ?p" using n by simp
  then have "\<not> int (ngroups fs) * ?p < ?n" using iff by blast
  then show "group_block fs (ngroups fs) = s_blocks_count_lo fs" by (simp add: group_block_def)
qed

lemma free_sectors_groups:
  assumes "ext_fits fs bs start sz"
  shows "(\<Union>g \<in> {0..<ngroups fs}. group_sectors cfg fs bs start g) = ext_free_sectors cfg fs bs start"
proof -
  let ?p = "s_blocks_per_group fs"
  have f: "0 < ?p" "s_first_data_block fs < s_blocks_count_lo fs" using assms by (simp_all add: ext_fits_def)
  have gb: "group_block fs g = s_first_data_block fs + int g * ?p" if "g < ngroups fs" for g
    using that ngroups_facts(1) [OF f] by (simp add: group_block_def)
  have inside: "j \<in> group_free fs p g \<longleftrightarrow> int j < ?p \<and> s_first_data_block fs + int g * ?p + int j < s_blocks_count_lo fs \<and> \<not> isset p j"
    if "g < ngroups fs" for g j p
  proof -
    have "int g * ?p + ?p = int (g + 1) * ?p" by (simp add: algebra_simps)
    then have "j < nat (group_block fs (g + 1) - group_block fs g) \<longleftrightarrow>
        int j < ?p \<and> s_first_data_block fs + int g * ?p + int j < s_blocks_count_lo fs"
      unfolding gb [OF that] unfolding group_block_def by (auto simp: min_def)
    then show ?thesis by (simp add: group_free_def)
  qed
  have sec: "group_sector fs bs start g + int j * spb bs = start + (s_first_data_block fs + int g * ?p + int j) * spb bs"
    if "g < ngroups fs" for g j
    using gb [OF that] by (simp add: group_sector_def algebra_simps)
  have "x \<in> ext_free_sectors cfg fs bs start" if g: "g < ngroups fs" and "x \<in> group_sectors cfg fs bs start g" for x g
  proof -
    obtain j where j: "j \<in> group_free fs (group_bitmap cfg bs start (group_desc cfg fs bs start g)) g"
      "x \<in> {group_sector fs bs start g + int j * spb bs..<group_sector fs bs start g + int (j + 1) * spb bs}"
      using \<open>x \<in> group_sectors cfg fs bs start g\<close> unfolding group_sectors_def unit_sectors_def by blast
    define B where "B = s_first_data_block fs + int g * ?p + int j"
    have "B - s_first_data_block fs = int g * ?p + int j" by (simp add: B_def)
    moreover have "0 \<le> int g * ?p" using f(1) by simp
    ultimately have "block_free cfg fs bs start B"
      using j(1) inside [OF g] group_of_block [OF f(1), of j g] unfolding block_free_def by (simp add: B_def)
    moreover have "x \<in> {start + B * spb bs..<start + (B + 1) * spb bs}"
      using j(2) sec [OF g, of j] sec [OF g, of "j + 1"] by (simp add: B_def algebra_simps)
    ultimately show ?thesis unfolding ext_free_sectors_def by blast
  qed
  moreover have "\<exists>g < ngroups fs. x \<in> group_sectors cfg fs bs start g" if "x \<in> ext_free_sectors cfg fs bs start" for x
  proof -
    obtain B where B: "block_free cfg fs bs start B" "x \<in> {start + B * spb bs..<start + (B + 1) * spb bs}"
      using \<open>x \<in> ext_free_sectors cfg fs bs start\<close> by (auto simp: ext_free_sectors_def)
    define k where "k = B - s_first_data_block fs"
    define g where "g = nat (k div ?p)"
    define j where "j = nat (k mod ?p)"
    have "0 \<le> k" using B(1) by (simp add: block_free_def Let_def k_def)
    then have gj: "int g = k div ?p" "int j = k mod ?p" "int j < ?p" using f(1) by (simp_all add: g_def j_def pos_imp_zdiv_nonneg_iff)
    then have k: "int g * ?p + int j = k" by (metis div_mult_mod_eq)
    have free: "B < s_blocks_count_lo fs" "\<not> isset (group_bitmap cfg bs start (group_desc cfg fs bs start g)) j"
      using B(1) by (simp_all add: block_free_def Let_def k_def g_def j_def)
    have BB: "B = s_first_data_block fs + int g * ?p + int j" using k by (simp add: k_def)
    then have g: "g < ngroups fs" using free(1) ngroups_facts(1) [OF f, of g] by simp
    have "j \<in> group_free fs (group_bitmap cfg bs start (group_desc cfg fs bs start g)) g"
      using inside [OF g] gj(3) free BB by simp
    moreover have "x \<in> {group_sector fs bs start g + int j * spb bs..<group_sector fs bs start g + int (j + 1) * spb bs}"
      using B(2) sec [OF g, of j] sec [OF g, of "j + 1"] BB by (simp add: algebra_simps)
    ultimately show ?thesis using g unfolding group_sectors_def unit_sectors_def by blast
  qed
  ultimately show ?thesis
    by (intro set_eqI) (metis UN_iff atLeastLessThan_iff le0)
qed

section \<open>Looking for LILO\<close>

text \<open>The relocations of LILO do not change the lists of ranges.\<close>

definition same_ranges :: "izlists \<Rightarrow> izlists \<Rightarrow> bool" where
  "same_ranges z z' \<longleftrightarrow> skips z' = skips z \<and> ranges z' = ranges z"

lemma same_ranges_refl: "same_ranges z z"
  and same_ranges_trans: "same_ranges z z1 \<Longrightarrow> same_ranges z1 z2 \<Longrightarrow> same_ranges z z2"
  and same_ranges_addfixup: "same_ranges z (addfixup a b n d t z)"
  by (simp_all add: same_ranges_def addfixup_def addfixupentry_def)

lemma same_ranges_map:
  assumes "fixup_map cfg start sz s z = Some z'"
  shows "same_ranges z z'"
proof (rule fixup_map.raw_induct [OF _ assms, of "\<lambda>cfg start sz s z z'. same_ranges z z'"])
  fix f and cfg :: izconfig and start sz :: int and s :: "32 word" and z z'
  assume IH: "\<And>cfg start sz s z z'. f cfg start sz s z = Some z' \<Longrightarrow> same_ranges z z'"
    and eq: "(if s = 0 then Some z
      else Option.bind (readatsector cfg start sz (uint s) 512) (\<lambda>r.
        case r of None \<Rightarrow> None
        | Some mapsect \<Rightarrow>
            let boff = sectobytes start;
                poff = to_u32 (sectobytes (to_u32 (uint s - start)));
                (m, addr) = map_addrs start 0 (MAX_MAP_SECT + 1) 0 mapsect in
            f cfg start sz addr (addfixup (boff + poff) boff 512 m RELOC_LILOMAPSECT z))) = Some z'"
  show "same_ranges z z'"
  proof (cases "s = 0")
    case True
    then show ?thesis using eq same_ranges_refl by simp
  next
    case False
    then show ?thesis using eq
      by (auto simp: Let_def simp del: map_addrs.simps split: Option.bind_splits option.splits prod.splits dest!: IH
          intro: same_ranges_trans [OF same_ranges_addfixup])
  qed
qed

lemma same_ranges_field: "fixup_field start sz poff b off z = Some z' \<Longrightarrow> same_ranges z z'"
  by (auto simp: fixup_field_def fixup_sector_def c_assert_def Let_def same_ranges_refl intro: same_ranges_addfixup
      split: if_splits Option.bind_splits)

lemma same_ranges_fields: "fixup_fields start sz poff b offs z = Some z' \<Longrightarrow> same_ranges z z'"
  by (induction offs arbitrary: z)
    (auto simp: same_ranges_refl split: Option.bind_splits dest!: same_ranges_field intro: same_ranges_trans)

lemma same_ranges_image:
  assumes "fixup_image cfg start sz poff dtab i z = Some z'"
  shows "same_ranges z z'"
proof -
  obtain z1 where z1: "same_ranges z z1"
    "(do { z2 \<leftarrow> fixup_field start sz poff dtab (idtab_image i + image_start) z1;
       if \<exists>a \<in> set [0..<i]. image_sector dtab a image_start = image_sector dtab i image_start then Some z2
       else fixup_map cfg start sz (image_sector dtab i image_start) z2 }) = Some z'"
    using assms unfolding fixup_image_def Let_def
    by (fastforce simp: same_ranges_refl split: if_splits Option.bind_splits dest: same_ranges_map same_ranges_field intro: same_ranges_trans)
  then obtain z2 where "fixup_field start sz poff dtab (idtab_image i + image_start) z1 = Some z2" "same_ranges z2 z'"
    by (fastforce simp: same_ranges_refl split: if_splits Option.bind_splits dest: same_ranges_map)
  then show ?thesis using z1(1) by (blast intro: same_ranges_trans dest: same_ranges_field)
qed

lemma same_ranges_images: "fixup_images cfg start sz poff dtab i n z = Some z' \<Longrightarrow> same_ranges z z'"
  by (induction n arbitrary: i z)
    (auto simp: same_ranges_refl split: if_splits Option.bind_splits dest!: same_ranges_image intro: same_ranges_trans)

lemma same_ranges_lilo: "fixup_lilo cfg start sz z = Some (r, found, z') \<Longrightarrow> same_ranges z z'"
  unfolding fixup_lilo_def Let_def
  by (auto simp: same_ranges_refl split: if_splits Option.bind_splits option.splits
      dest!: same_ranges_fields same_ranges_images intro: same_ranges_trans [OF same_ranges_trans [OF _ _] same_ranges_addfixup])

section \<open>The slice\<close>

lemma numgroups_eq:
  assumes "ext_fits fs bs start sz"
  shows "nat (to_i32 (to_u32 (to_u32 (s_blocks_count_lo fs - s_first_data_block fs) + (s_blocks_per_group fs - 1)) div s_blocks_per_group fs)) = ngroups fs"
proof -
  let ?p = "s_blocks_per_group fs" and ?n = "s_blocks_count_lo fs - s_first_data_block fs"
  have f: "0 < ?p" "0 < ?n" "?p \<le> 524288" "0 \<le> s_first_data_block fs"
    using assms by (simp_all add: ext_fits_def EXT4_MAX_BLOCK_SIZE_def)
  have c: "?n < 2 ^ 31" using count_small [OF assms] f(4) by simp
  have "to_u32 ?n = ?n" by (rule to_u32_id) (use f c in simp_all)
  moreover have "to_u32 (?n + (?p - 1)) = ?n + (?p - 1)" by (rule to_u32_id) (use f c in simp_all)
  moreover have "(?n + (?p - 1)) div ?p \<le> ?n"
  proof -
    have "0 \<le> (?n - 1) * (?p - 1)" using f by simp
    then have "?n + (?p - 1) \<le> ?n * ?p" by (simp add: algebra_simps)
    then have "(?n + (?p - 1)) div ?p \<le> ?n * ?p div ?p" using f(1) by (rule zdiv_mono1)
    then show ?thesis using f(1) by simp
  qed
  moreover have "0 \<le> (?n + (?p - 1)) div ?p" using f by (simp add: pos_imp_zdiv_nonneg_iff)
  ultimately show ?thesis unfolding ngroups_def using c by (subst to_i32_id) simp_all
qed

lemma fssect_eq:
  assumes "ext_fits fs bs start sz"
  shows "bytestosec (bs * s_blocks_count_lo fs) = s_blocks_count_lo fs * spb bs"
proof -
  have f: "bs = spb bs * secsize" "0 \<le> s_blocks_count_lo fs" "2 \<le> spb bs" "0 \<le> start" "s_blocks_count_lo fs * spb bs \<le> sz" "start + sz < 2 ^ 32"
    using assms by (simp_all add: ext_fits_def)
  have "bs * s_blocks_count_lo fs = s_blocks_count_lo fs * spb bs * secsize" by (subst f(1)) simp
  then have "bs * s_blocks_count_lo fs div secsize = s_blocks_count_lo fs * spb bs"
    by (metis nonzero_mult_div_cancel_right secsize_def zero_neq_numeral)
  moreover have "to_u32 (s_blocks_count_lo fs * spb bs) = s_blocks_count_lo fs * spb bs" by (rule to_u32_id) (use f in simp_all)
  ultimately show ?thesis by (simp add: bytestosec_def)
qed

definition ext_tail :: "ext_super \<Rightarrow> int \<Rightarrow> int \<Rightarrow> int \<Rightarrow> bool \<Rightarrow> int set" where
  "ext_tail fs bs start sz excludenonfs = (if excludenonfs then {start + s_blocks_count_lo fs * spb bs..<start + sz} else {})"

definition tail_skipped :: "ext_super \<Rightarrow> int \<Rightarrow> int \<Rightarrow> int \<Rightarrow> bool \<Rightarrow> izlists \<Rightarrow> izlists" where
  "tail_skipped fs bs start sz excludenonfs z =
     (if excludenonfs \<and> s_blocks_count_lo fs * spb bs < sz
      then addskip (to_u32 (start + s_blocks_count_lo fs * spb bs)) (sz - s_blocks_count_lo fs * spb bs) z else z)"

lemma tail_freed:
  assumes "ext_fits fs bs start sz"
  shows "freed (start + s_blocks_count_lo fs * spb bs) (start + sz) (ext_tail fs bs start sz excludenonfs) z
    (tail_skipped fs bs start sz excludenonfs z)"
proof (cases "excludenonfs \<and> s_blocks_count_lo fs * spb bs < sz")
  case True
  have f: "0 \<le> s_blocks_count_lo fs" "2 \<le> spb bs" "0 \<le> start" "s_blocks_count_lo fs * spb bs \<le> sz" "start + sz < 2 ^ 32"
    using assms by (simp_all add: ext_fits_def)
  have "0 \<le> s_blocks_count_lo fs * spb bs" using f by simp
  then have "to_u32 (start + s_blocks_count_lo fs * spb bs) = start + s_blocks_count_lo fs * spb bs"
    by (intro to_u32_id) (use f in linarith)+
  then show ?thesis using freed_skip [of "sz - s_blocks_count_lo fs * spb bs" "start + s_blocks_count_lo fs * spb bs" z] True
    by (simp add: ext_tail_def tail_skipped_def)
next
  case False
  have "ext_tail fs bs start sz excludenonfs = {}" using False by (simp add: ext_tail_def)
  moreover have "tail_skipped fs bs start sz excludenonfs z = z" using False unfolding tail_skipped_def by (rule if_not_P)
  ultimately show ?thesis using freed_none by simp
qed

lemma groups_freed:
  assumes "ext_fits fs bs start sz" and "\<forall>g < ngroups fs. group_ready cfg fs bs start g"
  shows "\<exists>z'. group_loop cfg fs bs start 0 (ngroups fs) (sectobytes start + to_u32 ((s_first_data_block fs + 1) * bs)) [] z = Some (0, z') \<and>
    freed start (start + s_blocks_count_lo fs * spb bs) (ext_free_sectors cfg fs bs start) z z'"
proof -
  have f: "0 < s_blocks_per_group fs" "s_first_data_block fs < s_blocks_count_lo fs" "32 \<le> nat bs"
  proof -
    have "bs = spb bs * secsize" "2 \<le> spb bs" using assms(1) by (simp_all add: ext_fits_def)
    then show "32 \<le> nat bs" by (simp add: secsize_def)
  qed (use assms(1) in \<open>simp_all add: ext_fits_def\<close>)
  have D: "0 < EXT4_DESC_PER_BLOCK bs" using f(3) by (simp add: EXT4_DESC_PER_BLOCK_def EXT4_MIN_DESC_SIZE_def div_greater_zero_iff)
  have all: "\<forall>g. 0 \<le> g \<and> g < 0 + ngroups fs \<longrightarrow>
      s_first_data_block fs + int g * s_blocks_per_group fs < s_blocks_count_lo fs \<and> group_ready cfg fs bs start g"
    using assms(2) ngroups_facts(1) [OF f(1,2)] by simp
  have soff: "sectobytes start + to_u32 ((s_first_data_block fs + 1) * bs) = sectobytes start + to_u32 ((s_first_data_block fs + 1) * bs) +
      int ((0 + EXT4_DESC_PER_BLOCK bs - 1) div EXT4_DESC_PER_BLOCK bs) * bs"
    using D by simp
  obtain z' where z': "group_loop cfg fs bs start 0 (ngroups fs) (sectobytes start + to_u32 ((s_first_data_block fs + 1) * bs)) [] z = Some (0, z')"
    "freed (group_sector fs bs start 0) (group_sector fs bs start (ngroups fs)) (ext_free_sectors cfg fs bs start) z z'"
    using group_loop_spec [OF assms(1) all soff, of "[]" z] free_sectors_groups [OF assms(1), of cfg] by auto
  have "start \<le> group_sector fs bs start 0" using assms(1) f(2) by (simp add: group_sector_def group_block_def ext_fits_def)
  then show ?thesis using z' ngroups_facts(2) [OF f(1,2)] by (auto simp: group_sector_def intro: freed_mono)
qed

lemma linuxslice_scanned:
  assumes "ext_super_ok cfg start fs bs" and "ext_fits fs bs start sz" and "\<forall>g < ngroups fs. group_ready cfg fs bs start g"
    and "(if dorelocs \<and> (start > 0 \<or> forcerelocs) then fixup_lilo cfg start sz z else Some (0, None, z)) = Some (0, found, z1)"
  shows "\<exists>z'. read_linuxslice cfg dorelocs forcerelocs excludenonfs start sz z = Some (0, z') \<and>
    freed start (start + sz) (ext_tail fs bs start sz excludenonfs \<union> ext_free_sectors cfg fs bs start) z1 z'"
proof -
  let ?soff = "sectobytes start + to_u32 ((s_first_data_block fs + 1) * bs)"
  have f: "bs = spb bs * secsize" "2 \<le> spb bs" "bs \<le> EXT4_MAX_BLOCK_SIZE" "0 < s_blocks_per_group fs" "s_blocks_count_lo fs * spb bs \<le> sz"
    "0 \<le> s_blocks_count_lo fs" using assms(2) by (simp_all add: ext_fits_def)
  have bs: "\<not> bs < EXT4_MIN_BLOCK_SIZE" "\<not> bs > EXT4_MAX_BLOCK_SIZE" using f(1-3) by (simp_all add: secsize_def EXT4_MIN_BLOCK_SIZE_def)
  define b where "b = devread cfg (sectobytes start + LINUX_SUPERBLOCK_OFFSET) LINUX_SUPERBLOCK_SIZE"
  have s: "int (length b) = LINUX_SUPERBLOCK_SIZE" "fs = super_at b" "s_magic fs = EXT4_SUPER_MAGIC" "EXT4_BLOCK_SIZE fs = Some bs"
    "s_incompat fs AND INCOMPAT_64BIT = 0" using assms(1) unfolding ext_super_ok_def Let_def b_def [symmetric] by blast+
  obtain z' where z': "group_loop cfg fs bs start 0 (ngroups fs) ?soff [] (tail_skipped fs bs start sz excludenonfs z1) = Some (0, z')"
    "freed start (start + s_blocks_count_lo fs * spb bs) (ext_free_sectors cfg fs bs start) (tail_skipped fs bs start sz excludenonfs z1) z'"
    using groups_freed [OF assms(2,3)] by blast
  have "read_linuxslice cfg dorelocs forcerelocs excludenonfs start sz z = Some (0, z')"
    unfolding read_linuxslice_def assms(4) using z'(1) bs s(1,3-5) f(4)
    by (simp add: b_def [symmetric] s(2) [symmetric] Let_def fssect_eq [OF assms(2)] numgroups_eq [OF assms(2)] tail_skipped_def)
  moreover have "0 \<le> s_blocks_count_lo fs * spb bs" using f by simp
  then have "freed start (start + sz) (ext_tail fs bs start sz excludenonfs \<union> ext_free_sectors cfg fs bs start) z1 z'"
    by (intro freed_join [OF tail_freed [OF assms(2)] z'(2)]) (use f(5) in linarith)+
  ultimately show ?thesis by blast
qed

section \<open>Properties\<close>

text \<open>
  C23. Which sectors of a slice with a Linux file system imagezip saves. When the superblock is right, the file system lies in the
  slice, and for every group the descriptor and the bitmap can be read, the scan does not fail, and what is saved of the disk is
  every sector between the limits that does not lie in a large run of sectors of free blocks, where a block is free when its
  bit in the bitmap of its group is clear. When space behind the file system is to be left out, it counts as free too.
\<close>

theorem ext_slice_saved:
  assumes "ext_super_ok cfg start fs bs" and "ext_fits fs bs start sz" and "\<forall>g < ngroups fs. group_ready cfg fs bs start g"
    and "dorelocs \<and> (start > 0 \<or> forcerelocs) \<longrightarrow> (\<exists>found z1. fixup_lilo cfg start sz z = Some (0, found, z1))"
    and "skips z = []" and "ranges z = []" and "0 \<le> minsec" and "minsec \<le> start" and "start + sz \<le> maxsec" and "maxsec < 2 ^ 32"
    and "0 \<le> frangesize" and "frangesize < 2 ^ 31"
  shows "\<exists>z' n z1 z2. read_linuxslice cfg dorelocs forcerelocs excludenonfs start sz z = Some (0, z') \<and>
    mergeskips frangesize zerofrange z' = Some (n, z1) \<and> makeranges minsec maxsec z1 = Some z2 \<and>
    sects (ranges z2) = {minsec..<maxsec} - big_free frangesize (ext_tail fs bs start sz excludenonfs \<union> ext_free_sectors cfg fs bs start)"
proof -
  obtain found z0 where z0: "(if dorelocs \<and> (start > 0 \<or> forcerelocs) then fixup_lilo cfg start sz z else Some (0, None, z)) = Some (0, found, z0)"
    using assms(4) by (cases "dorelocs \<and> (start > 0 \<or> forcerelocs)") auto
  have "same_ranges z z0" using z0 by (auto simp: same_ranges_refl split: if_splits dest: same_ranges_lilo)
  then have s: "skips z0 = []" "ranges z0 = []" using assms(5,6) by (simp_all add: same_ranges_def)
  obtain z' where z': "read_linuxslice cfg dorelocs forcerelocs excludenonfs start sz z = Some (0, z')"
    "freed start (start + sz) (ext_tail fs bs start sz excludenonfs \<union> ext_free_sectors cfg fs bs start) z0 z'"
    using linuxslice_scanned [OF assms(1-3) z0] by blast
  have f: "0 < s_blocks_count_lo fs" "2 \<le> spb bs" "s_blocks_count_lo fs * spb bs \<le> sz" using assms(2) by (simp_all add: ext_fits_def)
  then have "0 < s_blocks_count_lo fs * spb bs" by simp
  then have "minsec \<le> maxsec" "0 < maxsec" using assms(7-9) f(3) by linarith+
  from freed_saved [OF z'(2) s assms(8,9,7) this assms(10-12), of zerofrange] show ?thesis using z'(1) by blast
qed

text \<open>
  A small disk: an empty sector and a slice of twenty, with a file system of eight blocks of 1 KB of which blocks 5 and 6 are free.
\<close>

definition ext_super_bytes :: "byte list" where
  "ext_super_bytes = (replicate 1024 0)[4 := 8, 20 := 1, 33 := 0x20, 56 := 0x53, 57 := 0xEF]"

definition ext_desc_bytes :: "byte list" where "ext_desc_bytes = (replicate 1024 0)[0 := 3]"
definition ext_bitmap_bytes :: "byte list" where "ext_bitmap_bytes = 0x4f # replicate 1023 0xff"

definition ext_disk_example :: izconfig where
  "ext_disk_example = \<lparr>disk = replicate 1536 0 @ ext_super_bytes @ ext_desc_bytes @ ext_bitmap_bytes @ replicate 6144 0, incanseek = True,
     filemode = False, inputminsec = 0, inputmaxsec = 21\<rparr>"

definition ext_super_example :: ext_super where
  "ext_super_example = \<lparr>s_blocks_count_lo = 8, s_first_data_block = 1, s_log_block_size = 0, s_blocks_per_group = 8192,
     s_magic = EXT4_SUPER_MAGIC, s_incompat = 0\<rparr>"

lemma ext_bytes_length [simp]: "length ext_super_bytes = 1024" "length ext_desc_bytes = 1024" "length ext_bitmap_bytes = 1024"
  by (simp_all add: ext_super_bytes_def ext_desc_bytes_def ext_bitmap_bytes_def)

lemma ext_example_reads:
  "devread ext_disk_example 1536 1024 = ext_super_bytes" "devread ext_disk_example 2560 1024 = ext_desc_bytes"
  "devread ext_disk_example 3584 1024 = ext_bitmap_bytes" "devread ext_disk_example 512 512 = replicate 512 0"
  by (simp_all add: devread_def ext_disk_example_def)

lemma ext_example_super: "ext_super_ok ext_disk_example 1 ext_super_example 1024"
  by (simp add: ext_super_ok_def LINUX_SUPERBLOCK_OFFSET_def LINUX_SUPERBLOCK_SIZE_def sectobytes_def secsize_def ext_example_reads)
    (simp add: ext_super_bytes_def super_at_def ext_super_example_def get32_def get16_def EXT4_SUPER_MAGIC_def EXT4_BLOCK_SIZE_def EXT4_MIN_BLOCK_SIZE_def to_i32_def)

lemma ext_example_desc:
  "desc_block ext_disk_example ext_super_example 1024 1 0 = ext_desc_bytes"
  "group_desc ext_disk_example ext_super_example 1024 1 0 = \<lparr>bg_block_bitmap_lo = 3, bg_free_blocks_count_lo = 0, bg_flags = 0\<rparr>"
proof -
  show d: "desc_block ext_disk_example ext_super_example 1024 1 0 = ext_desc_bytes"
    by (simp add: desc_block_def sectobytes_def secsize_def ext_super_example_def to_u32_def ext_example_reads)
  show "group_desc ext_disk_example ext_super_example 1024 1 0 = \<lparr>bg_block_bitmap_lo = 3, bg_free_blocks_count_lo = 0, bg_flags = 0\<rparr>"
    by (simp add: group_desc_def d) (simp add: group_at_def ext_desc_bytes_def get32_def get16_def)
qed

lemma ext_example_bitmap: "group_bitmap ext_disk_example 1024 1 (group_desc ext_disk_example ext_super_example 1024 1 0) = ext_bitmap_bytes"
  by (simp add: ext_example_desc group_bitmap_def sectobytes_def secsize_def ext_example_reads)

lemma ext_example_free: "ext_free_sectors ext_disk_example ext_super_example 1024 1 = {11..<15}"
proof -
  have isset: "\<not> isset ext_bitmap_bytes (nat (B - 1)) \<longleftrightarrow> B = 5 \<or> B = 6" if "1 \<le> B" "B < 8" for B :: int
  proof -
    have "B = 1 \<or> B = 2 \<or> B = 3 \<or> B = 4 \<or> B = 5 \<or> B = 6 \<or> B = 7" using that by auto
    then show ?thesis by (auto simp: isset_def ext_bitmap_bytes_def)
  qed
  have "block_free ext_disk_example ext_super_example 1024 1 B \<longleftrightarrow> B = 5 \<or> B = 6" for B
    using isset [of B] by (cases "1 \<le> B \<and> B < 8") (auto simp: block_free_def Let_def ext_super_example_def ext_example_bitmap [unfolded ext_super_example_def])
  then have "{B. block_free ext_disk_example ext_super_example 1024 1 B} = {5, 6}" by auto
  then show ?thesis by (auto simp: ext_free_sectors_def spb_def secsize_def)
qed

theorem ext_slice_saved_witness:
  "\<exists>z' n z1 z2. read_linuxslice ext_disk_example True False True 1 20 izlists_init = Some (0, z') \<and> mergeskips 4 False z' = Some (n, z1) \<and>
    makeranges 0 21 z1 = Some z2 \<and> sects (ranges z2) = {0..<21} - big_free 4 ({17..<21} \<union> {11..<15})"
proof -
  have fits: "ext_fits ext_super_example 1024 1 20"
    by (simp add: ext_fits_def ext_super_example_def spb_def secsize_def EXT4_MAX_BLOCK_SIZE_def)
  have n: "ngroups ext_super_example = 1" by (simp add: ngroups_def ext_super_example_def)
  have ready: "\<forall>g < ngroups ext_super_example. group_ready ext_disk_example ext_super_example 1024 1 g"
    unfolding n by (simp add: group_ready_def Let_def ext_example_desc ext_example_bitmap [unfolded ext_example_desc])
      (simp add: bitmap_in_range_def ext_super_example_def)
  have lilo: "fixup_lilo ext_disk_example 1 20 izlists_init = Some (0, Some False, izlists_init)"
  proof -
    have "devread ext_disk_example (sectobytes 1) 512 = replicate 512 0" by (simp add: sectobytes_def secsize_def ext_example_reads)
    moreover have "take 4 (drop 6 (replicate 512 0)) \<noteq> lilo_sig"
    proof -
      have "lilo_sig ! 0 \<noteq> 0" by (simp add: lilo_sig_def)
      moreover have "take 4 (drop 6 (replicate 512 0)) ! 0 = (0 :: byte)" by simp
      ultimately show ?thesis by metis
    qed
    ultimately show ?thesis by (simp add: fixup_lilo_def del: drop_replicate take_replicate)
  qed
  have tail: "ext_tail ext_super_example 1024 1 20 True = {17..<21}"
    by (simp add: ext_tail_def ext_super_example_def spb_def secsize_def)
  have "skips izlists_init = []" "ranges izlists_init = []" by (simp_all add: izlists_init_def)
  from ext_slice_saved [OF ext_example_super fits ready _ this, of True False 0 21 4 True False] show ?thesis
    using lilo tail ext_example_free by simp
qed

text \<open>
  C26. Groups without a bitmap. The code takes all blocks of a group whose bitmap is not initialized as free, but the group may hold a copy of
  the superblock and the group descriptors: then the free count of its descriptor is smaller than the number of its blocks, and the
  code reports as many blocks from the start of the group on. The first of them are the metadata, and as many free ones at its end are saved.
\<close>

theorem uninit_group_metadata:
  assumes "ext_fits fs bs start sz" and "s_first_data_block fs + int g * s_blocks_per_group fs < s_blocks_count_lo fs"
    and "bitmap_in_range fs g d" and "bg_flags d AND EXT4_BG_BLOCK_UNINIT \<noteq> 0"
    and "0 < m" and "m < group_block fs (g + 1) - group_block fs g" and "bg_free_blocks_count_lo d = group_block fs (g + 1) - group_block fs g - m"
  shows "\<exists>n. read_ext4group cfg fs bs d (int g) start z = Some (0, addskip (group_sector fs bs start g) n z) \<and>
    {group_sector fs bs start g..<group_sector fs bs start g + n} = {group_sector fs bs start g..<group_sector fs bs start (g + 1) - m * spb bs} \<and>
    group_sector fs bs start g \<in> {group_sector fs bs start g..<group_sector fs bs start g + n} \<and>
    group_sector fs bs start (g + 1) - 1 \<notin> {group_sector fs bs start g..<group_sector fs bs start g + n}"
proof -
  note gb = group_base [OF assms(1,2)]
  have f: "2 \<le> spb bs" "0 \<le> start" "start + sz < 2 ^ 32" using assms(1) by (simp_all add: ext_fits_def)
  define c where "c = bg_free_blocks_count_lo d"
  have c: "0 < c" "c + m = group_block fs (g + 1) - group_block fs g" using assms(6,7) by (simp_all add: c_def)
  have cs: "(c + m) * spb bs = group_sector fs bs start (g + 1) - group_sector fs bs start g"
    by (simp add: c(2) group_sector_def algebra_simps)
  then have sec: "group_sector fs bs start g + c * spb bs = group_sector fs bs start (g + 1) - m * spb bs" by (simp add: algebra_simps)
  have pos: "0 < c * spb bs" "0 < m * spb bs" using c(1) assms(5) f(1) by simp_all
  have n: "LINUX_FSBTODB bs c = c * spb bs"
    unfolding LINUX_FSBTODB_def spb_def [symmetric] mult.commute [of "spb bs"]
    by (rule to_u32_id) (use sec pos gb(5,6) f in linarith)+
  have rng: "\<not> (s_incompat fs AND INCOMPAT_FLEX_BG = 0 \<and> (bg_block_bitmap_lo d < group_block fs g \<or>
      bg_block_bitmap_lo d \<ge> group_block fs g + s_blocks_per_group fs))"
    using assms(3) unfolding gb(1) bitmap_in_range_def by auto
  have "read_ext4group cfg fs bs d (int g) start z = Some (0, addskip (group_sector fs bs start g) (c * spb bs) z)"
    using assms(4) rng unfolding read_ext4group_def Let_def gb(2) gb(3) c_def [symmetric] n by simp
  then show ?thesis using sec pos by (intro exI [of _ "c * spb bs"]) auto
qed

theorem uninit_group_metadata_witness:
  "\<exists>n. read_ext4group ext_disk_example (ext_super_example\<lparr>s_blocks_count_lo := 10000\<rparr>) 1024
      \<lparr>bg_block_bitmap_lo = 8196, bg_free_blocks_count_lo = 1800, bg_flags = EXT4_BG_BLOCK_UNINIT\<rparr> 1 63 izlists_init =
    Some (0, addskip 16449 n izlists_init) \<and> {16449..<16449 + n} = {16449..<(20049 :: int)}"
proof -
  let ?fs = "ext_super_example\<lparr>s_blocks_count_lo := 10000\<rparr>"
  let ?d = "\<lparr>bg_block_bitmap_lo = 8196, bg_free_blocks_count_lo = 1800, bg_flags = EXT4_BG_BLOCK_UNINIT\<rparr>"
  have fits: "ext_fits ?fs 1024 63 20000"
    by (simp add: ext_fits_def ext_super_example_def spb_def secsize_def EXT4_MAX_BLOCK_SIZE_def)
  have sec: "group_block ?fs 1 = 8193" "group_block ?fs 2 = 10000" "group_sector ?fs 1024 63 1 = 16449" "group_sector ?fs 1024 63 2 = 20063"
    by (simp_all add: group_sector_def group_block_def ext_super_example_def spb_def secsize_def)
  show ?thesis
    using uninit_group_metadata [OF fits, of 1 ?d 7 ext_disk_example izlists_init] sec
    by (auto simp: bitmap_in_range_def EXT4_BG_BLOCK_UNINIT_def ext_super_example_def spb_def secsize_def numeral_2_eq_2)
qed

end
