(* ===== verification/Spec2Isabelle.thy ===== *)
theory Spec2Isabelle
  imports Deploy EventQueue RangeMap Barrier ExtScan
begin

text \<open>
  Emulab loads disk images onto many nodes at a time. \<^bold>\<open>imagezip\<close> saves the used sectors of a disk in chunks of one
  megabyte, \<^bold>\<open>frisbeed\<close> sends the blocks of an image by multicast to clients that ask for what they lack, the client
  \<^bold>\<open>frisbee\<close> collects chunks and hands the complete ones to \<^bold>\<open>imageunzip\<close>, which writes them to the
  target disk. Around this are the range maps of the newer image tools (\<^bold>\<open>libndz\<close>), the priority queue of the
  \<^bold>\<open>event scheduler\<close> that starts the events of an experiment, and the \<^bold>\<open>barrier daemon\<close> at which programs on the
  nodes wait for each other. The theories model this code function by function and prove it correct, each part for itself
  and the image path from disk to disk.

  All paths are under \<^verbatim>\<open>src/\<close>; frisbee is \<^verbatim>\<open>clientside/os/frisbee.redux\<close> and the image tools are
  \<^verbatim>\<open>clientside/os/imagezip\<close>.

  \<^bold>\<open>Conventions.\<close> Definitions keep the names of the C functions; loops are functions of their own (\<open>lookup_loop\<close>,
  \<open>join_scan\<close>), or are named after what they do. A C \<^verbatim>\<open>int\<close> is an \<^typ>\<open>int\<close> that is cut with \<open>to_i32\<close>,
  \<open>to_u32\<close> where the code stores a wider value; bytes and checksums are words. A result of type \<open>option\<close> is
  \<^const>\<open>None\<close> where an \<^verbatim>\<open>assert\<close> fails (\<open>c_assert\<close>) or memory outside an array would be touched, so
  that a result \<open>Some\<close> also says that no assertion fails and no array is left. What the operating system,
  the network or other threads decide (results of \<^verbatim>\<open>recvfrom\<close>, \<^verbatim>\<open>pread\<close>, \<^verbatim>\<open>select\<close>, readings of the
  clock, the choice of random numbers) is an argument or an outcome that a step may choose freely. A mutex
  is not modelled; what runs under it is one step.

  \<^bold>\<open>The theories.\<close>

  \<^descr> \<open>Prelude\<close>: C integers, assertions, lemmas on lists; the relation \<open>reach\<close> of states that are reached from a
  start, and the interfaces \<open>invariant_system\<close> and \<open>job_queue\<close>. These and the interfaces \<open>block_set\<close>,
  \<open>ordered_queue\<close> and \<open>address_set\<close> are interpreted where their operations are defined.

  \<^descr> \<open>BlockMap\<close> (frisbee \<^verbatim>\<open>utils.c\<close>, \<^verbatim>\<open>decls.h\<close>): the bitmaps of blocks, byte by byte. A map of 128 bytes stands for
  the set of its blocks; every routine is shown to be an operation on sets, on all arguments it accepts.

  \<^descr> \<open>Sizes\<close> (\<^verbatim>\<open>utils.c\<close>): the cut of an image into chunks of 1024 blocks of 1024 bytes, with the short last
  ones. \<open>Timeval\<close> (\<^verbatim>\<open>utils.h\<close>, \<^verbatim>\<open>utils.c\<close>): time arithmetic and the rounding of sleeps.

  \<^descr> \<open>Packet\<close> (\<^verbatim>\<open>decls.h\<close>, \<^verbatim>\<open>network.c\<close>): the packets, and which of them the checks let through.

  \<^descr> \<open>WorkQueue\<close>, \<open>Server\<close>, \<open>Sender\<close> (\<^verbatim>\<open>server.c\<close>): the queue of requested blocks; the table of clients
  and the receive thread; the sending thread with its pacing. The state of the server is the record \<open>server\<close>
  (queue, client table, statistics per chunk) and of the sender \<open>sender\<close>, which adds the packets that were sent.
  The queue is a \<open>job_queue\<close>: taking jobs until it is empty covers exactly the requested blocks.

  \<^descr> \<open>Client\<close>, \<open>ClientReq\<close>, \<open>ClientInv\<close>, \<open>Download\<close>, \<open>ClientMain\<close> (\<^verbatim>\<open>client.c\<close>): both threads of the
  client over its chunk descriptors, chunk buffers and request list (record \<open>client\<close>), their invariant, and what they
  achieve; the limits set by options and the join. \<open>ChunkCache\<close> is the abstract client, a cache in
  which every chunk is in one place, and the client refines it turn by turn.

  \<^descr> \<open>System\<close>, \<open>Progress\<close>: a server and a client on a network that loses, repeats, reorders and delays packets, with
  other hosts that send what passes the checks. Safety (what is written is the image) and liveness (a download can always
  be finished, whatever has happened so far).

  \<^descr> \<open>ImageRanges\<close>, \<open>ImageZip\<close> (\<^verbatim>\<open>imagezip.c\<close>): the lists of free and saved ranges, fixups and relocations; the
  compression of the saved ranges into chunks. \<open>Relocs\<close> (\<^verbatim>\<open>extfs/lilo.h\<close>, \<^verbatim>\<open>extfs/reloc_lilo.c\<close>, \<^verbatim>\<open>ffs/ffs.c\<close>,
  \<^verbatim>\<open>ffs/disklabel.h\<close>, \<^verbatim>\<open>imageunzip.c\<close>): sector numbers inside LILO blocks and BSD labels.

  \<^descr> \<open>FatScan\<close> (\<^verbatim>\<open>fat/fat_boot.c\<close>, \<^verbatim>\<open>fat/fat_fat.c\<close>, \<^verbatim>\<open>fat/fat_glue.c\<close>), \<open>ExtScan\<close>
  (\<^verbatim>\<open>extfs/extfs.c\<close>): how imagezip finds the free sectors of a slice with a FAT or a Linux file system, from the bytes of the disk. What
  a scanner does is \<open>freed lo hi S\<close>: it reports disjoint ranges between two limits that make up the set S, here the sectors of
  the free clusters or blocks. From there \<open>ImageRanges\<close> says which sectors are saved.

  \<^descr> \<open>ImageUnzip\<close>, \<open>ImageRestore\<close> (\<^verbatim>\<open>imageunzip.c\<close>): decompression, write requests, the writer thread; saving a disk
  and restoring its chunks in any order gives the saved sectors back. \<open>ChunkFormat\<close> (\<^verbatim>\<open>imagehdr.h\<close> and both
  programs): the bytes of a chunk. \<open>Deploy\<close> composes all of this: from the disk that is saved, through an image file, frisbeed,
  the network and the client, to the disk that is restored.

  \<^descr> \<open>RangeMap\<close> (\<^verbatim>\<open>libndz/rangemap.c\<close>), \<open>EventQueue\<close> (\<^verbatim>\<open>event/sched/queue.c\<close>), \<open>Barrier\<close>
  (\<^verbatim>\<open>clientside/os/syncd/emulab-syncd.c\<close>): a sorted list of ranges with a search hint, which refines a set of
  addresses; a binary heap with a timed wait, which refines a multiset of events; the barriers with their waiters, the
  table from sockets to barriers and the sockets under watch, which refine one independent specification per name.

  \<^bold>\<open>Properties.\<close> The text before a theorem gives its number and says what it means. The first seven are about the image
  path: C1 (a download is the image), C2 (from disk to disk), C3 (saving and restoring), C4 (the client alone), C5 (progress), C6
  and C7 (the format). C8 to C19 are about frisbee's parts, C20 to C26 about imagezip, file systems and relocations, C27 to C31
  about barriers, and the others about checks, limits, events and range maps. Some properties state what goes wrong: the
  client that aborts on a request for no blocks (C33), the barrier daemon that a datagram can stop (C30) or that forgets a
  master (C31), LILO addresses that are lost (C25), metadata of a file system that is not saved (C26).

  \<^bold>\<open>Bounds.\<close> The loops are structural recursions or have a measure (the bits of a byte, the distance to the end of a
  range, the height of the heap). Those whose end depends on zlib, on a callback, on the data or on the network (\<open>image_loop\<close>,
  \<open>inflate_loop\<close>, \<open>iterate_loop\<close>, \<open>bubble_sort\<close>, \<open>send_range\<close>) are partial functions for which not ending is
  \<^const>\<open>None\<close>, and the properties say that they return. The endless loops of \<open>PlayFrisbee\<close>, of the client's
  threads and of the barrier daemon are a function for one turn; their run is a relation (\<open>reach\<close>), a list of turns, or
  \<open>serve k\<close> for k turns, where C8 and C13 say how many are enough. Images have at most \<open>2\<^sup>3\<^sup>1 - 1024\<close> blocks, so that the counts
  of the code do not wrap; disks have sector numbers below \<open>2\<^sup>3\<^sup>2\<close>, as the format has; a barrier has at most 4096
  waiters, as its array has.

  \<^bold>\<open>Parameters.\<close> zlib is not part of the code. \<open>ImageZip\<close> and \<open>ImageUnzip\<close> take the operations of a compressor and a
  decompressor as arguments, with the laws of their documentation as hypotheses: a call reports how much it
  consumed and produced, what comes out of the one and goes into the other is the data, and it reports the end. A store that
  compresses nothing is shown to satisfy them, and the witnesses run on it.

  \<^bold>\<open>Not modelled.\<close> Of frisbee: sockets, multicast and the message exchange with the master server, the master server
  itself (processes, configuration and database queries through shell commands), uploads, tracing and logging, encrypted
  images, and the send rate in floating point. Of the image tools: reading the partition tables, the readers of FFS and NTFS file systems, to the
  theories a list of calls of \<open>addskip\<close>, chunk formats 1 to 3, encryption, checksums and signatures, the memory
  limit of the write buffers, and the tools for deltas and hashes. Of the event system: the agents and the event library, a layer
  over a message service. Of the barrier daemon: options, making its sockets, the listing and the loops over partial
  reads and writes. Of the rest of the repository: the node configuration daemon, whose logic is in database queries,
  the C++ programs \<^verbatim>\<open>assign\<close> and \<^verbatim>\<open>dijkstra\<close>, device and kernel code, and everything that is not C.
\<close>

end
